(* ===== verification/Prelude.thy ===== *)
theory Prelude
  imports Main "HOL-Library.Word"
begin

text \<open>
  Shared vocabulary of the development: the result type of the code's fallible
  functions, the collections of simplification rules the components fill, and the
  lemmas on words, folds and lists that several components use.
\<close>

unbundle bit_operations_syntax

section \<open>Results\<close>

text \<open>A fallible function of the code returns \<^verbatim>\<open>Result\<close>: the left side is the error.\<close>

type_synonym ('e, 'a) result = "'e + 'a"

definition res_bind :: "('e, 'a) result \<Rightarrow> ('a \<Rightarrow> ('e, 'b) result) \<Rightarrow> ('e, 'b) result" where
  "res_bind r f = (case r of Inl e \<Rightarrow> Inl e | Inr x \<Rightarrow> f x)"

lemma res_bind_Inl [simp]: "res_bind (Inl e) f = Inl e"
  by (simp add: res_bind_def)

lemma res_bind_Inr [simp]: "res_bind (Inr x) f = f x"
  by (simp add: res_bind_def)

lemma res_bind_eq_Inr: "res_bind r f = Inr y \<longleftrightarrow> (\<exists>x. r = Inr x \<and> f x = Inr y)"
  by (cases r) simp_all

section \<open>Collections\<close>

named_theorems xor_push "distribution of exclusive or over the word operations"
named_theorems field_eval "evaluation of field operations on numerals"

section \<open>Evaluation of index ranges\<close>

lemma upt_0_numeral [field_eval]: "[0..<numeral n] = 0 # [Suc 0..<numeral n]"
  by (rule upt_conv_Cons) simp

lemma upt_1_numeral [field_eval]:
  "[Suc 0..<numeral n] = (if Suc 0 < numeral n then Suc 0 # [2..<numeral n] else [])"
  by (subst upt_rec) (simp add: numeral_2_eq_2)

lemma replicate_numeral [field_eval]:
  "replicate (numeral k) x = x # replicate (pred_numeral k) x"
  by (simp add: numeral_eq_Suc)

lemma list_all_weak_cong: "xs = ys \<Longrightarrow> list_all P xs = list_all P ys"
  by simp

section \<open>Words\<close>

lemma ucast_xor [xor_push]:
  "(ucast (a XOR b) :: 'b::len word) = ucast a XOR ucast (b :: 'a::len word)"
  by (rule bit_word_eqI) (auto simp: bit_simps)

lemma push_bit_word_xor [xor_push]:
  "push_bit n (a XOR b) = push_bit n a XOR push_bit n (b :: 'a::len word)"
  by (rule bit_word_eqI) (auto simp: bit_simps)

lemma drop_bit_word_xor [xor_push]:
  "drop_bit n (a XOR b) = drop_bit n a XOR drop_bit n (b :: 'a::len word)"
  by (rule bit_word_eqI) (auto simp: bit_simps)

lemma ucast_push_bit_lt:
  "\<lbrakk>i < LENGTH('a); LENGTH('a) \<le> LENGTH('b)\<rbrakk>
   \<Longrightarrow> (ucast (push_bit i 1 :: 'a::len word) :: 'b::len word) = push_bit i 1"
  by (rule bit_word_eqI) (auto simp: bit_simps)

text \<open>The exclusive or of a family over an initial segment.\<close>

primrec xsum :: "(nat \<Rightarrow> 'a::len word) \<Rightarrow> nat \<Rightarrow> 'a word" where
  "xsum f 0 = 0"
| "xsum f (Suc n) = xsum f n XOR f n"

lemma xsum_xor: "xsum (\<lambda>i. f i XOR g i) n = xsum f n XOR xsum g n"
  by (induction n) (simp_all add: ac_simps)

lemma xsum_cong: "(\<And>i. i < n \<Longrightarrow> f i = g i) \<Longrightarrow> xsum f n = xsum g n"
  by (induction n) simp_all

lemma xsum_zero [simp]: "xsum (\<lambda>i. 0) n = 0"
  by (induction n) simp_all

lemma bit_xsum_monomials:
  "bit (xsum (\<lambda>i. if b i then push_bit i 1 else 0) n :: 'a::len word) j \<longleftrightarrow>
     j < n \<and> j < LENGTH('a) \<and> b j"
  by (induction n) (auto simp: bit_simps less_Suc_eq)

lemma xsum_monomials:
  "xsum (\<lambda>i. if bit a i then push_bit i 1 else 0) LENGTH('a) = (a :: 'a::len word)"
  by (rule bit_word_eqI) (simp add: bit_xsum_monomials)

text \<open>A map on words that distributes over exclusive or.\<close>

definition xor_linear :: "('a::len word \<Rightarrow> 'b::len word) \<Rightarrow> bool" where
  "xor_linear f \<longleftrightarrow> (\<forall>a b. f (a XOR b) = f a XOR f b)"

lemma xor_linearI: "(\<And>a b. f (a XOR b) = f a XOR f b) \<Longrightarrow> xor_linear f"
  by (simp add: xor_linear_def)

lemma xor_linear_xor: "xor_linear f \<Longrightarrow> f (a XOR b) = f a XOR f b"
  by (simp add: xor_linear_def)

lemma xor_linear_zero: "xor_linear f \<Longrightarrow> f 0 = 0"
  using xor_linear_xor [of f 0 0] by simp

lemma xor_linear_xsum: "xor_linear f \<Longrightarrow> f (xsum g n) = xsum (\<lambda>i. f (g i)) n"
  by (induction n) (simp_all add: xor_linear_zero xor_linear_xor)

lemma xor_linear_comp: "\<lbrakk>xor_linear f; xor_linear g\<rbrakk> \<Longrightarrow> xor_linear (\<lambda>a. f (g a))"
  by (simp add: xor_linear_def)

lemma xor_linear_plus: "\<lbrakk>xor_linear f; xor_linear g\<rbrakk> \<Longrightarrow> xor_linear (\<lambda>a. f a XOR g a)"
  by (simp add: xor_linear_def ac_simps)

lemma xor_linear_id: "xor_linear (\<lambda>a. a)"
  by (simp add: xor_linear_def)

lemma xor_linear_funpow: "xor_linear f \<Longrightarrow> xor_linear ((f :: 'a::len word \<Rightarrow> 'a word) ^^ n)"
  by (induction n) (simp_all add: xor_linear_def)

text \<open>A linear map is determined by its values on the monomials.\<close>

lemma xor_linear_expand:
  fixes f :: "'a::len word \<Rightarrow> 'b::len word"
  assumes "xor_linear f"
  shows "f a = xsum (\<lambda>i. if bit a i then f (push_bit i 1) else 0) LENGTH('a)"
proof -
  have "f a = f (xsum (\<lambda>i. if bit a i then push_bit i 1 else 0) LENGTH('a))"
    by (simp only: xsum_monomials)
  also have "\<dots> = xsum (\<lambda>i. f (if bit a i then push_bit i 1 else 0)) LENGTH('a)"
    by (rule xor_linear_xsum [OF assms])
  also have "\<dots> = xsum (\<lambda>i. if bit a i then f (push_bit i 1) else 0) LENGTH('a)"
    by (rule xsum_cong) (simp add: xor_linear_zero [OF assms])
  finally show ?thesis .
qed

lemma xor_linear_eqI:
  fixes f g :: "'a::len word \<Rightarrow> 'b::len word"
  assumes "xor_linear f" "xor_linear g"
    and "\<And>i. \<lbrakk>i < LENGTH('a); bit a i\<rbrakk> \<Longrightarrow> f (push_bit i 1) = g (push_bit i 1)"
  shows "f a = g a"
proof -
  have "xsum (\<lambda>i. if bit a i then f (push_bit i 1) else 0) LENGTH('a)
      = xsum (\<lambda>i. if bit a i then g (push_bit i 1) else 0) LENGTH('a)"
    by (rule xsum_cong) (use assms(3) in simp)
  then show ?thesis
    by (simp only: xor_linear_expand [OF assms(1), of a] xor_linear_expand [OF assms(2), of a])
qed

lemma fold_xor_xsum:
  "fold (\<lambda>i acc. if b i then acc XOR f i else acc) [0..<n] c
     = c XOR xsum (\<lambda>i. if b i then f i else 0) n"
  by (induction n arbitrary: c) (simp_all add: ac_simps)

section \<open>Powers of two\<close>

text \<open>\<^verbatim>\<open>usize::next_power_of_two\<close>, and the logarithms built on it.\<close>

fun next_power_of_two :: "nat \<Rightarrow> nat" where
  "next_power_of_two n = (if n \<le> 1 then 1 else 2 * next_power_of_two ((n + 1) div 2))"

declare next_power_of_two.simps [simp del]

definition is_power_of_two :: "nat \<Rightarrow> bool" where
  "is_power_of_two n \<longleftrightarrow> 0 < n \<and> n AND (n - 1) = 0"

lemma next_power_of_two_power: "\<exists>m. next_power_of_two n = 2 ^ m"
proof (induction n rule: next_power_of_two.induct)
  case (1 n)
  show ?case
  proof (cases "n \<le> 1")
    case True
    then have "next_power_of_two n = 2 ^ 0" by (simp add: next_power_of_two.simps)
    then show ?thesis by (rule exI)
  next
    case False
    then obtain m where "next_power_of_two ((n + 1) div 2) = 2 ^ m" using 1 by blast
    then have "next_power_of_two n = 2 ^ Suc m"
      using False by (simp add: next_power_of_two.simps [of n])
    then show ?thesis by (rule exI)
  qed
qed

lemma next_power_of_two_ge: "n \<le> next_power_of_two n"
proof (induction n rule: next_power_of_two.induct)
  case (1 n)
  then show ?case by (cases "n \<le> 1") (auto simp: next_power_of_two.simps [of n])
qed

lemma next_power_of_two_pos [simp]: "0 < next_power_of_two n"
  using next_power_of_two_power [of n] by auto

text \<open>It is the least power of two that is large enough.\<close>

lemma next_power_of_two_least: "n \<le> 2 ^ m \<Longrightarrow> next_power_of_two n \<le> 2 ^ m"
proof (induction n arbitrary: m rule: next_power_of_two.induct)
  case (1 n)
  show ?case
  proof (cases "n \<le> 1")
    case True
    then show ?thesis by (simp add: next_power_of_two.simps [of n])
  next
    case False
    then obtain k where m: "m = Suc k" using 1(2) by (cases m) auto
    then have "next_power_of_two ((n + 1) div 2) \<le> 2 ^ k" using 1 False by simp
    then show ?thesis using False m by (simp add: next_power_of_two.simps [of n])
  qed
qed

lemma next_power_of_two_id [simp]: "next_power_of_two (2 ^ m) = 2 ^ m"
  by (rule antisym) (simp_all add: next_power_of_two_ge next_power_of_two_least)

lemma and_mask_mod: "i AND (2 ^ m - 1) = i mod (2 ^ m :: nat)"
  by (simp only: take_bit_eq_mod [symmetric] take_bit_eq_mask mask_eq_exp_minus_1)

lemma is_power_of_two_iff: "is_power_of_two n \<longleftrightarrow> (\<exists>m. n = 2 ^ m)"
proof
  assume n: "is_power_of_two n"
  show "\<exists>m. n = 2 ^ m"
    using n
  proof (induction n rule: less_induct)
    case (less n)
    show ?case
    proof (cases "even n")
      case True
      then obtain k where k: "n = 2 * k" by blast
      then have "0 < k" using less.prems by (simp add: is_power_of_two_def)
      have "(n AND (n - 1)) div 2 = (n div 2) AND ((n - 1) div 2)"
        using drop_bit_and [of 1 n "n - 1"] by (simp add: drop_bit_eq_div)
      moreover have "(n - 1) div 2 = k - 1" using k \<open>0 < k\<close> by (cases k) simp_all
      ultimately have "k AND (k - 1) = 0" using less.prems k by (simp add: is_power_of_two_def)
      then obtain m where "k = 2 ^ m"
        using less.IH [of k] k \<open>0 < k\<close> by (auto simp: is_power_of_two_def)
      then have "n = 2 ^ Suc m" using k by simp
      then show ?thesis by (rule exI)
    next
      case False
      then obtain k where k: "n = 2 * k + 1" by (metis oddE)
      have "(n AND (n - 1)) div 2 = (n div 2) AND ((n - 1) div 2)"
        using drop_bit_and [of 1 n "n - 1"] by (simp add: drop_bit_eq_div)
      then have "k AND k = 0" using less.prems k by (simp add: is_power_of_two_def)
      then have "n = 2 ^ 0" using k by simp
      then show ?thesis by (rule exI)
    qed
  qed
next
  assume "\<exists>m. n = 2 ^ m"
  then obtain m where m: "n = 2 ^ m" by blast
  have "(2 ^ m :: nat) AND (2 ^ m - 1) = 0"
    using and_mask_mod [of "2 ^ m" m] by simp
  with m show "is_power_of_two n" by (simp add: is_power_of_two_def)
qed

text \<open>Logarithms of machine sizes: exact (\<open>None\<close> is the failed assertion) and rounded up.\<close>

fun trailing_zeros :: "nat \<Rightarrow> nat" where
  "trailing_zeros n = (if n = 0 then 64 else if even n then Suc (trailing_zeros (n div 2)) else 0)"

fun ilog2 :: "nat \<Rightarrow> nat" where
  "ilog2 n = (if n \<le> 1 then 0 else Suc (ilog2 (n div 2)))"

declare trailing_zeros.simps [simp del] ilog2.simps [simp del]

definition log2_strict :: "nat \<Rightarrow> nat option" where
  "log2_strict n = (if is_power_of_two n then Some (trailing_zeros n) else None)"

definition log2_ceil :: "nat \<Rightarrow> nat" where
  "log2_ceil n = (if n \<le> 1 then 0 else ilog2 (n - 1) + 1)"

lemma trailing_zeros_power [simp]: "trailing_zeros (2 ^ m) = m"
  by (induction m) (simp_all add: trailing_zeros.simps [of "Suc 0"] trailing_zeros.simps [of "2 * _"])

lemma log2_strict_power [simp]: "log2_strict (2 ^ m) = Some m"
proof -
  have "is_power_of_two (2 ^ m)" unfolding is_power_of_two_iff by blast
  then show ?thesis by (simp add: log2_strict_def)
qed

lemma log2_strict_Some: "log2_strict n = Some m \<longleftrightarrow> n = 2 ^ m"
proof
  assume n: "log2_strict n = Some m"
  then have "is_power_of_two n" by (simp add: log2_strict_def split: if_splits)
  then obtain k where "n = 2 ^ k" unfolding is_power_of_two_iff by blast
  with n show "n = 2 ^ m" by simp
qed simp

lemma ilog2_bounds: "0 < n \<Longrightarrow> 2 ^ ilog2 n \<le> n \<and> n < 2 ^ Suc (ilog2 n)"
proof (induction n rule: ilog2.induct)
  case (1 n)
  show ?case
  proof (cases "n \<le> 1")
    case True
    then show ?thesis using 1(2) by (simp add: ilog2.simps)
  next
    case False
    then have "2 ^ ilog2 (n div 2) \<le> n div 2 \<and> n div 2 < 2 ^ Suc (ilog2 (n div 2))" using 1(1) by simp
    then show ?thesis using False by (auto simp: ilog2.simps [of n])
  qed
qed

lemma log2_ceil_ge: "n \<le> 2 ^ log2_ceil n"
  using ilog2_bounds [of "n - 1"] by (cases "n \<le> 1") (auto simp: log2_ceil_def)

lemma log2_ceil_least: "n \<le> 2 ^ m \<Longrightarrow> log2_ceil n \<le> m"
proof (cases "n \<le> 1")
  case False
  assume "n \<le> 2 ^ m"
  then have "2 ^ ilog2 (n - 1) < (2 :: nat) ^ m" using ilog2_bounds [of "n - 1"] False by linarith
  then show ?thesis using False by (simp add: log2_ceil_def)
qed (simp add: log2_ceil_def)

lemma log2_ceil_mono: "m \<le> n \<Longrightarrow> log2_ceil m \<le> log2_ceil n"
  using log2_ceil_ge [of n] by (intro log2_ceil_least) linarith

section \<open>Traversing a list with a partial function\<close>

fun traverse_opt :: "('a \<Rightarrow> 'b option) \<Rightarrow> 'a list \<Rightarrow> 'b list option" where
  "traverse_opt f [] = Some []"
| "traverse_opt f (x # xs) =
    (case f x of None \<Rightarrow> None | Some y \<Rightarrow> map_option ((#) y) (traverse_opt f xs))"

lemma traverse_opt_Some:
  "traverse_opt f xs = Some ys \<longleftrightarrow> length ys = length xs \<and> (\<forall>i<length xs. f (xs ! i) = Some (ys ! i))"
proof (induction xs arbitrary: ys)
  case (Cons x xs)
  show ?case
    by (cases ys) (auto simp: Cons.IH nth_Cons' All_less_Suc2 split: option.splits)
qed auto

end
