(* ===== verification/GF64.thy ===== *)
theory GF64
  imports Prelude
begin

text \<open>
  The base field \<open>K = GF(2)[x] / (x^64 + x^4 + x^3 + x + 1)\<close> of
  \<^verbatim>\<open>primitives/src/field/gf2_64.rs\<close> and the \<open>g\<close>-power helpers of
  \<^verbatim>\<open>primitives/src/field/mod.rs\<close>: carry-less products, the reduction, the
  backends' products, squaring and the Itoh-Tsujii inverse.
\<close>

section \<open>Carry-less products and the reduction\<close>

datatype f64 = F64 (raw64: "64 word")

definition R64 :: "64 word" where
  "R64 = 0x1B"

definition clmul :: "64 word \<Rightarrow> 64 word \<Rightarrow> 128 word" where
  "clmul a b = fold (\<lambda>i acc. if bit a i then acc XOR push_bit i (ucast b) else acc) [0..<64] 0"

definition reduce :: "128 word \<Rightarrow> 64 word" where
  "reduce p =
    (let lo = ucast p;
         hi = ucast (drop_bit 64 p);
         spill = drop_bit 63 hi XOR drop_bit 61 hi XOR drop_bit 60 hi;
         v = hi XOR spill
     in lo XOR v XOR push_bit 1 v XOR push_bit 3 v XOR push_bit 4 v)"

definition mul_wide :: "64 word \<Rightarrow> 64 word \<Rightarrow> 128 word" where
  "mul_wide a b = clmul a b"

text \<open>\<^verbatim>\<open>_pdep_u64\<close>: the low bits of the source, in order, at the set positions of the mask.\<close>

definition pdep :: "64 word \<Rightarrow> 64 word \<Rightarrow> 64 word" where
  "pdep src msk = snd (fold
     (\<lambda>i (k, acc). if bit msk i
        then (Suc k, if bit src k then acc OR push_bit i 1 else acc)
        else (k, acc)) [0..<64] (0, 0))"

definition x86_spread :: "64 word \<Rightarrow> 128 word" where
  "x86_spread a =
    (let even = 0x5555555555555555;
         lo = pdep a even;
         hi = pdep (drop_bit 32 a) even
     in ucast lo OR push_bit 64 (ucast hi))"

definition square_wide :: "64 word \<Rightarrow> 128 word" where
  "square_wide a = mul_wide a a"

text \<open>
  The vector backends fold the high word with two more carry-less products by
  \<^verbatim>\<open>0x1B\<close>; \<^verbatim>\<open>hi64\<close> is the high lane of a 128-bit register.
\<close>

definition hi64 :: "128 word \<Rightarrow> 64 word" where
  "hi64 p = ucast (drop_bit 64 p)"

definition x86_mul :: "64 word \<Rightarrow> 64 word \<Rightarrow> 64 word" where
  "x86_mul a b =
    (let p = clmul a b;
         t = clmul (hi64 p) R64;
         u = clmul (hi64 t) R64
     in ucast (p XOR t XOR u))"

definition reduce_pair_pmull4 :: "128 word \<Rightarrow> 128 word \<Rightarrow> 64 word \<times> 64 word" where
  "reduce_pair_pmull4 p0 p1 =
    (let t0 = clmul (hi64 p0) R64;
         t1 = clmul (hi64 p1) R64;
         u0 = clmul (hi64 t0) R64;
         u1 = clmul (hi64 t1) R64
     in (ucast (p0 XOR t0 XOR u0), ucast (p1 XOR t1 XOR u1)))"

section \<open>Field operations\<close>

definition f64_is_zero :: "f64 \<Rightarrow> bool" where
  "f64_is_zero a \<longleftrightarrow> raw64 a = 0"

definition f64_add :: "f64 \<Rightarrow> f64 \<Rightarrow> f64" where
  "f64_add a b = F64 (raw64 a XOR raw64 b)"

definition f64_mul :: "f64 \<Rightarrow> f64 \<Rightarrow> f64" where
  "f64_mul a b = F64 (reduce (mul_wide (raw64 a) (raw64 b)))"

definition f64_square :: "f64 \<Rightarrow> f64" where
  "f64_square a = F64 (reduce (square_wide (raw64 a)))"

definition f64_inv :: "f64 \<Rightarrow> f64" where
  "f64_inv a =
    (let sq = (\<lambda>v n. (f64_square ^^ n) v);
         t1 = a;
         t2 = f64_mul (sq t1 1) t1;
         t3 = f64_mul (sq t2 1) t1;
         t6 = f64_mul (sq t3 3) t3;
         t12 = f64_mul (sq t6 6) t6;
         t24 = f64_mul (sq t12 12) t12;
         t48 = f64_mul (sq t24 24) t24;
         t60 = f64_mul (sq t48 12) t12;
         t63 = f64_mul (sq t60 3) t3
     in sq t63 1)"

definition mul_by_g :: "f64 \<Rightarrow> f64" where
  "mul_by_g a =
    (let carry = drop_bit 63 (raw64 a)
     in F64 (push_bit 1 (raw64 a) XOR (0x1B * carry)))"

section \<open>Linearity\<close>

lemma clmul_xsum: "clmul a b = xsum (\<lambda>i. if bit a i then push_bit i (ucast b) else 0) 64"
  by (simp add: clmul_def fold_xor_xsum)

lemma xor_linear_ucast: "xor_linear (ucast :: 'a::len word \<Rightarrow> 'b::len word)"
  by (rule xor_linearI) (rule ucast_xor)

lemma xor_linear_push_bit: "xor_linear (push_bit n :: 'a::len word \<Rightarrow> 'a word)"
  by (rule xor_linearI) (rule push_bit_word_xor)

lemma xor_linear_drop_bit: "xor_linear (drop_bit n :: 'a::len word \<Rightarrow> 'a word)"
  by (rule xor_linearI) (rule drop_bit_word_xor)

lemma xor_linear_hi64: "xor_linear hi64"
  by (rule xor_linearI) (simp add: hi64_def xor_push)

lemma xor_linear_reduce: "xor_linear reduce"
  by (rule xor_linearI) (simp only: reduce_def Let_def xor_push ac_simps)

lemma xor_linear_clmul_right: "xor_linear (clmul a)"
proof (rule xor_linearI)
  fix b c :: "64 word"
  have "xsum (\<lambda>i. if bit a i then push_bit i (ucast (b XOR c)) else 0) 64 =
      xsum (\<lambda>i. (if bit a i then push_bit i (ucast b) else 0)
        XOR (if bit a i then push_bit i (ucast c) else 0)) 64"
    by (rule xsum_cong) (simp add: xor_push)
  then show "clmul a (b XOR c) = clmul a b XOR clmul a c"
    by (simp only: clmul_xsum xsum_xor)
qed

lemma xor_linear_clmul_left: "xor_linear (\<lambda>a. clmul a b)"
proof (rule xor_linearI)
  fix a c :: "64 word"
  have "xsum (\<lambda>i. if bit (a XOR c) i then push_bit i (ucast b) else 0) 64 =
      xsum (\<lambda>i. (if bit a i then push_bit i (ucast b) else (0 :: 128 word))
        XOR (if bit c i then push_bit i (ucast b) else 0)) 64"
    by (rule xsum_cong) (simp add: bit_xor_iff)
  then show "clmul (a XOR c) b = clmul a b XOR clmul c b"
    by (simp only: clmul_xsum xsum_xor)
qed

text \<open>Multiplication by \<open>x\<close> on raw words.\<close>

definition xt :: "64 word \<Rightarrow> 64 word" where
  "xt a = push_bit 1 a XOR (if bit a 63 then 0x1B else 0)"

lemma drop_bit_63: "drop_bit 63 a = (if bit a 63 then 1 else 0)" for a :: "64 word"
proof (rule bit_word_eqI)
  fix n
  show "bit (drop_bit 63 a) n \<longleftrightarrow> bit (if bit a 63 then 1 else 0 :: 64 word) n"
    using bit_imp_le_length [of a "63 + n"] by (cases n) (auto simp: bit_simps)
qed

lemma mul_by_g_xt: "mul_by_g (F64 a) = F64 (xt a)"
  by (simp add: mul_by_g_def xt_def drop_bit_63)

lemma xor_linear_xt: "xor_linear xt"
proof (rule xor_linearI)
  fix a b :: "64 word"
  have "(if bit (a XOR b) 63 then 0x1B else (0 :: 64 word))
      = (if bit a 63 then 0x1B else 0) XOR (if bit b 63 then 0x1B else 0)"
    by (simp add: bit_xor_iff)
  then show "xt (a XOR b) = xt a XOR xt b"
    by (simp only: xt_def push_bit_word_xor ac_simps)
qed

lemma reduce_ucast: "reduce (ucast b) = b"
proof -
  have "drop_bit 64 (ucast b :: 128 word) = 0"
    by (rule bit_word_eqI) (auto simp: bit_simps dest: bit_imp_le_length)
  moreover have "(ucast (ucast b :: 128 word) :: 64 word) = b"
    by (rule bit_word_eqI) (auto simp: bit_simps dest: bit_imp_le_length)
  ultimately show ?thesis by (simp add: reduce_def Let_def)
qed

section \<open>The product as a polynomial in \<open>xt\<close>\<close>
definition fold_hi :: "64 word \<Rightarrow> 64 word" where
  "fold_hi hi = (let v = hi XOR (drop_bit 63 hi XOR drop_bit 61 hi XOR drop_bit 60 hi)
     in v XOR push_bit 1 v XOR push_bit 3 v XOR push_bit 4 v)"

lemma reduce_monomial_low: "i < 64 \<Longrightarrow> reduce (push_bit i 1) = push_bit i 1"
  using reduce_ucast [of "push_bit i 1"] by (simp add: ucast_push_bit_lt del: push_bit_of_1)

lemma reduce_monomial_high:
  assumes "j < 64" shows "reduce (push_bit (64 + j) 1) = fold_hi (push_bit j 1)"
proof -
  have "(ucast (push_bit (64 + j) 1 :: 128 word) :: 64 word) = 0"
    by (rule bit_word_eqI) (auto simp: bit_simps)
  moreover have "(ucast (drop_bit 64 (push_bit (64 + j) 1 :: 128 word)) :: 64 word) = push_bit j 1"
    by (rule bit_word_eqI) (use assms in \<open>auto simp: bit_simps\<close>)
  ultimately show ?thesis
    by (simp add: reduce_def fold_hi_def Let_def del: push_bit_of_1)
qed

lemma fold_hi_shift_monomials:
  "list_all (\<lambda>j. fold_hi (push_bit (Suc j) 1) = xt (fold_hi (push_bit j 1))) [0..<63]"
  by (simp add: fold_hi_def Let_def xt_def field_eval cong: list_all_weak_cong let_weak_cong)

lemma reduce_shift_monomial:
  assumes "i < 127" shows "reduce (push_bit (Suc i) 1) = xt (reduce (push_bit i 1))"
proof -
  consider "i < 63" | "i = 63" | j where "i = 64 + j" "j \<in> set [0..<63]"
    using assms by atomize_elim (auto intro!: exI [of _ "i - 64"])
  then show ?thesis
  proof cases
    case 1
    then have "\<not> bit (push_bit i 1 :: 64 word) 63" by (auto simp: bit_simps)
    moreover have "push_bit 1 (push_bit i 1) = (push_bit (Suc i) 1 :: 64 word)"
      by (simp only: push_bit_push_bit) simp
    ultimately show ?thesis using 1 reduce_monomial_low [of i] reduce_monomial_low [of "Suc i"]
      by (simp only: xt_def) simp
  next
    case 2
    have "xt (push_bit 63 1) = fold_hi (push_bit 0 1)"
      by (simp add: xt_def fold_hi_def Let_def)
    moreover have "reduce (push_bit (Suc 63) 1) = fold_hi (push_bit 0 1)"
      using reduce_monomial_high [of 0] by simp
    moreover have "reduce (push_bit 63 1) = push_bit 63 1"
      by (rule reduce_monomial_low) simp
    ultimately show ?thesis using 2 by (simp only:)
  next
    case 3
    have "fold_hi (push_bit (Suc j) 1) = xt (fold_hi (push_bit j 1))"
      using fold_hi_shift_monomials [unfolded list_all_iff] 3(2) by (rule bspec)
    moreover have "reduce (push_bit (64 + j) 1) = fold_hi (push_bit j 1)"
      by (rule reduce_monomial_high) (use 3 in simp)
    moreover have "reduce (push_bit (Suc (64 + j)) 1) = fold_hi (push_bit (Suc j) 1)"
      using reduce_monomial_high [of "Suc j"] 3 by simp
    ultimately show ?thesis using 3(1) by (simp only:)
  qed
qed

lemma reduce_push:
  assumes "\<not> bit p 127"
  shows "reduce (push_bit 1 p) = xt (reduce p)"
proof (rule xor_linear_eqI [of "\<lambda>p. reduce (push_bit 1 p)" "\<lambda>p. xt (reduce p)"])
  show "xor_linear (\<lambda>p. reduce (push_bit 1 p))"
    by (rule xor_linear_comp [OF xor_linear_reduce xor_linear_push_bit])
  show "xor_linear (\<lambda>p. xt (reduce p))"
    by (rule xor_linear_comp [OF xor_linear_xt xor_linear_reduce])
  fix i assume "i < LENGTH(128)" and "bit p i"
  then have "i < 127" using assms by (cases "i = 127") auto
  then show "reduce (push_bit 1 (push_bit i 1)) = xt (reduce (push_bit i 1))"
    using reduce_shift_monomial [of i] by (simp add: push_bit_push_bit del: push_bit_of_1 push_bit_Suc)
qed

lemma reduce_push_ucast: "i < 64 \<Longrightarrow> reduce (push_bit i (ucast b)) = (xt ^^ i) b"
proof (induction i)
  case 0
  then show ?case by (simp add: reduce_ucast)
next
  case (Suc i)
  have "\<not> bit (push_bit i (ucast b) :: 128 word) 127"
    using Suc.prems bit_imp_le_length [of b "127 - i"] by (auto simp: bit_simps)
  from reduce_push [OF this] have "reduce (push_bit 1 (push_bit i (ucast b))) = xt ((xt ^^ i) b)"
    using Suc by simp
  moreover have "push_bit 1 (push_bit i (ucast b)) = (push_bit (Suc i) (ucast b) :: 128 word)"
    by (simp only: push_bit_push_bit) simp
  ultimately show ?case by simp
qed

definition mulw :: "64 word \<Rightarrow> 64 word \<Rightarrow> 64 word" where
  "mulw a b = xsum (\<lambda>i. if bit a i then (xt ^^ i) b else 0) 64"

lemma reduce_clmul: "reduce (clmul a b) = mulw a b"
proof -
  have "reduce (clmul a b) = xsum (\<lambda>i. reduce (if bit a i then push_bit i (ucast b) else 0)) 64"
    unfolding clmul_xsum by (rule xor_linear_xsum [OF xor_linear_reduce])
  also have "\<dots> = mulw a b"
    unfolding mulw_def
    by (rule xsum_cong) (simp add: reduce_push_ucast xor_linear_zero [OF xor_linear_reduce])
  finally show ?thesis .
qed

lemma xor_linear_mulw_right: "xor_linear (mulw a)"
  using xor_linear_comp [OF xor_linear_reduce xor_linear_clmul_right] by (simp add: reduce_clmul)

lemma xor_linear_mulw_left: "xor_linear (\<lambda>a. mulw a b)"
  using xor_linear_comp [OF xor_linear_reduce xor_linear_clmul_left] by (simp add: reduce_clmul)

lemma linear_xt_commute_mulw:
  assumes "xor_linear f" and "\<And>a. f (xt a) = xt (f a)"
  shows "f (mulw b c) = mulw b (f c)"
proof -
  have pow: "f ((xt ^^ i) a) = (xt ^^ i) (f a)" for i a
    by (induction i) (simp_all add: assms(2))
  have "f (mulw b c) = xsum (\<lambda>i. f (if bit b i then (xt ^^ i) c else 0)) 64"
    unfolding mulw_def by (rule xor_linear_xsum [OF assms(1)])
  also have "\<dots> = mulw b (f c)"
    unfolding mulw_def by (rule xsum_cong) (simp add: pow xor_linear_zero [OF assms(1)])
  finally show ?thesis .
qed

lemma mulw_xt: "mulw a (xt b) = xt (mulw a b)"
  by (rule linear_xt_commute_mulw [OF xor_linear_xt refl, symmetric])

lemma mulw_left_commute: "mulw a (mulw b c) = mulw b (mulw a c)"
  by (rule linear_xt_commute_mulw [OF xor_linear_mulw_right mulw_xt])

lemma xt_pow_1: "i < 64 \<Longrightarrow> (xt ^^ i) 1 = push_bit i 1"
proof (induction i)
  case (Suc i)
  then have "\<not> bit (push_bit i 1 :: 64 word) 63" by (auto simp: bit_simps)
  then show ?case using Suc by (simp add: xt_def)
qed simp

lemma mulw_1_right: "mulw a 1 = a"
proof -
  have "mulw a 1 = xsum (\<lambda>i. if bit a i then push_bit i 1 else 0) 64"
    unfolding mulw_def by (rule xsum_cong) (simp add: xt_pow_1)
  then show ?thesis using xsum_monomials [of a] by simp
qed

lemma mulw_commute: "mulw a b = mulw b a"
  using mulw_left_commute [of a b 1] by (simp add: mulw_1_right)

lemma mulw_assoc: "mulw (mulw a b) c = mulw a (mulw b c)"
  by (metis mulw_commute mulw_left_commute)


section \<open>The ring\<close>

lemma f64_mul_mulw: "f64_mul (F64 a) (F64 b) = F64 (mulw a b)"
  by (simp add: f64_mul_def mul_wide_def reduce_clmul)

lemma f64_square_mul: "f64_square a = f64_mul a a"
  by (simp add: f64_square_def f64_mul_def square_wide_def)

instantiation f64 :: comm_ring_1
begin

definition "0 = F64 0"
definition "1 = F64 1"
definition "a + b = f64_add a b"
definition "a - b = f64_add a b"
definition "- a = (a :: f64)"
definition "a * b = f64_mul a b"

instance
proof
  fix a b c :: f64
  show "a * b * c = a * (b * c)"
    by (cases a; cases b; cases c) (simp add: times_f64_def f64_mul_mulw mulw_assoc)
  show "a * b = b * a"
    by (cases a; cases b) (simp add: times_f64_def f64_mul_mulw mulw_commute)
  show "1 * a = a"
    by (cases a) (simp add: times_f64_def one_f64_def f64_mul_mulw mulw_1_right mulw_commute [of 1])
  show "(a + b) * c = a * c + b * c"
    by (cases a; cases b; cases c)
      (simp add: times_f64_def plus_f64_def f64_add_def f64_mul_mulw
        xor_linear_xor [OF xor_linear_mulw_left])
qed (simp_all add: plus_f64_def minus_f64_def uminus_f64_def zero_f64_def one_f64_def f64_add_def ac_simps)

end

lemma f64_char2 [simp]: "a + a = (0 :: f64)"
  by (simp add: plus_f64_def zero_f64_def f64_add_def)

lemma f64_minus [simp]: "a - b = a + (b :: f64)"
  by (simp add: plus_f64_def minus_f64_def)

lemma f64_uminus [simp]: "- a = (a :: f64)"
  by (simp add: uminus_f64_def)

lemma f64_square_power: "f64_square a = a ^ 2"
  by (simp add: f64_square_mul power2_eq_square times_f64_def)

definition f64_g :: f64 where
  "f64_g = F64 2"

lemma mul_by_g_times: "mul_by_g a = f64_g * a"
proof (cases a)
  case (F64 w)
  have "mulw 2 w = xt w"
    using mulw_xt [of w 1] xt_pow_1 [of 1] by (simp add: mulw_commute [of 2] mulw_1_right)
  with F64 show ?thesis by (simp add: times_f64_def f64_g_def mul_by_g_xt f64_mul_mulw)
qed

lemma square_add: "(a + b) ^ 2 = a ^ 2 + (b :: f64) ^ 2"
  by (simp add: power2_sum mult_2)



section \<open>Symmetry of the carry-less product\<close>

lemma xsum_single: "m < n \<Longrightarrow> xsum (\<lambda>i. if i = m then f i else 0) n = f m"
proof (induction n)
  case (Suc n)
  have "xsum (\<lambda>i. if i = m then f i else 0) n = 0" if "m = n"
    using that xsum_cong [of n "\<lambda>i. if i = m then f i else 0" "\<lambda>i. 0"] by simp
  then show ?case using Suc by (cases "m = n") simp_all
qed simp

lemma clmul_monomial: "i < 64 \<Longrightarrow> clmul (push_bit i 1) b = push_bit i (ucast b)"
proof -
  assume i: "i < 64"
  have "clmul (push_bit i 1) b = xsum (\<lambda>k. if k = i then push_bit k (ucast b) else 0) 64"
    unfolding clmul_xsum by (rule xsum_cong) (auto simp: bit_simps)
  then show ?thesis using xsum_single [of i 64] i by simp
qed

lemma clmul_monomials:
  "\<lbrakk>i < 64; j < 64\<rbrakk> \<Longrightarrow> clmul (push_bit i 1) (push_bit j 1) = push_bit (i + j) 1"
  by (simp add: clmul_monomial ucast_push_bit_lt push_bit_push_bit del: push_bit_of_1)

lemma clmul_commute: "clmul a b = clmul b a"
proof (rule xor_linear_eqI [of "\<lambda>a. clmul a b" "\<lambda>a. clmul b a", OF xor_linear_clmul_left xor_linear_clmul_right])
  fix i assume i: "i < LENGTH(64)"
  show "clmul (push_bit i 1) b = clmul b (push_bit i 1)"
  proof (rule xor_linear_eqI [of "clmul (push_bit i 1)" "\<lambda>b. clmul b (push_bit i 1)",
        OF xor_linear_clmul_right xor_linear_clmul_left])
    fix j assume "j < LENGTH(64)"
    then show "clmul (push_bit i 1) (push_bit j 1) = clmul (push_bit j 1) (push_bit i 1)"
      using i by (simp add: clmul_monomials add.commute del: push_bit_of_1)
  qed
qed

section \<open>Squaring spreads the bits\<close>

lemma clmul_square_xsum: "clmul a a = xsum (\<lambda>i. if bit a i then push_bit (2 * i) 1 else 0) 64"
proof -
  have "xor_linear (\<lambda>a. clmul a a)"
  proof (rule xor_linearI)
    fix a b
    have "clmul (a XOR b) (a XOR b) = clmul a a XOR (clmul a b XOR clmul b a) XOR clmul b b"
      by (simp add: xor_linear_xor [OF xor_linear_clmul_left] xor_linear_xor [OF xor_linear_clmul_right] ac_simps)
    then show "clmul (a XOR b) (a XOR b) = clmul a a XOR clmul b b"
      by (simp add: clmul_commute [of a b])
  qed
  from xor_linear_expand [OF this, of a]
  have "clmul a a = xsum (\<lambda>i. if bit a i then clmul (push_bit i 1) (push_bit i 1) else 0) 64"
    by simp
  also have "\<dots> = xsum (\<lambda>i. if bit a i then push_bit (2 * i) 1 else 0) 64"
    by (rule xsum_cong) (simp add: clmul_monomials mult_2 del: push_bit_of_1)
  finally show ?thesis .
qed

lemma bit_xsum_even_monomials:
  "bit (xsum (\<lambda>i. if b i then push_bit (2 * i) 1 else 0) n :: 'a::len word) k
    \<longleftrightarrow> k < LENGTH('a) \<and> even k \<and> k div 2 < n \<and> b (k div 2)"
  by (induction n) (auto simp: bit_simps less_Suc_eq)

lemma bit_clmul_square: "bit (clmul a a) k \<longleftrightarrow> even k \<and> bit a (k div 2)"
  using bit_imp_le_length [of a "k div 2"]
  by (auto simp: clmul_square_xsum bit_xsum_even_monomials)

text \<open>On numerals the square is computed by interleaving zeros.\<close>

fun spread_num :: "num \<Rightarrow> num" where
  "spread_num num.One = num.One"
| "spread_num (num.Bit0 n) = num.Bit0 (num.Bit0 (spread_num n))"
| "spread_num (num.Bit1 n) = num.Bit1 (num.Bit0 (spread_num n))"

lemma bit_spread_num:
  "bit (numeral (spread_num n) :: int) k \<longleftrightarrow> even k \<and> bit (numeral n :: int) (k div 2)"
proof (induction n arbitrary: k rule: spread_num.induct)
  case 1
  then show ?case by (cases "k = 0") (auto simp: bit_1_iff)
next
  case (2 n)
  then show ?case by (cases k; cases "k - 1") (auto simp: bit_Suc)
next
  case (3 n)
  then show ?case by (cases k; cases "k - 1") (auto simp: bit_Suc)
qed

lemma bit_word_numeral:
  "bit (numeral n :: 'a::len word) k \<longleftrightarrow> k < LENGTH('a) \<and> bit (numeral n :: int) k"
proof -
  have "(numeral n :: 'a word) = word_of_int (numeral n)" by simp
  then show ?thesis by (simp only: bit_word_of_int_iff)
qed

lemma clmul_square_numeral [field_eval]: "clmul (numeral n) (numeral n) = numeral (spread_num n)"
  by (rule bit_word_eqI) (auto simp: bit_clmul_square bit_word_numeral bit_spread_num)

lemma f64_square_numeral [field_eval]:
  "F64 (numeral n) ^ 2 = F64 (reduce (numeral (spread_num n)))"
  by (simp add: power2_eq_square times_f64_def f64_mul_def mul_wide_def clmul_square_numeral)

section \<open>Every element is fixed by 64 squarings\<close>

lemma f64_power2k_add: "((a :: f64) + b) ^ (2 ^ k) = a ^ (2 ^ k) + b ^ (2 ^ k)"
  by (induction k arbitrary: a b) (simp_all add: power_mult square_add)

lemma f64_power_Suc_square: "(a :: f64) ^ (2 ^ Suc k) = (a ^ (2 ^ k)) ^ 2"
  by (simp add: power_mult [symmetric] mult.commute)

lemma g_squarings_0: "((((((((F64 0x2)\<^sup>2)\<^sup>2)\<^sup>2)\<^sup>2)\<^sup>2)\<^sup>2)\<^sup>2)\<^sup>2 = F64 0x11011"
  by (simp add: field_eval reduce_def Let_def cong: let_weak_cong)

lemma g_squarings_1: "((((((((F64 0x11011)\<^sup>2)\<^sup>2)\<^sup>2)\<^sup>2)\<^sup>2)\<^sup>2)\<^sup>2)\<^sup>2 = F64 0x15f0144001a114f"
  by (simp add: field_eval reduce_def Let_def cong: let_weak_cong)

lemma g_squarings_2: "((((((((F64 0x15f0144001a114f)\<^sup>2)\<^sup>2)\<^sup>2)\<^sup>2)\<^sup>2)\<^sup>2)\<^sup>2)\<^sup>2 = F64 0xb6d535c542116f62"
  by (simp add: field_eval reduce_def Let_def cong: let_weak_cong)

lemma g_squarings_3: "((((((((F64 0xb6d535c542116f62)\<^sup>2)\<^sup>2)\<^sup>2)\<^sup>2)\<^sup>2)\<^sup>2)\<^sup>2)\<^sup>2 = F64 0x5c62236777028505"
  by (simp add: field_eval reduce_def Let_def cong: let_weak_cong)

lemma g_squarings_4: "((((((((F64 0x5c62236777028505)\<^sup>2)\<^sup>2)\<^sup>2)\<^sup>2)\<^sup>2)\<^sup>2)\<^sup>2)\<^sup>2 = F64 0x13846a66c22c75be"
  by (simp add: field_eval reduce_def Let_def cong: let_weak_cong)

lemma g_squarings_5: "((((((((F64 0x13846a66c22c75be)\<^sup>2)\<^sup>2)\<^sup>2)\<^sup>2)\<^sup>2)\<^sup>2)\<^sup>2)\<^sup>2 = F64 0xfa5ac498d20dd97e"
  by (simp add: field_eval reduce_def Let_def cong: let_weak_cong)

lemma g_squarings_6: "((((((((F64 0xfa5ac498d20dd97e)\<^sup>2)\<^sup>2)\<^sup>2)\<^sup>2)\<^sup>2)\<^sup>2)\<^sup>2)\<^sup>2 = F64 0x10a51a6f8e1e1ac"
  by (simp add: field_eval reduce_def Let_def cong: let_weak_cong)

lemma g_squarings_7: "((((((((F64 0x10a51a6f8e1e1ac)\<^sup>2)\<^sup>2)\<^sup>2)\<^sup>2)\<^sup>2)\<^sup>2)\<^sup>2)\<^sup>2 = F64 0x2"
  by (simp add: field_eval reduce_def Let_def cong: let_weak_cong)

lemma power_256: "(a :: f64) ^ 256 = (((((((a\<^sup>2)\<^sup>2)\<^sup>2)\<^sup>2)\<^sup>2)\<^sup>2)\<^sup>2)\<^sup>2"
  by (simp add: power_mult [symmetric])

lemma g_power2_64: "f64_g ^ (2 ^ 64) = f64_g"
proof -
  have "f64_g ^ (2 ^ 64) = (((((((f64_g ^ 256) ^ 256) ^ 256) ^ 256) ^ 256) ^ 256) ^ 256) ^ 256"
    by (simp add: power_mult [symmetric])
  then show ?thesis
    by (simp only: power_256 f64_g_def g_squarings_0 g_squarings_1 g_squarings_2 g_squarings_3
        g_squarings_4 g_squarings_5 g_squarings_6 g_squarings_7)
qed

lemma xt_pow_times: "F64 ((xt ^^ i) a) = f64_g ^ i * F64 a"
proof (induction i)
  case (Suc i)
  have "F64 ((xt ^^ Suc i) a) = mul_by_g (F64 ((xt ^^ i) a))" by (simp add: mul_by_g_xt)
  then show ?case by (simp add: mul_by_g_times Suc mult.assoc)
qed simp

lemma F64_monomial: "i < 64 \<Longrightarrow> F64 (push_bit i 1) = f64_g ^ i"
  using xt_pow_times [of i 1] xt_pow_1 [of i] by (simp only: one_f64_def [symmetric] mult_1_right)

text \<open>The Frobenius map on raw words.\<close>

definition frobw :: "nat \<Rightarrow> 64 word \<Rightarrow> 64 word" where
  "frobw k a = raw64 (F64 a ^ (2 ^ k))"

lemma F64_xor: "F64 (a XOR b) = F64 a + F64 b"
  by (simp add: plus_f64_def f64_add_def)

lemma raw64_add: "raw64 (a + b) = raw64 a XOR raw64 b"
  by (simp add: plus_f64_def f64_add_def)

lemma xor_linear_frobw: "xor_linear (frobw k)"
  by (rule xor_linearI) (simp add: frobw_def F64_xor f64_power2k_add raw64_add)

lemma f64_power2_64: "(a :: f64) ^ (2 ^ 64) = a"
proof -
  have "frobw 64 w = w" for w
  proof (rule xor_linear_eqI [of "frobw 64" "\<lambda>a. a", OF xor_linear_frobw xor_linear_id])
    fix i assume "i < LENGTH(64)"
    then have *: "F64 (push_bit i 1) = f64_g ^ i" by (intro F64_monomial) simp
    have "(f64_g ^ i) ^ (2 ^ 64) = (f64_g ^ (2 ^ 64)) ^ i"
      by (simp only: power_mult [symmetric] mult.commute)
    then show "frobw 64 (push_bit i 1) = push_bit i 1"
      unfolding frobw_def * by (simp only: g_power2_64 * [symmetric] f64.sel)
  qed
  then show ?thesis by (cases a) (simp only: frobw_def, metis f64.collapse)
qed

section \<open>The only idempotents are 0 and 1\<close>

text \<open>
  \<open>artin_table\<close> solves \<open>z + z^2 = b\<close>: combining its entries by the bits of
  \<open>b\<close> gives \<open>z\<close> up to adding \<open>1\<close>.
\<close>

definition artin_table :: "64 word list" where
  "artin_table =
    [0x19c9369f278adc02, 0x84b2b22ab2383ee4, 0x84b2b22ab2383ee6, 0x9d7b84b495b3e3f6,
     0x84b2b22ab2383ee2, 0x37c470b49213f790, 0x9d7b84b495b3e3fe, 0x1000a0105137c,
     0x84b2b22ab2383ef2, 0x368e964a8edce1fc, 0x37c470b49213f7b0, 0x19c9368e278fdf4c,
     0x9d7b84b495b3e3be, 0x2e4da23cbc7d4570, 0x1000a010513fc, 0x84f35772bac24232,
     0x84b2b22ab2383ff2, 0x37c570ba9314e4fc, 0x368e964a8edce3fc, 0xb377c390213cdb0e,
     0x37c470b49213f3b0, 0x85ed5a3aa99c24f2, 0x19c9368e278fd74c, 0xaabff0000780000e,
     0x9d7b84b495b3f3be, 0x84b6b3dab03038f2, 0x2e4da23cbc7d6570, 0x511ea03494ffc,
     0x1000a010553fc, 0xae0c0220343c6c0e, 0x84f35772bac2c232, 0x800000008000000e,
     0x84b2b22ab2393ff2, 0xb376c29c202bc97e, 0x37c570ba9316e4fc, 0x9c3062488879e6ce,
     0x368e964a8ed8e3fc, 0x41e42c08e47e70, 0xb377c3902134db0e, 0x85b9b108a60f56ce,
     0x37c470b49203f3b0, 0x19dd3b6e21f3cb4c, 0x85ed5a3aa9bc24f2, 0x198ddf682c428ac0,
     0x19c9368e27cfd74c, 0x4b7c68431ca84b0, 0xaabff0000700000e, 0x8040655489ffefbe,
     0x9d7b84b494b3f3be, 0x18c1354e32bfa74c, 0x84b6b3dab23038f2, 0xaaf613cc0f74627e,
     0x2e4da23cb87d6570, 0x3248b3d6b3342a8c, 0x511ea0b494ffc, 0xb60813c00e70700e,
     0x1000a110553fc, 0x1e0d022a05393ffc, 0xae0c0220143c6c0e, 0xe0c0220143c6c00,
     0x84f35772fac2c232, 0, 0x800000000000000e, 0xc041e55948fbfdce]"

fun combine :: "'a::len word list \<Rightarrow> int \<Rightarrow> 'a word" where
  "combine [] b = 0"
| "combine (x # xs) b = (if odd b then x else 0) XOR combine xs (b div 2)"

fun combine_num :: "'a::len word list \<Rightarrow> num \<Rightarrow> 'a word" where
  "combine_num [] n = 0"
| "combine_num (x # xs) num.One = x"
| "combine_num (x # xs) (num.Bit0 n) = combine_num xs n"
| "combine_num (x # xs) (num.Bit1 n) = x XOR combine_num xs n"

lemma combine_0: "combine xs 0 = 0"
  by (induction xs) simp_all

lemma combine_numeral [field_eval]: "combine xs (numeral n) = combine_num xs n"
  by (induction xs n rule: combine_num.induct) (simp_all add: combine_0)

lemma combine_xor: "combine xs (a XOR b) = combine xs a XOR combine xs b"
proof (induction xs arbitrary: a b)
  case (Cons x xs)
  have "(a XOR b) div 2 = (a div 2) XOR (b div 2)"
    using drop_bit_xor [of 1 a b] by (simp add: drop_bit_eq_div)
  then show ?case using Cons [of "a div 2" "b div 2"] by (simp add: even_xor_iff ac_simps)
qed simp

definition artin_map :: "64 word \<Rightarrow> 64 word" where
  "artin_map a = a XOR combine artin_table (uint (frobw 1 a XOR a))"

lemma xor_linear_artin_map: "xor_linear artin_map"
  by (rule xor_linearI)
    (simp add: artin_map_def xor_linear_xor [OF xor_linear_frobw] uint_xor combine_xor ac_simps)

lemma frobw_1_monomial: "i < 64 \<Longrightarrow> frobw 1 (push_bit i 1) = reduce (push_bit (2 * i) 1)"
  by (simp add: frobw_def power2_eq_square times_f64_def f64_mul_def mul_wide_def
      clmul_monomials mult_2 del: push_bit_of_1)

lemma artin_map_monomials:
  "list_all (\<lambda>i. let w = push_bit i 1 in
     w XOR combine artin_table (uint (reduce (push_bit (2 * i) 1) XOR w)) \<in> {0, 1}) [0..<64]"
  by (simp add: field_eval artin_table_def reduce_def Let_def cong: let_weak_cong list_all_weak_cong)

lemma artin_map_bit: "artin_map a \<in> {0, 1}"
proof -
  have mono: "artin_map (push_bit i 1) \<in> {0, 1}" if "i < 64" for i
    using that artin_map_monomials unfolding list_all_iff Let_def
    by (simp only: artin_map_def frobw_1_monomial) simp
  have "xsum (\<lambda>i. if bit a i then artin_map (push_bit i 1) else 0) n \<in> {0, 1}" if "n \<le> 64" for n
    using that
  proof (induction n)
    case (Suc n)
    then show ?case using mono [of n] by auto
  qed simp
  from this [of 64] show ?thesis
    using xor_linear_expand [OF xor_linear_artin_map, of a] by simp
qed

lemma f64_idempotent: "(a :: f64) ^ 2 = a \<Longrightarrow> a = 0 \<or> a = 1"
proof (cases a)
  case (F64 w)
  assume "a ^ 2 = a"
  then have "frobw 1 w = w" using F64 by (simp add: frobw_def)
  then have "artin_map w = w" by (simp add: artin_map_def combine_0)
  then show ?thesis using artin_map_bit [of w] F64 by (auto simp: zero_f64_def one_f64_def)
qed

lemma f64_fermat:
  assumes "(a :: f64) \<noteq> 0" shows "a ^ (2 ^ 64 - 1) = 1"
proof -
  let ?e = "a ^ (2 ^ 64 - 1)"
  have e: "a * ?e = a" using f64_power2_64 [of a] by (simp flip: power_Suc)
  have "?e ^ 2 = a ^ (2 ^ 64 - 2) * (a * ?e)" by (simp flip: power_mult power_add power_Suc)
  also have "\<dots> = ?e" by (simp only: e) (simp flip: power_Suc2)
  finally have "?e = 0 \<or> ?e = 1" by (rule f64_idempotent)
  with e assms show ?thesis by auto
qed




section \<open>The folding backends\<close>

lemma clmul_R64: "clmul a R64 = ucast a XOR push_bit 1 (ucast a) XOR push_bit 3 (ucast a) XOR push_bit 4 (ucast a)"
proof -
  have "R64 = push_bit 0 1 XOR push_bit 1 1 XOR push_bit 3 1 XOR push_bit 4 1"
    by (simp add: R64_def)
  then have "clmul R64 a = clmul (push_bit 0 1 XOR push_bit 1 1 XOR push_bit 3 1 XOR push_bit 4 1) a"
    by (rule arg_cong [where f = "\<lambda>r. clmul r a"])
  also have "\<dots> = clmul (push_bit 0 1) a XOR clmul (push_bit 1 1) a
      XOR clmul (push_bit 3 1) a XOR clmul (push_bit 4 1) a"
    by (simp only: xor_linear_xor [OF xor_linear_clmul_left])
  also have "\<dots> = push_bit 0 (ucast a) XOR push_bit 1 (ucast a) XOR push_bit 3 (ucast a) XOR push_bit 4 (ucast a)"
    by (intro arg_cong2 [where f = "(XOR)"] clmul_monomial) simp_all
  finally show ?thesis by (simp add: clmul_commute [of a])
qed

lemma hi64_small: "(\<And>n. 64 \<le> n \<Longrightarrow> \<not> bit p n) \<Longrightarrow> hi64 p = 0"
  by (rule bit_word_eqI) (auto simp: hi64_def bit_simps)

lemma reduce_hi_R64: "reduce p = ucast p XOR mulw (hi64 p) R64"
proof (rule xor_linear_eqI [of reduce "\<lambda>p. ucast p XOR mulw (hi64 p) R64", OF xor_linear_reduce])
  show "xor_linear (\<lambda>p. ucast p XOR mulw (hi64 p) R64)"
    by (intro xor_linear_plus xor_linear_ucast xor_linear_comp [OF xor_linear_mulw_left xor_linear_hi64])
  fix i assume "i < LENGTH(128)"
  have high: "reduce (push_bit (64 + j) 1) = mulw (push_bit j 1) R64" if "j < 64" for j
  proof -
    have "F64 (mulw (push_bit j 1) R64) = f64_g ^ j * F64 R64"
      using F64_monomial [OF that] by (simp add: times_f64_def f64_mul_mulw flip: F64_monomial [OF that])
    moreover have "F64 (reduce (push_bit (64 + j) 1)) = f64_g ^ j * F64 R64"
      using that
    proof (induction j)
      case 0
      show ?case by (simp add: reduce_def R64_def Let_def cong: let_weak_cong)
    next
      case (Suc j)
      have "reduce (push_bit (Suc (64 + j)) 1) = xt (reduce (push_bit (64 + j) 1))"
        by (rule reduce_shift_monomial) (use Suc.prems in simp)
      then have "F64 (reduce (push_bit (64 + Suc j) 1)) = f64_g * F64 (reduce (push_bit (64 + j) 1))"
        by (simp add: mul_by_g_xt [symmetric] mul_by_g_times del: push_bit_of_1)
      then show ?case using Suc by (simp add: mult.assoc)
    qed
    ultimately have "F64 (reduce (push_bit (64 + j) 1)) = F64 (mulw (push_bit j 1) R64)" by (rule trans [OF _ sym, rotated])
    then show ?thesis by (rule f64.inject [THEN iffD1])
  qed
  consider "i < 64" | j where "i = 64 + j" "j < 64"
    using \<open>i < LENGTH(128)\<close> by atomize_elim (auto intro!: exI [of _ "i - 64"])
  then show "reduce (push_bit i 1) = ucast (push_bit i 1 :: 128 word) XOR mulw (hi64 (push_bit i 1)) R64"
  proof cases
    case 1
    then have "hi64 (push_bit i 1) = 0"
      by (intro hi64_small) (auto simp: bit_simps)
    moreover have "ucast (push_bit i 1 :: 128 word) = (push_bit i 1 :: 64 word)"
      using 1 by (intro bit_word_eqI) (auto simp: bit_simps)
    ultimately show ?thesis using 1
      by (simp only: reduce_monomial_low xor_linear_zero [OF xor_linear_mulw_left]) simp
  next
    case 2
    then have "hi64 (push_bit i 1) = push_bit j 1" "ucast (push_bit i 1 :: 128 word) = (0 :: 64 word)"
      by (auto intro!: bit_word_eqI simp: hi64_def bit_simps)
    then show ?thesis using 2 high [of j] by (simp only:) simp
  qed
qed

lemma bit_clmul_R64:
  "bit (clmul a R64) n \<Longrightarrow>
     bit a n \<or> bit a (n - 1) \<or> bit a (n - 3) \<or> bit a (n - 4)"
  unfolding clmul_R64 bit_xor_iff bit_push_bit_iff bit_unsigned_iff by auto

lemma hi64_clmul_R64_bits: "bit (hi64 (clmul a R64)) n \<Longrightarrow> n < 4"
  using bit_clmul_R64 [of a "64 + n"] by (auto simp: hi64_def bit_simps dest!: bit_imp_le_length)

lemma reduce_double_fold:
  "reduce p = ucast (p XOR clmul (hi64 p) R64 XOR clmul (hi64 (clmul (hi64 p) R64)) R64)"
proof -
  let ?t = "clmul (hi64 p) R64" and ?u = "clmul (hi64 (clmul (hi64 p) R64)) R64"
  have "hi64 ?u = 0"
    by (rule hi64_small) (auto dest!: bit_clmul_R64 hi64_clmul_R64_bits)
  then have "reduce ?u = ucast ?u"
    by (simp add: reduce_hi_R64 [of ?u] xor_linear_zero [OF xor_linear_mulw_left])
  then have "reduce ?t = ucast ?t XOR ucast ?u"
    by (simp only: reduce_hi_R64 [of ?t] reduce_clmul [symmetric])
  then have "reduce p = ucast p XOR (ucast ?t XOR ucast ?u)"
    by (simp only: reduce_hi_R64 [of p] reduce_clmul [symmetric])
  then show ?thesis by (simp add: xor_push ac_simps)
qed


lemma x86_mul_eq: "x86_mul a b = reduce (clmul a b)"
  by (simp only: x86_mul_def Let_def reduce_double_fold [symmetric])

lemma reduce_pair_pmull4_eq: "reduce_pair_pmull4 p q = (reduce p, reduce q)"
  by (simp only: reduce_pair_pmull4_def Let_def reduce_double_fold [symmetric])

section \<open>Evaluation on numerals\<close>

text \<open>
  The reduction of a polynomial given as a nonnegative integer, with the shift by
  64 positions done one binary digit at a time.
\<close>

definition shr1 :: "int \<Rightarrow> int" where "shr1 x = x div 2"

lemma shr1_num [field_eval]:
  "shr1 0 = 0" "shr1 1 = 0" "shr1 (numeral (num.Bit0 n)) = numeral n" "shr1 (numeral (num.Bit1 n)) = numeral n"
  by (simp_all add: shr1_def)

definition shr8 :: "int \<Rightarrow> int" where
  "shr8 x = shr1 (shr1 (shr1 (shr1 (shr1 (shr1 (shr1 (shr1 x)))))))"

definition shr64 :: "int \<Rightarrow> int" where
  "shr64 x = shr8 (shr8 (shr8 (shr8 (shr8 (shr8 (shr8 (shr8 x)))))))"

lemma shr64_drop_bit: "shr64 x = drop_bit 64 x"
  by (simp add: shr64_def shr8_def shr1_def drop_bit_eq_div flip: zdiv_zmult2_eq)

definition red_int :: "int \<Rightarrow> int" where
  "red_int p =
    (let h = shr64 p; t = h XOR (2 * h XOR (8 * h XOR 16 * h));
         k = shr64 t; u = k XOR (2 * k XOR (8 * k XOR 16 * k))
     in (p XOR 18446744073709551616 * h) XOR ((t XOR 18446744073709551616 * k) XOR u))"

lemma word_of_int_xor:
  "(word_of_int (a XOR b) :: 'a::len word) = word_of_int a XOR word_of_int b"
  by (rule bit_word_eqI) (simp add: bit_simps)

lemma word_of_int_times_pow:
  "(word_of_int (2 ^ n * x) :: 'a::len word) = push_bit n (word_of_int x)"
  by (rule bit_word_eqI) (auto simp: bit_simps push_bit_eq_mult [symmetric] mult.commute [of "2 ^ n"])

lemma ucast_word_of_int:
  assumes "\<And>i. bit x i \<Longrightarrow> i < LENGTH('a)"
  shows "(ucast (word_of_int x :: 'a::len word) :: 'b::len word) = word_of_int x"
  by (rule bit_word_eqI) (use assms in \<open>auto simp: bit_simps\<close>)

lemma ucast_down_word_of_int:
  "LENGTH('b) \<le> LENGTH('a) \<Longrightarrow> (ucast (word_of_int x :: 'a::len word) :: 'b::len word) = word_of_int x"
  by (rule bit_word_eqI) (auto simp: bit_simps)

lemma hi64_word_of_int: "hi64 (word_of_int x) = word_of_int (shr64 x)"
  by (rule bit_word_eqI) (auto simp: hi64_def shr64_drop_bit bit_simps)

lemma clmul_R64_word_of_int:
  assumes "\<And>i. bit x i \<Longrightarrow> i < 64"
  shows "clmul (word_of_int x) R64 = word_of_int (x XOR (2 * x XOR (8 * x XOR 16 * x)))"
proof -
  have "(ucast (word_of_int x :: 64 word) :: 128 word) = word_of_int x"
    by (rule ucast_word_of_int) (use assms in simp)
  moreover have "(word_of_int (2 * x) :: 128 word) = push_bit 1 (word_of_int x)"
    "(word_of_int (8 * x) :: 128 word) = push_bit 3 (word_of_int x)"
    "(word_of_int (16 * x) :: 128 word) = push_bit 4 (word_of_int x)"
    using word_of_int_times_pow [of 1 x, where 'a = 128] word_of_int_times_pow [of 3 x, where 'a = 128]
      word_of_int_times_pow [of 4 x, where 'a = 128]
    by (simp_all del: of_int_mult push_bit_Suc One_nat_def)
  ultimately show ?thesis
    by (simp only: clmul_R64 word_of_int_xor ac_simps)
qed

lemma word_of_int_times_2_64: "(word_of_int (18446744073709551616 * x) :: 64 word) = 0"
  using word_of_int_times_pow [of 64 x, where 'a = 64]
  by (simp del: of_int_mult)

lemma bit_int_R64:
  assumes "bit (x XOR (2 * x XOR (8 * x XOR 16 * x)) :: int) n"
  shows "bit x n \<or> bit x (n - 1) \<or> bit x (n - 3) \<or> bit x (n - 4)"
proof -
  have "bit (2 * x) n \<Longrightarrow> bit x (n - 1)" "bit (8 * x) n \<Longrightarrow> bit x (n - 3)"
    "bit (16 * x) n \<Longrightarrow> bit x (n - 4)"
    using bit_push_bit_iff [of 1 x n] bit_push_bit_iff [of 3 x n] bit_push_bit_iff [of 4 x n]
    by (simp_all add: push_bit_eq_mult mult.commute)
  then show ?thesis using assms unfolding bit_xor_iff by blast
qed

lemma reduce_red_int:
  assumes "0 \<le> p" "p < 2 ^ 128"
  shows "reduce (word_of_int p) = word_of_int (red_int p)"
proof -
  let ?h = "shr64 p"
  let ?t = "?h XOR (2 * ?h XOR (8 * ?h XOR 16 * ?h))"
  let ?k = "shr64 ?t"
  have p: "bit p i \<Longrightarrow> i < 128" for i
    using assms bit_take_bit_iff [of 128 p i] by (simp add: take_bit_int_eq_self)
  have h: "bit ?h i \<Longrightarrow> i < 64" for i
    using p [of "64 + i"] by (simp add: shr64_drop_bit bit_drop_bit_eq)
  have t: "clmul (hi64 (word_of_int p)) R64 = word_of_int ?t"
    by (simp only: hi64_word_of_int clmul_R64_word_of_int [OF h])
  have "bit ?k i \<Longrightarrow> i < 64" for i
  proof -
    assume "bit ?k i"
    then have "bit ?t (64 + i)" by (simp only: shr64_drop_bit bit_drop_bit_eq comp_def)
    then show "i < 64" using bit_int_R64 [of ?h "64 + i"] h by fastforce
  qed
  then have u: "clmul (hi64 (word_of_int ?t)) R64 = word_of_int (?k XOR (2 * ?k XOR (8 * ?k XOR 16 * ?k)))"
    by (simp only: hi64_word_of_int clmul_R64_word_of_int)
  show ?thesis
    unfolding reduce_double_fold t u
    by (simp add: red_int_def Let_def word_of_int_xor ucast_xor ucast_down_word_of_int
        word_of_int_times_2_64 del: of_int_mult)
qed

lemma reduce_numeral:
  "numeral n < (2 ^ 128 :: int) \<Longrightarrow> reduce (numeral n) = word_of_int (red_int (numeral n))"
  using reduce_red_int [of "numeral n"] by simp

lemma f64_square_eval: "numeral (spread_num n) < (2 ^ 128 :: int) \<Longrightarrow>
  F64 (numeral n) ^ 2 = F64 (word_of_int (red_int (numeral (spread_num n))))"
  by (simp only: f64_square_numeral reduce_numeral)

lemmas f64_eval = f64_square_eval red_int_def shr64_def shr8_def shr1_num spread_num.simps Let_def


definition g_square :: "f64 \<Rightarrow> f64" where
  "g_square a = f64_g * a ^ 2"

lemma g_square_eval:
  assumes "numeral (num.Bit0 (spread_num n)) < (2 ^ 128 :: int)"
  shows "g_square (F64 (numeral n)) = F64 (word_of_int (red_int (numeral (num.Bit0 (spread_num n)))))"
proof -
  let ?p = "numeral (spread_num n) :: 128 word"
  have "\<not> bit ?p 127" by (simp add: bit_clmul_square flip: clmul_square_numeral)
  then have "reduce (push_bit 1 ?p) = xt (reduce ?p)" by (rule reduce_push)
  moreover have "push_bit 1 ?p = ?p + ?p"
    by (simp add: push_bit_eq_mult mult_2_right del: numeral_plus_numeral)
  then have "push_bit 1 ?p = numeral (num.Bit0 (spread_num n))"
    by (simp only: numeral_Bit0)
  ultimately show ?thesis
    using reduce_numeral [OF assms]
    by (simp only: g_square_def f64_square_numeral mul_by_g_xt mul_by_g_times [symmetric])
qed

fun gpow_num :: "num \<Rightarrow> f64" where
  "gpow_num num.One = F64 2"
| "gpow_num (num.Bit0 n) = (gpow_num n) ^ 2"
| "gpow_num (num.Bit1 n) = g_square (gpow_num n)"

lemma g_power_numeral: "f64_g ^ numeral n = gpow_num n"
proof (induction n)
  case One
  then show ?case by (simp add: f64_g_def)
next
  case (Bit0 n)
  have "f64_g ^ numeral (num.Bit0 n) = f64_g ^ (numeral n + numeral n)" by (simp only: numeral_Bit0)
  also have "\<dots> = gpow_num n * gpow_num n" by (simp only: power_add Bit0)
  finally show ?case by (simp only: gpow_num.simps power2_eq_square)
next
  case (Bit1 n)
  have "f64_g ^ numeral (num.Bit1 n) = f64_g ^ (numeral n + numeral n + 1)" by (simp only: numeral_Bit1)
  also have "\<dots> = f64_g * (gpow_num n * gpow_num n)"
    by (simp only: power_add Bit1 power_one_right mult.commute)
  finally show ?case by (simp only: gpow_num.simps g_square_def power2_eq_square)
qed

definition order_factors :: "nat list" where
  "order_factors = [3, 5, 17, 257, 641, 65537, 6700417]"

lemmas gpow_eval = gpow_num.simps g_square_eval f64_eval one_f64_def

lemma g_cofactor_3: "f64_g ^ 6148914691236517205 \<noteq> 1"
  by (simp add: g_power_numeral gpow_eval cong: let_weak_cong)

lemma g_cofactor_5: "f64_g ^ 3689348814741910323 \<noteq> 1"
  by (simp add: g_power_numeral gpow_eval cong: let_weak_cong)

lemma g_cofactor_17: "f64_g ^ 1085102592571150095 \<noteq> 1"
  by (simp add: g_power_numeral gpow_eval cong: let_weak_cong)

lemma g_cofactor_257: "f64_g ^ 71777214294589695 \<noteq> 1"
  by (simp add: g_power_numeral gpow_eval cong: let_weak_cong)

lemma g_cofactor_641: "f64_g ^ 28778071877862015 \<noteq> 1"
  by (simp add: g_power_numeral gpow_eval cong: let_weak_cong)

lemma g_cofactor_65537: "f64_g ^ 281470681808895 \<noteq> 1"
  by (simp add: g_power_numeral gpow_eval cong: let_weak_cong)

lemma g_cofactor_6700417: "f64_g ^ 2753074036095 \<noteq> 1"
  by (simp add: g_power_numeral gpow_eval cong: let_weak_cong)

lemma g_cofactor_powers: "\<forall>q\<in>set order_factors. f64_g ^ ((2 ^ 64 - 1) div q) \<noteq> 1"
proof -
  have "\<forall>q\<in>set order_factors. f64_g ^ (18446744073709551615 div q) \<noteq> 1"
    unfolding order_factors_def list.simps ball_simps
    by (simp, intro conjI TrueI g_cofactor_3 g_cofactor_5 g_cofactor_17 g_cofactor_257 g_cofactor_641
        g_cofactor_65537 g_cofactor_6700417)
  then show ?thesis by simp
qed

section \<open>The order of \<open>g\<close>\<close>

text \<open>\<open>all_below P d n\<close> checks the \<open>n\<close> numbers from \<open>d\<close> by bisection.\<close>

fun all_below :: "(nat \<Rightarrow> bool) \<Rightarrow> nat \<Rightarrow> num \<Rightarrow> bool" where
  "all_below P d num.One = P d"
| "all_below P d (num.Bit0 n) = (all_below P d n \<and> all_below P (d + numeral n) n)"
| "all_below P d (num.Bit1 n) = (P d \<and> all_below P (d + 1) n \<and> all_below P (d + 1 + numeral n) n)"

lemma all_below_weak_cong: "d = d' \<Longrightarrow> all_below P d n = all_below P d' n"
  by simp

lemma all_below_iff: "all_below P d n \<longleftrightarrow> (\<forall>i. d \<le> i \<and> i < d + numeral n \<longrightarrow> P i)"
proof (induction P d n rule: all_below.induct)
  case (1 P d)
  then show ?case by (auto simp: less_Suc_eq_le)
next
  case (2 P d n)
  have "(d \<le> i \<and> i < d + numeral (num.Bit0 n)) \<longleftrightarrow>
     (d \<le> i \<and> i < d + numeral n) \<or> (d + numeral n \<le> i \<and> i < d + numeral n + numeral n)" for i
    unfolding numeral_Bit0 by linarith
  then show ?case using 2 by (simp del: numeral_Bit0) blast
next
  case (3 P d n)
  have "(d \<le> i \<and> i < d + numeral (num.Bit1 n)) \<longleftrightarrow> i = d \<or>
     (d + 1 \<le> i \<and> i < d + 1 + numeral n) \<or> (d + 1 + numeral n \<le> i \<and> i < d + 1 + numeral n + numeral n)" for i
    unfolding numeral_Bit1 by linarith
  then show ?case using 3 by (simp del: numeral_Bit1) blast
qed

definition prime_nat :: "nat \<Rightarrow> bool" where
  "prime_nat p \<longleftrightarrow> 1 < p \<and> (\<forall>d. d dvd p \<longrightarrow> d = 1 \<or> d = p)"

lemma prime_nat_boundI:
  assumes "1 < p" "p < m * m" "\<And>d. 1 < d \<Longrightarrow> d < m \<Longrightarrow> p mod d \<noteq> 0"
  shows "prime_nat p"
proof -
  have "d = 1 \<or> d = p" if "d dvd p" for d
  proof (rule ccontr)
    assume no: "\<not> (d = 1 \<or> d = p)"
    from that obtain e where e: "p = d * e" by auto
    with assms(1) have "d \<noteq> 0" "e \<noteq> 0" by (auto intro!: gr0I)
    moreover have "e \<noteq> 1" "d \<noteq> 1" using no e by auto
    ultimately have ge: "1 < d" "1 < e" by auto
    have "d < m \<or> e < m"
    proof (rule ccontr)
      assume "\<not> (d < m \<or> e < m)"
      then have "m * m \<le> d * e" by (intro mult_le_mono) auto
      with assms(2) e show False by simp
    qed
    with ge have "p mod d \<noteq> 0 \<or> p mod e \<noteq> 0" using assms(3) [of d] assms(3) [of e] by blast
    moreover have "p mod d = 0" "p mod e = 0" using e by auto
    ultimately show False by blast
  qed
  with assms(1) show ?thesis by (simp add: prime_nat_def)
qed

lemma prime_natI:
  assumes "1 < p" "p < (numeral n + 2) * (numeral n + 2)" "all_below (\<lambda>d. p mod d \<noteq> 0) 2 n"
  shows "prime_nat p"
proof (rule prime_nat_boundI [OF assms(1,2)])
  fix d :: nat assume "1 < d" "d < numeral n + 2"
  then have "2 \<le> d \<and> d < 2 + numeral n" by linarith
  with assms(3) show "p mod d \<noteq> 0" unfolding all_below_iff by blast
qed

lemma prime_nat_wheelI:
  assumes "1 < p" "p < (30 * numeral n) * (30 * numeral n)" "odd p" "p mod 3 \<noteq> 0" "p mod 5 \<noteq> 0"
    and all: "all_below (\<lambda>k. list_all (\<lambda>r. p mod (30 * k + r) \<noteq> 0) [7, 11, 13, 17, 19, 23, 29, 31]) 0 n"
  shows "prime_nat p"
proof -
  define m where "m = (numeral n :: nat)"
  have "p mod d \<noteq> 0" if d: "1 < d" "d < 30 * m" for d
  proof
    assume "p mod d = 0"
    then have "d dvd p" by auto
    with assms(3-5) have "odd d" "d mod 3 \<noteq> 0" "d mod 5 \<noteq> 0"
      by (metis dvd_trans mod_eq_0_iff_dvd)+
    then have "d mod 30 \<in> {1, 7, 11, 13, 17, 19, 23, 29}"
      unfolding insert_iff empty_iff by presburger
    then have "\<exists>k r. d = 30 * k + r \<and> k < m \<and> r \<in> {7, 11, 13, 17, 19, 23, 29, 31}"
    proof (cases "d mod 30 = 1")
      case True
      define k where "k = d div 30"
      have "d = 30 * k + 1" using True mult_div_mod_eq [of 30 d] by (simp add: k_def)
      with d have "d = 30 * (k - 1) + 31" "k - 1 < m" by (cases k; simp)+
      then show ?thesis by blast
    next
      case False
      moreover have "d = 30 * (d div 30) + d mod 30" "d div 30 < m" using d by simp_all
      ultimately show ?thesis using \<open>d mod 30 \<in> _\<close> by blast
    qed
    with all \<open>p mod d = 0\<close> show False by (auto simp: all_below_iff m_def)
  qed
  with prime_nat_boundI [of p "30 * m"] assms(1,2) show ?thesis unfolding m_def by blast
qed

lemma prime_6700417: "prime_nat 6700417"
  by (rule prime_nat_wheelI [where n = "num.Bit1 (num.Bit1 (num.Bit1 (num.Bit0 (num.Bit1 (num.Bit0 num.One)))))"])
    (simp_all cong: all_below_weak_cong)



section \<open>The field\<close>

lemma f64_mul_times: "f64_mul a b = a * b"
  by (simp add: times_f64_def)

lemma f64_square_funpow: "(f64_square ^^ n) a = a ^ (2 ^ n)"
  by (induction n) (simp_all add: f64_square_power mult.commute flip: power_mult)

lemma f64_inv_power: "f64_inv a = a ^ (2 ^ 64 - 2)"
proof -
  have *: "(a ^ m) ^ (2 ^ k) * a ^ n = a ^ (m * 2 ^ k + n)" for m k n
    by (simp flip: power_mult power_add)
  have "a ^ (2 ^ 1) * a = a ^ 3" using * [of 1 1 1] by simp
  moreover have "(a ^ 3) ^ (2 ^ 1) * a = a ^ 7" using * [of 3 1 1] by simp
  moreover have "(a ^ 7) ^ (2 ^ 3) * a ^ 7 = a ^ 63" using * [of 7 3 7] by simp
  moreover have "(a ^ 63) ^ (2 ^ 6) * a ^ 63 = a ^ 4095" using * [of 63 6 63] by simp
  moreover have "(a ^ 4095) ^ (2 ^ 12) * a ^ 4095 = a ^ 16777215" using * [of 4095 12 4095] by simp
  moreover have "(a ^ 16777215) ^ (2 ^ 24) * a ^ 16777215 = a ^ 281474976710655" using * [of 16777215 24 16777215] by simp
  moreover have "(a ^ 281474976710655) ^ (2 ^ 12) * a ^ 4095 = a ^ 1152921504606846975" using * [of 281474976710655 12 4095] by simp
  moreover have "(a ^ 1152921504606846975) ^ (2 ^ 3) * a ^ 7 = a ^ 9223372036854775807" using * [of 1152921504606846975 3 7] by simp
  moreover have "(a ^ 9223372036854775807) ^ (2 ^ 1) = a ^ (2 ^ 64 - 2)" by (simp flip: power_mult)
  ultimately show ?thesis
    by (simp only: f64_inv_def Let_def f64_square_funpow f64_mul_times)
qed

instantiation f64 :: field
begin

definition "inverse a = f64_inv a"
definition "a div b = a * f64_inv (b :: f64)"

instance
proof
  fix a b :: f64
  show "inverse a * a = 1" if "a \<noteq> 0"
  proof -
    have "inverse a * a = a ^ (2 ^ 64 - 1)"
      by (simp add: inverse_f64_def f64_inv_power flip: power_Suc2)
    then show ?thesis using f64_fermat [OF that] by simp
  qed
  show "a div b = a * inverse b" by (simp add: divide_f64_def inverse_f64_def)
  show "inverse (0 :: f64) = 0" by (simp add: inverse_f64_def f64_inv_power)
qed

end

lemma prime_order_factors: "\<forall>q\<in>set order_factors. prime_nat q"
proof -
  have "prime_nat 3" "prime_nat 5" "prime_nat 17" "prime_nat 257" "prime_nat 641" "prime_nat 65537"
    by (rule prime_natI [where n = num.One] prime_natI [where n = "num.Bit1 (num.Bit1 num.One)"]
        prime_natI [where n = "num.Bit1 (num.Bit1 (num.Bit1 (num.Bit1 num.One)))"]
        prime_natI [where n = "num.Bit1 (num.Bit1 (num.Bit1 (num.Bit1 (num.Bit1 (num.Bit1 (num.Bit1 num.One))))))"];
       simp cong: all_below_weak_cong; fail)+
  then show ?thesis by (simp add: order_factors_def prime_6700417)
qed

lemma prime_nat_dvd_prod_list:
  assumes "prime_nat p" "p dvd prod_list qs" "\<forall>q\<in>set qs. prime_nat q"
  shows "p \<in> set qs"
  using assms(2,3)
proof (induction qs)
  case Nil
  then show ?case using assms(1) by (simp add: prime_nat_def)
next
  case (Cons q qs)
  show ?case
  proof (cases "gcd p q = 1")
    case True
    then have "p dvd prod_list qs"
      using Cons.prems(1) by (simp add: coprime_dvd_mult_right_iff coprime_iff_gcd_eq_1)
    then show ?thesis using Cons by simp
  next
    case False
    have "gcd p q = p" "gcd p q = q"
      using False assms(1) Cons.prems(2) gcd_dvd1 [of p q] gcd_dvd2 [of p q]
      unfolding prime_nat_def by (metis list.set_intros(1))+
    then show ?thesis by simp
  qed
qed

lemma prime_nat_divisor: "1 < n \<Longrightarrow> \<exists>p. prime_nat p \<and> p dvd n"
proof (induction n rule: less_induct)
  case (less n)
  show ?case
  proof (cases "prime_nat n")
    case False
    then obtain d where d: "d dvd n" "d \<noteq> 1" "d \<noteq> n" using less.prems by (auto simp: prime_nat_def)
    then have "d \<le> n" "d \<noteq> 0" using less.prems by (auto simp: dvd_imp_le)
    with d have "d < n" "1 < d" by auto
    with less.IH [of d] d show ?thesis by (meson dvd_trans)
  qed auto
qed

lemma power_gcd_eq_1:
  assumes "(x :: f64) ^ m = 1" "x ^ n = 1" shows "x ^ gcd m n = 1"
  using assms
proof (induction m n rule: gcd_nat_induct)
  case (step m n)
  have "x ^ m = x ^ (n * (m div n)) * x ^ (m mod n)" by (simp flip: power_add)
  then have "x ^ (m mod n) = 1" using step.prems by (simp add: power_mult)
  then show ?case using step.IH step.prems gcd_red_nat [of m n] by simp
qed simp

lemma f64_g_nonzero: "f64_g \<noteq> 0"
  by (simp add: f64_g_def zero_f64_def)

lemma g_power_nontrivial:
  assumes "0 < e" "e < 2 ^ 64 - 1" shows "f64_g ^ e \<noteq> 1"
proof
  define N where "N = (2 ^ 64 - 1 :: nat)"
  assume "f64_g ^ e = 1"
  moreover have "f64_g ^ N = 1" unfolding N_def by (rule f64_fermat [OF f64_g_nonzero])
  ultimately have d: "f64_g ^ gcd e N = 1" by (rule power_gcd_eq_1)
  define m where "m = gcd e N"
  have "m \<le> e" using assms(1) by (simp add: gcd_le1_nat m_def)
  have "m \<noteq> 0" using assms(1) by (simp add: m_def)
  obtain k where k: "N = m * k" by (metis dvdE gcd_dvd2 m_def)
  have "k \<noteq> 0" using k by (cases k) (simp_all add: N_def)
  moreover have "k \<noteq> 1" using k assms(2) \<open>m \<le> e\<close> by (auto simp: N_def)
  ultimately obtain q where q: "prime_nat q" "q dvd k" using prime_nat_divisor [of k] by auto
  have "N = prod_list order_factors" by (simp add: order_factors_def N_def)
  moreover have "q dvd N" using q(2) k by simp
  ultimately have mem: "q \<in> set order_factors"
    using prime_nat_dvd_prod_list [OF q(1)] prime_order_factors by metis
  obtain j where j: "k = q * j" using q(2) by blast
  have "N div q = m * j" using k j q(1) by (simp add: prime_nat_def)
  then have "f64_g ^ (N div q) = 1" using d by (simp add: power_mult m_def)
  with mem g_cofactor_powers show False unfolding N_def by blast
qed

lemma g_power_inj:
  assumes "i < 2 ^ 64 - 1" "j < 2 ^ 64 - 1" "f64_g ^ i = f64_g ^ j" shows "i = j"
proof -
  have *: "i = j" if "i \<le> j" "j < 2 ^ 64 - 1" "f64_g ^ i = f64_g ^ j" for i j
  proof (rule ccontr)
    assume "i \<noteq> j"
    have "f64_g ^ (i + (j - i)) = f64_g ^ i * f64_g ^ (j - i)" by (rule power_add)
    moreover have "i + (j - i) = j" using that(1) by simp
    ultimately have "f64_g ^ i * 1 = f64_g ^ i * f64_g ^ (j - i)"
      using that(3) by (simp only: mult_1_right)
    then have "f64_g ^ (j - i) = 1" using f64_g_nonzero by simp
    moreover have "0 < j - i" using that(1) \<open>i \<noteq> j\<close> by simp
    moreover have "j - i < 2 ^ 64 - 1" using that(2) by linarith
    ultimately show False using g_power_nontrivial [of "j - i"] by blast
  qed
  show ?thesis
  proof (cases "i \<le> j")
    case True
    then show ?thesis by (rule * [OF _ assms(2,3)])
  next
    case False
    then have "j \<le> i" by simp
    from * [OF this assms(1) assms(3) [symmetric]] show ?thesis by (rule sym)
  qed
qed

section \<open>Powers of the generator\<close>

text \<open>\<^verbatim>\<open>g_pow\<close>: square and multiply; each round halves the exponent.\<close>

function g_pow_loop :: "f64 \<Rightarrow> f64 \<Rightarrow> nat \<Rightarrow> f64" where
  "g_pow_loop result base e =
    (if 0 < e
     then g_pow_loop (if e AND 1 = 1 then f64_mul result base else result)
            (f64_mul base base) (drop_bit 1 e)
     else result)"
  by auto
termination
  by (relation "measure (\<lambda>(_, _, e). e)") (auto simp: drop_bit_Suc)

declare g_pow_loop.simps [simp del]

definition g_pow :: "nat \<Rightarrow> f64" where
  "g_pow i = g_pow_loop (F64 1) f64_g i"

lemma g_pow_loop_eq: "g_pow_loop r b e = r * b ^ e"
proof (induction r b e rule: g_pow_loop.induct)
  case (1 r b e)
  show ?case
  proof (cases "e = 0")
    case True
    then show ?thesis by (simp add: g_pow_loop.simps)
  next
    case False
    have half: "drop_bit (Suc 0) e = e div 2" by (simp add: drop_bit_Suc)
    have odd: "e AND 1 = 1 \<longleftrightarrow> odd e" by (simp add: and_one_eq odd_iff_mod_2_eq_one)
    have "b ^ e = (b * b) ^ (e div 2) * (if odd e then b else 1)"
      by (cases "odd e") (auto elim!: oddE evenE simp: power_mult power2_eq_square)
    then show ?thesis
      using 1 False
      by (cases "odd e") (simp_all add: g_pow_loop.simps [of r b e] half odd f64_mul_times ac_simps
        odd_iff_mod_2_eq_one)
  qed
qed

lemma g_pow_power: "g_pow i = f64_g ^ i"
  by (simp add: g_pow_def g_pow_loop_eq flip: one_f64_def)

text \<open>\<^verbatim>\<open>g_powers\<close>: chunks of \<open>2^12\<close> entries, each seeded by \<^verbatim>\<open>g_pow\<close> and filled by \<^verbatim>\<open>mul_by_g\<close>.\<close>

primrec fill_chunk :: "nat \<Rightarrow> f64 \<Rightarrow> f64 list" where
  "fill_chunk 0 acc = []"
| "fill_chunk (Suc len) acc = acc # fill_chunk len (mul_by_g acc)"

definition g_powers :: "nat \<Rightarrow> f64 list" where
  "g_powers n =
    (let chunk = 4096
     in concat (map (\<lambda>ci. fill_chunk (min chunk (n - ci * chunk)) (g_pow (ci * chunk)))
          [0..<(n + chunk - 1) div chunk]))"

lemma fill_chunk_eq: "fill_chunk len (f64_g ^ k) = map (\<lambda>i. f64_g ^ i) [k..<k + len]"
proof (induction len arbitrary: k)
  case (Suc len)
  have "mul_by_g (f64_g ^ k) = f64_g ^ Suc k" by (simp add: mul_by_g_times)
  moreover have "[k..<k + Suc len] = k # [Suc k..<Suc k + len]"
    by (subst upt_conv_Cons) simp_all
  ultimately show ?case using Suc [of "Suc k"] by (simp only: fill_chunk.simps list.map)
qed simp

lemma concat_chunks:
  assumes "0 < c"
  shows "concat (map (\<lambda>ci. [ci * c..<ci * c + min c (n - ci * c)]) [0..<m]) = [0..<min n (m * c)]"
proof (induction m)
  case (Suc m)
  have "[0..<min n (m * c)] @ [m * c..<m * c + min c (n - m * c)] = [0..<min n (Suc m * c)]"
  proof (cases "n \<le> m * c")
    case False
    have "[0..<m * c + min c (n - m * c)] = [0..<m * c] @ [m * c..<m * c + min c (n - m * c)]"
      using upt_add_eq_append [of 0 "m * c"] by simp
    moreover have "min n (Suc m * c) = m * c + min c (n - m * c)" using False by auto
    ultimately show ?thesis using False by simp
  qed simp
  then show ?case using Suc by simp
qed simp

lemma g_powers_eq: "g_powers n = map (\<lambda>i. f64_g ^ i) [0..<n]"
proof -
  have "n \<le> (n + 4095) div 4096 * 4096"
    using div_mult_mod_eq [of "n + 4095" 4096] mod_less_divisor [of 4096 "n + 4095"] by linarith
  then have "[0..<n] = concat (map (\<lambda>ci. [ci * 4096..<ci * 4096 + min 4096 (n - ci * 4096)])
      [0..<(n + 4095) div 4096])"
    by (subst concat_chunks) (simp_all add: min_absorb1)
  then have "map (\<lambda>i. f64_g ^ i) [0..<n] = concat (map (\<lambda>ci. map (\<lambda>i. f64_g ^ i)
      [ci * 4096..<ci * 4096 + min 4096 (n - ci * 4096)]) [0..<(n + 4095) div 4096])"
    by (simp only: map_concat map_map comp_def)
  then show ?thesis
    by (simp add: g_powers_def g_pow_power fill_chunk_eq add.commute)
qed



lemma bit_pdep_mask: "n < 64 \<Longrightarrow> bit (0x5555555555555555 :: 64 word) n \<longleftrightarrow> even n"
proof -
  have "list_all (\<lambda>n. bit (0x5555555555555555 :: 64 word) n \<longleftrightarrow> even n) [0..<64]"
    by (simp add: field_eval cong: list_all_weak_cong)
  then show "n < 64 \<Longrightarrow> bit (0x5555555555555555 :: 64 word) n \<longleftrightarrow> even n"
    by (simp add: list_all_iff)
qed

lemma pdep_fold:
  assumes "n \<le> 32"
  shows "fold (\<lambda>i (k, acc). if bit (0x5555555555555555 :: 64 word) i
        then (Suc k, if bit src k then acc OR push_bit i 1 else acc) else (k, acc)) [0..<2 * n] (0, 0 :: 64 word)
     = (n, xsum (\<lambda>k. if bit src k then push_bit (2 * k) 1 else 0) n)"
  using assms
proof (induction n)
  case (Suc n)
  let ?x = "xsum (\<lambda>k. if bit src k then push_bit (2 * k) 1 else 0) n :: 64 word"
  have "[0..<2 * Suc n] = [0..<2 * n] @ [2 * n, Suc (2 * n)]" by simp
  moreover have "bit (0x5555555555555555 :: 64 word) (2 * n)" "\<not> bit (0x5555555555555555 :: 64 word) (Suc (2 * n))"
    using Suc.prems bit_pdep_mask [of "2 * n"] bit_pdep_mask [of "Suc (2 * n)"] by auto
  moreover have "?x OR push_bit (2 * n) 1 = ?x XOR push_bit (2 * n) 1"
    by (rule bit_word_eqI) (auto simp: bit_simps bit_xsum_even_monomials simp del: push_bit_of_1)
  ultimately show ?case using Suc by (simp del: push_bit_of_1 upt_Suc)
qed simp

lemma pdep_even:
  "pdep src 0x5555555555555555 = xsum (\<lambda>k. if bit src k then push_bit (2 * k) 1 else 0) 32"
  using pdep_fold [of 32 src] by (simp add: pdep_def)

lemma x86_spread_eq: "x86_spread a = clmul a a"
proof (rule bit_word_eqI)
  fix n assume n: "n < LENGTH(128)"
  have half: "64 \<le> n \<Longrightarrow> 32 + (n - 64) div 2 = n div 2" by linarith
  show "bit (x86_spread a) n \<longleftrightarrow> bit (clmul a a) n"
    using n bit_imp_le_length [of a "n div 2"] half
    by (auto simp: x86_spread_def Let_def pdep_even bit_simps bit_xsum_even_monomials bit_clmul_square)
qed

section \<open>Properties\<close>


text \<open>C21: the generator has the full multiplicative order, so indices below the order have distinct powers and
  the square-and-multiply routine collides exactly on indices congruent modulo that order.\<close>
theorem g_pow_collides_iff: "g_pow i = g_pow j \<longleftrightarrow> i mod (2 ^ 64 - 1) = j mod (2 ^ 64 - 1)"
proof -
  let ?N = "2 ^ 64 - 1 :: nat"
  have nz: "f64_g ^ ?N = 1" by (rule f64_fermat) (rule f64_g_nonzero)
  have red: "f64_g ^ k = f64_g ^ (k mod ?N)" for k
  proof -
    have "f64_g ^ k = f64_g ^ (?N * (k div ?N) + k mod ?N)" by simp
    also have "\<dots> = f64_g ^ (k mod ?N)" by (simp only: power_add power_mult nz power_one mult_1_left)
    finally show ?thesis .
  qed
  have lt: "k mod ?N < ?N" for k by (rule mod_less_divisor) simp
  show ?thesis
    using g_power_inj [OF lt lt, of i j] red [of i] red [of j] unfolding g_pow_power by metis
qed

end
