(* ===== verification/GF192.thy ===== *)
theory GF192
  imports GF64
begin

text \<open>
  The extension field \<open>E = K[y] / (y^3 + y + 1)\<close> of
  \<^verbatim>\<open>primitives/src/field/gf2_64x3.rs\<close>: elements, the deferred-reduction
  accumulator, the schoolbook and Karatsuba products with their vector kernels,
  squaring, Frobenius, inversion through the norm, and the batched mixed products.
\<close>

section \<open>Elements\<close>

datatype f192 = F192 (coeff0: "64 word") (coeff1: "64 word") (coeff2: "64 word")

definition f192_zero :: f192 where "f192_zero = F192 0 0 0"
definition f192_one :: f192 where "f192_one = F192 1 0 0"
definition f192_y :: f192 where "f192_y = F192 0 1 0"

definition f192_is_zero :: "f192 \<Rightarrow> bool" where
  "f192_is_zero a \<longleftrightarrow> coeff0 a = 0 \<and> coeff1 a = 0 \<and> coeff2 a = 0"

definition f192_add :: "f192 \<Rightarrow> f192 \<Rightarrow> f192" where
  "f192_add a b = F192 (coeff0 a XOR coeff0 b) (coeff1 a XOR coeff1 b) (coeff2 a XOR coeff2 b)"

definition f192_from :: "f64 \<Rightarrow> f192" where
  "f192_from k = F192 (raw64 k) 0 0"

section \<open>The deferred-reduction accumulator\<close>

text \<open>Each coefficient is its \<^verbatim>\<open>[low, high]\<close> words.\<close>

datatype f192u = F192U (u0: "64 word \<times> 64 word") (u1: "64 word \<times> 64 word") (u2: "64 word \<times> 64 word")

definition f192u_zero :: f192u where
  "f192u_zero = F192U (0, 0) (0, 0) (0, 0)"

definition split_wide :: "128 word \<Rightarrow> 64 word \<times> 64 word" where
  "split_wide c = (ucast c, ucast (drop_bit 64 c))"

definition join_wide :: "64 word \<times> 64 word \<Rightarrow> 128 word" where
  "join_wide c = push_bit 64 (ucast (snd c)) OR ucast (fst c)"

fun from_wide :: "128 word \<times> 128 word \<times> 128 word \<Rightarrow> f192u" where
  "from_wide (d0, d1, d2) = F192U (split_wide d0) (split_wide d1) (split_wide d2)"

fun f192u_reduce :: "f192u \<Rightarrow> f192" where
  "f192u_reduce (F192U d0 d1 d2) =
     F192 (reduce (join_wide d0)) (reduce (join_wide d1)) (reduce (join_wide d2))"

fun f192u_from :: "f192 \<Rightarrow> f192u" where
  "f192u_from (F192 a b c) = F192U (a, 0) (b, 0) (c, 0)"

fun f192u_bitxor :: "f192u \<Rightarrow> f192u \<Rightarrow> f192u" where
  "f192u_bitxor (F192U (a0, a0') (a1, a1') (a2, a2')) (F192U (b0, b0') (b1, b1') (b2, b2')) =
     F192U (a0 XOR b0, a0' XOR b0') (a1 XOR b1, a1' XOR b1') (a2 XOR b2, a2' XOR b2')"

section \<open>Products\<close>

text \<open>The portable schoolbook product: nine base products into five coefficients, then the y-fold.\<close>

definition software_mul_unreduced :: "f192 \<Rightarrow> f192 \<Rightarrow> f192u" where
  "software_mul_unreduced a b =
    (let av = [coeff0 a, coeff1 a, coeff2 a];
         bv = [coeff0 b, coeff1 b, coeff2 b];
         e = fold (\<lambda>i. fold (\<lambda>j e. e[i + j := e ! (i + j) XOR clmul (av ! i) (bv ! j)]) [0..<3])
               [0..<3] (replicate 5 0)
     in from_wide (e ! 0 XOR e ! 3, e ! 1 XOR e ! 3 XOR e ! 4, e ! 2 XOR e ! 4))"

definition software_mul :: "f192 \<Rightarrow> f192 \<Rightarrow> f192" where
  "software_mul a b = f192u_reduce (software_mul_unreduced a b)"

text \<open>
  The x86 kernel packs two coefficients per 128-bit register and picks one with
  the immediate of the carry-less multiply; \<open>sel\<close> reads the low or high qword.
\<close>

type_synonym xmm = "64 word \<times> 64 word"

definition xmm_xor :: "xmm \<Rightarrow> xmm \<Rightarrow> xmm" where
  "xmm_xor x y = (fst x XOR fst y, snd x XOR snd y)"

definition clmulepi64 :: "bool \<Rightarrow> bool \<Rightarrow> xmm \<Rightarrow> xmm \<Rightarrow> xmm" where
  "clmulepi64 hi_a hi_b x y =
     split_wide (clmul (if hi_a then snd x else fst x) (if hi_b then snd y else fst y))"

definition unpacklo :: "xmm \<Rightarrow> xmm \<Rightarrow> xmm" where
  "unpacklo x y = (fst x, fst y)"

definition unpackhi :: "xmm \<Rightarrow> xmm \<Rightarrow> xmm" where
  "unpackhi x y = (snd x, snd y)"

text \<open>Karatsuba recombination and y-fold in one step, for any register width.\<close>

definition kfold :: "'v \<Rightarrow> 'v \<Rightarrow> 'v \<Rightarrow> 'v \<Rightarrow> 'v \<Rightarrow> 'v \<Rightarrow> ('v \<Rightarrow> 'v \<Rightarrow> 'v) \<Rightarrow> 'v \<times> 'v \<times> 'v" where
  "kfold p0 p1 p2 p01 p02 p12 vx =
    (let q = vx p0 p12
     in (vx (vx q p1) p2, vx q p01, vx (vx p0 p1) p02))"

definition x86_karatsuba :: "f192 \<Rightarrow> f192 \<Rightarrow> xmm \<times> xmm \<times> xmm" where
  "x86_karatsuba a b =
    (let a01 = (coeff0 a, coeff1 a); b01 = (coeff0 b, coeff1 b);
         at = (coeff2 a, coeff0 a XOR coeff1 a); bt = (coeff2 b, coeff0 b XOR coeff1 b);
         a_s = xmm_xor a01 (unpacklo at at);
         b_s = xmm_xor b01 (unpacklo bt bt);
         p0 = clmulepi64 False False a01 b01;
         p1 = clmulepi64 True True a01 b01;
         p02 = clmulepi64 False False a_s b_s;
         p12 = clmulepi64 True True a_s b_s;
         p2 = clmulepi64 False False at bt;
         p01 = clmulepi64 True True at bt
     in kfold p0 p1 p2 p01 p02 p12 xmm_xor)"

definition x86_mul_unreduced :: "f192 \<Rightarrow> f192 \<Rightarrow> f192u" where
  "x86_mul_unreduced a b = (case x86_karatsuba a b of (d0, d1, d2) \<Rightarrow> F192U d0 d1 d2)"

definition x86_mul_base_unreduced :: "f192 \<Rightarrow> f64 \<Rightarrow> f192u" where
  "x86_mul_base_unreduced a k =
    (let a01 = (coeff0 a, coeff1 a);
         a2 = (coeff2 a, 0);
         kk = (raw64 k, 0)
     in F192U (clmulepi64 False False a01 kk) (clmulepi64 True False a01 kk)
          (clmulepi64 False False a2 kk))"

text \<open>The NEON kernel: five Karatsuba coefficients, the y-fold, and the double-fold reduction.\<close>

definition karatsuba_coeffs :: "f192 \<Rightarrow> f192 \<Rightarrow> 128 word list" where
  "karatsuba_coeffs a b =
    (let p0 = clmul (coeff0 a) (coeff0 b);
         p1 = clmul (coeff1 a) (coeff1 b);
         p2 = clmul (coeff2 a) (coeff2 b);
         p01 = clmul (coeff0 a XOR coeff1 a) (coeff0 b XOR coeff1 b);
         p02 = clmul (coeff0 a XOR coeff2 a) (coeff0 b XOR coeff2 b);
         p12 = clmul (coeff1 a XOR coeff2 a) (coeff1 b XOR coeff2 b);
         t01 = p0 XOR p1;
         t12 = p1 XOR p2
     in [p0, p01 XOR t01, p02 XOR p0 XOR t12, p12 XOR t12, p2])"

definition karatsuba_folded :: "f192 \<Rightarrow> f192 \<Rightarrow> 128 word \<times> 128 word \<times> 128 word" where
  "karatsuba_folded a b =
    (let c = karatsuba_coeffs a b
     in (c ! 0 XOR c ! 3, c ! 1 XOR c ! 3 XOR c ! 4, c ! 2 XOR c ! 4))"

definition base_reduce :: "128 word \<Rightarrow> 64 word" where
  "base_reduce d =
    (let t = clmul (hi64 d) R64;
         u = clmul (hi64 t) R64
     in ucast (d XOR t XOR u))"

definition mul_karatsuba :: "f192 \<Rightarrow> f192 \<Rightarrow> f192" where
  "mul_karatsuba a b =
    (case karatsuba_folded a b of (d0, d1, d2) \<Rightarrow>
       F192 (base_reduce d0) (base_reduce d1) (base_reduce d2))"

definition square_neon :: "f192 \<Rightarrow> f192" where
  "square_neon a =
    (let s0 = clmul (coeff0 a) (coeff0 a);
         s1 = clmul (coeff1 a) (coeff1 a);
         s2 = clmul (coeff2 a) (coeff2 a)
     in F192 (base_reduce s0) (base_reduce s2) (base_reduce (s1 XOR s2)))"

text \<open>The dispatched operations, on the portable path.\<close>

definition f192_mul_unreduced :: "f192 \<Rightarrow> f192 \<Rightarrow> f192u" where
  "f192_mul_unreduced a b = software_mul_unreduced a b"

definition f192_mul :: "f192 \<Rightarrow> f192 \<Rightarrow> f192" where
  "f192_mul a b = f192u_reduce (f192_mul_unreduced a b)"

definition mul_base_unreduced :: "f192 \<Rightarrow> f64 \<Rightarrow> f192u" where
  "mul_base_unreduced a k =
     from_wide (mul_wide (coeff0 a) (raw64 k), mul_wide (coeff1 a) (raw64 k), mul_wide (coeff2 a) (raw64 k))"

definition mul_base :: "f192 \<Rightarrow> f64 \<Rightarrow> f192" where
  "mul_base a k = f192u_reduce (mul_base_unreduced a k)"

definition f192_square :: "f192 \<Rightarrow> f192" where
  "f192_square a =
    (let s0 = square_wide (coeff0 a); s1 = square_wide (coeff1 a); s2 = square_wide (coeff2 a)
     in f192u_reduce (from_wide (s0, s2, s1 XOR s2)))"

definition frobenius :: "f192 \<Rightarrow> f192" where
  "frobenius a = F192 (coeff0 a) (coeff2 a) (coeff1 a XOR coeff2 a)"

definition f192_inv :: "f192 \<Rightarrow> f192" where
  "f192_inv a =
    (let m = f192_mul (frobenius a) (frobenius (frobenius a));
         norm = f192_mul a m
     in mul_base m (f64_inv (F64 (coeff0 norm))))"

definition mul_by_g_e :: "f192 \<Rightarrow> f192" where
  "mul_by_g_e a = F192 (raw64 (mul_by_g (F64 (coeff0 a)))) (raw64 (mul_by_g (F64 (coeff1 a))))
     (raw64 (mul_by_g (F64 (coeff2 a))))"

definition index_mle :: "f192 list \<Rightarrow> f192" where
  "index_mle zeta = fst (fold
     (\<lambda>z (acc, g2k). (f192_mul acc (f192_add f192_one (mul_base z (f64_add (F64 1) g2k))), f64_mul g2k g2k))
     zeta (f192_one, f64_g))"

section \<open>The product formulas\<close>

lemma join_split_wide [simp]: "join_wide (split_wide c) = c"
proof (rule bit_word_eqI)
  fix n assume "n < LENGTH(128)"
  then show "bit (join_wide (split_wide c)) n \<longleftrightarrow> bit c n"
    by (cases "n < 64") (auto simp: join_wide_def split_wide_def bit_simps)
qed

lemma split_wide_xor: "split_wide (c XOR d) = xmm_xor (split_wide c) (split_wide d)"
  by (simp add: split_wide_def xmm_xor_def xor_push)

lemma f192u_reduce_from_wide:
  "f192u_reduce (from_wide (x, y, z)) = F192 (reduce x) (reduce y) (reduce z)"
  by simp

lemma base_reduce_eq: "base_reduce d = reduce d"
  by (simp only: base_reduce_def Let_def reduce_double_fold)

lemma clmul_xor_both:
  "clmul (a XOR b) (c XOR d) = clmul a c XOR clmul a d XOR clmul b c XOR clmul b d"
  by (simp add: xor_linear_xor [OF xor_linear_clmul_left] xor_linear_xor [OF xor_linear_clmul_right] ac_simps)

lemma software_mul_unreduced_eq:
  "software_mul_unreduced (F192 a0 a1 a2) (F192 b0 b1 b2) =
    from_wide
     (clmul a0 b0 XOR clmul a1 b2 XOR clmul a2 b1,
      clmul a0 b1 XOR clmul a1 b0 XOR clmul a1 b2 XOR clmul a2 b1 XOR clmul a2 b2,
      clmul a0 b2 XOR clmul a1 b1 XOR clmul a2 b0 XOR clmul a2 b2)"
  by (simp add: software_mul_unreduced_def Let_def upt_rec numeral_eq_Suc ac_simps)

lemma xor_cancel_left: "(a :: 'a::len word) XOR (a XOR b) = b"
  by (simp flip: xor.assoc)

lemma x86_mul_unreduced_eq: "x86_mul_unreduced a b = software_mul_unreduced a b"
  by (cases a; cases b)
    (simp add: software_mul_unreduced_eq x86_mul_unreduced_def x86_karatsuba_def kfold_def Let_def
      clmulepi64_def unpacklo_def xmm_xor_def [of "(_, _)" "(_, _)"] clmul_xor_both
      split_wide_xor [symmetric] ac_simps xor_cancel_left)

lemma karatsuba_folded_eq: "from_wide (karatsuba_folded a b) = software_mul_unreduced a b"
  by (cases a; cases b)
    (simp add: software_mul_unreduced_eq karatsuba_folded_def karatsuba_coeffs_def Let_def
      clmul_xor_both ac_simps xor_cancel_left)



section \<open>The ring\<close>

lemma f64_add_cancel_left [simp]: "a + (a + b) = (b :: f64)"
  by (simp flip: add.assoc)

text \<open>Reading the coefficients in the base field.\<close>

definition lane0 :: "f192 \<Rightarrow> f64" where "lane0 a = F64 (coeff0 a)"
definition lane1 :: "f192 \<Rightarrow> f64" where "lane1 a = F64 (coeff1 a)"
definition lane2 :: "f192 \<Rightarrow> f64" where "lane2 a = F64 (coeff2 a)"

definition mk192 :: "f64 \<Rightarrow> f64 \<Rightarrow> f64 \<Rightarrow> f192" where
  "mk192 a b c = F192 (raw64 a) (raw64 b) (raw64 c)"

lemma lane_mk192 [simp]: "lane0 (mk192 a b c) = a" "lane1 (mk192 a b c) = b" "lane2 (mk192 a b c) = c"
  by (simp_all add: lane0_def lane1_def lane2_def mk192_def)

lemma mk192_lanes [simp]: "mk192 (lane0 a) (lane1 a) (lane2 a) = a"
  by (cases a) (simp add: lane0_def lane1_def lane2_def mk192_def)

lemma mk192_inject [simp]: "mk192 a b c = mk192 a' b' c' \<longleftrightarrow> a = a' \<and> b = b' \<and> c = c'"
  by (cases a; cases b; cases c; cases a'; cases b'; cases c') (simp add: mk192_def)

lemma mk192_cases: obtains a b c where "x = mk192 a b c"
  using mk192_lanes by metis

lemma F192_mk192: "F192 a b c = mk192 (F64 a) (F64 b) (F64 c)"
  by (simp add: mk192_def)

lemma F64_reduce_clmul: "F64 (reduce (clmul a b)) = F64 a * F64 b"
  by (simp add: times_f64_def f64_mul_def mul_wide_def)

lemma reduce_xor: "reduce (p XOR q) = reduce p XOR reduce q"
  by (rule xor_linear_xor [OF xor_linear_reduce])

lemma f192_add_mk192: "f192_add (mk192 a b c) (mk192 a' b' c') = mk192 (a + a') (b + b') (c + c')"
  by (simp add: f192_add_def mk192_def raw64_add)

lemma f192_mul_mk192:
  "f192_mul (mk192 a0 a1 a2) (mk192 b0 b1 b2) =
    mk192 (a0 * b0 + a1 * b2 + a2 * b1)
      (a0 * b1 + a1 * b0 + a1 * b2 + a2 * b1 + a2 * b2)
      (a0 * b2 + a1 * b1 + a2 * b0 + a2 * b2)"
proof -
  obtain w0 w1 w2 v0 v1 v2 where *: "a0 = F64 w0" "a1 = F64 w1" "a2 = F64 w2"
    "b0 = F64 v0" "b1 = F64 v1" "b2 = F64 v2" by (metis f64.collapse)
  show ?thesis
    unfolding * mk192_def f64.sel f192_mul_def f192_mul_unreduced_def software_mul_unreduced_eq
      f192u_reduce_from_wide
    by (simp add: reduce_xor raw64_add xor.assoc flip: F64_reduce_clmul)
qed

lemma f192_zero_mk192: "f192_zero = mk192 0 0 0"
  by (simp add: f192_zero_def mk192_def zero_f64_def)

lemma f192_one_mk192: "f192_one = mk192 1 0 0"
  by (simp add: f192_one_def mk192_def zero_f64_def one_f64_def)

instantiation f192 :: comm_ring_1
begin

definition "0 = f192_zero"
definition "1 = f192_one"
definition "a + b = f192_add a b"
definition "a - b = f192_add a b"
definition "- a = (a :: f192)"
definition "a * b = f192_mul a b"

instance
proof
  fix a b c :: f192
  obtain a0 a1 a2 where a: "a = mk192 a0 a1 a2" by (rule mk192_cases)
  obtain b0 b1 b2 where b: "b = mk192 b0 b1 b2" by (rule mk192_cases)
  obtain c0 c1 c2 where c: "c = mk192 c0 c1 c2" by (rule mk192_cases)
  note ops = plus_f192_def minus_f192_def uminus_f192_def times_f192_def zero_f192_def one_f192_def
    f192_add_mk192 f192_mul_mk192 f192_zero_mk192 f192_one_mk192 a b c
  show "a * b * c = a * (b * c)" by (simp add: ops algebra_simps)
  show "a * b = b * a" by (simp add: ops algebra_simps)
  show "1 * a = a" by (simp add: ops)
  show "(a + b) * c = a * c + b * c" by (simp add: ops algebra_simps)
  show "a + b + c = a + (b + c)" by (simp add: ops algebra_simps)
  show "a + b = b + a" by (simp add: ops algebra_simps)
  show "0 + a = a" by (simp add: ops)
  show "- a + a = 0" by (simp add: ops)
  show "a - b = a + - b" by (simp add: ops)
  show "(0 :: f192) \<noteq> 1" by (simp add: ops)
qed

end

lemma f192_char2 [simp]: "a + a = (0 :: f192)"
  by (rule mk192_cases [of a]) (simp add: plus_f192_def zero_f192_def f192_add_mk192 f192_zero_mk192)

lemma f192_minus [simp]: "a - b = a + (b :: f192)"
  by (simp add: plus_f192_def minus_f192_def)

lemma f192_add_cancel_left [simp]: "a + (a + b) = (b :: f192)"
  by (simp flip: add.assoc)

lemma times_mk192:
  "mk192 a0 a1 a2 * mk192 b0 b1 b2 =
    mk192 (a0 * b0 + a1 * b2 + a2 * b1)
      (a0 * b1 + a1 * b0 + a1 * b2 + a2 * b1 + a2 * b2)
      (a0 * b2 + a1 * b1 + a2 * b0 + a2 * b2)"
  by (simp add: times_f192_def f192_mul_mk192)

lemma plus_mk192: "mk192 a b c + mk192 a' b' c' = mk192 (a + a') (b + b') (c + c')"
  by (simp add: plus_f192_def f192_add_mk192)

lemma zero_mk192: "0 = mk192 0 0 0" and one_mk192: "1 = mk192 1 0 0"
  by (simp_all add: zero_f192_def one_f192_def f192_zero_mk192 f192_one_mk192)

lemma frobenius_mk192: "frobenius (mk192 a b c) = mk192 a c (b + c)"
  by (simp add: frobenius_def mk192_def raw64_add)

lemma frobenius_mult: "frobenius (a * b) = frobenius a * frobenius b"
proof -
  obtain a0 a1 a2 where a: "a = mk192 a0 a1 a2" by (rule mk192_cases)
  obtain b0 b1 b2 where b: "b = mk192 b0 b1 b2" by (rule mk192_cases)
  show ?thesis by (simp add: a b times_mk192 frobenius_mk192 algebra_simps)
qed

lemma frobenius_cube: "frobenius (frobenius (frobenius a)) = a"
  by (rule mk192_cases [of a]) (simp add: frobenius_mk192 ac_simps)

lemma frobenius_1 [simp]: "frobenius 1 = 1"
  by (simp add: one_mk192 frobenius_mk192)

section \<open>The field\<close>

text \<open>The norm of an element, \<open>a \<phi>(a) \<phi>\<^sup>2(a)\<close>.\<close>

definition norm192 :: "f192 \<Rightarrow> f192" where
  "norm192 a = a * (frobenius a * frobenius (frobenius a))"

lemma norm192_mult: "norm192 (a * b) = norm192 a * norm192 b"
  by (simp add: norm192_def frobenius_mult ac_simps)

lemma norm192_base: "lane1 (norm192 a) = 0" "lane2 (norm192 a) = 0"
proof -
  obtain a0 a1 a2 where a: "a = mk192 a0 a1 a2" by (rule mk192_cases)
  show "lane1 (norm192 a) = 0" "lane2 (norm192 a) = 0"
    by (simp_all add: norm192_def a times_mk192 frobenius_mk192 algebra_simps)
qed

text \<open>The modulus has no root in the base field: a root would have order 7, prime to \<open>2^64 - 1\<close>.\<close>

lemma cubic_no_root: "(r :: f64) ^ 3 + r + 1 \<noteq> 0"
proof
  assume "r ^ 3 + r + 1 = 0"
  then have r3: "r ^ 3 = r + 1"
    by (metis f64_add_cancel_left add.assoc add.commute add.right_neutral)
  have "r ^ 7 = r * (r ^ 3) ^ 2" by (simp flip: power_mult power_Suc)
  also have "\<dots> = r * (r ^ 2 + 1)" by (simp only: r3 square_add power_one)
  also have "\<dots> = r ^ 3 + r" by (simp add: algebra_simps power2_eq_square power3_eq_cube)
  also have "\<dots> = 1" by (simp add: r3 ac_simps)
  finally have r7: "r ^ 7 = 1" .
  have "r \<noteq> 0" using r3 by auto
  then have "r ^ (2 ^ 64 - 1) = 1" by (rule f64_fermat)
  moreover have "(2 ^ 64 - 1 :: nat) = 7 * 2635249153387078802 + 1" by simp
  ultimately have "(r ^ 7) ^ 2635249153387078802 * r = 1"
    by (simp only: power_add power_mult power_one_right)
  then have "r = 1" by (simp only: r7 power_one mult_1_left)
  with r3 show False by simp
qed


lemma norm192_unit: "a * b = 1 \<Longrightarrow> norm192 a \<noteq> 0"
  using norm192_mult [of a b] by (auto simp: norm192_def)

text \<open>Every nonzero element is a unit, by the degree of its polynomial.\<close>

lemma linear_unit:
  assumes "mk192 p q 0 \<noteq> 0" shows "\<exists>z. mk192 p q 0 * z = 1"
proof (cases "q = 0")
  case True
  then have "mk192 p q 0 * mk192 (inverse p) 0 0 = 1"
    using assms by (simp add: times_mk192 one_mk192 zero_mk192)
  then show ?thesis by blast
next
  case False
  define r where "r = p / q"
  define c where "c = r ^ 3 + r + 1"
  have "c \<noteq> 0" unfolding c_def by (rule cubic_no_root)
  have 1: "mk192 p q 0 * mk192 (inverse q) 0 0 = mk192 r 1 0"
    using False by (simp add: times_mk192 r_def field_simps)
  have 2: "mk192 r 1 0 * mk192 (r ^ 2 + 1) r 1 = mk192 c 0 0"
    by (simp add: times_mk192 c_def algebra_simps power2_eq_square power3_eq_cube)
  have 3: "mk192 c 0 0 * mk192 (inverse c) 0 0 = 1"
    using \<open>c \<noteq> 0\<close> by (simp add: times_mk192 one_mk192)
  have "mk192 p q 0 * (mk192 (inverse q) 0 0 * (mk192 (r ^ 2 + 1) r 1 * mk192 (inverse c) 0 0)) = 1"
    by (simp only: mult.assoc [symmetric] 1 2 3)
  then show ?thesis by blast
qed

lemma f192_unit:
  assumes "a \<noteq> 0" shows "\<exists>z. a * z = (1 :: f192)"
proof -
  obtain p q s where a: "a = mk192 p q s" by (rule mk192_cases)
  show ?thesis
  proof (cases "s = 0")
    case True
    then show ?thesis using linear_unit assms a by blast
  next
    case False
    define b where "b = q / s"
    define c where "c = p / s"
    have 1: "a * mk192 (inverse s) 0 0 = mk192 c b 1"
      using False by (simp add: a times_mk192 b_def c_def field_simps)
    have 2: "mk192 c b 1 * mk192 b 1 0 = mk192 (c * b + 1) (b ^ 2 + c + 1) 0"
      by (simp add: times_mk192 algebra_simps power2_eq_square)
    have "mk192 (c * b + 1) (b ^ 2 + c + 1) 0 \<noteq> 0"
    proof
      assume "mk192 (c * b + 1) (b ^ 2 + c + 1) 0 = 0"
      then have "c * b + 1 = 0" "b ^ 2 + c + 1 = 0" by (simp_all add: zero_mk192)
      moreover from this(2) have "c = b ^ 2 + 1"
        by (metis add.assoc add.commute add.right_neutral f64_add_cancel_left)
      ultimately have "b ^ 3 + b + 1 = 0" by (simp add: algebra_simps power2_eq_square power3_eq_cube)
      with cubic_no_root show False by blast
    qed
    then obtain z where 3: "mk192 (c * b + 1) (b ^ 2 + c + 1) 0 * z = 1" using linear_unit by blast
    have "a * (mk192 (inverse s) 0 0 * (mk192 b 1 0 * z)) = 1"
      by (simp only: mult.assoc [symmetric] 1 2 3)
    then show ?thesis by blast
  qed
qed

lemma mul_base_mk192: "mul_base a k = a * mk192 k 0 0"
proof -
  obtain w0 w1 w2 v where *: "a = F192 w0 w1 w2" "k = F64 v" by (metis f192.exhaust f64.exhaust)
  show ?thesis
    unfolding * mul_base_def mul_base_unreduced_def f192.sel f64.sel mul_wide_def f192u_reduce_from_wide
    by (simp add: F192_mk192 times_mk192 F64_reduce_clmul)
qed

lemma f192_inv_right:
  assumes "a \<noteq> 0" shows "a * f192_inv a = 1"
proof -
  obtain z where "a * z = 1" using f192_unit [OF assms] by blast
  then have nz: "norm192 a \<noteq> 0" by (rule norm192_unit)
  define k where "k = lane0 (norm192 a)"
  have norm: "norm192 a = mk192 k 0 0"
    using norm192_base [of a] mk192_lanes [of "norm192 a"] by (simp add: k_def)
  have "k \<noteq> 0" using nz norm by (auto simp: zero_mk192)
  have "f192_inv a = frobenius a * frobenius (frobenius a) * mk192 (inverse k) 0 0"
    by (simp add: f192_inv_def Let_def mul_base_mk192 inverse_f64_def k_def lane0_def norm192_def times_f192_def)
  then have "a * f192_inv a = norm192 a * mk192 (inverse k) 0 0"
    by (simp add: norm192_def ac_simps)
  also have "\<dots> = 1" using \<open>k \<noteq> 0\<close> by (simp add: norm times_mk192 one_mk192)
  finally show ?thesis .
qed

lemma f192_inv_zero: "f192_inv 0 = 0"
  by (simp add: f192_inv_def Let_def mul_base_mk192 flip: times_f192_def)
    (simp add: zero_mk192 frobenius_mk192 times_mk192)

instantiation f192 :: field
begin

definition "inverse a = f192_inv a"
definition "a div b = a * f192_inv (b :: f192)"

instance
proof
  fix a b :: f192
  show "inverse a * a = 1" if "a \<noteq> 0"
    using f192_inv_right [OF that] by (simp add: inverse_f192_def mult.commute)
  show "a div b = a * inverse b" by (simp add: divide_f192_def inverse_f192_def)
  show "inverse (0 :: f192) = 0" by (simp add: inverse_f192_def f192_inv_zero)
qed

end

section \<open>The other products\<close>

lemma f192_mul_times: "f192_mul a b = a * b"
  by (simp add: times_f192_def)

lemma f192_add_plus: "f192_add a b = a + b"
  by (simp add: plus_f192_def)

lemma software_mul_eq: "software_mul a b = a * b"
  by (simp add: software_mul_def times_f192_def f192_mul_def f192_mul_unreduced_def)

lemma x86_mul_eq_times: "f192u_reduce (x86_mul_unreduced a b) = a * b"
  by (simp add: x86_mul_unreduced_eq software_mul_def [symmetric] software_mul_eq)

lemma mul_karatsuba_eq: "mul_karatsuba a b = a * b"
proof -
  obtain d0 d1 d2 where d: "karatsuba_folded a b = (d0, d1, d2)" by (metis prod_cases3)
  have "mul_karatsuba a b = f192u_reduce (from_wide (karatsuba_folded a b))"
    unfolding mul_karatsuba_def d by (simp add: base_reduce_eq)
  then show ?thesis by (simp add: karatsuba_folded_eq software_mul_def [symmetric] software_mul_eq)
qed

lemma f192_square_eq: "f192_square a = a ^ 2"
proof -
  obtain w0 w1 w2 where a: "a = F192 w0 w1 w2" by (rule f192.exhaust)
  have "a ^ 2 = mk192 (F64 w0 * F64 w0) (F64 w2 * F64 w2) (F64 w1 * F64 w1 + F64 w2 * F64 w2)"
    by (simp add: a F192_mk192 power2_eq_square times_mk192 algebra_simps)
  then show ?thesis
    unfolding a f192_square_def Let_def square_wide_def mul_wide_def f192.sel f192u_reduce_from_wide reduce_xor
    by (simp add: F192_mk192 F64_reduce_clmul F64_xor)
qed

lemma square_neon_eq: "square_neon a = a ^ 2"
  by (simp only: f192_square_eq [symmetric])
    (simp add: square_neon_def f192_square_def base_reduce_eq square_wide_def mul_wide_def Let_def)

lemma frobenius_power: "frobenius a = a ^ (2 ^ 64)"
proof -
  have sq: "(mk192 a b c) ^ 2 = mk192 (a ^ 2) (c ^ 2) (b ^ 2 + c ^ 2)" for a b c
    by (simp add: power2_eq_square times_mk192 algebra_simps)
  have cube: "((a ^ 2) ^ 2) ^ 2 = mk192 (lane0 a ^ 8) (lane1 a ^ 8) (lane2 a ^ 8)" for a
  proof -
    obtain p q s where a: "a = mk192 p q s" by (rule mk192_cases)
    show ?thesis by (simp add: a sq square_add ac_simps flip: power_mult)
  qed
  have iter: "a ^ (8 ^ k) = mk192 (lane0 a ^ (8 ^ k)) (lane1 a ^ (8 ^ k)) (lane2 a ^ (8 ^ k))" for k
  proof (induction k)
    case (Suc k)
    have "a ^ 8 ^ Suc k = (((a ^ 8 ^ k) ^ 2) ^ 2) ^ 2" by (simp flip: power_mult add: mult.commute)
    also have "\<dots> = mk192 ((lane0 a ^ 8 ^ k) ^ 8) ((lane1 a ^ 8 ^ k) ^ 8) ((lane2 a ^ 8 ^ k) ^ 8)"
      by (simp only: Suc cube lane_mk192)
    finally show ?case by (simp only: power_Suc2 power_mult)
  qed simp
  have exp: "(2 :: nat) ^ 64 = 8 ^ 21 * 2" by simp
  have fix64: "(x ^ (8 ^ 21)) ^ 2 = x" for x :: f64
    using f64_power2_64 [of x] by (simp only: exp power_mult)
  have "a ^ (2 ^ 64) = (a ^ (8 ^ 21)) ^ 2" by (simp only: exp power_mult)
  also have "\<dots> = mk192 (lane0 a) (lane2 a) (lane1 a + lane2 a)"
    by (simp only: iter sq fix64)
  also have "\<dots> = frobenius a"
    using frobenius_mk192 [of "lane0 a" "lane1 a" "lane2 a"] by simp
  finally show ?thesis by (rule sym)
qed


section \<open>Batched products on vector registers\<close>

text \<open>
  A 256-bit or 512-bit register is the list of its qwords, two per 128-bit lane.
  The lane-wise instructions act on every lane of the register.
\<close>

definition vec_xor :: "64 word list \<Rightarrow> 64 word list \<Rightarrow> 64 word list" where
  "vec_xor x y = map2 (\<lambda>a b. a XOR b) x y"

fun vec_clmul :: "bool \<Rightarrow> bool \<Rightarrow> 64 word list \<Rightarrow> 64 word list \<Rightarrow> 64 word list" where
  "vec_clmul hi_a hi_b (a # a' # as) (b # b' # bs) =
    (case clmulepi64 hi_a hi_b (a, a') (b, b') of (lo, hi) \<Rightarrow> lo # hi # vec_clmul hi_a hi_b as bs)"
| "vec_clmul hi_a hi_b as bs = []"

fun vec_unpacklo :: "64 word list \<Rightarrow> 64 word list \<Rightarrow> 64 word list" where
  "vec_unpacklo (a # a' # as) (b # b' # bs) = a # b # vec_unpacklo as bs"
| "vec_unpacklo as bs = []"

fun vec_unpackhi :: "64 word list \<Rightarrow> 64 word list \<Rightarrow> 64 word list" where
  "vec_unpackhi (a # a' # as) (b # b' # bs) = a' # b' # vec_unpackhi as bs"
| "vec_unpackhi as bs = []"

text \<open>Lane-wise base reduction: the scalar shift network on every qword.\<close>

definition reduce_lane :: "64 word \<Rightarrow> 64 word \<Rightarrow> 64 word" where
  "reduce_lane lo hi =
    (let spill = (drop_bit 63 hi XOR drop_bit 61 hi) XOR drop_bit 60 hi;
         v = hi XOR spill;
         f = (v XOR push_bit 1 v) XOR (push_bit 3 v XOR push_bit 4 v)
     in lo XOR f)"

definition reduce_lanes :: "64 word list \<Rightarrow> 64 word list \<Rightarrow> 64 word list" where
  "reduce_lanes lo hi = map2 reduce_lane lo hi"

text \<open>One coefficient of every element, in the low qword of its lane.\<close>

definition vec_pack :: "64 word list \<Rightarrow> 64 word list" where
  "vec_pack c = concat (map (\<lambda>x. [x, 0]) c)"

definition karatsuba_vec :: "f192 list \<Rightarrow> f192 list \<Rightarrow> 64 word list \<times> 64 word list \<times> 64 word list" where
  "karatsuba_vec a b =
    (let a0 = vec_pack (map coeff0 a); a1 = vec_pack (map coeff1 a); a2 = vec_pack (map coeff2 a);
         b0 = vec_pack (map coeff0 b); b1 = vec_pack (map coeff1 b); b2 = vec_pack (map coeff2 b);
         mul = vec_clmul False False
     in kfold (mul a0 b0) (mul a1 b1) (mul a2 b2)
          (mul (vec_xor a0 a1) (vec_xor b0 b1))
          (mul (vec_xor a0 a2) (vec_xor b0 b2))
          (mul (vec_xor a1 a2) (vec_xor b1 b2)) vec_xor)"

definition mul_vec :: "nat \<Rightarrow> f192 list \<Rightarrow> f192 list \<Rightarrow> f192 list" where
  "mul_vec lanes a b =
    (case karatsuba_vec a b of (d0, d1, d2) \<Rightarrow>
      (let w01 = reduce_lanes (vec_unpacklo d0 d1) (vec_unpackhi d0 d1);
           w2 = reduce_lanes d2 (vec_unpackhi d2 d2)
       in map (\<lambda>i. F192 (w01 ! (2 * i)) (w01 ! (2 * i + 1)) (w2 ! (2 * i))) [0..<lanes]))"

definition mul_unreduced_vec :: "nat \<Rightarrow> f192 list \<Rightarrow> f192 list \<Rightarrow> f192u list" where
  "mul_unreduced_vec lanes a b =
    (case karatsuba_vec a b of (d0, d1, d2) \<Rightarrow>
      map (\<lambda>i. F192U (d0 ! (2 * i), d0 ! (2 * i + 1)) (d1 ! (2 * i), d1 ! (2 * i + 1))
        (d2 ! (2 * i), d2 ! (2 * i + 1))) [0..<lanes])"

definition mul_by_pairs ::
  "64 word list \<Rightarrow> 64 word list \<Rightarrow> 64 word list \<Rightarrow> 64 word list \<Rightarrow> 64 word list list" where
  "mul_by_pairs lo hi c2 k =
    [vec_clmul False False lo k, vec_clmul True False lo k,
     vec_clmul False True hi k, vec_clmul True True hi k,
     vec_clmul False False c2 k, vec_clmul True True c2 k]"

text \<open>Eight mixed products by one shared scalar, six carry-less multiplies in all.\<close>

definition x86_mul_base8 :: "f192 \<Rightarrow> f64 list \<Rightarrow> f192 list" where
  "x86_mul_base8 t k =
    (let t01 = concat (replicate 4 [coeff0 t, coeff1 t]);
         t2 = replicate 8 (coeff2 t);
         p = mul_by_pairs t01 t01 t2 (map raw64 k);
         red = (\<lambda>x y. reduce_lanes (vec_unpacklo x y) (vec_unpackhi x y));
         even_w = red (p ! 0) (p ! 1);
         odd_w = red (p ! 2) (p ! 3);
         c2 = red (p ! 4) (p ! 5)
     in map (\<lambda>i. let j = i div 2; w = (if i mod 2 = 0 then even_w else odd_w)
          in F192 (w ! (2 * j)) (w ! (2 * j + 1)) (c2 ! i)) [0..<8])"

text \<open>Eight weights, packed for the mixed inner product.\<close>

datatype weights8 = Weights8 (w_lo: "64 word list") (w_hi: "64 word list") (w_c2: "64 word list")

definition weights8_new :: "f192 list \<Rightarrow> weights8" where
  "weights8_new w = fold (\<lambda>j out.
     (let e = w ! (2 * j); o' = w ! (2 * j + 1)
      in Weights8 ((w_lo out)[2 * j := coeff0 e, 2 * j + 1 := coeff1 e])
           ((w_hi out)[2 * j := coeff0 o', 2 * j + 1 := coeff1 o'])
           ((w_c2 out)[2 * j := coeff2 e, 2 * j + 1 := coeff2 o'])))
     [0..<4] (Weights8 (replicate 8 0) (replicate 8 0) (replicate 8 0))"

definition weights8_get :: "weights8 \<Rightarrow> nat \<Rightarrow> f192" where
  "weights8_get w i =
    (let j = i div 2; pair = (if i mod 2 = 0 then w_lo w else w_hi w)
     in F192 (pair ! (2 * j)) (pair ! (2 * j + 1)) (w_c2 w ! (2 * j + i mod 2)))"

text \<open>The mixed inner product, on the portable path: eight scalars per packed block.\<close>

fun dot_base :: "weights8 list \<Rightarrow> f64 list \<Rightarrow> f192u" where
  "dot_base ws k = fold (\<lambda>(w, k8) acc. fold (\<lambda>i acc.
       f192u_bitxor acc (mul_base_unreduced (weights8_get w i) (k8 ! i))) [0..<8] acc)
     (zip ws (map (\<lambda>b. take 8 (drop (8 * b) k)) [0..<length k div 8])) f192u_zero"

definition mul_base8 :: "f192 \<Rightarrow> f64 list \<Rightarrow> f192 list" where
  "mul_base8 t k = map (mul_base t) k"

section \<open>The vector kernels compute the field product\<close>

lemma reduce_lane_split [simp]: "reduce_lane (fst (split_wide p)) (snd (split_wide p)) = reduce p"
  by (simp only: reduce_lane_def reduce_def split_wide_def fst_conv snd_conv Let_def xor.assoc)

lemma reduce_lanes_simps [simp]:
  "reduce_lanes [] ys = []"
  "reduce_lanes (l # ls) (h # hs) = reduce_lane l h # reduce_lanes ls hs"
  by (simp_all add: reduce_lanes_def)

lemma vec_xor_simps [simp]:
  "vec_xor [] ys = []"
  "vec_xor (a # x) (b # y) = (a XOR b) # vec_xor x y"
  by (simp_all add: vec_xor_def)

lemma split_xor [simp]:
  "fst (split_wide p) XOR fst (split_wide q) = fst (split_wide (p XOR q))"
  "snd (split_wide p) XOR snd (split_wide q) = snd (split_wide (p XOR q))"
  by (simp_all add: split_wide_def xor_push)

lemma vec_clmul_pack [simp]:
  "vec_clmul False False (a # a' # as) (b # b' # bs) =
     fst (split_wide (clmul a b)) # snd (split_wide (clmul a b)) # vec_clmul False False as bs"
  by (simp add: clmulepi64_def split: prod.split)

lemma vec_pack_simps [simp]: "vec_pack [] = []" "vec_pack (x # xs) = x # 0 # vec_pack xs"
  by (simp_all add: vec_pack_def)

text \<open>The coefficients of one lane.\<close>

definition lane_coeffs :: "f192 \<Rightarrow> f192 \<Rightarrow> 128 word \<times> 128 word \<times> 128 word" where
  "lane_coeffs a b =
     kfold (clmul (coeff0 a) (coeff0 b)) (clmul (coeff1 a) (coeff1 b)) (clmul (coeff2 a) (coeff2 b))
       (clmul (coeff0 a XOR coeff1 a) (coeff0 b XOR coeff1 b))
       (clmul (coeff0 a XOR coeff2 a) (coeff0 b XOR coeff2 b))
       (clmul (coeff1 a XOR coeff2 a) (coeff1 b XOR coeff2 b)) (\<lambda>x y. x XOR y)"

lemma from_wide_lane_coeffs: "from_wide (lane_coeffs a b) = software_mul_unreduced a b"
  by (cases a; cases b)
    (simp add: software_mul_unreduced_eq lane_coeffs_def kfold_def Let_def
      clmul_xor_both ac_simps xor_cancel_left)

definition lanes_of :: "128 word list \<Rightarrow> 64 word list" where
  "lanes_of ps = concat (map (\<lambda>p. [fst (split_wide p), snd (split_wide p)]) ps)"

lemma lanes_of_Cons [simp]:
  "lanes_of (p # ps) = fst (split_wide p) # snd (split_wide p) # lanes_of ps" "lanes_of [] = []"
  by (simp_all add: lanes_of_def)

lemma vec_xor_pack: "length xs = length ys \<Longrightarrow>
  vec_xor (vec_pack xs) (vec_pack ys) = vec_pack (map2 (\<lambda>x y. x XOR y) xs ys)"
  by (induction xs ys rule: list_induct2) simp_all

lemma vec_clmul_packs: "length xs = length ys \<Longrightarrow>
  vec_clmul False False (vec_pack xs) (vec_pack ys) = lanes_of (map2 clmul xs ys)"
  by (induction xs ys rule: list_induct2) (simp_all add: clmulepi64_def split: prod.split)

lemma map2_map2: "map2 f (map2 g a b) (map2 h a b) = map2 (\<lambda>x y. f (g x y) (h x y)) a b"
  by (induction a arbitrary: b) (auto split: list.split simp: zip_Cons1)

lemma map2_maps: "map2 f (map g a) (map h b) = map2 (\<lambda>x y. f (g x) (h y)) a b"
  by (induction a arbitrary: b) (auto split: list.split simp: zip_Cons1)

lemma map2_same: "map2 f (map g a) (map h a) = map (\<lambda>x. f (g x) (h x)) a"
  by (induction a) simp_all

lemma vec_xor_lanes: "length ps = length qs \<Longrightarrow>
  vec_xor (lanes_of ps) (lanes_of qs) = lanes_of (map2 (\<lambda>p q. p XOR q) ps qs)"
  by (induction ps qs rule: list_induct2) simp_all

lemma karatsuba_vec_lanes:
  assumes "length a = length b"
  shows "karatsuba_vec a b =
    (lanes_of (map2 (\<lambda>x y. fst (lane_coeffs x y)) a b),
     lanes_of (map2 (\<lambda>x y. fst (snd (lane_coeffs x y))) a b),
     lanes_of (map2 (\<lambda>x y. snd (snd (lane_coeffs x y))) a b))"
  using assms
  by (simp add: karatsuba_vec_def kfold_def Let_def vec_xor_pack vec_clmul_packs vec_xor_lanes
      lane_coeffs_def map2_same map2_maps map2_map2)
    (simp add: case_prod_unfold)

lemma nth_lanes_of:
  "i < length ps \<Longrightarrow> lanes_of ps ! (2 * i) = fst (split_wide (ps ! i)) \<and>
     lanes_of ps ! (2 * i + 1) = snd (split_wide (ps ! i))"
  by (induction ps arbitrary: i) (auto simp: nth_Cons split: nat.split)

lemma reduce_unpack:
  "length ps = length qs \<Longrightarrow>
    reduce_lanes (vec_unpacklo (lanes_of ps) (lanes_of qs)) (vec_unpackhi (lanes_of ps) (lanes_of qs))
      = concat (map2 (\<lambda>p q. [reduce p, reduce q]) ps qs)"
  by (induction ps qs rule: list_induct2) simp_all

lemma vec_unpack_self:
  "reduce_lanes (lanes_of ps) (vec_unpackhi (lanes_of ps) (lanes_of ps)) ! (2 * i) = reduce (ps ! i)"
  if "i < length ps"
  using that
proof (induction ps arbitrary: i)
  case (Cons p ps)
  then show ?case
    by (cases i) simp_all
qed simp

lemma nth_concat_pairs:
  "i < length zs \<Longrightarrow> concat (map (\<lambda>z. [f z, g z]) zs) ! (2 * i) = f (zs ! i) \<and>
    concat (map (\<lambda>z. [f z, g z]) zs) ! (Suc (2 * i)) = g (zs ! i)"
  by (induction zs arbitrary: i) (auto simp: nth_Cons split: nat.split)

lemma from_wide_surj: "f192u_reduce (from_wide t) = F192 (reduce (fst t)) (reduce (fst (snd t))) (reduce (snd (snd t)))"
  by (cases t) simp

lemma map2_same_list: "map2 f (map g zs) (map h zs) = map (\<lambda>z. f (g z) (h z)) zs"
  by (induction zs) simp_all

lemma mul_vec_eq:
  assumes "length a = n" "length b = n"
  shows "mul_vec n a b = map2 (\<lambda>x y. x * y) a b"
proof (rule nth_equalityI)
  show "length (mul_vec n a b) = length (map2 (\<lambda>x y. x * y) a b)"
    using assms by (simp add: mul_vec_def Let_def split: prod.split)
  fix i assume "i < length (mul_vec n a b)"
  then have i: "i < n" by (simp add: mul_vec_def Let_def split: prod.splits)
  have "mul_vec n a b ! i = f192u_reduce (from_wide (lane_coeffs (a ! i) (b ! i)))"
    using i assms
    by (simp add: mul_vec_def karatsuba_vec_lanes Let_def reduce_unpack map2_same_list
        nth_concat_pairs vec_unpack_self from_wide_surj)
  then show "mul_vec n a b ! i = map2 (\<lambda>x y. x * y) a b ! i"
    using i assms by (simp add: from_wide_lane_coeffs software_mul_def [symmetric] software_mul_eq)
qed


lemma mul_unreduced_vec_eq:
  assumes "length a = n" "length b = n"
  shows "mul_unreduced_vec n a b = map2 f192_mul_unreduced a b"
proof (rule nth_equalityI)
  show "length (mul_unreduced_vec n a b) = length (map2 f192_mul_unreduced a b)"
    using assms by (simp add: mul_unreduced_vec_def split: prod.split)
  fix i assume "i < length (mul_unreduced_vec n a b)"
  then have i: "i < n" by (simp add: mul_unreduced_vec_def split: prod.splits)
  have "mul_unreduced_vec n a b ! i = from_wide (lane_coeffs (a ! i) (b ! i))"
    using i assms nth_lanes_of
    by (cases "lane_coeffs (a ! i) (b ! i)")
      (simp add: mul_unreduced_vec_def karatsuba_vec_lanes nth_lanes_of [THEN conjunct1]
        nth_lanes_of [THEN conjunct2, unfolded One_nat_def add_Suc_right add_0_right])
  then show "mul_unreduced_vec n a b ! i = map2 f192_mul_unreduced a b ! i"
    using i assms by (simp add: from_wide_lane_coeffs f192_mul_unreduced_def)
qed

section \<open>Mixed products\<close>

lemma mul_base_unreduced_wide:
  "mul_base_unreduced a k = F192U (split_wide (clmul (coeff0 a) (raw64 k)))
     (split_wide (clmul (coeff1 a) (raw64 k))) (split_wide (clmul (coeff2 a) (raw64 k)))"
  by (simp add: mul_base_unreduced_def mul_wide_def)

lemma x86_mul_base_unreduced_eq: "x86_mul_base_unreduced a k = mul_base_unreduced a k"
  by (simp add: x86_mul_base_unreduced_def mul_base_unreduced_wide clmulepi64_def)

lemma mul_base_reduce:
  "mul_base a k = F192 (reduce (clmul (coeff0 a) (raw64 k))) (reduce (clmul (coeff1 a) (raw64 k)))
     (reduce (clmul (coeff2 a) (raw64 k)))"
  by (simp add: mul_base_def mul_base_unreduced_wide)

lemma clmulepi64_split:
  "clmulepi64 ha hb x y = (fst (clmulepi64 ha hb x y), snd (clmulepi64 ha hb x y))"
  by simp

lemma x86_mul_base8_eq:
  assumes "length k = 8" shows "x86_mul_base8 t k = mul_base8 t k"
proof -
  obtain k0 k1 k2 k3 k4 k5 k6 k7 where k: "k = [k0, k1, k2, k3, k4, k5, k6, k7]"
    using assms by (auto simp: numeral_eq_Suc length_Suc_conv)
  show ?thesis
    by (simp add: k x86_mul_base8_def mul_base8_def mul_by_pairs_def Let_def field_eval
        clmulepi64_def mul_base_reduce case_prod_unfold)
qed

lemma weights8_get_new:
  assumes "length w = 8" "i < 8" shows "weights8_get (weights8_new w) i = w ! i"
proof -
  obtain w0 w1 w2 w3 w4 w5 w6 w7 where w: "w = [w0, w1, w2, w3, w4, w5, w6, w7]"
    using assms(1) by (auto simp: numeral_eq_Suc length_Suc_conv)
  have "weights8_new w = Weights8
      [coeff0 w0, coeff1 w0, coeff0 w2, coeff1 w2, coeff0 w4, coeff1 w4, coeff0 w6, coeff1 w6]
      [coeff0 w1, coeff1 w1, coeff0 w3, coeff1 w3, coeff0 w5, coeff1 w5, coeff0 w7, coeff1 w7]
      [coeff2 w0, coeff2 w1, coeff2 w2, coeff2 w3, coeff2 w4, coeff2 w5, coeff2 w6, coeff2 w7]"
    by (simp add: w weights8_new_def Let_def numeral_eq_Suc upt_rec)
  moreover have "i = 0 \<or> i = 1 \<or> i = 2 \<or> i = 3 \<or> i = 4 \<or> i = 5 \<or> i = 6 \<or> i = 7"
    using assms(2) by linarith
  ultimately show ?thesis
    by (elim disjE) (simp_all add: w weights8_get_def)
qed

lemma f192u_reduce_bitxor: "f192u_reduce (f192u_bitxor a b) = f192u_reduce a + f192u_reduce b"
proof -
  have join: "join_wide (x XOR y, x' XOR y') = join_wide (x, x') XOR join_wide (y, y')" for x y x' y'
  proof (rule bit_word_eqI)
    fix n assume "n < LENGTH(128)"
    then show "bit (join_wide (x XOR y, x' XOR y')) n \<longleftrightarrow> bit (join_wide (x, x') XOR join_wide (y, y')) n"
      by (cases "n < 64") (auto simp: join_wide_def bit_simps dest: bit_imp_le_length)
  qed
  show ?thesis
    by (cases a rule: f192u_reduce.cases; cases b rule: f192u_reduce.cases)
      (auto simp: join reduce_xor F192_mk192 plus_mk192 F64_xor split: prod.splits)
qed

lemma f192u_reduce_zero: "f192u_reduce f192u_zero = 0"
  by (simp add: f192u_zero_def join_wide_def reduce_def Let_def zero_f192_def f192_zero_def)

text \<open>The mixed inner product is the sum of the field products.\<close>

definition dot_spec :: "f192 list \<Rightarrow> f64 list \<Rightarrow> f192" where
  "dot_spec ws ks = sum_list (map2 (\<lambda>w k. w * f192_from k) ws ks)"

lemma mul_base_from: "mul_base a k = a * f192_from k"
  by (cases k) (simp add: mul_base_mk192 f192_from_def mk192_def zero_f64_def)

lemma dot_block:
  assumes "length k8 = 8"
  shows "f192u_reduce (fold (\<lambda>i acc. f192u_bitxor acc (mul_base_unreduced (weights8_get w i) (k8 ! i))) [0..<8] acc)
    = f192u_reduce acc + dot_spec (map (weights8_get w) [0..<8]) k8"
proof -
  have "f192u_reduce (fold (\<lambda>i acc. f192u_bitxor acc (mul_base_unreduced (weights8_get w i) (k8 ! i))) is acc)
      = f192u_reduce acc + (\<Sum>i\<leftarrow>is. weights8_get w i * f192_from (k8 ! i))" for "is"
    by (induction "is" arbitrary: acc)
      (simp_all add: f192u_reduce_bitxor mul_base_def [symmetric] mul_base_from ac_simps)
  moreover have "map ((!) k8) [0..<8] = k8" using assms by (metis map_nth)
  moreover have "dot_spec (map (weights8_get w) [0..<8]) (map ((!) k8) [0..<8])
     = (\<Sum>i\<leftarrow>[0..<8]. weights8_get w i * f192_from (k8 ! i))"
    by (simp only: dot_spec_def map2_same_list)
  ultimately show ?thesis by simp
qed

lemma dot_base_eq:
  assumes "length k = 8 * length ws"
  shows "f192u_reduce (dot_base ws k) = dot_spec (concat (map (\<lambda>w. map (weights8_get w) [0..<8]) ws)) k"
proof -
  have "f192u_reduce (fold (\<lambda>(w, k8) acc. fold (\<lambda>i acc.
       f192u_bitxor acc (mul_base_unreduced (weights8_get w i) (k8 ! i))) [0..<8] acc)
     (zip ws (map (\<lambda>b. take 8 (drop (8 * b) k)) [0..<length ws])) acc)
    = f192u_reduce acc + dot_spec (concat (map (\<lambda>w. map (weights8_get w) [0..<8]) ws)) k" for acc
    using assms
  proof (induction ws arbitrary: k acc)
    case Nil
    then show ?case by (simp add: dot_spec_def)
  next
    case (Cons w ws)
    have split: "[0..<length (w # ws)] = 0 # map Suc [0..<length ws]"
      by (simp add: upt_conv_Cons map_Suc_upt del: upt_Suc)
    have "length (take 8 k) = 8" using Cons.prems by simp
    note blk = dot_block [OF this, of w]
    have blocks: "map (\<lambda>b. take 8 (drop (8 * b) k)) [0..<length (w # ws)]
        = take 8 k # map (\<lambda>b. take 8 (drop (8 * b) (drop 8 k))) [0..<length ws]"
      unfolding split by (simp add: comp_def add.commute)
    have "length (drop 8 k) = 8 * length ws" using Cons.prems by simp
    note IH = Cons.IH [OF this]
    have "dot_spec (map (weights8_get w) [0..<8] @ concat (map (\<lambda>w. map (weights8_get w) [0..<8]) ws)) (take 8 k @ drop 8 k)
       = dot_spec (map (weights8_get w) [0..<8]) (take 8 k) + dot_spec (concat (map (\<lambda>w. map (weights8_get w) [0..<8]) ws)) (drop 8 k)"
      unfolding dot_spec_def using \<open>length (take 8 k) = 8\<close> by (subst zip_append) simp_all
    then have "dot_spec (concat (map (\<lambda>w. map (weights8_get w) [0..<8]) (w # ws))) k
       = dot_spec (map (weights8_get w) [0..<8]) (take 8 k)
         + dot_spec (concat (map (\<lambda>w. map (weights8_get w) [0..<8]) ws)) (drop 8 k)"
      by (simp only: append_take_drop_id list.map concat.simps)
    then show ?case
      by (simp only: blocks zip_Cons_Cons fold_simps prod.case IH blk add.assoc)
  qed
  then show ?thesis using assms by (simp add: f192u_reduce_zero)
qed

text \<open>Deferred reductions of a weighted sum.\<close>

lemma mul_base_unreduced_value: "f192u_reduce (mul_base_unreduced w v) = w * f192_from v"
  by (simp add: mul_base_def flip: mul_base_from)

lemma form_fold:
  "f192u_reduce (fold (\<lambda>(w, v) acc. f192u_bitxor acc (mul_base_unreduced w v)) wvs acc) =
    f192u_reduce acc + (\<Sum>(w, v)\<leftarrow>wvs. w * f192_from v)"
proof (induction wvs arbitrary: acc)
  case (Cons wv wvs)
  then show ?case
    by (cases wv) (simp add: f192u_reduce_bitxor mul_base_unreduced_value add.assoc)
qed simp

section \<open>Powers and the index column\<close>

primrec powers_loop :: "f192 \<Rightarrow> f192 \<Rightarrow> nat \<Rightarrow> f192 list" where
  "powers_loop x p 0 = []"
| "powers_loop x p (Suc n) = p # powers_loop x (f192_mul p x) n"

definition powers :: "f192 \<Rightarrow> nat \<Rightarrow> f192 list" where
  "powers x n = powers_loop x f192_one n"

lemma powers_eq: "powers x n = map (\<lambda>i. x ^ i) [0..<n]"
proof -
  have "powers_loop x (x ^ k) n = map (\<lambda>i. x ^ i) [k..<k + n]" for k
  proof (induction n arbitrary: k)
    case (Suc n)
    have "f192_mul (x ^ k) x = x ^ Suc k" by (simp add: f192_mul_times mult.commute)
    moreover have "[k..<k + Suc n] = k # [Suc k..<Suc k + n]" by (subst upt_conv_Cons) simp_all
    ultimately show ?case using Suc [of "Suc k"] by (simp only: powers_loop.simps list.map)
  qed simp
  from this [of 0] show ?thesis by (simp add: powers_def one_f192_def)
qed

lemma f192_from_mk192: "f192_from k = mk192 k 0 0"
  by (simp add: f192_from_def mk192_def zero_f64_def)

lemma f192_from_hom:
  "f192_from (a + b) = f192_from a + f192_from b" "f192_from (a * b) = f192_from a * f192_from b"
  "f192_from 1 = 1" "f192_from 0 = 0"
  by (simp_all add: f192_from_mk192 plus_mk192 times_mk192 one_mk192 zero_mk192)

lemma f192_from_power: "f192_from (a ^ n) = f192_from a ^ n"
  by (induction n) (simp_all add: f192_from_hom)

lemma mul_by_g_e_eq: "mul_by_g_e a = a * f192_from f64_g"
proof -
  obtain p q s where a: "a = F192 p q s" by (rule f192.exhaust)
  have "mul_by_g_e a = mk192 (f64_g * F64 p) (f64_g * F64 q) (f64_g * F64 s)"
    by (simp add: a mul_by_g_e_def mul_by_g_times mk192_def)
  also have "\<dots> = a * f192_from f64_g"
    unfolding a F192_mk192 f192_from_mk192 times_mk192 by (simp add: mult.commute)
  finally show ?thesis .
qed

text \<open>
  The multilinear extension of the index column: the weight of index \<open>i\<close> is
  the product over the bits of \<open>i\<close> of \<open>\<zeta>\<^sub>k\<close> or \<open>1 + \<zeta>\<^sub>k\<close>.
\<close>

fun eq_weights :: "f192 list \<Rightarrow> f192 list" where
  "eq_weights [] = [1]"
| "eq_weights (z # zs) = concat (map (\<lambda>w. [(1 + z) * w, z * w]) (eq_weights zs))"

lemma upt_double: "[0..<2 * n] = concat (map (\<lambda>i. [2 * i, Suc (2 * i)]) [0..<n])"
  by (induction n) simp_all

lemma sum_map2_pairs:
  "length ws = length is \<Longrightarrow>
   sum_list (map2 f (concat (map (\<lambda>w. [a w, b w]) ws)) (concat (map (\<lambda>i. [c i, d i]) is)))
    = (\<Sum>(w, i)\<leftarrow>zip ws is. f (a w) (c i) + f (b w) (d i))" for f :: "_ \<Rightarrow> _ \<Rightarrow> 'a::comm_monoid_add"
  by (induction ws "is" rule: list_induct2) (simp_all add: ac_simps)

lemma length_eq_weights: "length (eq_weights zs) = 2 ^ length zs"
  by (induction zs) (simp_all add: length_concat comp_def sum_list_triv)

definition index_sum :: "f192 list \<Rightarrow> f64 \<Rightarrow> f192" where
  "index_sum zeta g = sum_list (map2 (\<lambda>w i. w * f192_from (g ^ i)) (eq_weights zeta) [0..<2 ^ length zeta])"

lemma sum_list_scale: "(\<Sum>x\<leftarrow>xs. c * f x) = c * (\<Sum>x\<leftarrow>xs. f x :: f192)"
  by (induction xs) (simp_all add: distrib_left)

lemma index_sum_Cons: "index_sum (z # zs) g = (1 + z * (1 + f192_from g)) * index_sum zs (g * g)"
proof -
  have up: "[0..<2 ^ length (z # zs)] = concat (map (\<lambda>i. [2 * i, Suc (2 * i)]) [0..<2 ^ length zs])"
    using upt_double [of "2 ^ length zs"] by simp
  have "index_sum (z # zs) g = (\<Sum>(w, i)\<leftarrow>zip (eq_weights zs) [0..<2 ^ length zs].
      (1 + z) * w * f192_from (g ^ (2 * i)) + z * w * f192_from (g ^ Suc (2 * i)))"
    unfolding index_sum_def up eq_weights.simps
    by (rule sum_map2_pairs) (simp add: length_eq_weights)
  also have "\<dots> = (\<Sum>x\<leftarrow>zip (eq_weights zs) [0..<2 ^ length zs].
      (1 + z * (1 + f192_from g)) * (fst x * f192_from ((g * g) ^ snd x)))"
    by (simp add: case_prod_unfold f192_from_hom f192_from_power power_mult power2_eq_square algebra_simps)
  also have "\<dots> = (1 + z * (1 + f192_from g)) * index_sum zs (g * g)"
    by (simp only: sum_list_scale index_sum_def case_prod_unfold)
  finally show ?thesis .
qed

lemma index_mle_fold:
  "fst (fold (\<lambda>z (acc, g2k). (f192_mul acc (f192_add f192_one (mul_base z (f64_add (F64 1) g2k))), f64_mul g2k g2k))
     zeta (acc, g)) = acc * index_sum zeta g"
proof (induction zeta arbitrary: acc g)
  case Nil
  then show ?case by (simp add: index_sum_def f192_from_hom)
next
  case (Cons z zs)
  have "f64_add (F64 1) g = 1 + g" by (simp add: plus_f64_def one_f64_def)
  then show ?case
    using Cons [of "acc * (1 + z * (1 + f192_from g))" "g * g"]
    by (simp add: f192_mul_times f192_add_plus one_f192_def [symmetric] mul_base_from f192_from_hom
        f64_mul_times index_sum_Cons mult.assoc)
qed

lemma index_mle_eq: "index_mle zeta = index_sum zeta f64_g"
  unfolding index_mle_def index_mle_fold by (simp flip: one_f192_def)

section \<open>Properties\<close>

text \<open>C16: every multiplication and squaring back end of the cubic extension (portable, PCLMULQDQ Karatsuba, NEON
  Karatsuba, fused squarings, the mixed-field product) agrees with the field product, the two-step inverse is
  an inverse, and the Frobenius shortcut is the 64-fold squaring.\<close>
theorem f192_backends_agree:
  "software_mul a b = f192_mul a b \<and> f192u_reduce (x86_mul_unreduced a b) = f192_mul a b \<and>
   mul_karatsuba a b = f192_mul a b \<and> f192_square a = f192_mul a a \<and> square_neon a = f192_mul a a \<and>
   mul_base a k = f192_mul a (f192_from k) \<and>
   f192u_reduce (x86_mul_base_unreduced a k) = f192_mul a (f192_from k) \<and>
   frobenius a = (f192_square ^^ 64) a \<and>
   f192_mul a (f192_inv a) = (if f192_is_zero a then f192_zero else f192_one)"
proof -
  have "f192_is_zero a \<longleftrightarrow> a = 0"
    by (cases a) (simp add: f192_is_zero_def zero_f192_def f192_zero_def)
  moreover have "a * f192_inv a = (if a = 0 then 0 else 1)" by (simp add: f192_inv_right)
  moreover have "(f192_square ^^ n) a = a ^ (2 ^ n)" for n
    by (induction n) (simp_all add: f192_square_eq mult.commute flip: power_mult)
  ultimately show ?thesis
    by (simp add: software_mul_eq x86_mul_eq_times mul_karatsuba_eq f192_square_eq square_neon_eq power2_eq_square
      mul_base_from x86_mul_base_unreduced_eq mul_base_def [symmetric] frobenius_power f192_mul_times
      flip: zero_f192_def one_f192_def)
qed



text \<open>C23: the logarithmic-time extension of the index column.\<close>
theorem index_mle_is_multilinear_extension:
  "index_mle zeta = sum_list (map2 (\<lambda>w p. f192_mul w (f192_from p)) (eq_weights zeta) (g_powers (2 ^ length zeta)))"
  by (simp add: index_mle_eq index_sum_def g_powers_eq f192_mul_times zip_map2 comp_def case_prod_unfold)

end
