(* ===== verification/Multilinear.thy ===== *)
theory Multilinear
  imports GF192
begin

text \<open>
  Multilinear extensions, \<^verbatim>\<open>primitives/src/multilinear.rs\<close>: the equality table, the folds that bind a
  variable, and the evaluation routines, each against the sum over the cube weighted by the equality polynomial.
\<close>

section \<open>Definitions\<close>

text \<open>Interpolation in one variable, from extension and from base values.\<close>

definition interp :: "f192 \<Rightarrow> f192 \<Rightarrow> f192 \<Rightarrow> f192" where
  "interp lo hi t = lo + t * (lo + hi)"

definition interp_k :: "f64 \<Rightarrow> f64 \<Rightarrow> f192 \<Rightarrow> f192" where
  "interp_k lo hi t = f192_from lo + mul_base t (lo + hi)"

definition eq_eval :: "f192 list \<Rightarrow> f192 list \<Rightarrow> f192" where
  "eq_eval r x = fold (\<lambda>(ri, xi) acc. acc * (f192_one + ri + xi)) (zip r x) f192_one"

text \<open>Four products at a time, then the tail.\<close>

definition mul4 :: "f192 list \<Rightarrow> f192 list \<Rightarrow> f192 list" where "mul4 a b = mul_vec 4 a b"

fun lanes4 :: "f192 \<Rightarrow> f192 list \<Rightarrow> f192 list" where
  "lanes4 w (a # b # c # d # xs) = mul4 [w, w, w, w] [a, b, c, d] @ lanes4 w xs"
| "lanes4 w xs = map (\<lambda>l. l * w) xs"

text \<open>The equality table: level by level when small, as a tensor product when large.\<close>

definition eq_par_len :: nat where "eq_par_len = 2 ^ 16"
definition eq_low_vars :: nat where "eq_low_vars = 10"

definition eq_level :: "f192 \<Rightarrow> f192 list \<Rightarrow> f192 list" where
  "eq_level rk lo = (let p = lanes4 rk lo in map2 (+) lo p @ p)"

definition fill_eq_doubling :: "f192 list \<Rightarrow> f192 \<Rightarrow> f192 list" where
  "fill_eq_doubling r seed = fold eq_level r [seed]"

lemma eq_par_big: "\<not> 2 ^ n < eq_par_len \<Longrightarrow> 16 \<le> n"
  unfolding eq_par_len_def using power_strict_increasing [of n 16 "2 :: nat"] by (cases "n < 16") simp_all

function fill_eq_table :: "f192 list \<Rightarrow> f192 \<Rightarrow> f192 list" where
  "fill_eq_table r seed =
    (if 2 ^ length r < eq_par_len then fill_eq_doubling r seed
     else let low = fill_eq_table (take eq_low_vars r) f192_one; high = fill_eq_table (drop eq_low_vars r) seed
          in concat (map (\<lambda>w. lanes4 w low) high))"
  by pat_completeness auto

termination
  by (relation "measure (\<lambda>(r, seed). length r)") (auto dest!: eq_par_big simp: eq_low_vars_def)

declare fill_eq_table.simps [simp del]

definition eq_table :: "f192 list \<Rightarrow> f192 list" where
  "eq_table r = fill_eq_table r f192_one"

text \<open>Binding a variable.\<close>

definition fold_low_k :: "f64 list \<Rightarrow> f192 \<Rightarrow> f192 list" where
  "fold_low_k table chi = map (\<lambda>i. interp_k (table ! (2 * i)) (table ! (2 * i + 1)) chi) [0..<length table div 2]"

fun fold_high8 :: "f192 \<Rightarrow> f64 list \<Rightarrow> f64 list \<Rightarrow> f192 list" where
  "fold_high8 chi lo hi =
    (if length lo < 8 then map2 (\<lambda>l h. interp_k l h chi) lo hi
     else map2 (\<lambda>l p. f192_from l + p) (take 8 lo) (mul_base8 chi (map2 (+) (take 8 lo) (take 8 hi))) @
       fold_high8 chi (drop 8 lo) (drop 8 hi))"

declare fold_high8.simps [simp del]

definition fold_high_k :: "f64 list \<Rightarrow> f192 \<Rightarrow> f192 list" where
  "fold_high_k table chi = (let half = length table div 2 in fold_high8 chi (take half table) (drop half table))"

definition interp_into :: "f192 list \<Rightarrow> f192 list \<Rightarrow> f192 \<Rightarrow> f192 list" where
  "interp_into lo hi chi = map2 (+) lo (lanes4 chi (map2 (+) lo hi))"

definition fold_high_inplace :: "f192 list \<Rightarrow> f192 \<Rightarrow> f192 list" where
  "fold_high_inplace table chi = (let half = length table div 2 in interp_into (take half table) (drop half table) chi)"

definition shrink_eq_low :: "f192 list \<Rightarrow> f192 list" where
  "shrink_eq_low table = map (\<lambda>i. table ! (2 * i) + table ! (2 * i + 1)) [0..<length table div 2]"

definition shrink_eq_high :: "f192 list \<Rightarrow> f192 list" where
  "shrink_eq_high table = (let half = length table div 2 in map2 (+) (take half table) (drop half table))"

text \<open>Evaluation.\<close>

definition poly_eval :: "f192 list \<Rightarrow> f192 \<Rightarrow> f192" where
  "poly_eval coeffs point = fold (\<lambda>c acc. acc * point + c) (rev coeffs) f192_zero"

fun fold_ladder :: "f192 list \<Rightarrow> f192 list \<Rightarrow> f192" where
  "fold_ladder cur [] = cur ! 0"
| "fold_ladder cur (p # ps) =
    fold_ladder (map (\<lambda>i. interp (cur ! (2 * i)) (cur ! (2 * i + 1)) p) [0..<length cur div 2]) ps"

definition mle_low_vars :: nat where "mle_low_vars = 10"

definition chunk_list :: "nat \<Rightarrow> 'a list \<Rightarrow> 'a list list" where
  "chunk_list n xs = map (\<lambda>c. take n (drop (n * c) xs)) [0..<length xs div n]"

definition packed_eq :: "f192 list \<Rightarrow> weights8 list" where
  "packed_eq r = map weights8_new (chunk_list 8 (eq_table r))"

definition mle_eval :: "f64 list \<Rightarrow> f192 list \<Rightarrow> f192" where
  "mle_eval table point =
    (if length point < 3 then
       (case point of [] \<Rightarrow> f192_from (table ! 0) | p0 # rest \<Rightarrow> fold_ladder (fold_low_k table p0) rest)
     else
       (let low_vars = min (length point) mle_low_vars;
            low = packed_eq (take low_vars point);
            rows = map (\<lambda>row. f192u_reduce (dot_base low row)) (chunk_list (2 ^ low_vars) table)
        in fold_ladder rows (drop low_vars point)))"

definition par_threshold :: nat where "par_threshold = 2 ^ 12"

definition mle_eval_par :: "f64 list \<Rightarrow> f192 list \<Rightarrow> f192" where
  "mle_eval_par table point =
    (if length table < par_threshold then mle_eval table point
     else
       (let low_vars = min (length point) mle_low_vars;
            low = packed_eq (take low_vars point);
            high = eq_table (drop low_vars point)
        in sum_list (map (\<lambda>row. high ! row * f192u_reduce (dot_base low (take (2 ^ low_vars) (drop (row * 2 ^ low_vars) table))))
             [0..<length high])))"

section \<open>The equality table\<close>

lemma mul4_eq: "length a = 4 \<Longrightarrow> length b = 4 \<Longrightarrow> mul4 a b = map2 (*) a b"
  unfolding mul4_def by (rule mul_vec_eq)

lemma lanes4_eq: "lanes4 w xs = map ((*) w) xs"
  by (induction w xs rule: lanes4.induct) (simp_all add: mul4_eq mult.commute)

lemma eq_level_eq: "eq_level z ws = map ((*) (1 + z)) ws @ map ((*) z) ws"
proof -
  have "map2 (+) ws (map ((*) z) ws) = map ((*) (1 + z)) ws" by (induction ws) (simp_all add: distrib_right)
  then show ?thesis by (simp add: eq_level_def lanes4_eq Let_def)
qed

text \<open>The table by its first and by its last variable.\<close>

lemma eq_weights_snoc: "eq_weights (zs @ [z]) = map ((*) (1 + z)) (eq_weights zs) @ map ((*) z) (eq_weights zs)"
  by (induction zs) (simp_all add: comp_def map_concat mult.left_commute)

lemma fill_eq_doubling_eq: "fill_eq_doubling r seed = map ((*) seed) (eq_weights r)"
proof (induction r rule: rev_induct)
  case (snoc z r)
  then show ?case
    by (simp add: fill_eq_doubling_def eq_level_eq eq_weights_snoc comp_def mult.left_commute)
qed (simp add: fill_eq_doubling_def)

lemma eq_weights_append: "eq_weights (xs @ ys) = concat (map (\<lambda>w. map ((*) w) (eq_weights xs)) (eq_weights ys))"
proof (induction xs)
  case Nil
  have "concat (map (\<lambda>w. [w]) ws) = ws" for ws :: "f192 list" by (induction ws) simp_all
  then show ?case by simp
next
  case (Cons x xs)
  let ?g = "\<lambda>w. [(1 + x) * w, x * w]"
  have "concat (map ?g (concat (map F es))) = concat (map (\<lambda>w. concat (map ?g (F w))) es)" for F and es :: "f192 list"
    by (induction es) simp_all
  moreover have "concat (map ?g (map ((*) w) es)) = map ((*) w) (concat (map ?g es))" for w es
    by (induction es) (simp_all add: mult.left_commute)
  ultimately show ?case using Cons.IH by simp
qed

lemma fill_eq_table_eq: "fill_eq_table r seed = map ((*) seed) (eq_weights r)"
proof (induction r seed rule: fill_eq_table.induct)
  case (1 r seed)
  show ?case
  proof (cases "2 ^ length r < eq_par_len")
    case True
    then show ?thesis by (subst fill_eq_table.simps) (simp add: fill_eq_doubling_eq)
  next
    case False
    have "concat (map (\<lambda>w. map ((*) w) low) (map ((*) s) high)) = map ((*) s) (concat (map (\<lambda>w. map ((*) w) low) high))"
      for s :: f192 and low high by (induction high) (simp_all add: comp_def mult.assoc)
    moreover have "eq_weights r = concat (map (\<lambda>w. map ((*) w) (eq_weights (take eq_low_vars r))) (eq_weights (drop eq_low_vars r)))"
      using eq_weights_append [of "take eq_low_vars r" "drop eq_low_vars r"] by simp
    ultimately show ?thesis
      using False "1.IH"(1) [OF False] "1.IH"(2) [OF False refl]
      by (subst fill_eq_table.simps) (simp add: lanes4_eq one_f192_def [symmetric] Let_def)
  qed
qed

lemma eq_table_eq: "eq_table r = eq_weights r"
  by (simp add: eq_table_def fill_eq_table_eq one_f192_def [symmetric] map_idI)

text \<open>Its entries are the equality polynomial at the corners.\<close>

definition corner :: "nat \<Rightarrow> nat \<Rightarrow> f192 list" where
  "corner n x = map (\<lambda>k. if bit x k then 1 else 0) [0..<n]"

lemma corner_Suc: "corner (Suc n) x = (if odd x then 1 else 0) # corner n (x div 2)"
  by (simp add: corner_def upt_conv_Cons bit_0 flip: map_Suc_upt del: upt_Suc) (simp add: comp_def bit_Suc)

lemma eq_eval_fold: "fold (\<lambda>(ri, xi) acc. acc * (f192_one + ri + xi)) zs acc = acc * (\<Prod>(ri, xi)\<leftarrow>zs. 1 + ri + xi)"
  by (induction zs arbitrary: acc) (auto simp: one_f192_def [symmetric] mult.assoc)

lemma eq_eval_prod: "eq_eval r x = (\<Prod>(ri, xi)\<leftarrow>zip r x. 1 + ri + xi)"
  unfolding eq_eval_def eq_eval_fold by (simp add: one_f192_def [symmetric])

lemma eq_eval_Cons: "eq_eval (r # rs) (x # xs) = (1 + r + x) * eq_eval rs xs"
  by (simp add: eq_eval_prod)

lemma concat_pairs_nth:
  "x < 2 * length ws \<Longrightarrow> concat (map (\<lambda>w. [f w, g w]) ws) ! x = (if odd x then g (ws ! (x div 2)) else f (ws ! (x div 2)))"
proof (induction ws arbitrary: x)
  case (Cons w ws)
  show ?case
  proof (cases "x < 2")
    case True
    then show ?thesis by (cases x) (auto simp: less_Suc_eq)
  next
    case False
    then obtain y where y: "x = Suc (Suc y)" by (metis Suc_1 add_2_eq_Suc le_Suc_ex not_less)
    then show ?thesis using Cons.IH [of y] Cons.prems by simp
  qed
qed simp

lemma eq_weights_nth: "x < 2 ^ length r \<Longrightarrow> eq_weights r ! x = eq_eval r (corner (length r) x)"
proof (induction r arbitrary: x)
  case Nil
  then show ?case by (simp add: eq_eval_prod corner_def)
next
  case (Cons z r)
  have "x div 2 < 2 ^ length r" using Cons.prems by simp
  moreover have "x < 2 * length (eq_weights r)" using Cons.prems by (simp add: length_eq_weights)
  ultimately show ?case
    using Cons.IH by (simp add: concat_pairs_nth corner_Suc eq_eval_Cons f192_char2 ac_simps)
qed

text \<open>C29: the equality table, built level by level below the parallel threshold and as tensor products of smaller tables
  above it, is the table of the equality polynomial at the corners of the cube, lowest variable first.\<close>
theorem eq_table_is_equality_polynomial:
  "eq_table r = map (\<lambda>x. eq_eval r (map (\<lambda>k. if bit x k then f192_one else f192_zero) [0..<length r])) [0..<2 ^ length r]"
proof (rule nth_equalityI)
  show "length (eq_table r) = length (map (\<lambda>x. eq_eval r (map (\<lambda>k. if bit x k then f192_one else f192_zero) [0..<length r])) [0..<2 ^ length r])"
    by (simp add: eq_table_eq length_eq_weights)
  show "eq_table r ! x = map (\<lambda>x. eq_eval r (map (\<lambda>k. if bit x k then f192_one else f192_zero) [0..<length r])) [0..<2 ^ length r] ! x"
    if "x < length (eq_table r)" for x
    using eq_weights_nth [of x r] that unfolding one_f192_def [symmetric] zero_f192_def [symmetric]
    by (simp add: eq_table_eq length_eq_weights corner_def)
qed

section \<open>Evaluation\<close>

text \<open>The multilinear extension of a table: its values weighted by the equality polynomial.\<close>

definition mle :: "f192 list \<Rightarrow> f192 list \<Rightarrow> f192" where
  "mle values point = sum_list (map2 (*) (eq_weights point) values)"

lemma mle_Nil: "mle [v] [] = v"
  by (simp add: mle_def)

lemma pairs_of: "length xs = 2 * n \<Longrightarrow> xs = concat (map (\<lambda>i. [xs ! (2 * i), xs ! Suc (2 * i)]) [0..<n])"
proof (rule nth_equalityI)
  assume len: "length xs = 2 * n"
  have "length (concat (map (\<lambda>i. [xs ! (2 * i), xs ! Suc (2 * i)]) [0..<m])) = 2 * m" for m by (induction m) simp_all
  then show "length xs = length (concat (map (\<lambda>i. [xs ! (2 * i), xs ! Suc (2 * i)]) [0..<n]))" using len by simp
  show "xs ! k = concat (map (\<lambda>i. [xs ! (2 * i), xs ! Suc (2 * i)]) [0..<n]) ! k" if "k < length xs" for k
    using that len concat_pairs_nth [of k "[0..<n]" "\<lambda>i. xs ! (2 * i)" "\<lambda>i. xs ! Suc (2 * i)"] by auto
qed

lemma mle_Cons:
  assumes "length values = 2 * 2 ^ length ps"
  shows "mle values (p # ps) = mle (map (\<lambda>i. interp (values ! (2 * i)) (values ! (2 * i + 1)) p) [0..<2 ^ length ps]) ps"
proof -
  let ?n = "2 ^ length ps"
  have "mle values (p # ps) = sum_list (map2 (*) (concat (map (\<lambda>w. [(1 + p) * w, p * w]) (eq_weights ps)))
      (concat (map (\<lambda>i. [values ! (2 * i), values ! Suc (2 * i)]) [0..<?n])))"
    using pairs_of [OF assms] by (simp add: mle_def)
  also have "\<dots> = (\<Sum>(w, i)\<leftarrow>zip (eq_weights ps) [0..<?n]. (1 + p) * w * values ! (2 * i) + p * w * values ! Suc (2 * i))"
    by (rule sum_map2_pairs) (simp add: length_eq_weights)
  also have "\<dots> = (\<Sum>(w, i)\<leftarrow>zip (eq_weights ps) [0..<?n]. w * interp (values ! (2 * i)) (values ! (2 * i + 1)) p)"
    by (simp add: interp_def algebra_simps)
  finally show ?thesis by (simp add: mle_def zip_map2 comp_def case_prod_unfold)
qed

lemma fold_ladder_mle: "length cur = 2 ^ length ps \<Longrightarrow> fold_ladder cur ps = mle cur ps"
proof (induction ps arbitrary: cur)
  case Nil
  then show ?case by (cases cur) (simp_all add: mle_Nil)
next
  case (Cons p ps)
  then show ?case by (simp add: mle_Cons)
qed

lemma interp_k_from: "interp_k lo hi t = interp (f192_from lo) (f192_from hi) t"
  by (simp add: interp_k_def interp_def mul_base_from f192_from_hom)

lemma mle_base: "mle (map f192_from table) point = dot_spec (eq_weights point) table"
  by (simp add: mle_def dot_spec_def zip_map2 comp_def case_prod_unfold)

lemma chunk_list_length [simp]: "length (chunk_list n xs) = length xs div n"
  by (simp add: chunk_list_def)

lemma block_le: "c < k \<Longrightarrow> n * c + n \<le> n * (k :: nat)"
  by (metis Suc_leI add.commute mult_Suc_right mult_le_mono2)

lemma chunk_list_part: "0 < n \<Longrightarrow> n dvd length xs \<Longrightarrow> c < length xs div n \<Longrightarrow> length (take n (drop (n * c) xs)) = n"
  using block_le [of c _ n] by (fastforce simp: dvd_def)

lemma packed_eq_weights:
  assumes "3 \<le> length r"
  shows "concat (map (\<lambda>w. map (weights8_get w) [0..<8]) (packed_eq r)) = eq_weights r" "length (packed_eq r) = 2 ^ length r div 8"
proof -
  have d: "8 dvd (2 :: nat) ^ length r" using le_imp_power_dvd [OF assms, of "2 :: nat"] by simp
  show "length (packed_eq r) = 2 ^ length r div 8" by (simp add: packed_eq_def eq_table_eq length_eq_weights)
  have "map (weights8_get (weights8_new c)) [0..<8] = c" if "c \<in> set (chunk_list 8 (eq_weights r))" for c
  proof -
    have "length c = 8" using that chunk_list_part [of 8 "eq_weights r"] d by (auto simp: chunk_list_def length_eq_weights)
    then show ?thesis by (intro nth_equalityI) (simp_all add: weights8_get_new)
  qed
  then have "map (\<lambda>w. map (weights8_get w) [0..<8]) (packed_eq r) = chunk_list 8 (eq_weights r)"
    by (simp add: packed_eq_def eq_table_eq map_idI)
  moreover have "concat (map (\<lambda>c. take 8 (drop (8 * c) xs)) [0..<m]) = take (8 * m) xs" for m and xs :: "f192 list"
  proof (induction m)
    case (Suc m)
    have "take (8 * Suc m) xs = take (8 * m + 8) xs" by (simp add: add.commute)
    then show ?case using Suc by (simp only: take_add upt_Suc_append le0 map_append concat_append list.map concat.simps append_Nil2)
  qed simp
  then have "concat (chunk_list 8 (eq_weights r)) = eq_weights r"
    using d by (simp add: chunk_list_def length_eq_weights)
  ultimately show "concat (map (\<lambda>w. map (weights8_get w) [0..<8]) (packed_eq r)) = eq_weights r" by simp
qed

lemma dot_packed:
  assumes "3 \<le> length r" "length row = 2 ^ length r"
  shows "f192u_reduce (dot_base (packed_eq r) row) = mle (map f192_from row) r"
proof -
  have "8 dvd (2 :: nat) ^ length r" using le_imp_power_dvd [OF assms(1), of "2 :: nat"] by simp
  then have "length row = 8 * length (packed_eq r)" using packed_eq_weights(2) [OF assms(1)] assms(2) by simp
  from dot_base_eq [OF this] show ?thesis by (simp add: packed_eq_weights(1) [OF assms(1)] mle_base)
qed

text \<open>Splitting off the low variables.\<close>

lemma mle_append:
  assumes "length values = 2 ^ length xs * 2 ^ length ys"
  shows "mle values (xs @ ys) = mle (map (\<lambda>h. mle (take (2 ^ length xs) (drop (2 ^ length xs * h) values)) xs) [0..<2 ^ length ys]) ys"
  using assms
proof (induction xs arbitrary: "values")
  case Nil
  have "mle (take (Suc 0) (drop h values)) [] = values ! h" if "h < 2 ^ length ys" for h
    using that Nil by (simp add: take_Suc_conv_app_nth mle_Nil)
  then have "map (\<lambda>h. mle (take (Suc 0) (drop h values)) []) [0..<2 ^ length ys] = values"
    using Nil by (intro nth_equalityI) simp_all
  then show ?case by simp
next
  case (Cons x xs)
  let ?n = "2 ^ length xs" and ?m = "2 ^ length ys"
  let ?v = "map (\<lambda>i. interp (values ! (2 * i)) (values ! (2 * i + 1)) x) [0..<?n * ?m]"
  have "mle values ((x # xs) @ ys) = mle ?v (xs @ ys)"
    using mle_Cons [of "values" "xs @ ys" x] Cons.prems by (simp add: power_add mult.assoc)
  also have "\<dots> = mle (map (\<lambda>h. mle (take ?n (drop (?n * h) ?v)) xs) [0..<?m]) ys"
    by (rule Cons.IH) simp
  also have "map (\<lambda>h. mle (take ?n (drop (?n * h) ?v)) xs) [0..<?m] =
      map (\<lambda>h. mle (take (2 * ?n) (drop (2 * ?n * h) values)) (x # xs)) [0..<?m]"
  proof (rule map_cong [OF refl])
    fix h assume "h \<in> set [0..<?m]"
    then have "?n * h + ?n \<le> ?n * ?m" by (intro block_le) simp
    then have le: "?n * h + i < ?n * ?m" if "i < ?n" for i using that by linarith
    have len: "length (take (2 * ?n) (drop (2 * ?n * h) values)) = 2 * ?n"
      using \<open>?n * h + ?n \<le> ?n * ?m\<close> Cons.prems by (simp add: mult.assoc)
    have "take ?n (drop (?n * h) ?v) = map (\<lambda>i. interp (take (2 * ?n) (drop (2 * ?n * h) values) ! (2 * i))
        (take (2 * ?n) (drop (2 * ?n * h) values) ! (2 * i + 1)) x) [0..<?n]"
    proof (rule nth_equalityI)
      have d: "?n * h \<le> length ?v" "2 * ?n * h \<le> length values" using le [of 0] Cons.prems by simp_all
      show "length (take ?n (drop (?n * h) ?v)) = length (map (\<lambda>i. interp (take (2 * ?n) (drop (2 * ?n * h) values) ! (2 * i))
        (take (2 * ?n) (drop (2 * ?n * h) values) ! (2 * i + 1)) x) [0..<?n])"
        using \<open>?n * h + ?n \<le> ?n * ?m\<close> by simp
      fix i assume "i < length (take ?n (drop (?n * h) ?v))"
      then have i: "i < ?n" by simp
      have "take ?n (drop (?n * h) ?v) ! i = ?v ! (?n * h + i)" using i nth_drop [OF d(1)] by simp
      also have "\<dots> = interp (values ! (2 * ?n * h + 2 * i)) (values ! (2 * ?n * h + (2 * i + 1))) x"
        using le [OF i] by (simp add: distrib_left mult.assoc)
      finally show "take ?n (drop (?n * h) ?v) ! i = map (\<lambda>i. interp (take (2 * ?n) (drop (2 * ?n * h) values) ! (2 * i))
        (take (2 * ?n) (drop (2 * ?n * h) values) ! (2 * i + 1)) x) [0..<?n] ! i"
        using i nth_drop [OF d(2)] by simp
    qed
    then show "mle (take ?n (drop (?n * h) ?v)) xs = mle (take (2 * ?n) (drop (2 * ?n * h) values)) (x # xs)"
      using mle_Cons [OF len, of x] by simp
  qed
  finally show ?case by simp
qed

declare dot_base.simps [simp del]

lemma sum_upt_cong: "(\<And>i. i < n \<Longrightarrow> f i = g i) \<Longrightarrow> (\<Sum>i\<leftarrow>[0..<n]. f i) = (\<Sum>i\<leftarrow>[0..<n]. g i :: f192)"
  by (intro arg_cong [of _ _ sum_list] map_cong) auto

lemma chunk_map: "chunk_list n (map f xs) = map (map f) (chunk_list n xs)"
  by (simp add: chunk_list_def take_map drop_map)

lemma chunk_list_2:
  "length xs = 2 ^ a * 2 ^ b \<Longrightarrow> chunk_list (2 ^ a) xs = map (\<lambda>h. take (2 ^ a) (drop (2 ^ a * h) xs)) [0..<2 ^ b]"
  by (simp add: chunk_list_def)

lemma chunk_2_length:
  assumes "length xs = 2 ^ a * 2 ^ b" "h < 2 ^ b"
  shows "length (take (2 ^ a) (drop (2 ^ a * h) xs)) = 2 ^ a"
  using chunk_list_part [of "2 ^ a" xs h] assms by simp

text \<open>The rows of an evaluation.\<close>

lemma dot_rows:
  assumes "length table = 2 ^ length point" "3 \<le> k" "k \<le> length point"
  defines "rows \<equiv> map (\<lambda>h. f192u_reduce (dot_base (packed_eq (take k point)) (take (2 ^ k) (drop (2 ^ k * h) table)))) [0..<2 ^ (length point - k)]"
  shows "mle rows (drop k point) = mle (map f192_from table) point"
proof -
  let ?xs = "take k point" and ?ys = "drop k point"
  have lx: "length ?xs = k" and ly: "length ?ys = length point - k" using assms(3) by simp_all
  have len: "length table = 2 ^ k * 2 ^ (length point - k)" using assms(1,3) by (simp flip: power_add)
  have "f192u_reduce (dot_base (packed_eq ?xs) (take (2 ^ k) (drop (2 ^ k * h) table))) =
      mle (take (2 ^ k) (drop (2 ^ k * h) (map f192_from table))) ?xs" if "h < 2 ^ (length point - k)" for h
    using dot_packed [of ?xs "take (2 ^ k) (drop (2 ^ k * h) table)"] chunk_2_length [OF len that] assms(2) lx
    by (simp add: take_map drop_map)
  then have "rows = map (\<lambda>h. mle (take (2 ^ length ?xs) (drop (2 ^ length ?xs * h) (map f192_from table))) ?xs) [0..<2 ^ length ?ys]"
    unfolding rows_def using lx ly by simp
  then show ?thesis using mle_append [of "map f192_from table" ?xs ?ys] len lx ly by simp
qed

lemma mle_eval_mle:
  assumes "length table = 2 ^ length point"
  shows "mle_eval table point = mle (map f192_from table) point"
proof (cases "length point < 3")
  case True
  show ?thesis
  proof (cases point)
    case Nil
    then show ?thesis using assms by (cases table) (simp_all add: mle_eval_def mle_Nil)
  next
    case (Cons p0 rest)
    have "fold_low_k table p0 = map (\<lambda>i. interp (map f192_from table ! (2 * i)) (map f192_from table ! (2 * i + 1)) p0) [0..<2 ^ length rest]"
      using assms by (simp add: fold_low_k_def Cons interp_k_from)
    then show ?thesis
      using True assms mle_Cons [of "map f192_from table" rest p0] fold_ladder_mle [of _ rest] by (simp add: mle_eval_def Cons)
  qed
next
  case False
  let ?k = "min (length point) mle_low_vars"
  have k: "3 \<le> ?k" "?k \<le> length point" using False by (simp_all add: mle_low_vars_def)
  have len: "length table = 2 ^ ?k * 2 ^ (length point - ?k)" using assms k(2) by (simp flip: power_add)
  show ?thesis
    using False dot_rows [OF assms k] fold_ladder_mle chunk_list_2 [OF len]
    by (simp add: mle_eval_def Let_def comp_def)
qed

lemma sum_list_nth: "length ws = length vs \<Longrightarrow> sum_list (map2 f ws vs) = (\<Sum>i\<leftarrow>[0..<length ws]. f (ws ! i) (vs ! i))"
  by (rule arg_cong [of _ _ sum_list]) (auto intro: nth_equalityI)

lemma mle_eval_par_mle:
  assumes "length table = 2 ^ length point"
  shows "mle_eval_par table point = mle (map f192_from table) point"
proof (cases "length table < par_threshold")
  case True
  then show ?thesis by (simp add: mle_eval_par_def mle_eval_mle [OF assms])
next
  case False
  let ?k = "min (length point) mle_low_vars"
  have "3 \<le> length point" using False assms power_strict_increasing [of "length point" 3 "2 :: nat"]
    by (cases "length point < 3") (simp_all add: par_threshold_def)
  then have k: "3 \<le> ?k" "?k \<le> length point" by (simp_all add: mle_low_vars_def)
  let ?row = "\<lambda>h. f192u_reduce (dot_base (packed_eq (take ?k point)) (take (2 ^ ?k) (drop (2 ^ ?k * h) table)))"
  have le: "length (eq_weights (drop ?k point)) = 2 ^ (length point - ?k)" by (simp add: length_eq_weights)
  have "mle (map ?row [0..<2 ^ (length point - ?k)]) (drop ?k point) =
      (\<Sum>h\<leftarrow>[0..<length (eq_weights (drop ?k point))]. eq_weights (drop ?k point) ! h * ?row h)"
    unfolding mle_def by (subst sum_list_nth, simp add: le, intro sum_upt_cong, simp add: le)
  then show ?thesis
    using False dot_rows [OF assms k] by (simp add: mle_eval_par_def Let_def eq_table_eq mult.commute [of _ "2 ^ ?k"])
qed

text \<open>C30: the two evaluation routines - the ladder over packed dot products and its parallel form, at every size - return the
  sum over the cube of the table's values weighted by the equality polynomial at the point.\<close>
theorem mle_evaluations_agree:
  assumes "length table = 2 ^ length point"
  shows "mle_eval table point =
      (\<Sum>x\<leftarrow>[0..<length table]. f192_mul (eq_eval point (map (\<lambda>k. if bit x k then f192_one else f192_zero) [0..<length point])) (f192_from (table ! x)))
    \<and> mle_eval_par table point = mle_eval table point"
proof -
  have "mle (map f192_from table) point = (\<Sum>x\<leftarrow>[0..<length table]. eq_weights point ! x * f192_from (table ! x))"
    unfolding mle_def by (subst sum_list_nth, simp add: length_eq_weights assms, simp only: length_eq_weights assms, intro sum_upt_cong, simp add: assms)
  also have "\<dots> = (\<Sum>x\<leftarrow>[0..<length table]. f192_mul (eq_eval point (corner (length point) x)) (f192_from (table ! x)))"
    by (intro sum_upt_cong) (simp add: assms eq_weights_nth f192_mul_times)
  finally have "mle (map f192_from table) point = \<dots>" .
  then show ?thesis
    unfolding mle_eval_mle [OF assms] mle_eval_par_mle [OF assms] corner_def one_f192_def [symmetric] zero_f192_def [symmetric] by simp
qed

theorem mle_evaluations_agree_witness:
  "mle_eval [F64 3, F64 5] [f192_y] =
     (\<Sum>x\<leftarrow>[0, 1]. f192_mul (eq_eval [f192_y] [if odd x then f192_one else f192_zero]) (f192_from ([F64 3, F64 5] ! x)))"
  using mle_evaluations_agree [of "[F64 3, F64 5]" "[f192_y]"] by (simp add: bit_0)

section \<open>Binding variables\<close>

lemma fold_high8_eq: "length lo = length hi \<Longrightarrow> fold_high8 chi lo hi = map2 (\<lambda>l h. interp_k l h chi) lo hi"
proof (induction chi lo hi rule: fold_high8.induct)
  case (1 chi lo hi)
  show ?case
  proof (cases "length lo < 8")
    case True
    then show ?thesis by (subst fold_high8.simps) simp
  next
    case False
    have "map2 (\<lambda>l h. interp_k l h chi) lo hi =
        map2 (\<lambda>l h. interp_k l h chi) (take 8 lo @ drop 8 lo) (take 8 hi @ drop 8 hi)" by simp
    also have "\<dots> = map2 (\<lambda>l h. interp_k l h chi) (take 8 lo) (take 8 hi) @ map2 (\<lambda>l h. interp_k l h chi) (drop 8 lo) (drop 8 hi)"
      using 1(2) by (subst zip_append) simp_all
    moreover have "map2 (\<lambda>l p. f192_from l + p) xs (mul_base8 chi (map2 (+) xs ys)) = map2 (\<lambda>l h. interp_k l h chi) xs ys"
      if "length xs = length ys" for xs ys
      using that by (induction xs ys rule: list_induct2) (simp_all add: mul_base8_def interp_k_def)
    moreover have "length (take 8 lo) = length (take 8 hi)" using 1(2) by simp
    ultimately show ?thesis using "1.IH" [OF False] False 1(2) by (subst fold_high8.simps) simp
  qed
qed

lemma mle_snoc:
  assumes "length values = 2 * 2 ^ length ps"
  shows "mle values (ps @ [p]) = mle (map2 (\<lambda>l h. interp l h p) (take (2 ^ length ps) values) (drop (2 ^ length ps) values)) ps"
proof -
  let ?n = "2 ^ length ps"
  have l: "length (take ?n values) = ?n" "length (drop ?n values) = ?n" using assms by simp_all
  have "mle values (ps @ [p]) = sum_list (map2 (*) (map ((*) (1 + p)) (eq_weights ps) @ map ((*) p) (eq_weights ps))
      (take ?n values @ drop ?n values))" by (simp add: mle_def eq_weights_snoc)
  also have "\<dots> = sum_list (map2 (*) (map ((*) (1 + p)) (eq_weights ps)) (take ?n values)) +
      sum_list (map2 (*) (map ((*) p) (eq_weights ps)) (drop ?n values))"
    using l by (subst zip_append) (simp_all add: length_eq_weights)
  also have "\<dots> = sum_list (map2 (*) (eq_weights ps) (map2 (\<lambda>l h. interp l h p) (take ?n values) (drop ?n values)))"
  proof -
    have "sum_list (map2 (*) (map ((*) (1 + p)) ws) xs) + sum_list (map2 (*) (map ((*) p) ws) ys) =
        sum_list (map2 (*) ws (map2 (\<lambda>l h. interp l h p) xs ys))" if "length ws = length xs" "length xs = length ys" for ws xs ys
      using that by (induction ws xs ys rule: list_induct3) (simp_all add: interp_def algebra_simps)
    then show ?thesis using l by (simp add: length_eq_weights)
  qed
  finally show ?thesis by (simp add: mle_def)
qed

lemma interp_into_eq: "length lo = length hi \<Longrightarrow> interp_into lo hi chi = map2 (\<lambda>l h. interp l h chi) lo hi"
  unfolding interp_into_def lanes4_eq by (induction lo hi rule: list_induct2) (simp_all add: interp_def)

lemma fold_high_inplace_mle:
  assumes "length values = 2 * 2 ^ length ps"
  shows "mle (fold_high_inplace values p) ps = mle values (ps @ [p])"
  using assms by (simp add: fold_high_inplace_def Let_def interp_into_eq mle_snoc)

lemma fold_high_k_mle:
  assumes "length table = 2 * 2 ^ length ps"
  shows "mle (fold_high_k table p) ps = mle (map f192_from table) (ps @ [p])"
  using assms by (simp add: fold_high_k_def Let_def fold_high8_eq mle_snoc interp_k_from take_map drop_map zip_map1 zip_map2 comp_def case_prod_unfold)

lemma fold_low_k_mle:
  assumes "length table = 2 * 2 ^ length ps"
  shows "mle (fold_low_k table p) ps = mle (map f192_from table) (p # ps)"
proof -
  have "fold_low_k table p = map (\<lambda>i. interp (map f192_from table ! (2 * i)) (map f192_from table ! (2 * i + 1)) p) [0..<2 ^ length ps]"
    using assms by (simp add: fold_low_k_def interp_k_from)
  then show ?thesis using mle_Cons [of "map f192_from table" ps p] assms by simp
qed

lemma shrink_eq_low_table: "shrink_eq_low (eq_table (r # rs)) = eq_table rs"
proof (rule nth_equalityI)
  show "length (shrink_eq_low (eq_table (r # rs))) = length (eq_table rs)"
    by (simp add: shrink_eq_low_def eq_table_eq length_eq_weights del: eq_weights.simps)
  fix i assume "i < length (shrink_eq_low (eq_table (r # rs)))"
  then have i: "i < 2 ^ length rs" by (simp add: shrink_eq_low_def eq_table_eq length_eq_weights del: eq_weights.simps)
  then have "i < length (eq_weights rs)" by (simp add: length_eq_weights)
  moreover have "(1 + r) * w + r * w = w" for w by (simp add: algebra_simps)
  ultimately show "shrink_eq_low (eq_table (r # rs)) ! i = eq_table rs ! i"
    using i concat_pairs_nth [of "2 * i" "eq_weights rs" "\<lambda>w. (1 + r) * w" "\<lambda>w. r * w"]
      concat_pairs_nth [of "Suc (2 * i)" "eq_weights rs" "\<lambda>w. (1 + r) * w" "\<lambda>w. r * w"]
    by (simp add: shrink_eq_low_def eq_table_eq length_eq_weights length_concat comp_def sum_list_triv)
qed

lemma shrink_eq_high_table: "shrink_eq_high (eq_table (rs @ [r])) = eq_table rs"
proof -
  have "map2 (+) (map ((*) (1 + r)) ws) (map ((*) r) ws) = ws" for ws :: "f192 list"
    by (induction ws) (simp_all add: algebra_simps)
  then show ?thesis by (simp add: shrink_eq_high_def eq_table_eq eq_weights_snoc Let_def length_eq_weights)
qed

text \<open>C31: binding a variable keeps the polynomial. Folding the lowest variable of a base table, the highest of a base table
  (eight lanes at a time) or the highest of an extension table in place leaves a table whose extension is the original's
  with that coordinate fixed, and marginalising the lowest or highest variable out of an equality table leaves the equality
  table of the rest.\<close>
theorem folds_bind_one_variable:
  assumes "length table = 2 * 2 ^ length ps" "length values = 2 * 2 ^ length ps"
  shows "mle (fold_low_k table p) ps = mle (map f192_from table) (p # ps) \<and>
    mle (fold_high_k table p) ps = mle (map f192_from table) (ps @ [p]) \<and>
    mle (fold_high_inplace values p) ps = mle values (ps @ [p]) \<and>
    shrink_eq_low (eq_table (p # ps)) = eq_table ps \<and> shrink_eq_high (eq_table (ps @ [p])) = eq_table ps"
  by (intro conjI fold_low_k_mle fold_high_k_mle fold_high_inplace_mle shrink_eq_low_table shrink_eq_high_table assms)

theorem folds_bind_one_variable_witness:
  "mle (fold_low_k [F64 1, F64 2, F64 3, F64 4] f192_y) [f192_one] = mle (map f192_from [F64 1, F64 2, F64 3, F64 4]) [f192_y, f192_one] \<and>
   mle (fold_high_inplace [f192_y, f192_one, f192_y, f192_y] f192_y) [f192_one] = mle [f192_y, f192_one, f192_y, f192_y] [f192_one, f192_y]"
  using folds_bind_one_variable [of "[F64 1, F64 2, F64 3, F64 4]" "[f192_one]" "[f192_y, f192_one, f192_y, f192_y]" f192_y] by simp

end
