(* ===== verification/Blake2s.thy ===== *)
theory Blake2s
  imports Prelude
begin

text \<open>
  BLAKE2s: the compression of \<^verbatim>\<open>primitives/src/hash/mod.rs\<close> (the portable path) and of
  the witness oracle \<^verbatim>\<open>flock/src/hash.rs\<close>, the streaming hasher, the one-shot, keyed and
  continued hashes, with little-endian byte encodings. Every entry point is
  shown equal to one abstract function of the absorbed bytes.
\<close>

section \<open>Little-endian bytes\<close>

type_synonym byte = "8 word"

definition le_bytes :: "nat \<Rightarrow> 'a::len word \<Rightarrow> byte list" where
  "le_bytes n w = map (\<lambda>i. ucast (drop_bit (8 * i) w)) [0..<n]"

primrec le_word :: "byte list \<Rightarrow> 'a::len word" where
  "le_word [] = 0"
| "le_word (b # bs) = ucast b OR push_bit 8 (le_word bs)"

lemma length_le_bytes [simp]: "length (le_bytes n w) = n"
  by (simp add: le_bytes_def)

lemma bit_le_word:
  "bit (le_word bs :: 'a::len word) k \<longleftrightarrow>
     k < LENGTH('a) \<and> k div 8 < length bs \<and> bit (bs ! (k div 8)) (k mod 8)"
proof (induction bs arbitrary: k)
  case (Cons b bs)
  show ?case
  proof (cases "k < 8")
    case True
    then show ?thesis by (simp add: bit_simps)
  next
    case False
    then obtain j where "k = j + 8" by (metis add.commute le_Suc_ex not_less)
    moreover have "j div 8 = k div 8 - 1" "j mod 8 = k mod 8"
      using False \<open>k = j + 8\<close> by simp_all
    moreover have "\<not> bit b k" using False bit_imp_le_length [of b k] by auto
    ultimately show ?thesis using Cons [of j] by (auto simp: bit_simps)
  qed
qed simp

lemma nth_le_bytes: "i < n \<Longrightarrow> le_bytes n w ! i = ucast (drop_bit (8 * i) w)"
  by (simp add: le_bytes_def)

lemma le_word_le_bytes:
  assumes "LENGTH('a) = 8 * n" shows "(le_word (le_bytes n w) :: 'a::len word) = w"
proof (rule bit_word_eqI)
  fix k assume "k < LENGTH('a)"
  then have "k div 8 < n" "8 * (k div 8) + k mod 8 = k" using assms by simp_all
  then show "bit (le_word (le_bytes n w) :: 'a word) k \<longleftrightarrow> bit w k"
    using \<open>k < LENGTH('a)\<close> by (simp add: bit_le_word nth_le_bytes bit_simps)
qed

lemma le_bytes_le_word:
  assumes "length bs = n" "8 * n \<le> LENGTH('a)"
  shows "le_bytes n (le_word bs :: 'a::len word) = bs"
proof (rule nth_equalityI)
  fix i assume i: "i < length (le_bytes n (le_word bs :: 'a word))"
  show "le_bytes n (le_word bs :: 'a word) ! i = bs ! i"
  proof (rule bit_word_eqI)
    fix k assume "k < LENGTH(8)"
    then have "k < 8" by simp
    then have "8 * i + k < LENGTH('a)" "(8 * i + k) div 8 = i" "(8 * i + k) mod 8 = k"
      using i assms by simp_all
    then show "bit (le_bytes n (le_word bs :: 'a word) ! i) k \<longleftrightarrow> bit (bs ! i) k"
      using i assms \<open>k < 8\<close> by (simp add: nth_le_bytes bit_simps bit_le_word)
  qed
qed (simp add: assms)

section \<open>The compression\<close>

type_synonym u32 = "32 word"

definition blake_iv :: "u32 list" where
  "blake_iv = [0x6A09E667, 0xBB67AE85, 0x3C6EF372, 0xA54FF53A,
     0x510E527F, 0x9B05688C, 0x1F83D9AB, 0x5BE0CD19]"

definition out_len :: nat where "out_len = 32"
definition block_len :: nat where "block_len = 64"

definition sigma :: "nat list list" where
  "sigma = [
    [0, 1, 2, 3, 4, 5, 6, 7, 8, 9, 10, 11, 12, 13, 14, 15],
    [14, 10, 4, 8, 9, 15, 13, 6, 1, 12, 0, 2, 11, 7, 5, 3],
    [11, 8, 12, 0, 5, 2, 15, 13, 10, 14, 3, 6, 7, 1, 9, 4],
    [7, 9, 3, 1, 13, 12, 11, 14, 2, 6, 5, 10, 4, 0, 15, 8],
    [9, 0, 5, 7, 2, 4, 10, 15, 14, 1, 11, 12, 6, 8, 3, 13],
    [2, 12, 6, 10, 0, 11, 8, 3, 4, 13, 7, 5, 15, 14, 1, 9],
    [12, 5, 1, 15, 14, 13, 4, 10, 0, 7, 6, 3, 9, 2, 8, 11],
    [13, 11, 7, 14, 12, 1, 3, 9, 5, 0, 15, 4, 8, 6, 2, 10],
    [6, 15, 14, 9, 11, 3, 0, 8, 12, 2, 13, 7, 1, 4, 10, 5],
    [10, 2, 8, 4, 7, 6, 1, 5, 15, 11, 9, 14, 3, 12, 13, 0]]"

definition g_lanes :: "(nat \<times> nat \<times> nat \<times> nat) list" where
  "g_lanes = [(0, 4, 8, 12), (1, 5, 9, 13), (2, 6, 10, 14), (3, 7, 11, 15),
     (0, 5, 10, 15), (1, 6, 11, 12), (2, 7, 8, 13), (3, 4, 9, 14)]"

definition init_state :: "nat \<Rightarrow> u32 list" where
  "init_state key_len =
     blake_iv[0 := blake_iv ! 0 XOR (0x01010000 XOR push_bit 8 (of_nat key_len) XOR of_nat out_len)]"

text \<open>The mixing function on the lanes \<open>a, b, c, d\<close> of the working state.\<close>

definition g_fn :: "u32 list \<Rightarrow> nat \<Rightarrow> nat \<Rightarrow> nat \<Rightarrow> nat \<Rightarrow> u32 \<Rightarrow> u32 \<Rightarrow> u32 list" where
  "g_fn v a b c d mx my =
    (let v = v[a := v ! a + v ! b + mx];
         v = v[d := word_rotr 16 (v ! d XOR v ! a)];
         v = v[c := v ! c + v ! d];
         v = v[b := word_rotr 12 (v ! b XOR v ! c)];
         v = v[a := v ! a + v ! b + my];
         v = v[d := word_rotr 8 (v ! d XOR v ! a)];
         v = v[c := v ! c + v ! d]
     in v[b := word_rotr 7 (v ! b XOR v ! c)])"

definition blake_round :: "u32 list \<Rightarrow> u32 list \<Rightarrow> nat list \<Rightarrow> u32 list" where
  "blake_round m v round =
    fold (\<lambda>g v. case g_lanes ! g of (a, b, c, d) \<Rightarrow>
        g_fn v a b c d (m ! (round ! (2 * g))) (m ! (round ! (2 * g + 1)))) [0..<8] v"

text \<open>\<^verbatim>\<open>compress_portable\<close>: the compression as the RFC writes it.\<close>

definition compress :: "u32 list \<Rightarrow> u32 list \<Rightarrow> 64 word \<Rightarrow> bool \<Rightarrow> u32 list" where
  "compress h m t last_block =
    (let v = take 8 h @ blake_iv;
         v = v[12 := v ! 12 XOR ucast t];
         v = v[13 := v ! 13 XOR ucast (drop_bit 32 t)];
         v = (if last_block then v[14 := NOT (v ! 14)] else v);
         v = fold (\<lambda>round v. blake_round m v round) sigma v
     in map (\<lambda>i. h ! i XOR (v ! i XOR v ! (i + 8))) [0..<8])"

text \<open>The witness oracle of \<^verbatim>\<open>flock\<close>, with both finalization flags free.\<close>

definition initial_state :: "u32 list \<Rightarrow> 64 word \<Rightarrow> u32 \<Rightarrow> u32 \<Rightarrow> u32 list" where
  "initial_state h t f0 f1 =
     take 8 h @ take 4 blake_iv @
       [blake_iv ! 4 XOR ucast t, blake_iv ! 5 XOR ucast (drop_bit 32 t),
        blake_iv ! 6 XOR f0, blake_iv ! 7 XOR f1]"

definition flock_compress :: "u32 list \<Rightarrow> u32 list \<Rightarrow> 64 word \<Rightarrow> u32 \<Rightarrow> u32 \<Rightarrow> u32 list" where
  "flock_compress h m t f0 f1 =
    (let v = fold (\<lambda>r v. fold (\<lambda>g v. case g_lanes ! g of (la, lb, lc, ld) \<Rightarrow>
               g_fn v la lb lc ld (m ! (sigma ! r ! (2 * g))) (m ! (sigma ! r ! (2 * g + 1)))) [0..<8] v)
             [0..<10] (initial_state h t f0 f1)
     in map (\<lambda>i. h ! i XOR v ! i XOR v ! (i + 8)) [0..<8])"

definition block_words :: "byte list \<Rightarrow> u32 list" where
  "block_words block = map (\<lambda>i. le_word (take 4 (drop (4 * i) block))) [0..<16]"

definition state_bytes :: "u32 list \<Rightarrow> byte list" where
  "state_bytes h = concat (map (\<lambda>w. le_bytes 4 w) (take 8 h))"

section \<open>The streaming hasher\<close>

record hasher =
  hs_h :: "u32 list"
  hs_buf :: "byte list"
  hs_buf_len :: nat
  hs_counter :: "64 word"

definition hasher_new :: hasher where
  "hasher_new = \<lparr>hs_h = init_state 0, hs_buf = replicate 64 0, hs_buf_len = 0, hs_counter = 0\<rparr>"

text \<open>\<^verbatim>\<open>new_keyed\<close>; a key longer than 32 bytes panics.\<close>

definition hasher_new_keyed :: "byte list \<Rightarrow> hasher option" where
  "hasher_new_keyed key =
    (if length key \<le> 32
     then let s = \<lparr>hs_h = init_state (length key), hs_buf = replicate 64 0, hs_buf_len = 0, hs_counter = 0\<rparr>
          in Some (if key \<noteq> []
             then s\<lparr>hs_buf := key @ drop (length key) (hs_buf s), hs_buf_len := block_len\<rparr> else s)
     else None)"

text \<open>The flush of a full buffer once more input follows.\<close>

definition hasher_flush :: "hasher \<Rightarrow> hasher" where
  "hasher_flush s =
    (if hs_buf_len s = block_len
     then let c = hs_counter s + of_nat block_len
          in s\<lparr>hs_counter := c, hs_h := compress (hs_h s) (block_words (hs_buf s)) c False, hs_buf_len := 0\<rparr>
     else s)"

text \<open>
  \<^verbatim>\<open>update\<close>. A buffer length past the block is a slice panic; it is returned
  unchanged here and excluded by the invariant below.
\<close>

function hasher_update :: "hasher \<Rightarrow> byte list \<Rightarrow> hasher" where
  "hasher_update s data =
    (if data = [] \<or> block_len < hs_buf_len s then s
     else
       let s = hasher_flush s;
           tk = min (block_len - hs_buf_len s) (length data);
           s = s\<lparr>hs_buf := take (hs_buf_len s) (hs_buf s) @ take tk data
                  @ drop (hs_buf_len s + tk) (hs_buf s),
                 hs_buf_len := hs_buf_len s + tk\<rparr>
       in hasher_update s (drop tk data))"
  by auto
termination
proof (relation "measure (\<lambda>(_, data). length data)")
  fix s data and s' tk and s'' :: hasher
  assume *: "\<not> (data = [] \<or> block_len < hs_buf_len s)" "s' = hasher_flush s"
    "tk = min (block_len - hs_buf_len s') (length data)"
  then have "hs_buf_len s' < block_len" by (auto simp: hasher_flush_def Let_def block_len_def)
  then have "0 < tk" using * by auto
  then show "((s'', drop tk data), (s, data)) \<in> measure (\<lambda>(_, data). length data)"
    using * by auto
qed simp

declare hasher_update.simps [simp del]

definition hasher_finalize :: "hasher \<Rightarrow> byte list" where
  "hasher_finalize s =
    (let block = take (hs_buf_len s) (hs_buf s) @ replicate (length (hs_buf s) - hs_buf_len s) 0;
         t = hs_counter s + of_nat (hs_buf_len s)
     in state_bytes (compress (hs_h s) (block_words block) t True))"

section \<open>One-shot hashes\<close>

definition chunk64 :: "byte list \<Rightarrow> nat \<Rightarrow> byte list" where
  "chunk64 data b = take 64 (drop (64 * b) data)"

definition blake_hash :: "byte list \<Rightarrow> byte list" where
  "blake_hash data =
    (if data \<noteq> [] \<and> length data mod block_len = 0
     then let n = length data div block_len
          in state_bytes (fold (\<lambda>b h. compress h (block_words (chunk64 data b))
               (of_nat ((b + 1) * block_len)) (b + 1 = n)) [0..<n] (init_state 0))
     else hasher_finalize (hasher_update hasher_new data))"

definition keyed_hash :: "byte list \<Rightarrow> byte list \<Rightarrow> byte list option" where
  "keyed_hash key data =
    (case hasher_new_keyed key of None \<Rightarrow> None
     | Some s \<Rightarrow> Some (hasher_finalize (hasher_update s data)))"

definition zero_prefix_state :: "nat \<Rightarrow> u32 list" where
  "zero_prefix_state n_blocks =
    fold (\<lambda>b h. compress h (replicate 16 0) (of_nat ((b + 1) * block_len)) False) [0..<n_blocks] (init_state 0)"

text \<open>\<^verbatim>\<open>hash_from_state\<close>; a continued image that is not whole blocks panics.\<close>

definition hash_from_state :: "byte list \<Rightarrow> u32 list \<Rightarrow> 64 word \<Rightarrow> byte list option" where
  "hash_from_state data state t_offset =
    (if data \<noteq> [] \<and> length data mod block_len = 0
     then let n = length data div block_len
          in Some (state_bytes (fold (\<lambda>b h. compress h (block_words (chunk64 data b))
               (t_offset + of_nat ((b + 1) * block_len)) (b + 1 = n)) [0..<n] state))
     else None)"



section \<open>The two compressions agree\<close>

lemma list8_cases:
  assumes "length h = 8"
  obtains a b c d e f g i where "h = [a, b, c, d, e, f, g, i]"
  using assms by (auto simp: numeral_eq_Suc length_Suc_conv)

lemma sigma_nth: "map ((!) sigma) [0..<10] = sigma"
proof -
  have "length sigma = 10" by (simp add: sigma_def)
  then show ?thesis using map_nth [of sigma] by simp
qed

theorem flock_compress_eq:
  assumes "length h = 8"
  shows "flock_compress h m t (if last_block then - 1 else 0) 0 = compress h m t last_block"
proof -
  obtain a b c d e f g i where h: "h = [a, b, c, d, e, f, g, i]" using assms by (rule list8_cases)
  have init: "initial_state h t (if last_block then - 1 else 0) 0 =
    (let v = take 8 h @ blake_iv;
         v = v[12 := v ! 12 XOR ucast t];
         v = v[13 := v ! 13 XOR ucast (drop_bit 32 t)]
     in if last_block then v[14 := NOT (v ! 14)] else v)"
    by (simp add: h initial_state_def blake_iv_def Let_def)
  have "fold (\<lambda>round v. blake_round m v round) sigma v
      = fold (\<lambda>r v. blake_round m v (sigma ! r)) [0..<10] v" for v
    using fold_map [of "\<lambda>round v. blake_round m v round" "(!) sigma" "[0..<10]"]
    by (simp add: sigma_nth comp_def)
  then show ?thesis
    unfolding flock_compress_def compress_def Let_def init [unfolded Let_def]
    by (simp add: blake_round_def xor.assoc)
qed

section \<open>Streaming equals one-shot\<close>

text \<open>
  The abstract hash of a byte string from a starting state: all blocks but the
  last are chained, and the last, padded with zeros, is final.
\<close>

definition full_blocks :: "byte list \<Rightarrow> nat" where
  "full_blocks bs = (length bs - 1) div 64"

definition chain_blocks :: "u32 list \<Rightarrow> 64 word \<Rightarrow> byte list \<Rightarrow> nat \<Rightarrow> u32 list" where
  "chain_blocks h0 t0 bs k =
    fold (\<lambda>b h. compress h (block_words (chunk64 bs b)) (t0 + of_nat (64 * (b + 1))) False) [0..<k] h0"

definition blake_spec :: "u32 list \<Rightarrow> 64 word \<Rightarrow> byte list \<Rightarrow> byte list" where
  "blake_spec h0 t0 bs =
    (let k = full_blocks bs;
         rest = drop (64 * k) bs
     in state_bytes (compress (chain_blocks h0 t0 bs k) (block_words (rest @ replicate (64 - length rest) 0))
          (t0 + of_nat (length bs)) True))"

lemma full_blocks_bounds:
  "64 * full_blocks bs \<le> length bs" "length bs - 64 * full_blocks bs \<le> 64"
  "bs \<noteq> [] \<Longrightarrow> 64 * full_blocks bs < length bs"
proof -
  have "full_blocks bs * 64 + (length bs - 1) mod 64 = length bs - 1"
    unfolding full_blocks_def by (rule div_mult_mod_eq)
  moreover have "(length bs - 1) mod 64 < 64" by simp
  ultimately show "64 * full_blocks bs \<le> length bs" "length bs - 64 * full_blocks bs \<le> 64"
    "bs \<noteq> [] \<Longrightarrow> 64 * full_blocks bs < length bs"
    by (auto simp flip: length_greater_0_conv)
qed

lemma full_blocks_unique:
  "\<lbrakk>64 * k < length bs; length bs - 64 * k \<le> 64\<rbrakk> \<Longrightarrow> full_blocks bs = k"
  unfolding full_blocks_def by (rule div_nat_eqI) auto

lemma chunk64_append: "64 * (b + 1) \<le> length bs \<Longrightarrow> chunk64 (bs @ cs) b = chunk64 bs b"
  by (simp add: chunk64_def)

lemma chain_blocks_append:
  "64 * k \<le> length bs \<Longrightarrow> chain_blocks h0 t0 (bs @ cs) k = chain_blocks h0 t0 bs k"
  unfolding chain_blocks_def by (rule fold_cong) (auto simp: chunk64_append)

lemma chain_blocks_Suc:
  "chain_blocks h0 t0 bs (Suc k) =
     compress (chain_blocks h0 t0 bs k) (block_words (chunk64 bs k)) (t0 + of_nat (64 * (k + 1))) False"
  by (simp add: chain_blocks_def)

text \<open>The hasher represents the bytes absorbed so far.\<close>

definition hasher_repr :: "u32 list \<Rightarrow> byte list \<Rightarrow> hasher \<Rightarrow> bool" where
  "hasher_repr h0 bs s \<longleftrightarrow>
    hs_h s = chain_blocks h0 0 bs (full_blocks bs) \<and>
    length (hs_buf s) = 64 \<and>
    hs_buf_len s = length bs - 64 * full_blocks bs \<and>
    take (hs_buf_len s) (hs_buf s) = drop (64 * full_blocks bs) bs \<and>
    hs_counter s = of_nat (64 * full_blocks bs)"

lemma hasher_repr_new: "hasher_repr (init_state 0) [] hasher_new"
  by (simp add: hasher_repr_def hasher_new_def full_blocks_def chain_blocks_def)

lemma hasher_repr_new_keyed:
  assumes "length key \<le> 32"
  shows "\<exists>s. hasher_new_keyed key = Some s \<and>
    hasher_repr (init_state (length key)) (if key = [] then [] else key @ replicate (64 - length key) 0) s"
  using assms
  by (auto simp: hasher_new_keyed_def hasher_repr_def Let_def full_blocks_def chain_blocks_def block_len_def)

lemma hasher_repr_finalize:
  "hasher_repr h0 bs s \<Longrightarrow> hasher_finalize s = blake_spec h0 0 bs"
  using full_blocks_bounds [of bs] unfolding hasher_repr_def
  by (elim conjE) (simp add: hasher_finalize_def blake_spec_def Let_def flip: of_nat_add of_nat_mult)

text \<open>One round of \<^verbatim>\<open>update\<close>: the flush, then the copy of as much as fits.\<close>

definition absorb :: "hasher \<Rightarrow> byte list \<Rightarrow> hasher" where
  "absorb s bytes = s\<lparr>hs_buf := take (hs_buf_len s) (hs_buf s) @ bytes
       @ drop (hs_buf_len s + length bytes) (hs_buf s), hs_buf_len := hs_buf_len s + length bytes\<rparr>"

lemma hasher_update_step:
  assumes "data \<noteq> []" "hs_buf_len s \<le> 64"
  shows "hasher_update s data =
    hasher_update (absorb (hasher_flush s) (take (64 - hs_buf_len (hasher_flush s)) data))
      (drop (64 - hs_buf_len (hasher_flush s)) data)"
proof -
  have "min (64 - hs_buf_len (hasher_flush s)) (length data) = length (take (64 - hs_buf_len (hasher_flush s)) data)"
    by simp
  then show ?thesis
    using assms
    by (subst hasher_update.simps) (simp add: block_len_def Let_def absorb_def min_def)
qed

lemma absorb_repr:
  assumes repr: "hasher_repr h0 bs s" and "bytes \<noteq> []"
    and fits: "length bytes \<le> 64 - hs_buf_len (hasher_flush s)"
  shows "hasher_repr h0 (bs @ bytes) (absorb (hasher_flush s) bytes)"
proof (cases "hs_buf_len s = 64")
  case True
  let ?k = "full_blocks bs"
  have "length bs - 64 * ?k = 64" using True repr by (simp add: hasher_repr_def)
  then have len: "length bs = 64 * ?k + 64" by linarith
  have fl: "hs_buf_len (hasher_flush s) = 0" using True by (simp add: hasher_flush_def Let_def block_len_def)
  have new: "full_blocks (bs @ bytes) = Suc ?k"
    by (rule full_blocks_unique) (use len assms fl in auto)
  have "chunk64 bs ?k = hs_buf s"
    using repr True len unfolding hasher_repr_def by (elim conjE) (simp add: chunk64_def)
  then have "hs_h (hasher_flush s) = chain_blocks h0 0 bs (Suc ?k)"
    using repr True
    by (simp add: hasher_flush_def Let_def block_len_def chain_blocks_Suc hasher_repr_def flip: of_nat_add)
      (simp add: add.commute)
  moreover have "chain_blocks h0 0 (bs @ bytes) (Suc ?k) = chain_blocks h0 0 bs (Suc ?k)"
    by (rule chain_blocks_append) (use len in simp)
  moreover have "hs_counter (hasher_flush s) = of_nat (64 * Suc ?k)"
    using repr True by (simp add: hasher_flush_def Let_def block_len_def hasher_repr_def)
  moreover have "length (hs_buf (hasher_flush s)) = 64"
    using repr True by (simp add: hasher_flush_def Let_def block_len_def hasher_repr_def)
  ultimately show ?thesis
    using len fl fits by (simp add: hasher_repr_def absorb_def new)
next
  case False
  let ?k = "full_blocks bs"
  have fl: "hasher_flush s = s" using False by (simp add: hasher_flush_def block_len_def)
  have len: "hs_buf_len s = length bs - 64 * ?k" "hs_buf_len s < 64"
    using False repr full_blocks_bounds [of bs] by (simp_all add: hasher_repr_def)
  have new: "full_blocks (bs @ bytes) = ?k"
    by (rule full_blocks_unique)
      (use len assms fl full_blocks_bounds [of bs] in \<open>auto simp flip: length_greater_0_conv\<close>)
  have "chain_blocks h0 0 (bs @ bytes) ?k = chain_blocks h0 0 bs ?k"
    by (rule chain_blocks_append) (rule full_blocks_bounds)
  then show ?thesis
    using repr len fits full_blocks_bounds [of bs]
    by (simp add: hasher_repr_def absorb_def fl new)
qed

lemma hasher_update_repr:
  "hasher_repr h0 bs s \<Longrightarrow> hasher_repr h0 (bs @ data) (hasher_update s data)"
proof (induction data arbitrary: bs s rule: length_induct)
  case (1 data)
  have le: "hs_buf_len s \<le> 64" using 1(2) full_blocks_bounds [of bs] by (simp add: hasher_repr_def)
  show ?case
  proof (cases "data = []")
    case True
    then show ?thesis using 1(2) by (simp add: hasher_update.simps)
  next
    case False
    let ?n = "64 - hs_buf_len (hasher_flush s)"
    have "0 < ?n" using le by (auto simp: hasher_flush_def Let_def block_len_def)
    then have ne: "take ?n data \<noteq> []" "length (drop ?n data) < length data" using False by (cases data; auto)+
    have "hasher_repr h0 (bs @ take ?n data) (absorb (hasher_flush s) (take ?n data))"
      by (rule absorb_repr [OF 1(2) ne(1)]) simp
    with 1(1) ne(2) have "hasher_repr h0 ((bs @ take ?n data) @ drop ?n data)
        (hasher_update (absorb (hasher_flush s) (take ?n data)) (drop ?n data))" by blast
    then show ?thesis by (simp add: hasher_update_step [OF False le])
  qed
qed

lemma hasher_stream:
  "hasher_repr h0 bs s \<Longrightarrow> hasher_finalize (hasher_update s data) = blake_spec h0 0 (bs @ data)"
  by (rule hasher_repr_finalize) (rule hasher_update_repr)

text \<open>The whole-block loop of the one-shot and continued hashes.\<close>

lemma whole_blocks_spec:
  assumes "data \<noteq> []" "length data mod 64 = 0"
  shows "state_bytes (fold (\<lambda>b h. compress h (block_words (chunk64 data b))
      (t0 + of_nat ((b + 1) * 64)) (b + 1 = length data div 64)) [0..<length data div 64] h0)
    = blake_spec h0 t0 data"
proof -
  obtain k where k: "length data = 64 * Suc k"
    using assms by (cases "length data div 64") (auto simp: mod_eq_0_iff_dvd)
  then have full: "full_blocks data = k" by (intro full_blocks_unique) simp_all
  have "fold (\<lambda>b h. compress h (block_words (chunk64 data b)) (t0 + of_nat ((b + 1) * 64)) (b + 1 = Suc k)) [0..<k] h0
      = chain_blocks h0 t0 data k"
    unfolding chain_blocks_def by (rule fold_cong) (auto simp: mult.commute)
  moreover have "chunk64 data k = drop (64 * k) data" using k by (simp add: chunk64_def)
  ultimately show ?thesis
    using k by (simp add: blake_spec_def full Let_def mult.commute)
qed

theorem blake_hash_spec: "blake_hash data = blake_spec (init_state 0) 0 data"
  using whole_blocks_spec [of data 0 "init_state 0"] hasher_stream [OF hasher_repr_new, of data]
  by (simp add: blake_hash_def block_len_def Let_def)

theorem keyed_hash_spec:
  assumes "length key \<le> 32"
  shows "keyed_hash key data = Some (blake_spec (init_state (length key)) 0
    ((if key = [] then [] else key @ replicate (64 - length key) 0) @ data))"
  using hasher_repr_new_keyed [OF assms] hasher_stream by (auto simp: keyed_hash_def)

theorem hash_from_zero_prefix:
  assumes "data \<noteq> []" "length data mod 64 = 0"
  shows "hash_from_state data (zero_prefix_state n) (of_nat (64 * n))
    = Some (blake_hash (replicate (64 * n) 0 @ data))"
proof -
  obtain k where k: "length data = 64 * Suc k"
    using assms by (cases "length data div 64") (auto simp: mod_eq_0_iff_dvd)
  let ?bs = "replicate (64 * n) 0 @ data"
  have full: "full_blocks ?bs = n + k" "full_blocks data = k"
    using k by (auto intro!: full_blocks_unique)
  have zero: "block_words (chunk64 ?bs b) = replicate 16 0" if "b < n" for b
  proof -
    have "chunk64 ?bs b = replicate 64 0" using that by (simp add: chunk64_def)
    moreover have "le_word (replicate m 0) = (0 :: u32)" for m by (induction m) simp_all
    ultimately show ?thesis by (simp add: block_words_def map_replicate_const)
  qed
  have "chain_blocks (init_state 0) 0 ?bs n = zero_prefix_state n"
    unfolding chain_blocks_def zero_prefix_state_def block_len_def
  proof (rule fold_cong)
    fix b assume "b \<in> set [0..<n]"
    then have "block_words (chunk64 ?bs b) = replicate 16 0" by (intro zero) simp
    moreover have "64 * (b + 1) = (b + 1) * 64" by (rule mult.commute)
    ultimately show "(\<lambda>h. compress h (block_words (chunk64 ?bs b)) (0 + of_nat (64 * (b + 1))) False)
        = (\<lambda>h. compress h (replicate 16 0) (of_nat ((b + 1) * 64)) False)"
      by (simp only: add_0_left)
  qed simp_all
  moreover have "chain_blocks (init_state 0) 0 ?bs (n + j)
      = chain_blocks (chain_blocks (init_state 0) 0 ?bs n) (of_nat (64 * n)) data j" if "j \<le> k" for j
    using that
  proof (induction j)
    case 0
    then show ?case by (simp add: chain_blocks_def)
  next
    case (Suc j)
    have "chunk64 ?bs (n + j) = chunk64 data j" by (simp add: chunk64_def algebra_simps)
    then show ?case using Suc by (simp add: chain_blocks_Suc algebra_simps)
  qed
  moreover have "drop (64 * (n + k)) ?bs = drop (64 * k) data" by (simp add: algebra_simps)
  ultimately have "blake_spec (zero_prefix_state n) (of_nat (64 * n)) data = blake_spec (init_state 0) 0 ?bs"
    by (simp add: blake_spec_def full Let_def)
  then show ?thesis
    using whole_blocks_spec [OF assms, of "of_nat (64 * n)" "zero_prefix_state n"] assms
    by (simp add: hash_from_state_def block_len_def Let_def blake_hash_spec)
qed

section \<open>Properties\<close>

text \<open>C19: feeding the hasher a message in any sequence of pieces, of any sizes and including empty ones, gives the
  one-shot hash of the concatenation, on both the whole-block fast path and the buffered path.\<close>
theorem hasher_split_independent:
  "hasher_finalize (foldl hasher_update hasher_new parts) = blake_hash (concat parts)"
proof -
  have "hasher_repr h0 bs s \<Longrightarrow> hasher_repr h0 (bs @ concat parts) (foldl hasher_update s parts)" for h0 bs s
  proof (induction parts arbitrary: bs s)
    case (Cons p ps)
    from Cons.IH [OF hasher_update_repr [OF Cons.prems]] show ?case by simp
  qed simp
  from hasher_repr_finalize [OF this [OF hasher_repr_new]] show ?thesis by (simp add: blake_hash_spec)
qed

end
