(* ===== verification/GPow.thy ===== *)
theory GPow
  imports GF64
begin

text \<open>
  The \<open>g\<close>-power table with its reverse index, \<^verbatim>\<open>GPow\<close> of
  \<^verbatim>\<open>lean_vm/src/cpu/hints.rs\<close>: an open-addressing hash table from field elements to
  exponents, grown and widened on demand. The functional contract is that a
  lookup is the discrete logarithm over the covered range, whatever has been
  announced.
\<close>

section \<open>Definitions\<close>

definition max_cells :: nat where "max_cells = 2 ^ 28"
definition min_log_mem :: nat where "min_log_mem = 16"

record gpow =
  gp_pow :: "f64 list"
  gp_noted :: "nat list"
  gp_index :: "nat list"
  gp_dense :: bool

text \<open>
  A table operation may panic; a probe that visits every slot without stopping
  would loop forever. Both are \<open>None\<close>.
\<close>

definition slot_of :: "64 word \<Rightarrow> nat \<Rightarrow> nat" where
  "slot_of key msk = unat (drop_bit 32 (key * 0x9E3779B97F4A7C15)) AND msk"

definition gp_covered :: "gpow \<Rightarrow> nat" where
  "gp_covered g = length (gp_pow g)"

text \<open>The probe loop shared by the three walks: the first slot from \<open>i\<close> that stops it.\<close>

primrec probe :: "(nat \<Rightarrow> bool) \<Rightarrow> nat \<Rightarrow> nat \<Rightarrow> nat \<Rightarrow> nat option" where
  "probe stop msk i 0 = None"
| "probe stop msk i (Suc n) = (if stop i then Some i else probe stop msk ((i + 1) AND msk) n)"

definition gp_lookup :: "gpow \<Rightarrow> f64 \<Rightarrow> nat option option" where
  "gp_lookup g x =
    (let msk = length (gp_index g) - 1;
         i = slot_of (raw64 x) msk
     in case probe (\<lambda>i. gp_index g ! i = 0 \<or> gp_pow g ! (gp_index g ! i - 1) = x) msk i (length (gp_index g)) of
          None \<Rightarrow> None
        | Some i \<Rightarrow> Some (if gp_index g ! i = 0 then None else Some (gp_index g ! i - 1)))"

definition gp_widen_insert :: "f64 list \<Rightarrow> nat \<Rightarrow> nat list option \<Rightarrow> nat list option" where
  "gp_widen_insert pow k index =
    (case index of None \<Rightarrow> None
     | Some index \<Rightarrow>
       (let msk = length index - 1;
            i = slot_of (raw64 (pow ! k)) msk
        in case probe (\<lambda>i. index ! i = 0) msk i (length index) of
             None \<Rightarrow> None
           | Some i \<Rightarrow> Some (index[i := k + 1])))"

definition gp_widen :: "gpow \<Rightarrow> gpow option" where
  "gp_widen g =
    (let cap = max (next_power_of_two (length (gp_noted g) * 2 + 1)) (2 ^ 13)
     in case fold (gp_widen_insert (gp_pow g)) (gp_noted g) (Some (replicate cap 0)) of
          None \<Rightarrow> None
        | Some index \<Rightarrow> Some (g\<lparr>gp_index := index\<rparr>))"

definition gp_note :: "nat \<Rightarrow> gpow \<Rightarrow> gpow option" where
  "gp_note k g =
    (case (if length (gp_index g) \<le> length (gp_noted g) * 2 then gp_widen g else Some g) of
       None \<Rightarrow> None
     | Some g \<Rightarrow>
       (if k < length (gp_pow g)
        then
          (let msk = length (gp_index g) - 1;
               i = slot_of (raw64 (gp_pow g ! k)) msk
           in case probe (\<lambda>i. gp_index g ! i = 0 \<or> gp_index g ! i - 1 = k mod 2 ^ 32) msk i
                     (length (gp_index g)) of
                None \<Rightarrow> None
              | Some i \<Rightarrow>
                  Some (if gp_index g ! i = 0
                    then g\<lparr>gp_index := (gp_index g)[i := k mod 2 ^ 32 + 1],
                           gp_noted := gp_noted g @ [k mod 2 ^ 32]\<rparr>
                    else g))
        else None))"

primrec gp_grow_steps :: "nat \<Rightarrow> gpow \<Rightarrow> gpow option" where
  "gp_grow_steps 0 g = Some g"
| "gp_grow_steps (Suc n) g =
    (let g = g\<lparr>gp_pow := gp_pow g @ [mul_by_g (last (gp_pow g))]\<rparr>
     in case (if gp_dense g then gp_note (length (gp_pow g) - 1) g else Some g) of
          None \<Rightarrow> None
        | Some g \<Rightarrow> gp_grow_steps n g)"

text \<open>
  \<^verbatim>\<open>grow_to\<close>: the loop runs once per missing entry; growing past the address space
  panics.
\<close>

definition gp_grow_to :: "nat \<Rightarrow> gpow \<Rightarrow> gpow option" where
  "gp_grow_to lim g =
    (if lim < max_cells then gp_grow_steps (Suc lim - length (gp_pow g)) g else None)"

primrec gp_note_all :: "nat list \<Rightarrow> gpow \<Rightarrow> gpow option" where
  "gp_note_all [] g = Some g"
| "gp_note_all (k # ks) g = (case gp_note k g of None \<Rightarrow> None | Some g \<Rightarrow> gp_note_all ks g)"

definition gp_new :: "nat \<Rightarrow> gpow option" where
  "gp_new lim =
    (let lim = max lim (2 ^ min_log_mem);
         g = \<lparr>gp_pow = [F64 1], gp_noted = [], gp_index = [], gp_dense = False\<rparr>
     in case gp_grow_to lim g of
          None \<Rightarrow> None
        | Some g \<Rightarrow>
            gp_note_all [0..<Suc lim]
              (g\<lparr>gp_index := replicate (max (next_power_of_two (2 * (lim + 1))) (2 ^ 13)) 0\<rparr>))"

definition gp_log :: "f64 \<Rightarrow> gpow \<Rightarrow> (gpow \<times> nat option) option" where
  "gp_log x g =
    (case gp_lookup g x of
       None \<Rightarrow> None
     | Some (Some k) \<Rightarrow> Some (g, Some k)
     | Some None \<Rightarrow>
         (if gp_dense g \<or> length (gp_noted g) = length (gp_pow g) then Some (g, None)
          else
            (case gp_widen (g\<lparr>gp_dense := True, gp_noted := [0..<length (gp_pow g)]\<rparr>) of
               None \<Rightarrow> None
             | Some g \<Rightarrow> (case gp_lookup g x of None \<Rightarrow> None | Some r \<Rightarrow> Some (g, r)))))"

definition gp_pow_at :: "nat \<Rightarrow> gpow \<Rightarrow> f64 option" where
  "gp_pow_at k g = (if k < length (gp_pow g) then Some (gp_pow g ! k) else None)"



section \<open>Probing\<close>

lemma probe_spec:
  assumes "msk = 2 ^ m - 1" "i < 2 ^ m"
  shows "probe stop msk i n = Some j \<longleftrightarrow>
    (\<exists>d<n. j = (i + d) mod 2 ^ m \<and> stop j \<and> (\<forall>e<d. \<not> stop ((i + e) mod 2 ^ m)))"
  using assms(2)
proof (induction n arbitrary: i)
  case (Suc n)
  let ?L = "2 ^ m :: nat"
  have nx: "(i + 1) AND msk = (i + 1) mod ?L" unfolding assms(1) by (rule and_mask_mod)
  have IH: "probe stop msk ((i + 1) mod ?L) n = Some j \<longleftrightarrow>
    (\<exists>d<n. j = (i + Suc d) mod ?L \<and> stop j \<and> (\<forall>e<d. \<not> stop ((i + Suc e) mod ?L)))"
    using Suc.IH [of "(i + 1) mod ?L"] by (simp add: mod_add_left_eq)
  show ?case
  proof (cases "stop i")
    case True
    have "(\<exists>d<Suc n. j = (i + d) mod ?L \<and> stop j \<and> (\<forall>e<d. \<not> stop ((i + e) mod ?L))) \<longleftrightarrow> i = j"
      (is "?l \<longleftrightarrow> _")
    proof
      assume ?l
      then obtain d where d: "j = (i + d) mod ?L" "\<forall>e<d. \<not> stop ((i + e) mod ?L)" by blast
      have "d = 0" using d(2) True Suc.prems by (cases d) auto
      then show "i = j" using d(1) Suc.prems by simp
    next
      assume "i = j"
      then show ?l using True Suc.prems by (intro exI [of _ 0]) simp
    qed
    then show ?thesis using True by simp
  next
    case False
    have "(\<exists>d<Suc n. j = (i + d) mod ?L \<and> stop j \<and> (\<forall>e<d. \<not> stop ((i + e) mod ?L))) \<longleftrightarrow>
        (\<exists>d<n. j = (i + Suc d) mod ?L \<and> stop j \<and> (\<forall>e<d. \<not> stop ((i + Suc e) mod ?L)))" (is "?l \<longleftrightarrow> ?r")
    proof
      assume ?l
      then obtain d where d: "d < Suc n" "j = (i + d) mod ?L" "stop j" "\<forall>e<d. \<not> stop ((i + e) mod ?L)"
        by blast
      have "d \<noteq> 0" using d False Suc.prems by (intro notI) simp
      then obtain d' where "d = Suc d'" by (cases d) auto
      then show ?r using d by (intro exI [of _ d']) auto
    next
      assume ?r
      then obtain d where d: "d < n" "j = (i + Suc d) mod ?L" "stop j" "\<forall>e<d. \<not> stop ((i + Suc e) mod ?L)"
        by blast
      have "\<forall>e<Suc d. \<not> stop ((i + e) mod ?L)"
      proof (intro allI impI)
        fix e assume "e < Suc d"
        then show "\<not> stop ((i + e) mod ?L)" using d(4) False Suc.prems by (cases e) simp_all
      qed
      then show ?l using d by (intro exI [of _ "Suc d"]) simp
    qed
    then show ?thesis using False nx IH by simp
  qed
qed simp

lemma probe_total:
  assumes "msk = 2 ^ m - 1" "i < 2 ^ m" "j < 2 ^ m" "stop j"
  shows "\<exists>k. probe stop msk i (2 ^ m) = Some k"
proof -
  let ?L = "2 ^ m :: nat"
  define P where "P = (\<lambda>d. d < ?L \<and> stop ((i + d) mod ?L))"
  have "P ((j + (?L - i)) mod ?L)"
  proof -
    have "(i + (j + (?L - i)) mod ?L) mod ?L = (i + (j + (?L - i))) mod ?L" by (simp add: mod_add_right_eq)
    also have "\<dots> = j" using assms(2,3) by simp
    finally show ?thesis using assms(4) by (simp add: P_def)
  qed
  then have least: "P (LEAST d. P d)" by (rule LeastI)
  have "\<forall>e < (LEAST d. P d). \<not> stop ((i + e) mod ?L)"
    using not_less_Least [of _ P] least by (auto simp: P_def)
  then have "probe stop msk i ?L = Some ((i + (LEAST d. P d)) mod ?L)"
    using least assms unfolding probe_spec [OF assms(1,2)]
    by (intro exI [of _ "LEAST d. P d"]) (auto simp: P_def)
  then show ?thesis by blast
qed

section \<open>The table invariant\<close>

text \<open>
  A table over the exponents \<open>K\<close>: the nonzero slots hold exactly the successors
  of \<open>K\<close>, once each, and every exponent is found along its own probe chain.
\<close>

definition slot :: "f64 list \<Rightarrow> nat \<Rightarrow> nat \<Rightarrow> nat" where
  "slot pow m k = slot_of (raw64 (pow ! k)) (2 ^ m - 1)"

definition tbl_ok :: "f64 list \<Rightarrow> nat \<Rightarrow> nat list \<Rightarrow> nat set \<Rightarrow> bool" where
  "tbl_ok pow m index K \<longleftrightarrow>
    length index = 2 ^ m \<and> finite K \<and>
    (\<forall>i<2 ^ m. index ! i \<noteq> 0 \<longrightarrow> index ! i - 1 \<in> K) \<and>
    (\<forall>i<2 ^ m. \<forall>j<2 ^ m. index ! i \<noteq> 0 \<longrightarrow> index ! i = index ! j \<longrightarrow> i = j) \<and>
    (\<forall>k\<in>K. \<exists>d<2 ^ m. index ! ((slot pow m k + d) mod 2 ^ m) = k + 1 \<and>
       (\<forall>e<d. index ! ((slot pow m k + e) mod 2 ^ m) \<noteq> 0))"

lemma slot_less: "slot_of x (2 ^ m - 1) < 2 ^ m"
  by (simp add: slot_of_def and_mask_mod del: One_nat_def)

lemma tbl_okD:
  assumes "tbl_ok pow m index K"
  shows "length index = 2 ^ m" "finite K"
    "\<And>i. \<lbrakk>i < 2 ^ m; index ! i \<noteq> 0\<rbrakk> \<Longrightarrow> index ! i - 1 \<in> K"
    "\<And>i j. \<lbrakk>i < 2 ^ m; j < 2 ^ m; index ! i \<noteq> 0; index ! i = index ! j\<rbrakk> \<Longrightarrow> i = j"
    "\<And>k. k \<in> K \<Longrightarrow> \<exists>d<2 ^ m. index ! ((slot pow m k + d) mod 2 ^ m) = k + 1 \<and>
       (\<forall>e<d. index ! ((slot pow m k + e) mod 2 ^ m) \<noteq> 0)"
  using assms unfolding tbl_ok_def by blast+

lemma tbl_ok_empty: "tbl_ok pow m (replicate (2 ^ m) 0) {}"
  by (simp add: tbl_ok_def)

lemma tbl_ok_empty_slot:
  assumes "tbl_ok pow m index K" "card K < 2 ^ m"
  shows "\<exists>j<2 ^ m. index ! j = 0"
proof (rule ccontr)
  assume "\<not> ?thesis"
  then have nz: "index ! j \<noteq> 0" if "j < 2 ^ m" for j using that by auto
  have "inj_on (\<lambda>i. index ! i - 1) {..<2 ^ m}"
  proof (rule inj_onI)
    fix i j assume "i \<in> {..<(2::nat) ^ m}" "j \<in> {..<(2::nat) ^ m}" "index ! i - 1 = index ! j - 1"
    then show "i = j" using tbl_okD(4) [OF assms(1), of i j] nz [of i] nz [of j] by auto
  qed
  moreover have "(\<lambda>i. index ! i - 1) ` {..<2 ^ m} \<subseteq> K" using tbl_okD(3) [OF assms(1)] nz by auto
  ultimately have "card {..<(2::nat) ^ m} \<le> card K" using tbl_okD(2) [OF assms(1)] by (rule card_inj_on_le)
  then show False using assms(2) by simp
qed

text \<open>Looking an element up.\<close>

lemma tbl_probe_lookup:
  assumes ok: "tbl_ok pow m index K" and "card K < 2 ^ m" and inj: "inj_on ((!) pow) K"
  shows "\<exists>i<2 ^ m. probe (\<lambda>i. index ! i = 0 \<or> pow ! (index ! i - 1) = x) (2 ^ m - 1) (slot_of (raw64 x) (2 ^ m - 1)) (2 ^ m)
      = Some i \<and> (if index ! i = 0 then x \<notin> (!) pow ` K else index ! i - 1 \<in> K \<and> pow ! (index ! i - 1) = x)"
proof -
  let ?stop = "\<lambda>i. index ! i = 0 \<or> pow ! (index ! i - 1) = x"
  let ?s = "slot_of (raw64 x) (2 ^ m - 1)"
  obtain j where "j < 2 ^ m" "index ! j = 0" using tbl_ok_empty_slot [OF assms(1,2)] by blast
  then obtain i where i: "probe ?stop (2 ^ m - 1) ?s (2 ^ m) = Some i"
    using probe_total [OF refl slot_less, of j m ?stop "raw64 x"] by auto
  then obtain d where d: "d < 2 ^ m" "i = (?s + d) mod 2 ^ m" "?stop i" "\<forall>e<d. \<not> ?stop ((?s + e) mod 2 ^ m)"
    unfolding probe_spec [OF refl slot_less] by blast
  have "i < 2 ^ m" using d(2) by simp
  have "x \<notin> (!) pow ` K" if zero: "index ! i = 0"
  proof
    assume "x \<in> (!) pow ` K"
    then obtain k where k: "k \<in> K" "x = pow ! k" by blast
    then have s: "slot pow m k = ?s" by (simp add: slot_def)
    obtain d' where d': "index ! ((?s + d') mod 2 ^ m) = k + 1" "\<forall>e<d'. index ! ((?s + e) mod 2 ^ m) \<noteq> 0"
      using tbl_okD(5) [OF ok k(1)] unfolding s by blast
    have "\<not> d < d'" using d'(2) zero d(2) by blast
    moreover have "\<not> d' < d" using d(4) d'(1) k(2) by auto
    ultimately have "d = d'" by simp
    then show False using d'(1) d(2) zero by simp
  qed
  then show ?thesis using i d(3) \<open>i < 2 ^ m\<close> tbl_okD(3) [OF ok] by auto
qed

text \<open>Inserting at the first empty slot.\<close>

lemma tbl_insert:
  assumes ok: "tbl_ok pow m index K" and "k \<notin> K"
    and i: "i = (slot pow m k + d) mod 2 ^ m" "d < 2 ^ m" "index ! i = 0"
    and chain: "\<forall>e<d. index ! ((slot pow m k + e) mod 2 ^ m) \<noteq> 0"
  shows "tbl_ok pow m (index[i := k + 1]) (insert k K)"
proof -
  have len: "length index = 2 ^ m" and "i < 2 ^ m" using tbl_okD(1) [OF ok] i(1) by simp_all
  have upd: "index[i := k + 1] ! j = (if j = i then k + 1 else index ! j)" for j
    using len \<open>i < 2 ^ m\<close> by (simp add: nth_list_update)
  note upd' = upd [unfolded Suc_eq_plus1 [symmetric]]
  have fresh: "j < 2 ^ m \<Longrightarrow> index ! j \<noteq> k + 1" for j
    using tbl_okD(3) [OF ok, of j] assms(2) by auto
  have "\<exists>d<2 ^ m. index[i := k + 1] ! ((slot pow m k' + d) mod 2 ^ m) = k' + 1 \<and>
       (\<forall>e<d. index[i := k + 1] ! ((slot pow m k' + e) mod 2 ^ m) \<noteq> 0)" if mem: "k' \<in> insert k K" for k'
  proof (cases "k' = k")
    case True
    have "index[i := k + 1] ! ((slot pow m k + d) mod 2 ^ m) = k + 1"
      unfolding i(1) [symmetric] upd by simp
    moreover have "\<forall>e<d. index[i := k + 1] ! ((slot pow m k + e) mod 2 ^ m) \<noteq> 0"
      using chain unfolding upd by simp
    ultimately show ?thesis using i(2) unfolding True by blast
  next
    case False
    then obtain d' where "d' < 2 ^ m" "index ! ((slot pow m k' + d') mod 2 ^ m) = k' + 1"
      "\<forall>e<d'. index ! ((slot pow m k' + e) mod 2 ^ m) \<noteq> 0"
      using mem tbl_okD(5) [OF ok, of k'] by blast
    then show ?thesis using i(3) unfolding upd by (intro exI [of _ d']) auto
  qed
  moreover have "\<forall>j<2 ^ m. \<forall>j'<2 ^ m. index[i := k + 1] ! j \<noteq> 0 \<longrightarrow>
      index[i := k + 1] ! j = index[i := k + 1] ! j' \<longrightarrow> j = j'"
  proof (intro allI impI)
    fix j j' assume j: "j < 2 ^ m" "j' < 2 ^ m" "index[i := k + 1] ! j \<noteq> 0"
      "index[i := k + 1] ! j = index[i := k + 1] ! j'"
    show "j = j'"
    proof (cases "j = i \<or> j' = i")
      case True
      then show ?thesis using j fresh [of j] fresh [of j'] by (auto simp: upd' split: if_splits)
    next
      case False
      then show ?thesis using j tbl_okD(4) [OF ok, of j j'] by (auto simp: upd')
    qed
  qed
  moreover have "\<forall>j<2 ^ m. index[i := k + 1] ! j \<noteq> 0 \<longrightarrow> index[i := k + 1] ! j - 1 \<in> insert k K"
    using tbl_okD(3) [OF ok] by (auto simp: upd')
  ultimately show ?thesis
    using len tbl_okD(2) [OF ok] unfolding tbl_ok_def by simp
qed


lemma tbl_insert_probe:
  assumes ok: "tbl_ok pow m index K" and "card K < 2 ^ m" and "k \<notin> K"
    and stop: "\<And>i. i < 2 ^ m \<Longrightarrow> stop i \<longleftrightarrow> index ! i = 0"
  shows "\<exists>i. probe stop (2 ^ m - 1) (slot pow m k) (2 ^ m) = Some i \<and> index ! i = 0 \<and>
    tbl_ok pow m (index[i := k + 1]) (insert k K)"
proof -
  have s: "slot pow m k < 2 ^ m" unfolding slot_def by (rule slot_less)
  obtain j where j: "j < 2 ^ m" "index ! j = 0" using tbl_ok_empty_slot [OF assms(1,2)] by blast
  then obtain i where i: "probe stop (2 ^ m - 1) (slot pow m k) (2 ^ m) = Some i"
    using probe_total [OF refl s, of j stop] stop by auto
  then obtain d where d: "d < 2 ^ m" "i = (slot pow m k + d) mod 2 ^ m" "stop i"
    "\<forall>e<d. \<not> stop ((slot pow m k + e) mod 2 ^ m)"
    unfolding probe_spec [OF refl s] by blast
  have "index ! i = 0" using d stop [of i] by simp
  moreover have "\<forall>e<d. index ! ((slot pow m k + e) mod 2 ^ m) \<noteq> 0"
    using d(4) stop by simp
  ultimately show ?thesis using tbl_insert [OF ok assms(3) d(2,1)] i by blast
qed

lemma tbl_insert_all:
  assumes "tbl_ok pow m index K" "distinct ks" "set ks \<inter> K = {}" "card K + length ks < 2 ^ m"
  shows "\<exists>index'. fold (gp_widen_insert pow) ks (Some index) = Some index' \<and> tbl_ok pow m index' (K \<union> set ks)"
  using assms
proof (induction ks arbitrary: index K)
  case (Cons k ks)
  obtain i where i: "probe (\<lambda>i. index ! i = 0) (2 ^ m - 1) (slot pow m k) (2 ^ m) = Some i"
    "tbl_ok pow m (index[i := k + 1]) (insert k K)"
    using tbl_insert_probe [OF Cons.prems(1), of k "\<lambda>i. index ! i = 0"] Cons.prems by auto
  have step: "gp_widen_insert pow k (Some index) = Some (index[i := k + 1])"
    using i(1) tbl_okD(1) [OF Cons.prems(1)] by (simp add: gp_widen_insert_def Let_def slot_def)
  have "card (insert k K) + length ks < 2 ^ m"
    using Cons.prems tbl_okD(2) [OF Cons.prems(1)] by (simp add: card_insert_if)
  with Cons.IH [OF i(2)] Cons.prems show ?case by (auto simp: step)
qed simp

section \<open>The invariant of the reverse index\<close>

definition gp_inv :: "gpow \<Rightarrow> bool" where
  "gp_inv g \<longleftrightarrow>
    gp_pow g = map (\<lambda>k. f64_g ^ k) [0..<length (gp_pow g)] \<and>
    gp_pow g \<noteq> [] \<and> length (gp_pow g) \<le> max_cells \<and>
    distinct (gp_noted g) \<and> set (gp_noted g) \<subseteq> {..<length (gp_pow g)} \<and>
    2 * length (gp_noted g) \<le> length (gp_index g) \<and>
    (\<exists>m. 0 < m \<and> tbl_ok (gp_pow g) m (gp_index g) (set (gp_noted g)))"

definition gp_ok :: "gpow \<Rightarrow> bool" where
  "gp_ok g \<longleftrightarrow> gp_inv g \<and> (gp_dense g \<longrightarrow> set (gp_noted g) = {..<length (gp_pow g)})"

lemma max_cells_order: "max_cells < 2 ^ 32" "max_cells < 2 ^ 64 - 1"
  by (simp_all add: max_cells_def)

lemma gp_pow_nth:
  assumes "gp_pow g = map (\<lambda>k. f64_g ^ k) [0..<length (gp_pow g)]" "k < length (gp_pow g)"
  shows "gp_pow g ! k = f64_g ^ k"
proof -
  have "gp_pow g ! k = map (\<lambda>k. f64_g ^ k) [0..<length (gp_pow g)] ! k"
    by (rule arg_cong [OF assms(1)])
  also have "\<dots> = f64_g ^ k" using assms(2) by simp
  finally show ?thesis .
qed

lemma gp_pow_inj:
  assumes "gp_pow g = map (\<lambda>k. f64_g ^ k) [0..<length (gp_pow g)]" "length (gp_pow g) \<le> max_cells"
    "K \<subseteq> {..<length (gp_pow g)}"
  shows "inj_on ((!) (gp_pow g)) K"
proof (rule inj_onI)
  fix i j assume "i \<in> K" "j \<in> K" and eq: "gp_pow g ! i = gp_pow g ! j"
  then have lt: "i < length (gp_pow g)" "j < length (gp_pow g)" using assms(3) by auto
  then have "f64_g ^ i = f64_g ^ j" using eq by (simp add: gp_pow_nth [OF assms(1)])
  moreover have "i < 2 ^ 64 - 1" "j < 2 ^ 64 - 1"
    using lt assms(2) max_cells_order(2) by linarith+
  ultimately show "i = j" by (intro g_power_inj)
qed

lemma tbl_ok_pow_cong:
  assumes "tbl_ok pow m index K" "\<And>k. k \<in> K \<Longrightarrow> pow' ! k = pow ! k"
  shows "tbl_ok pow' m index K"
proof -
  have "k \<in> K \<Longrightarrow> slot pow' m k = slot pow m k" for k using assms(2) by (simp add: slot_def)
  then show ?thesis using assms(1) unfolding tbl_ok_def by simp
qed

lemma gp_widen_ok:
  assumes "gp_pow g \<noteq> []" "distinct (gp_noted g)"
  shows "\<exists>index m. gp_widen g = Some (g\<lparr>gp_index := index\<rparr>) \<and> length index = 2 ^ m \<and> 0 < m \<and>
    2 * length (gp_noted g) < 2 ^ m \<and> tbl_ok (gp_pow g) m index (set (gp_noted g))"
proof -
  let ?n = "length (gp_noted g)"
  obtain a where a: "next_power_of_two (?n * 2 + 1) = 2 ^ a" using next_power_of_two_power by blast
  have cap: "max (next_power_of_two (?n * 2 + 1)) (2 ^ 13) = 2 ^ max a 13"
  proof (cases "a \<le> 13")
    case True
    then have "(2 :: nat) ^ a \<le> 2 ^ 13" by (rule power_increasing) simp
    then show ?thesis using True unfolding a by (simp only: max_absorb2)
  next
    case False
    then have "(2 :: nat) ^ 13 \<le> 2 ^ a" by (intro power_increasing) simp_all
    then show ?thesis using False unfolding a by (simp only: max_absorb1 linear not_le less_imp_le)
  qed
  have "?n * 2 + 1 \<le> 2 ^ a" using next_power_of_two_ge [of "?n * 2 + 1"] a by simp
  also have "\<dots> \<le> (2 :: nat) ^ max a 13" by (rule power_increasing) simp_all
  finally have big: "?n * 2 + 1 \<le> 2 ^ max a 13" .
  then obtain index where "fold (gp_widen_insert (gp_pow g)) (gp_noted g) (Some (replicate (2 ^ max a 13) 0)) = Some index"
    "tbl_ok (gp_pow g) (max a 13) index (set (gp_noted g))"
    using tbl_insert_all [OF tbl_ok_empty, of "gp_noted g" "max a 13" "gp_pow g"] assms(2) by auto
  then show ?thesis
    using big tbl_okD(1) unfolding gp_widen_def Let_def cap
    by (intro exI [of _ index] exI [of _ "max a 13"]) auto
qed

lemma gp_note_ok:
  assumes inv: "gp_inv g" and k: "k < length (gp_pow g)"
  shows "\<exists>g'. gp_note k g = Some g' \<and> gp_inv g' \<and> gp_pow g' = gp_pow g \<and> gp_dense g' = gp_dense g \<and>
    set (gp_noted g') = insert k (set (gp_noted g))"
proof -
  have pow: "gp_pow g = map (\<lambda>k. f64_g ^ k) [0..<length (gp_pow g)]" "gp_pow g \<noteq> []"
    "length (gp_pow g) \<le> max_cells" and nt: "distinct (gp_noted g)" "set (gp_noted g) \<subseteq> {..<length (gp_pow g)}"
    using inv by (auto simp: gp_inv_def)
  have km: "k mod 4294967296 = k" using k pow(3) by (simp add: max_cells_def)
  obtain index m where w: "(if length (gp_index g) \<le> length (gp_noted g) * 2 then gp_widen g else Some g)
      = Some (g\<lparr>gp_index := index\<rparr>)" "length index = 2 ^ m" "0 < m"
    "2 * length (gp_noted g) < 2 ^ m" "tbl_ok (gp_pow g) m index (set (gp_noted g))"
  proof (cases "length (gp_index g) \<le> length (gp_noted g) * 2")
    case True
    then show ?thesis using gp_widen_ok [OF pow(2) nt(1)] that by auto
  next
    case False
    obtain m where "0 < m" "tbl_ok (gp_pow g) m (gp_index g) (set (gp_noted g))"
      using inv by (auto simp: gp_inv_def)
    then show ?thesis using False tbl_okD(1) that [of "gp_index g" m] by auto
  qed
  have card: "card (set (gp_noted g)) < 2 ^ m"
    using w(4) nt(1) by (simp add: distinct_card)
  let ?stop = "\<lambda>i. index ! i = 0 \<or> index ! i - 1 = k"
  have s: "slot (gp_pow g) m k < 2 ^ m" unfolding slot_def by (rule slot_less)
  show ?thesis
  proof (cases "k \<in> set (gp_noted g)")
    case True
    obtain j where "j < 2 ^ m" "index ! j = 0" using tbl_ok_empty_slot [OF w(5) card] by blast
    then obtain i where i: "probe ?stop (2 ^ m - 1) (slot (gp_pow g) m k) (2 ^ m) = Some i"
      using probe_total [OF refl s, of j ?stop] by auto
    then obtain d where d: "i = (slot (gp_pow g) m k + d) mod 2 ^ m" "?stop i"
      "\<forall>e<d. \<not> ?stop ((slot (gp_pow g) m k + e) mod 2 ^ m)"
      unfolding probe_spec [OF refl s] by blast
    obtain d' where d': "index ! ((slot (gp_pow g) m k + d') mod 2 ^ m) = k + 1"
      "\<forall>e<d'. index ! ((slot (gp_pow g) m k + e) mod 2 ^ m) \<noteq> 0"
      using tbl_okD(5) [OF w(5) True] by blast
    have "index ! i \<noteq> 0"
    proof
      assume z: "index ! i = 0"
      have "\<not> d < d'" using d'(2) z d(1) by blast
      moreover have "\<not> d' < d" using d(3) d'(1) by auto
      ultimately have "d = d'" by simp
      then show False using d'(1) d(1) z by simp
    qed
    then have "gp_note k g = Some (g\<lparr>gp_index := index\<rparr>)"
      using i k w(1,2) by (simp add: gp_note_def Let_def slot_def km)
    moreover have "gp_inv (g\<lparr>gp_index := index\<rparr>)"
      using inv w unfolding gp_inv_def by auto
    ultimately show ?thesis using True by (auto simp: insert_absorb)
  next
    case False
    have "index ! i - 1 \<noteq> k" if "i < 2 ^ m" "index ! i \<noteq> 0" for i
      using tbl_okD(3) [OF w(5) that] False by blast
    then obtain i where i: "probe ?stop (2 ^ m - 1) (slot (gp_pow g) m k) (2 ^ m) = Some i" "index ! i = 0"
      "tbl_ok (gp_pow g) m (index[i := k + 1]) (insert k (set (gp_noted g)))"
      using tbl_insert_probe [OF w(5) card False, of ?stop] by auto
    let ?g = "g\<lparr>gp_index := index[i := k + 1], gp_noted := gp_noted g @ [k]\<rparr>"
    have "gp_note k g = Some ?g"
      using i(1,2) k w(1,2) by (simp add: gp_note_def Let_def slot_def km)
    moreover obtain m' where "m = Suc m'" using w(3) by (cases m) auto
    then have "2 * length (gp_noted g) + 2 \<le> 2 ^ m" using w(4) by simp
    then have "gp_inv ?g"
      using pow nt k False i(3) w(2,3) unfolding gp_inv_def by (auto intro!: exI [of _ m])
    ultimately show ?thesis by auto
  qed
qed




section \<open>Lookups are discrete logarithms\<close>

lemma gp_lookup_ok:
  assumes inv: "gp_inv g"
  shows "\<exists>r. gp_lookup g x = Some r \<and> (\<forall>k. r = Some k \<longleftrightarrow> k \<in> set (gp_noted g) \<and> x = f64_g ^ k)"
proof -
  have pow: "gp_pow g = map (\<lambda>k. f64_g ^ k) [0..<length (gp_pow g)]"
    "length (gp_pow g) \<le> max_cells" and nt: "distinct (gp_noted g)"
    "set (gp_noted g) \<subseteq> {..<length (gp_pow g)}"
    using inv by (auto simp: gp_inv_def)
  obtain m where m: "0 < m" "tbl_ok (gp_pow g) m (gp_index g) (set (gp_noted g))"
    using inv by (auto simp: gp_inv_def)
  have len: "length (gp_index g) = 2 ^ m" using tbl_okD(1) [OF m(2)] .
  have card: "card (set (gp_noted g)) < 2 ^ m"
  proof -
    have "2 * length (gp_noted g) \<le> 2 ^ m" using inv len by (simp add: gp_inv_def)
    moreover have "(0 :: nat) < 2 ^ m" by simp
    ultimately have "length (gp_noted g) < 2 ^ m" by linarith
    then show ?thesis using nt(1) by (simp add: distinct_card)
  qed
  note inj = gp_pow_inj [OF pow nt(2)]
  obtain i where i: "i < 2 ^ m"
    "probe (\<lambda>i. gp_index g ! i = 0 \<or> gp_pow g ! (gp_index g ! i - 1) = x) (2 ^ m - 1)
      (slot_of (raw64 x) (2 ^ m - 1)) (2 ^ m) = Some i"
    "if gp_index g ! i = 0 then x \<notin> (!) (gp_pow g) ` set (gp_noted g)
     else gp_index g ! i - 1 \<in> set (gp_noted g) \<and> gp_pow g ! (gp_index g ! i - 1) = x"
    using tbl_probe_lookup [OF m(2) card inj, of x] by blast
  have nth: "k \<in> set (gp_noted g) \<Longrightarrow> gp_pow g ! k = f64_g ^ k" for k
    using nt(2) gp_pow_nth [OF pow(1), of k] by auto
  have "gp_lookup g x = Some (if gp_index g ! i = 0 then None else Some (gp_index g ! i - 1))"
    using i(2) by (simp add: gp_lookup_def Let_def len)
  moreover have "(if gp_index g ! i = 0 then None else Some (gp_index g ! i - 1)) = Some k
      \<longleftrightarrow> k \<in> set (gp_noted g) \<and> x = f64_g ^ k" for k
  proof (cases "gp_index g ! i = 0")
    case True
    then show ?thesis using i(3) nth by auto
  next
    case False
    then have h: "gp_index g ! i - 1 \<in> set (gp_noted g)" "gp_pow g ! (gp_index g ! i - 1) = x"
      using i(3) by auto
    show ?thesis
    proof
      assume "(if gp_index g ! i = 0 then None else Some (gp_index g ! i - 1)) = Some k"
      then have "gp_index g ! i - 1 = k" using False by simp
      then show "k \<in> set (gp_noted g) \<and> x = f64_g ^ k" using h nth by auto
    next
      assume k: "k \<in> set (gp_noted g) \<and> x = f64_g ^ k"
      then have "gp_pow g ! k = gp_pow g ! (gp_index g ! i - 1)" using h nth by auto
      then have "k = gp_index g ! i - 1" using inj_onD [OF inj] k h by blast
      then show "(if gp_index g ! i = 0 then None else Some (gp_index g ! i - 1)) = Some k"
        using False by simp
    qed
  qed
  ultimately show ?thesis by blast
qed

text \<open>The result a lookup over the covered range must have.\<close>

definition dlog_result :: "nat \<Rightarrow> f64 \<Rightarrow> nat option \<Rightarrow> bool" where
  "dlog_result n x r \<longleftrightarrow> (\<forall>k. r = Some k \<longleftrightarrow> k < n \<and> x = f64_g ^ k)"

theorem gp_log_ok:
  assumes ok: "gp_ok g"
  shows "\<exists>g' r. gp_log x g = Some (g', r) \<and> gp_ok g' \<and> gp_pow g' = gp_pow g \<and>
    dlog_result (gp_covered g) x r"
proof -
  have inv: "gp_inv g" using ok by (simp add: gp_ok_def)
  then have sub: "set (gp_noted g) \<subseteq> {..<length (gp_pow g)}" and nt: "distinct (gp_noted g)"
    and ne: "gp_pow g \<noteq> []" by (auto simp: gp_inv_def)
  obtain r where r: "gp_lookup g x = Some r" "\<And>k. r = Some k \<longleftrightarrow> k \<in> set (gp_noted g) \<and> x = f64_g ^ k"
    using gp_lookup_ok [OF inv, of x] by blast
  show ?thesis
  proof (cases r)
    case (Some k)
    then have k: "k < length (gp_pow g)" "x = f64_g ^ k" using r(2) [of k] sub by auto
    have "k' = k" if "k' < length (gp_pow g)" "x = f64_g ^ k'" for k'
    proof (rule g_power_inj)
      have "length (gp_pow g) \<le> max_cells" using inv by (simp add: gp_inv_def)
      then show "k' < 2 ^ 64 - 1" "k < 2 ^ 64 - 1" using that k max_cells_order(2) by linarith+
      show "f64_g ^ k' = f64_g ^ k" using that k by simp
    qed
    then have "dlog_result (gp_covered g) x (Some k)"
      using k by (auto simp: dlog_result_def gp_covered_def)
    then show ?thesis using r(1) Some ok by (simp add: gp_log_def)
  next
    case None
    show ?thesis
    proof (cases "gp_dense g \<or> length (gp_noted g) = length (gp_pow g)")
      case True
      have "set (gp_noted g) = {..<length (gp_pow g)}"
      proof (cases "gp_dense g")
        case True
        then show ?thesis using ok by (simp add: gp_ok_def)
      next
        case False
        then have "card (set (gp_noted g)) = card {..<length (gp_pow g)}"
          using \<open>gp_dense g \<or> _\<close> nt by (simp add: distinct_card)
        then show ?thesis using card_subset_eq [OF _ sub] by simp
      qed
      then have "dlog_result (gp_covered g) x None"
        using r(2) None by (auto simp: dlog_result_def gp_covered_def)
      then show ?thesis using True None r(1) ok by (auto simp: gp_log_def)
    next
      case False
      let ?g = "g\<lparr>gp_dense := True, gp_noted := [0..<length (gp_pow g)]\<rparr>"
      obtain index m where w: "gp_widen ?g = Some (?g\<lparr>gp_index := index\<rparr>)" "length index = 2 ^ m" "0 < m"
        "2 * length (gp_noted ?g) < 2 ^ m" "tbl_ok (gp_pow ?g) m index (set (gp_noted ?g))"
        using gp_widen_ok [of ?g] ne by auto
      let ?g' = "?g\<lparr>gp_index := index\<rparr>"
      have inv': "gp_inv ?g'"
        using inv w unfolding gp_inv_def by (auto simp: lessThan_atLeast0)
      then have ok': "gp_ok ?g'" by (simp add: gp_ok_def lessThan_atLeast0)
      obtain r' where r': "gp_lookup ?g' x = Some r'" "\<And>k. r' = Some k \<longleftrightarrow> k \<in> set (gp_noted ?g') \<and> x = f64_g ^ k"
        using gp_lookup_ok [OF inv', of x] by blast
      have "gp_log x g = Some (?g', r')"
        using False None r(1) r'(1) w(1) by (simp add: gp_log_def)
      moreover have "dlog_result (gp_covered g) x r'"
        using r'(2) by (auto simp: dlog_result_def gp_covered_def)
      ultimately show ?thesis using ok' by auto
    qed
  qed
qed

section \<open>Growing\<close>

lemma gp_append_inv:
  assumes inv: "gp_inv g" and "length (gp_pow g) < max_cells"
  shows "gp_inv (g\<lparr>gp_pow := gp_pow g @ [mul_by_g (last (gp_pow g))]\<rparr>)"
proof -
  let ?n = "length (gp_pow g)"
  have pow: "gp_pow g = map (\<lambda>k. f64_g ^ k) [0..<?n]" "gp_pow g \<noteq> []"
    using inv by (auto simp: gp_inv_def)
  have "last (gp_pow g) = gp_pow g ! (?n - 1)" using pow(2) by (rule last_conv_nth)
  also have "\<dots> = f64_g ^ (?n - 1)" using gp_pow_nth [OF pow(1), of "?n - 1"] pow(2) by simp
  finally have "mul_by_g (last (gp_pow g)) = f64_g ^ ?n"
    using pow(2) by (simp add: mul_by_g_times flip: power_Suc)
  then have new: "gp_pow g @ [mul_by_g (last (gp_pow g))] = map (\<lambda>k. f64_g ^ k) [0..<Suc ?n]"
    using pow(1) by simp
  obtain m where m: "0 < m" "tbl_ok (gp_pow g) m (gp_index g) (set (gp_noted g))"
    using inv by (auto simp: gp_inv_def)
  have sub: "set (gp_noted g) \<subseteq> {..<?n}" using inv by (simp add: gp_inv_def)
  have "tbl_ok (gp_pow g @ [mul_by_g (last (gp_pow g))]) m (gp_index g) (set (gp_noted g))"
    by (rule tbl_ok_pow_cong [OF m(2)]) (use sub in \<open>auto simp: nth_append\<close>)
  then show ?thesis
    using inv assms(2) m(1) new unfolding gp_inv_def by auto
qed

lemma gp_grow_steps_ok:
  assumes "gp_ok g" "length (gp_pow g) + n \<le> max_cells"
  shows "\<exists>g'. gp_grow_steps n g = Some g' \<and> gp_ok g' \<and> length (gp_pow g') = length (gp_pow g) + n"
  using assms
proof (induction n arbitrary: g)
  case (Suc n)
  let ?g = "g\<lparr>gp_pow := gp_pow g @ [mul_by_g (last (gp_pow g))]\<rparr>"
  have inv: "gp_inv ?g" using gp_append_inv [of g] Suc.prems by (simp add: gp_ok_def)
  obtain g' where g': "(if gp_dense ?g then gp_note (length (gp_pow ?g) - 1) ?g else Some ?g) = Some g'"
    "gp_ok g'" "length (gp_pow g') = Suc (length (gp_pow g))"
  proof (cases "gp_dense g")
    case True
    then have "set (gp_noted g) = {..<length (gp_pow g)}" using Suc.prems by (simp add: gp_ok_def)
    then show ?thesis
      using gp_note_ok [OF inv, of "length (gp_pow g)"] True that by (auto simp: gp_ok_def lessThan_Suc)
  next
    case False
    then show ?thesis using inv that [of ?g] by (simp add: gp_ok_def)
  qed
  obtain g'' where "gp_grow_steps n g' = Some g''" "gp_ok g''" "length (gp_pow g'') = length (gp_pow g') + n"
    using Suc.IH [OF g'(2)] Suc.prems(2) g'(3) by auto
  then show ?case using g' by (auto simp: Let_def)
qed simp

theorem gp_grow_to_ok:
  assumes "gp_ok g" "lim < max_cells"
  shows "\<exists>g'. gp_grow_to lim g = Some g' \<and> gp_ok g' \<and> gp_covered g' = max (gp_covered g) (lim + 1)"
proof -
  have "length (gp_pow g) + (Suc lim - length (gp_pow g)) \<le> max_cells"
    using assms by (auto simp: gp_ok_def gp_inv_def)
  then show ?thesis
    using gp_grow_steps_ok [OF assms(1), of "Suc lim - length (gp_pow g)"] assms(2)
    by (auto simp: gp_grow_to_def gp_covered_def)
qed

lemma gp_grow_to_overflow: "max_cells \<le> lim \<Longrightarrow> gp_grow_to lim g = None"
  by (simp add: gp_grow_to_def)

lemma gp_note_ok_full:
  assumes "gp_ok g" "k < gp_covered g"
  shows "\<exists>g'. gp_note k g = Some g' \<and> gp_ok g' \<and> gp_covered g' = gp_covered g"
proof -
  have "gp_inv g" "k < length (gp_pow g)" using assms by (auto simp: gp_ok_def gp_covered_def)
  from gp_note_ok [OF this] obtain g' where "gp_note k g = Some g'" "gp_inv g'" "gp_pow g' = gp_pow g"
    "gp_dense g' = gp_dense g" "set (gp_noted g') = insert k (set (gp_noted g))" by blast
  then show ?thesis using assms by (auto simp: gp_ok_def gp_covered_def)
qed

lemma gp_note_all_ok:
  "gp_ok g \<Longrightarrow> \<forall>k\<in>set ks. k < gp_covered g \<Longrightarrow>
    \<exists>g'. gp_note_all ks g = Some g' \<and> gp_ok g' \<and> gp_covered g' = gp_covered g"
proof (induction ks arbitrary: g)
  case (Cons k ks)
  then obtain g' where g': "gp_note k g = Some g'" "gp_ok g'" "gp_covered g' = gp_covered g"
    using gp_note_ok_full [of g k] by auto
  then show ?case using Cons.IH [OF g'(2)] Cons.prems by auto
qed simp

lemma gp_grow_fresh:
  "\<lbrakk>gp_pow g = map (\<lambda>k. f64_g ^ k) [0..<Suc j]; \<not> gp_dense g\<rbrakk>
   \<Longrightarrow> gp_grow_steps n g = Some (g\<lparr>gp_pow := map (\<lambda>k. f64_g ^ k) [0..<Suc (j + n)]\<rparr>)"
proof (induction n arbitrary: g j)
  case 0
  then show ?case by (metis (no_types, lifting) add.right_neutral gp_grow_steps.simps(1) gpow.surjective gpow.update_convs(1))
next
  case (Suc n)
  have "last (gp_pow g) = f64_g ^ j" using Suc.prems(1) by simp
  then have "gp_pow g @ [mul_by_g (last (gp_pow g))] = map (\<lambda>k. f64_g ^ k) [0..<Suc (Suc j)]"
    using Suc.prems(1) by (simp add: mul_by_g_times)
  then show ?case
    using Suc.IH [of "g\<lparr>gp_pow := gp_pow g @ [mul_by_g (last (gp_pow g))]\<rparr>" "Suc j"] Suc.prems(2)
    by (simp add: Let_def del: upt_Suc)
qed

theorem gp_new_ok:
  assumes "max lim (2 ^ min_log_mem) < max_cells"
  shows "\<exists>g. gp_new lim = Some g \<and> gp_ok g \<and> gp_covered g = max lim (2 ^ min_log_mem) + 1"
proof -
  let ?u = "max lim (2 ^ min_log_mem)"
  let ?g0 = "\<lparr>gp_pow = [F64 1], gp_noted = [], gp_index = [], gp_dense = False\<rparr>"
  let ?pow = "map (\<lambda>k. f64_g ^ k) [0..<Suc ?u]"
  have "gp_grow_to ?u ?g0 = Some (?g0\<lparr>gp_pow := ?pow\<rparr>)"
  proof -
    have "gp_pow ?g0 = map (\<lambda>k. f64_g ^ k) [0..<Suc 0]" by (simp add: one_f64_def)
    from gp_grow_fresh [OF this, of ?u] show ?thesis
      using assms by (simp add: gp_grow_to_def del: upt_Suc)
  qed
  moreover define size where "size = max (next_power_of_two (2 * (?u + 1))) (2 ^ 13)"
  let ?g1 = "?g0\<lparr>gp_pow := ?pow, gp_index := replicate size 0\<rparr>"
  obtain m where m: "size = 2 ^ m" "0 < m"
  proof -
    obtain a where a: "next_power_of_two (2 * (?u + 1)) = 2 ^ a" using next_power_of_two_power by blast
    show ?thesis
    proof (cases "a \<le> 13")
      case True
      then have "(2 :: nat) ^ a \<le> 2 ^ 13" by (rule power_increasing) simp
      then have "size = 2 ^ 13" unfolding size_def a by (rule max_absorb2)
      then show ?thesis by (rule that) simp
    next
      case False
      then have "(2 :: nat) ^ 13 \<le> 2 ^ a" by (intro power_increasing) simp_all
      then have "size = 2 ^ a" unfolding size_def a by (rule max_absorb1)
      then show ?thesis by (rule that) (use False in simp)
    qed
  qed
  have "gp_ok ?g1"
    using assms m tbl_ok_empty [of ?pow m] unfolding gp_ok_def gp_inv_def
    by (auto simp del: upt_Suc)
  moreover have "\<forall>k\<in>set [0..<Suc ?u]. k < gp_covered ?g1" by (simp add: gp_covered_def del: upt_Suc)
  ultimately obtain g where "gp_note_all [0..<Suc ?u] ?g1 = Some g" "gp_ok g" "gp_covered g = gp_covered ?g1"
    using gp_note_all_ok by blast
  then show ?thesis
    using \<open>gp_grow_to ?u ?g0 = _\<close> by (simp add: gp_new_def Let_def size_def gp_covered_def del: upt_Suc)
qed

section \<open>The contract of a discrete-logarithm index\<close>

text \<open>
  What the interpreter relies on: every operation is total on a well-formed
  index, and a logarithm is found exactly when the element is a power of the
  generator below the covered bound.
\<close>

locale dlog_index =
  fixes ok :: "'i \<Rightarrow> bool" and covered :: "'i \<Rightarrow> nat"
    and log :: "f64 \<Rightarrow> 'i \<Rightarrow> ('i \<times> nat option) option"
    and note_power :: "nat \<Rightarrow> 'i \<Rightarrow> 'i option" and grow_to :: "nat \<Rightarrow> 'i \<Rightarrow> 'i option"
    and lim_max :: nat
  assumes log_total: "ok g \<Longrightarrow> \<exists>g' r. log x g = Some (g', r) \<and> ok g' \<and> covered g' = covered g \<and>
      dlog_result (covered g) x r"
    and note_total: "\<lbrakk>ok g; k < covered g\<rbrakk> \<Longrightarrow> \<exists>g'. note_power k g = Some g' \<and> ok g' \<and> covered g' = covered g"
    and note_range: "\<not> k < covered g \<Longrightarrow> note_power k g = None"
    and grow_total: "\<lbrakk>ok g; lim < lim_max\<rbrakk> \<Longrightarrow>
      \<exists>g'. grow_to lim g = Some g' \<and> ok g' \<and> covered g' = max (covered g) (lim + 1)"
    and grow_range: "lim_max \<le> lim \<Longrightarrow> grow_to lim g = None"
begin

lemma log_ok: "\<lbrakk>ok g; log x g = Some (g', r)\<rbrakk> \<Longrightarrow> ok g' \<and> covered g' = covered g \<and> dlog_result (covered g) x r"
  using log_total [of g x] by auto

lemma log_power:
  "\<lbrakk>ok g; k < covered g\<rbrakk> \<Longrightarrow> \<exists>g'. log (f64_g ^ k) g = Some (g', Some k) \<and> ok g' \<and> covered g' = covered g"
  using log_total [of g "f64_g ^ k"] by (auto simp: dlog_result_def)

lemma log_found: "\<lbrakk>ok g; log x g = Some (g', Some k)\<rbrakk> \<Longrightarrow> k < covered g \<and> x = f64_g ^ k"
  using log_ok [of g x g' "Some k"] by (auto simp: dlog_result_def)

lemma log_missing: "\<lbrakk>ok g; log x g = Some (g', None); k < covered g\<rbrakk> \<Longrightarrow> x \<noteq> f64_g ^ k"
  using log_ok [of g x g' None] by (auto simp: dlog_result_def)

lemma note_ok: "\<lbrakk>ok g; note_power k g = Some g'\<rbrakk> \<Longrightarrow> k < covered g \<and> ok g' \<and> covered g' = covered g"
  using note_total [of g k] note_range [of k g] by (cases "k < covered g") auto

lemma grow_ok: "\<lbrakk>ok g; grow_to lim g = Some g'\<rbrakk> \<Longrightarrow> lim < lim_max \<and> ok g' \<and> covered g' = max (covered g) (lim + 1)"
  using grow_total [of g lim] grow_range [of lim g] by (cases "lim < lim_max") auto

text \<open>Growing the index never forgets: what had a logarithm keeps it.\<close>

lemma grow_keeps_log:
  assumes "ok g" "grow_to lim g = Some g'" "log x g = Some (h, Some k)"
  shows "\<exists>h'. log x g' = Some (h', Some k)"
  using log_found [OF assms(1,3)] grow_ok [OF assms(1,2)] log_power [of g' k] by (fastforce simp: less_max_iff_disj)

end

lemma gp_note_out_of_range:
  "\<not> k < gp_covered g \<Longrightarrow> gp_note k g = None"
  by (auto simp: gp_note_def gp_covered_def gp_widen_def Let_def split: option.splits)

interpretation gi: dlog_index gp_ok gp_covered gp_log gp_note gp_grow_to max_cells
proof unfold_locales
  fix g x assume "gp_ok g"
  from gp_log_ok [OF this, of x] show "\<exists>g' r. gp_log x g = Some (g', r) \<and> gp_ok g' \<and>
    gp_covered g' = gp_covered g \<and> dlog_result (gp_covered g) x r" by (auto simp: gp_covered_def)
qed (use gp_note_ok_full gp_note_out_of_range gp_grow_to_ok gp_grow_to_overflow in blast)+

section \<open>Reachable tables\<close>

inductive gp_reachable :: "gpow \<Rightarrow> bool" where
  gp_reach_new: "gp_new lim = Some g \<Longrightarrow> gp_reachable g"
| gp_reach_note: "\<lbrakk>gp_reachable g; gp_note k g = Some g'\<rbrakk> \<Longrightarrow> gp_reachable g'"
| gp_reach_grow: "\<lbrakk>gp_reachable g; gp_grow_to lim g = Some g'\<rbrakk> \<Longrightarrow> gp_reachable g'"
| gp_reach_log: "\<lbrakk>gp_reachable g; gp_log x g = Some (g', r)\<rbrakk> \<Longrightarrow> gp_reachable g'"

lemma gp_new_range: "gp_new lim = Some g \<Longrightarrow> max lim (2 ^ min_log_mem) < max_cells"
  by (rule ccontr) (simp only: gp_new_def gp_grow_to_def Let_def if_False option.simps(4) option.distinct)

lemma gp_reachable_ok: "gp_reachable g \<Longrightarrow> gp_ok g"
proof (induction rule: gp_reachable.induct)
  case (gp_reach_new lim g)
  then show ?case using gp_new_ok [OF gp_new_range] by fastforce
next
  case (gp_reach_log g x g' r)
  then show ?case using gi.log_ok by blast
qed (use gi.note_ok gi.grow_ok in blast)+

text \<open>C11: whatever sequence of creations, announcements, growths and (possibly widening) lookups produced the
  table, a lookup terminates without panicking and returns the discrete logarithm of the element over the covered
  range, found or not; and the covered range can be grown to any bound below the address space, past which the
  growth panics.\<close>
theorem gp_log_is_discrete_log:
  assumes "gp_reachable g"
  shows "(\<exists>g' r. gp_log x g = Some (g', r) \<and> gp_reachable g' \<and> gp_covered g' = gp_covered g \<and>
      (\<forall>k. r = Some k \<longleftrightarrow> k < gp_covered g \<and> x = g_pow k)) \<and>
    (\<forall>lim. (gp_grow_to lim g = None) = (max_cells \<le> lim))"
proof -
  have ok: "gp_ok g" by (rule gp_reachable_ok) (rule assms)
  show ?thesis
    using gi.log_total [OF ok, of x] gi.grow_total [OF ok] gi.grow_range [of _ g] gp_reach_log [OF assms, of x]
    unfolding dlog_result_def g_pow_power by (metis leI option.distinct(1))
qed

theorem gp_log_is_discrete_log_witness:
  "\<exists>g g'. gp_new 5 = Some g \<and> gp_log (g_pow 7) g = Some (g', Some 7)"
proof -
  obtain g where g: "gp_new 5 = Some g" "gp_covered g = 2 ^ 16 + 1"
    using gp_new_ok [of 5] by (auto simp: min_log_mem_def max_cells_def)
  obtain g' r where l: "gp_log (g_pow 7) g = Some (g', r)"
    "\<And>k. r = Some k \<longleftrightarrow> k < gp_covered g \<and> g_pow 7 = g_pow k"
    using gp_log_is_discrete_log [OF gp_reach_new [OF g(1)], of "g_pow 7"] by blast
  have "r = Some 7" using l(2) [of 7] g(2) by simp
  then show ?thesis using g l by blast
qed

end
