(* ===== verification/Filler.thy ===== *)
theory Filler
  imports Prelude
begin

text \<open>
  The fill planner of \<^verbatim>\<open>lean_vm/src/cpu/filler.rs\<close>: how many times each fill block
  of the bytecode is traversed so that every table's row count becomes a power of
  two. Arrays indexed by table are lists of length six; sizes are naturals, with
  the one checked doubling of the code written out.
\<close>

section \<open>Definitions\<close>

definition n_tables :: nat where "n_tables = 6"

definition pad_table :: nat where "pad_table = 2"
definition jump_table :: nat where "jump_table = 4"

definition no_floors :: "nat list" where "no_floors = replicate n_tables 0"

definition sizes :: "nat list" where "sizes = [128, 64, 32, 16, 8, 4, 2, 1]"

definition min_rows :: "nat list" where "min_rows = [1, 1, 1, 1, 1, 8]"

record fill_block =
  blk_pc :: "32 word"
  blk_size :: "32 word"
  blk_table :: "8 word"

text \<open>Offsets in a block's frame.\<close>

definition fr_dest :: "32 word" where "fr_dest = 0"
definition fr_next_fp :: "32 word" where "fr_next_fp = 1"
definition fr_ptr :: "32 word" where "fr_ptr = 2"
definition fr_zero :: "32 word" where "fr_zero = 3"
definition fr_scratch :: "32 word" where "fr_scratch = 4"
definition fr_digest :: "32 word" where "fr_digest = 6"
definition fr_cells :: "32 word" where "fr_cells = 12"

type_synonym plan = "nat list list"

definition traversals :: "plan \<Rightarrow> nat" where
  "traversals plan = sum_list (concat plan)"

definition frames :: "plan \<Rightarrow> nat" where
  "frames plan = length (filter (\<lambda>n. 0 < n) (concat plan))"

definition delivered :: "plan \<Rightarrow> nat list" where
  "delivered plan = map (\<lambda>row. sum_list (map2 (*) row sizes)) plan"

text \<open>\<^verbatim>\<open>decompose\<close>: one pass over the sizes, dividing what is left.\<close>

fun decompose_loop :: "nat list \<Rightarrow> nat \<Rightarrow> nat list" where
  "decompose_loop [] left = []"
| "decompose_loop (s # ss) left = left div s # decompose_loop ss (left - left div s * s)"

definition decompose :: "nat \<Rightarrow> nat list" where
  "decompose fill = decompose_loop sizes fill"

definition ceil_pow2 :: "nat \<Rightarrow> nat" where
  "ceil_pow2 n = next_power_of_two (max n 1)"

text \<open>The inner loop of \<^verbatim>\<open>decompose_jump\<close>: the traversals of one block and what they leave.\<close>

function take_jumps :: "nat \<Rightarrow> nat \<Rightarrow> nat \<times> nat" where
  "take_jumps s left =
    (if s < left \<and> left - (s + 1) \<noteq> 1
     then (let (n, rest) = take_jumps s (left - (s + 1)) in (n + 1, rest))
     else (0, left))"
  by pat_completeness auto

termination by (relation "measure snd") auto

declare take_jumps.simps [simp del]

fun jump_loop :: "nat list \<Rightarrow> nat \<Rightarrow> nat list \<times> nat" where
  "jump_loop [] left = ([], left)"
| "jump_loop (s # ss) left =
    (let (n, rest) = take_jumps s left; (out, rest) = jump_loop ss rest in (n # out, rest))"

definition decompose_jump :: "nat \<Rightarrow> nat list option" where
  "decompose_jump gap =
    (if gap = 1 then None
     else (let (out, left) = jump_loop sizes gap in if left = 0 then Some out else None))"

definition filled :: "nat list \<Rightarrow> plan \<Rightarrow> nat list" where
  "filled base plan =
    (let out = map (\<lambda>t. base ! t + delivered plan ! t) [0..<n_tables]
     in out[jump_table := out ! jump_table + traversals plan])"

definition is_filled :: "nat list \<Rightarrow> bool" where
  "is_filled counts \<longleftrightarrow> list_all2 (\<lambda>c m. is_power_of_two c \<and> m \<le> c) counts min_rows"

section \<open>The planner\<close>

lemma jump_loop_0 [simp]: "jump_loop ss 0 = (map (\<lambda>_. 0) ss, 0)"
  by (induction ss) (simp_all add: take_jumps.simps)

lemma decompose_jump_0: "decompose_jump 0 \<noteq> None"
  by (simp add: decompose_jump_def)

text \<open>
  The search for the \<^verbatim>\<open>JUMP\<close> table's target: \<^verbatim>\<open>checked_mul(2)\<close> gives up past the
  machine word.
\<close>

function solve_loop :: "nat \<Rightarrow> nat \<Rightarrow> nat list option" where
  "solve_loop owed target =
    (case decompose_jump (target - owed) of
       Some jump_steps \<Rightarrow> Some jump_steps
     | None \<Rightarrow> if target * 2 < 2 ^ 64 then solve_loop owed (target * 2) else None)"
  by pat_completeness auto

termination
proof (relation "measure (\<lambda>(owed, target). 2 ^ 64 - target)")
  fix owed target :: nat
  assume *: "decompose_jump (target - owed) = None" "target * 2 < 2 ^ 64"
  then have "target - owed \<noteq> 0" using decompose_jump_0 by (metis option.distinct(1))
  with * show "((owed, target * 2), owed, target) \<in> measure (\<lambda>(owed, target). 2 ^ 64 - target)" by simp
qed simp

declare solve_loop.simps [simp del]

definition solve :: "nat list \<Rightarrow> nat list \<Rightarrow> plan option" where
  "solve base floors =
    (let plan = map (\<lambda>t. if t \<noteq> jump_table
           then decompose (ceil_pow2 (max (max (base ! t) (min_rows ! t)) (floors ! t)) - base ! t)
           else replicate (length sizes) 0) [0..<n_tables];
         owed = base ! jump_table + traversals plan;
         target = ceil_pow2 (max (max owed (min_rows ! jump_table)) (floors ! jump_table))
     in case solve_loop owed target of
          None \<Rightarrow> None
        | Some jump_steps \<Rightarrow> Some (plan[jump_table := jump_steps]))"

section \<open>Decompositions\<close>

lemma decompose_loop_length [simp]: "length (decompose_loop ss left) = length ss"
  by (induction ss arbitrary: left) simp_all

lemma length_decompose [simp]: "length (decompose fill) = length sizes"
  by (simp add: decompose_def)

text \<open>What a decomposition over sizes ending in one delivers.\<close>

lemma decompose_loop_sum:
  "sum_list (map2 (*) (decompose_loop (ss @ [1]) left) (ss @ [1])) = left"
proof (induction ss arbitrary: left)
  case (Cons s ss)
  have "left div s * s \<le> left" by simp
  with Cons [of "left - left div s * s"] show ?case by simp
qed simp

lemma sizes_snoc: "sizes = [128, 64, 32, 16, 8, 4, 2] @ [1]"
  by (simp add: sizes_def)

lemma decompose_sum: "sum_list (map2 (*) (decompose fill) sizes) = fill"
  unfolding decompose_def sizes_snoc by (rule decompose_loop_sum)

lemma take_jumps_spec:
  "take_jumps s left = (n, rest) \<Longrightarrow> n * (s + 1) + rest = left \<and>
    (left \<noteq> 1 \<longrightarrow> rest \<noteq> 1) \<and> (rest \<le> s \<or> rest = s + 2)"
proof (induction s left arbitrary: n rest rule: take_jumps.induct)
  case (1 s left)
  show ?case
  proof (cases "s < left \<and> left - (s + 1) \<noteq> 1")
    case True
    obtain k r where k: "take_jumps s (left - (s + 1)) = (k, r)" by fastforce
    then have "n = k + 1" "rest = r" using 1(2) True by (auto simp: take_jumps.simps [of s left])
    then show ?thesis using 1(1) [OF True k] True by auto
  next
    case False
    then have "n = 0" "rest = left" using 1(2) by (auto simp: take_jumps.simps [of s left])
    then show ?thesis using False by auto
  qed
qed

lemma jump_loop_length: "jump_loop ss left = (out, rest) \<Longrightarrow> length out = length ss"
  by (induction ss arbitrary: left out rest) (auto split: prod.splits)

lemma jump_loop_sum:
  "jump_loop ss left = (out, rest) \<Longrightarrow> sum_list (map2 (\<lambda>n s. n * (s + 1)) out ss) + rest = left"
proof (induction ss arbitrary: left out rest)
  case (Cons s ss)
  obtain n r where n: "take_jumps s left = (n, r)" by fastforce
  obtain out' where out: "jump_loop ss r = (out', rest)" "out = n # out'"
    using Cons.prems n by (auto split: prod.splits)
  show ?case using Cons.IH [OF out(1)] take_jumps_spec [OF n] by (simp add: out(2))
qed simp

lemma jump_loop_rest:
  "\<lbrakk>jump_loop (ss @ [2, 1]) left = (out, rest); left \<noteq> 1\<rbrakk> \<Longrightarrow> rest = 0"
proof (induction ss arbitrary: left out)
  case Nil
  obtain n r where n: "take_jumps 2 left = (n, r)" by fastforce
  obtain m q where m: "take_jumps 1 r = (m, q)" by fastforce
  have "r = 0 \<or> r = 2 \<or> r = 4" using take_jumps_spec [OF n] Nil by auto
  moreover have "take_jumps 1 4 = (2, 0)" "take_jumps 1 2 = (1, 0)" "take_jumps 1 0 = (0, 0)"
    by (simp_all add: take_jumps.simps)
  ultimately show ?case using Nil n m by (auto split: prod.splits)
next
  case (Cons s ss)
  obtain n r where n: "take_jumps s left = (n, r)" by fastforce
  have "r \<noteq> 1" using take_jumps_spec [OF n] Cons.prems by simp
  then show ?case using Cons n by (auto split: prod.splits)
qed

lemma decompose_jump_Some:
  assumes "gap \<noteq> 1"
  shows "\<exists>out. decompose_jump gap = Some out \<and> length out = length sizes \<and>
    sum_list (map2 (\<lambda>n s. n * (s + 1)) out sizes) = gap"
proof -
  obtain out rest where j: "jump_loop sizes gap = (out, rest)" by fastforce
  have "sizes = [128, 64, 32, 16, 8, 4] @ [2, 1]" by (simp add: sizes_def)
  with j have "rest = 0" using jump_loop_rest assms by metis
  then show ?thesis
    using j jump_loop_sum [OF j] jump_loop_length [OF j] assms by (simp add: decompose_jump_def)
qed

lemma decompose_jump_None: "decompose_jump gap = None \<longleftrightarrow> gap = 1"
  using decompose_jump_Some [of gap] by (auto simp: decompose_jump_def)

section \<open>The solution\<close>

lemma solve_loop_ok:
  assumes "owed \<le> target" "0 < target" "target * 2 < 2 ^ 64"
  shows "\<exists>js k. solve_loop owed target = Some js \<and> length js = length sizes \<and> k \<le> 1 \<and>
    owed + sum_list (map2 (\<lambda>n s. n * (s + 1)) js sizes) = target * 2 ^ k \<and> (k = 1 \<longrightarrow> target = owed + 1)"
proof (cases "target - owed = 1")
  case False
  then obtain js where "decompose_jump (target - owed) = Some js" "length js = length sizes"
    "sum_list (map2 (\<lambda>n s. n * (s + 1)) js sizes) = target - owed"
    using decompose_jump_Some by blast
  then show ?thesis using assms(1) by (intro exI [of _ js] exI [of _ 0]) (simp add: solve_loop.simps)
next
  case True
  then have "target * 2 - owed \<noteq> 1" using assms(2) by linarith
  then obtain js where js: "decompose_jump (target * 2 - owed) = Some js" "length js = length sizes"
    "sum_list (map2 (\<lambda>n s. n * (s + 1)) js sizes) = target * 2 - owed"
    using decompose_jump_Some by blast
  moreover have "decompose_jump (target - owed) = None" using True by (simp add: decompose_jump_None)
  ultimately have "solve_loop owed target = Some js"
    using assms(3) by (simp add: solve_loop.simps [of owed target] solve_loop.simps [of owed "target * 2"])
  then show ?thesis using js assms(1) True by (intro exI [of _ js] exI [of _ 1]) auto
qed

lemma delivered_length [simp]: "length (delivered plan) = length plan"
  by (simp add: delivered_def)

lemma filled_length [simp]: "length (filled base plan) = n_tables"
  by (simp add: filled_def Let_def)

lemma filled_nth:
  "t < n_tables \<Longrightarrow>
   filled base plan ! t = base ! t + delivered plan ! t + (if t = jump_table then traversals plan else 0)"
  by (auto simp: filled_def Let_def nth_list_update)

lemma traversals_rows: "traversals plan = sum_list (map sum_list plan)"
  by (induction plan) (simp_all add: traversals_def)

lemma traversals_update:
  "t < length plan \<Longrightarrow> traversals (plan[t := row]) + sum_list (plan ! t) = traversals plan + sum_list row"
proof (induction plan arbitrary: t)
  case (Cons r plan)
  then show ?case by (cases t) (auto simp: traversals_def)
qed simp

lemma ceil_pow2_ge: "n \<le> ceil_pow2 n" "1 \<le> ceil_pow2 n"
  using next_power_of_two_ge [of "max n 1"] by (auto simp: ceil_pow2_def)

lemma ceil_pow2_power: "is_power_of_two (ceil_pow2 n)" "is_power_of_two (ceil_pow2 n * 2 ^ k)"
proof -
  obtain m where m: "ceil_pow2 n = 2 ^ m"
    using next_power_of_two_power by (auto simp: ceil_pow2_def)
  then show "is_power_of_two (ceil_pow2 n)" unfolding is_power_of_two_iff by blast
  have "ceil_pow2 n * 2 ^ k = 2 ^ (m + k)" by (simp add: m power_add)
  then show "is_power_of_two (ceil_pow2 n * 2 ^ k)" unfolding is_power_of_two_iff by blast
qed

lemma ceil_pow2_le: "\<lbrakk>n \<le> 2 ^ m\<rbrakk> \<Longrightarrow> ceil_pow2 n \<le> 2 ^ m"
  unfolding ceil_pow2_def by (rule next_power_of_two_least) simp

lemma sum_list_mult_ge: "list_all (\<lambda>s. 1 \<le> s) ss \<Longrightarrow> length ns = length ss \<Longrightarrow>
    sum_list ns \<le> sum_list (map2 (*) ns ss)" for ss :: "nat list"
proof (induction ns ss rule: list_induct2')
  case (4 n ns s ss)
  then have "sum_list ns \<le> sum_list (map2 (*) ns ss)" "n \<le> n * s" by simp_all
  then show ?case by (simp del: mult_le_cancel1 n_less_m_mult_n add: add_mono)
qed simp_all

lemma decompose_traversals: "sum_list (decompose fill) \<le> fill"
  using sum_list_mult_ge [of sizes "decompose fill"] decompose_sum [of fill] by (simp add: sizes_def)

lemma sum_list_bound: "(\<And>x. x \<in> set xs \<Longrightarrow> f x \<le> b) \<Longrightarrow> sum_list (map f xs) \<le> length xs * b"
  for f :: "'a \<Rightarrow> nat"
  using sum_list_mono [of xs f "\<lambda>_. b"] by (simp add: sum_list_triv sum_list_replicate)

text \<open>The target of a table the fill does not land on: the least power of two above its floors.\<close>

definition natural_target :: "nat list \<Rightarrow> nat list \<Rightarrow> nat \<Rightarrow> nat" where
  "natural_target base floors t = ceil_pow2 (max (max (base ! t) (min_rows ! t)) (floors ! t))"

definition fills :: "nat list \<Rightarrow> nat list \<Rightarrow> plan \<Rightarrow> bool" where
  "fills base floors plan \<longleftrightarrow>
    length plan = n_tables \<and> (\<forall>row\<in>set plan. length row = length sizes) \<and>
    is_filled (filled base plan) \<and>
    (\<forall>t<n_tables. base ! t \<le> filled base plan ! t \<and> floors ! t \<le> filled base plan ! t \<and>
      (t \<noteq> jump_table \<longrightarrow> filled base plan ! t = natural_target base floors t))"

lemma natural_target_ge:
  "base ! t \<le> natural_target base floors t" "floors ! t \<le> natural_target base floors t"
  "min_rows ! t \<le> natural_target base floors t"
  using ceil_pow2_ge(1) [of "max (max (base ! t) (min_rows ! t)) (floors ! t)"]
  by (simp_all add: natural_target_def)

lemma less_n_tables: "t < n_tables \<longleftrightarrow> t = 0 \<or> t = 1 \<or> t = 2 \<or> t = 3 \<or> t = 4 \<or> t = 5"
  unfolding n_tables_def by presburger

lemma is_filled_nth:
  "length counts = n_tables \<Longrightarrow> is_filled counts \<longleftrightarrow>
     (\<forall>t<n_tables. is_power_of_two (counts ! t) \<and> min_rows ! t \<le> counts ! t)"
  by (simp add: is_filled_def list_all2_conv_all_nth min_rows_def n_tables_def)

lemma solve_fills:
  assumes len: "length base = n_tables" "length floors = n_tables"
    and small: "\<forall>c\<in>set base \<union> set floors. c \<le> 2 ^ 32"
  shows "\<exists>plan. solve base floors = Some plan \<and> fills base floors plan"
proof -
  let ?row = "\<lambda>t. if t \<noteq> jump_table then decompose (natural_target base floors t - base ! t)
    else replicate (length sizes) 0"
  let ?pre = "map ?row [0..<n_tables]"
  let ?owed = "base ! jump_table + traversals ?pre"
  let ?target = "ceil_pow2 (max (max ?owed (min_rows ! jump_table)) (floors ! jump_table))"
  have J: "jump_table < n_tables" by (simp add: n_tables_def jump_table_def)
  have small': "base ! t \<le> 2 ^ 32" "floors ! t \<le> 2 ^ 32" if "t < n_tables" for t
    using small len that by auto
  have nt: "natural_target base floors t \<le> 2 ^ 32" if "t < n_tables" for t
    unfolding natural_target_def
    by (rule ceil_pow2_le) (use small' [OF that] that in \<open>auto simp: less_n_tables min_rows_def\<close>)
  have "sum_list (?row t) \<le> 2 ^ 32" if "t < n_tables" for t
  proof -
    have "sum_list (decompose (natural_target base floors t - base ! t)) \<le> natural_target base floors t"
      using decompose_traversals le_trans diff_le_self by blast
    then show ?thesis using nt [OF that] by (auto simp: sum_list_replicate)
  qed
  then have "traversals ?pre \<le> n_tables * 2 ^ 32"
    using sum_list_bound [of "[0..<n_tables]" "\<lambda>t. sum_list (?row t)" "2 ^ 32"]
    by (simp add: traversals_rows comp_def)
  then have owed: "?owed \<le> 2 ^ 40" using small'(1) [OF J] by (simp add: n_tables_def)
  then have target: "?target \<le> 2 ^ 40"
    using small'(2) [OF J] by (intro ceil_pow2_le) (simp add: jump_table_def min_rows_def)
  have "?owed \<le> ?target" "0 < ?target"
    using ceil_pow2_ge [of "max (max ?owed (min_rows ! jump_table)) (floors ! jump_table)"] by simp_all
  then obtain js k where js: "solve_loop ?owed ?target = Some js" "length js = length sizes"
    "?owed + sum_list (map2 (\<lambda>n s. n * (s + 1)) js sizes) = ?target * 2 ^ k"
    using solve_loop_ok [of ?owed ?target] target by auto
  let ?plan = "?pre[jump_table := js]"
  have plan: "solve base floors = Some ?plan"
    unfolding solve_def Let_def natural_target_def [symmetric] by (simp add: js(1))
  have shape: "length ?plan = n_tables" "\<forall>row\<in>set ?plan. length row = length sizes"
    using js(2) set_update_subset_insert [of ?pre jump_table js] by auto
  have other: "filled base ?plan ! t = natural_target base floors t" if "t < n_tables" "t \<noteq> jump_table" for t
    using that len natural_target_ge(1) [of base t floors]
    by (simp add: filled_nth delivered_def decompose_sum)
  have trav: "traversals ?plan = traversals ?pre + sum_list js"
    using traversals_update [of jump_table ?pre js] J by (simp add: sum_list_replicate)
  have split: "sum_list (map2 (\<lambda>n s. n * (s + 1)) ns ss) = sum_list (map2 (*) ns ss) + sum_list ns"
    if "length ns = length ss" for ns ss :: "nat list"
    using that by (induction ns ss rule: list_induct2) simp_all
  have jump: "filled base ?plan ! jump_table = ?target * 2 ^ k"
    using len J js(2) unfolding js(3) [symmetric] split [OF js(2)]
    by (simp add: filled_nth delivered_def trav)
  have jump_ge: "m \<le> ?target * 2 ^ k" if "m \<le> max (max ?owed (min_rows ! jump_table)) (floors ! jump_table)" for m
  proof -
    have "m \<le> ?target" using that ceil_pow2_ge(1) by (rule le_trans)
    also have "?target * 1 \<le> ?target * 2 ^ k" by (rule mult_le_mono2) simp
    finally show ?thesis by simp
  qed
  have "is_power_of_two (filled base ?plan ! t) \<and> min_rows ! t \<le> filled base ?plan ! t \<and>
      base ! t \<le> filled base ?plan ! t \<and> floors ! t \<le> filled base ?plan ! t" if "t < n_tables" for t
  proof (cases "t = jump_table")
    case True
    have "is_power_of_two (filled base ?plan ! t)" unfolding True jump by (rule ceil_pow2_power)
    moreover have "min_rows ! t \<le> filled base ?plan ! t" "base ! t \<le> filled base ?plan ! t"
      "floors ! t \<le> filled base ?plan ! t"
      unfolding True jump by (rule jump_ge, simp)+
    ultimately show ?thesis by simp
  next
    case False
    then show ?thesis
      using that by (simp add: other natural_target_ge) (simp add: natural_target_def ceil_pow2_power)
  qed
  then show ?thesis
    using plan shape other len by (auto simp: fills_def is_filled_nth)
qed

section \<open>Reaching a committed size, and the cycles to run\<close>

lemma solve_pad_ge:
  assumes "solve base (no_floors[pad_table := f]) = Some plan"
  shows "max f 1 \<le> filled base plan ! pad_table"
proof -
  let ?floors = "no_floors[pad_table := f]"
  obtain js where plan: "plan = (map (\<lambda>t. if t \<noteq> jump_table
           then decompose (natural_target base ?floors t - base ! t)
           else replicate (length sizes) 0) [0..<n_tables])[jump_table := js]"
    using assms unfolding solve_def Let_def natural_target_def [symmetric] by (auto split: option.splits)
  have "pad_table < n_tables" "pad_table \<noteq> jump_table" "?floors ! pad_table = f"
    by (simp_all add: pad_table_def n_tables_def jump_table_def no_floors_def)
  then have "filled base plan ! pad_table \<ge> natural_target base ?floors pad_table"
    by (simp add: plan filled_nth delivered_def decompose_sum)
  moreover have "f \<le> natural_target base ?floors pad_table"
    using natural_target_ge(2) [of ?floors pad_table base] \<open>?floors ! pad_table = f\<close> by simp
  moreover have "1 \<le> natural_target base ?floors pad_table"
    unfolding natural_target_def by (rule ceil_pow2_ge)
  ultimately show ?thesis by simp
qed

text \<open>
  \<^verbatim>\<open>plan\<close>: the loop's state is the one floor it raises. The measure of the
  committed witness is the caller's, and may panic.
\<close>

function plan_loop :: "nat list \<Rightarrow> nat \<Rightarrow> (plan \<Rightarrow> nat option) \<Rightarrow> nat \<Rightarrow> plan option" where
  "plan_loop base min_log committed_log f =
    (case solve base (no_floors[pad_table := f]) of
       None \<Rightarrow> None
     | Some plan \<Rightarrow>
         (case committed_log plan of
            None \<Rightarrow> None
          | Some l \<Rightarrow>
              if min_log \<le> l then Some plan
              else (let f = 2 * filled base plan ! pad_table
                    in if f \<le> 2 ^ 32 then plan_loop base min_log committed_log f else None)))"
  by pat_completeness auto

termination
proof (relation "measure (\<lambda>(base, min_log, committed_log, f). 2 ^ 33 - f)")
  fix base min_log committed_log f plan l f'
  assume "solve base (no_floors[pad_table := f]) = Some plan" "f' = 2 * filled base plan ! pad_table" "f' \<le> 2 ^ 32"
  then show "((base, min_log, committed_log, f'), base, min_log, committed_log, f)
      \<in> measure (\<lambda>(base, min_log, committed_log, f). 2 ^ 33 - f)"
    using solve_pad_ge [of base f plan] by (simp add: diff_less_mono2)
qed simp

declare plan_loop.simps [simp del]

definition fill_plan :: "nat list \<Rightarrow> nat \<Rightarrow> (plan \<Rightarrow> nat option) \<Rightarrow> plan option" where
  "fill_plan base min_log committed_log = plan_loop base min_log committed_log 0"

definition plan_entries :: "plan \<Rightarrow> (nat \<times> nat \<times> nat) list" where
  "plan_entries plan = concat (map (\<lambda>(t, row). map (\<lambda>(k, n). (t, k, n)) (enumerate 0 row)) (enumerate 0 plan))"

primrec cycles_of :: "fill_block list \<Rightarrow> (nat \<times> nat \<times> nat) list \<Rightarrow> (32 word \<times> 32 word \<times> nat) list option" where
  "cycles_of blocks [] = Some []"
| "cycles_of blocks (e # es) =
    (case e of (t, k, n) \<Rightarrow>
      if n = 0 then cycles_of blocks es
      else
        (let size = of_nat (sizes ! k)
         in case find (\<lambda>b. unat (blk_table b) = t \<and> blk_size b = size) blocks of
              None \<Rightarrow> None
            | Some block \<Rightarrow>
                (case cycles_of blocks es of None \<Rightarrow> None | Some out \<Rightarrow> Some ((blk_pc block, size, n) # out))))"

definition cycles :: "fill_block list \<Rightarrow> plan \<Rightarrow> (32 word \<times> 32 word \<times> nat) list option" where
  "cycles blocks plan = cycles_of blocks (plan_entries plan)"

lemma plan_loop_fills:
  assumes "plan_loop base min_log committed_log f = Some plan"
    and "length base = n_tables" "\<forall>c\<in>set base. c \<le> 2 ^ 32" "f \<le> 2 ^ 32"
  shows "\<exists>f l. f \<le> 2 ^ 32 \<and> fills base (no_floors[pad_table := f]) plan \<and> committed_log plan = Some l \<and> min_log \<le> l"
  using assms
proof (induction base min_log committed_log f rule: plan_loop.induct)
  case (1 base min_log committed_log f)
  have "\<forall>c\<in>set base \<union> set (no_floors[pad_table := f]). c \<le> 2 ^ 32"
    using 1(4,5) set_update_subset_insert [of no_floors pad_table f] by (auto simp: no_floors_def)
  then obtain p where p: "solve base (no_floors[pad_table := f]) = Some p" "fills base (no_floors[pad_table := f]) p"
    using solve_fills [of base "no_floors[pad_table := f]"] 1(3) by (auto simp: no_floors_def)
  obtain l where l: "committed_log p = Some l"
    using 1(2) p(1) by (auto simp: plan_loop.simps [of base _ _ f] split: option.splits)
  show ?case
  proof (cases "min_log \<le> l")
    case True
    then have "plan = p" using 1(2) p(1) l by (simp add: plan_loop.simps [of base _ _ f])
    with True p(2) l 1(5) show ?thesis by blast
  next
    case False
    let ?f = "2 * filled base p ! pad_table"
    have le: "?f \<le> 2 ^ 32" and "plan_loop base min_log committed_log ?f = Some plan"
      using 1(2) p(1) l False by (auto simp: plan_loop.simps [of base _ _ f] Let_def split: if_splits)
    with 1(1) [OF p(1) l False refl le] 1(3,4) show ?thesis by blast
  qed
qed

text \<open>
  The loop misses no size: if raising the padding table's floor to some power of
  two reaches the wanted witness, the planner finds a plan.
\<close>

lemma natural_target_pad:
  "natural_target base (no_floors[pad_table := f]) pad_table = ceil_pow2 (max (max (base ! pad_table) 1) f)"
  by (simp add: natural_target_def no_floors_def pad_table_def n_tables_def min_rows_def)

lemma solve_same_target:
  assumes "natural_target base (no_floors[pad_table := f]) pad_table = natural_target base (no_floors[pad_table := f']) pad_table"
  shows "solve base (no_floors[pad_table := f]) = solve base (no_floors[pad_table := f'])"
proof -
  have "natural_target base (no_floors[pad_table := f]) t = natural_target base (no_floors[pad_table := f']) t" for t
    using assms by (cases "t = pad_table") (simp_all add: natural_target_def)
  moreover have "no_floors[pad_table := f] ! jump_table = no_floors[pad_table := f'] ! jump_table"
    by (simp add: pad_table_def jump_table_def)
  ultimately have "natural_target base (no_floors[pad_table := f]) = natural_target base (no_floors[pad_table := f'])"
    "no_floors[pad_table := f] ! jump_table = no_floors[pad_table := f'] ! jump_table" by blast+
  then show ?thesis unfolding solve_def Let_def natural_target_def [symmetric] by (simp only:)
qed

lemma power_two_less_double: "\<lbrakk>is_power_of_two n; n < 2 ^ m\<rbrakk> \<Longrightarrow> 2 * n \<le> 2 ^ m"
proof -
  assume "is_power_of_two n" "n < 2 ^ m"
  then obtain k where "n = 2 ^ k" "k < m" by (auto simp: is_power_of_two_iff)
  then have "2 * n = 2 ^ Suc k" "Suc k \<le> m" by simp_all
  then show ?thesis by (simp only: power_increasing)
qed

lemma plan_loop_complete:
  assumes "length base = n_tables" "\<forall>c\<in>set base. c \<le> 2 ^ 32" "\<And>p. committed_log p \<noteq> None"
    and "f \<le> 2 ^ m" "m \<le> 32" "base ! pad_table \<le> 2 ^ m"
    and "\<And>p l. \<lbrakk>solve base (no_floors[pad_table := 2 ^ m]) = Some p; committed_log p = Some l\<rbrakk> \<Longrightarrow> min_log \<le> l"
  shows "plan_loop base min_log committed_log f \<noteq> None"
  using assms
proof (induction base min_log committed_log f rule: plan_loop.induct)
  case (1 base min_log committed_log f)
  have pw: "(2 :: nat) ^ m \<le> 2 ^ 32" using 1(6) by (rule power_increasing) simp
  have "\<forall>c\<in>set base \<union> set (no_floors[pad_table := f]). c \<le> 2 ^ 32"
    using 1(3,5) pw set_update_subset_insert [of no_floors pad_table f] by (fastforce simp: no_floors_def)
  then obtain p where p: "solve base (no_floors[pad_table := f]) = Some p" "fills base (no_floors[pad_table := f]) p"
    using solve_fills [of base "no_floors[pad_table := f]"] 1(2) by (auto simp: no_floors_def)
  obtain l where l: "committed_log p = Some l" using 1(4) by blast
  show ?case
  proof (cases "min_log \<le> l")
    case True
    then show ?thesis using p(1) l by (simp add: plan_loop.simps [of base _ _ f])
  next
    case False
    let ?F = "filled base p ! pad_table"
    have "pad_table < n_tables" "pad_table \<noteq> jump_table"
      by (simp_all add: pad_table_def n_tables_def jump_table_def)
    then have F: "?F = natural_target base (no_floors[pad_table := f]) pad_table" using p(2) by (simp add: fills_def)
    have le: "?F \<le> 2 ^ m"
      unfolding F natural_target_pad by (rule ceil_pow2_le) (use 1(5,7) in simp)
    have "?F \<noteq> 2 ^ m"
    proof
      assume "?F = 2 ^ m"
      moreover have "natural_target base (no_floors[pad_table := 2 ^ m]) pad_table = 2 ^ m"
      proof -
        have "max (max (base ! pad_table) 1) (2 ^ m) = 2 ^ m" using 1(7) by simp
        moreover have "max (2 ^ m) 1 = (2 ^ m :: nat)" by simp
        ultimately show ?thesis unfolding natural_target_pad ceil_pow2_def by simp
      qed
      ultimately have "solve base (no_floors[pad_table := 2 ^ m]) = Some p"
        using solve_same_target [of base f "2 ^ m"] F p(1) by simp
      from 1(8) [OF this l] False show False by simp
    qed
    moreover have "is_power_of_two ?F" unfolding F natural_target_pad by (rule ceil_pow2_power)
    ultimately have "2 * ?F \<le> 2 ^ m" using le by (intro power_two_less_double) simp_all
    moreover from this have "2 * ?F \<le> 2 ^ 32" using pw by (rule le_trans)
    ultimately show ?thesis
      using 1(1) [OF p(1) l False refl] 1(2-8) p(1) l False by (simp add: plan_loop.simps [of base _ _ f])
  qed
qed

lemma enumerate_snd: "map snd (enumerate k xs) = xs"
  by (simp add: enumerate_eq_zip)

lemma plan_entries_counts: "map (\<lambda>(t, k, n). n) (plan_entries plan) = concat plan"
proof -
  have "(\<lambda>(t, k :: nat, n :: nat). n) \<circ> Pair t = snd" for t :: nat
    by (rule ext) (simp add: case_prod_unfold)
  then have row: "map ((\<lambda>(t, k, n). n) \<circ> Pair t) (enumerate i row) = row" for t i :: nat and row :: "nat list"
    by (simp only: enumerate_snd)
  have "map (\<lambda>(t, k, n). n) (concat (map (\<lambda>(t, row). map (\<lambda>(k, n). (t, k, n)) (enumerate 0 row)) (enumerate i plan)))
      = concat plan" for i
    by (induction plan arbitrary: i) (simp_all add: row)
  then show ?thesis by (simp add: plan_entries_def)
qed

lemma plan_entries_in:
  "(t, k, n) \<in> set (plan_entries plan) \<Longrightarrow> t < length plan \<and> k < length (plan ! t) \<and> n = plan ! t ! k"
  by (auto simp: plan_entries_def in_set_enumerate_eq)

lemma cycles_of_complete:
  assumes "\<And>t k n. (t, k, n) \<in> set es \<Longrightarrow> \<exists>b\<in>set blocks. unat (blk_table b) = t \<and> blk_size b = of_nat (sizes ! k)"
  shows "\<exists>out. cycles_of blocks es = Some out"
  using assms
proof (induction es)
  case (Cons e es)
  obtain t k n where e: "e = (t, k, n)" by (rule prod_cases3)
  have "\<exists>out. cycles_of blocks es = Some out" using Cons.prems by (intro Cons.IH) (meson list.set_intros(2))
  then obtain out where "cycles_of blocks es = Some out" ..
  moreover have "find (\<lambda>b. unat (blk_table b) = t \<and> blk_size b = of_nat (sizes ! k)) blocks \<noteq> None"
    using Cons.prems [of t k n] by (auto simp: e find_None_iff)
  ultimately show ?case by (auto simp: e Let_def)
qed simp

lemma cycles_of_spec:
  assumes "cycles_of blocks es = Some out"
  shows "length out = length (filter (\<lambda>(t, k, n). 0 < n) es) \<and>
    list_all2 (\<lambda>(pc, size, n) (t, k, m). n = m \<and> size = of_nat (sizes ! k) \<and>
        (\<exists>b\<in>set blocks. unat (blk_table b) = t \<and> blk_size b = size \<and> blk_pc b = pc))
      out (filter (\<lambda>(t, k, n). 0 < n) es)"
  using assms
proof (induction es arbitrary: out)
  case (Cons e es)
  obtain t k n where e: "e = (t, k, n)" by (rule prod_cases3)
  show ?case
  proof (cases "n = 0")
    case False
    then obtain b out' where b: "find (\<lambda>b. unat (blk_table b) = t \<and> blk_size b = of_nat (sizes ! k)) blocks = Some b"
      and out': "cycles_of blocks es = Some out'" "out = (blk_pc b, of_nat (sizes ! k), n) # out'"
      using Cons.prems by (auto simp: e Let_def split: option.splits)
    have "b \<in> set blocks" "unat (blk_table b) = t" "blk_size b = of_nat (sizes ! k)"
      using b by (auto simp: find_Some_iff)
    with Cons.IH [OF out'(1)] False show ?thesis by (auto simp: e out'(2))
  qed (use Cons in \<open>simp add: e\<close>)
qed simp

text \<open>Every row a cycle runs is a row the plan counts.\<close>

lemma sum_entries_row:
  "(\<Sum>(k, n)\<leftarrow>enumerate i row. n * (ss ! (k - i) + 1)) = sum_list (map2 (*) row ss) + sum_list row"
  if "length row = length ss" for row ss :: "nat list"
  using that
proof (induction row ss arbitrary: i rule: list_induct2)
  case (Cons n row s ss)
  have "(\<Sum>(k, n)\<leftarrow>enumerate (Suc i) row. n * ((s # ss) ! (k - i) + 1))
      = (\<Sum>(k, n)\<leftarrow>enumerate (Suc i) row. n * (ss ! (k - Suc i) + 1))"
  proof (rule arg_cong [where f = sum_list], rule map_cong)
    fix e assume "e \<in> set (enumerate (Suc i) row)"
    then have "fst e - i = Suc (fst e - Suc i)" by (auto simp: in_set_enumerate_eq)
    then show "(case e of (k, n) \<Rightarrow> n * ((s # ss) ! (k - i) + 1)) = (case e of (k, n) \<Rightarrow> n * (ss ! (k - Suc i) + 1))"
      by (cases e) simp
  qed simp
  with Cons show ?case by (simp add: algebra_simps)
qed simp

lemma sum_entries:
  "\<forall>row\<in>set plan. length row = length sizes \<Longrightarrow>
   (\<Sum>(t, k, n)\<leftarrow>plan_entries plan. n * (sizes ! k + 1)) = sum_list (delivered plan) + traversals plan"
proof -
  assume len: "\<forall>row\<in>set plan. length row = length sizes"
  have "(\<Sum>(t, k, n)\<leftarrow>concat (map (\<lambda>(t, row). map (\<lambda>(k, n). (t, k, n)) (enumerate 0 row)) (enumerate i plan)).
      n * (sizes ! k + 1)) = sum_list (delivered plan) + traversals plan" for i
    using len
  proof (induction plan arbitrary: i)
    case (Cons row plan)
    have "(\<Sum>(t, k, n)\<leftarrow>map (\<lambda>(k, n). (i, k, n)) (enumerate 0 row). n * (sizes ! k + 1))
        = sum_list (map2 (*) row sizes) + sum_list row"
      using sum_entries_row [of row sizes 0] Cons.prems by (simp add: comp_def case_prod_unfold)
    with Cons show ?case by (simp add: delivered_def traversals_rows)
  qed (simp add: delivered_def traversals_rows)
  then show ?thesis by (simp add: plan_entries_def)
qed

lemma sum_list_filter_pos: "(\<Sum>(t, k, n)\<leftarrow>filter (\<lambda>(t, k, n). 0 < n) es. n * f k) = (\<Sum>(t, k, n)\<leftarrow>es. n * f k)"
  for f :: "nat \<Rightarrow> nat"
  by (induction es) auto

lemma sum_filled:
  assumes "length plan = n_tables" "length base = n_tables"
  shows "sum_list (filled base plan) = sum_list base + sum_list (delivered plan) + traversals plan"
proof -
  have six: "\<exists>a b c d e f. xs = [a, b, c, d, e, f]" if "length xs = n_tables" for xs :: "nat list"
    using that by (auto simp: n_tables_def numeral_eq_Suc length_Suc_conv)
  obtain a b c d e f where "base = [a, b, c, d, e, f]" using six assms(2) by blast
  moreover obtain a b c d e f where "delivered plan = [a, b, c, d, e, f]"
    using six [of "delivered plan"] assms(1) by auto
  ultimately show ?thesis
    by (simp add: filled_def n_tables_def jump_table_def upt_rec Let_def)
qed

lemma cycles_rows:
  assumes "cycles blocks plan = Some out" "length plan = n_tables" "length base = n_tables"
    and "\<forall>row\<in>set plan. length row = length sizes"
  shows "sum_list base + (\<Sum>(pc, size, n)\<leftarrow>out. n * (unat size + 1)) = sum_list (filled base plan)"
proof -
  let ?es = "filter (\<lambda>(t, k, n). 0 < n) (plan_entries plan)"
  have small: "k < length sizes \<Longrightarrow> unat (of_nat (sizes ! k) :: 32 word) = sizes ! k" for k
  proof -
    assume "k < length sizes"
    then have "sizes ! k \<in> set sizes" by (rule nth_mem)
    then have "sizes ! k < 2 ^ 32" by (auto simp: sizes_def)
    then show ?thesis by (simp add: unat_of_nat)
  qed
  have rows: "(\<Sum>(pc, size, n)\<leftarrow>xs. n * (unat size + 1)) = (\<Sum>(t, k, n)\<leftarrow>es. n * (sizes ! k + 1))"
    if "list_all2 (\<lambda>(pc, size, n) (t, k, m). n = m \<and> size = of_nat (sizes ! k)) xs es"
      "\<forall>(t, k, n)\<in>set es. k < length sizes"
    for xs :: "(32 word \<times> 32 word \<times> nat) list" and es :: "(nat \<times> nat \<times> nat) list"
    using that by (induction rule: list_all2_induct) (auto simp: small)
  have "list_all2 (\<lambda>(pc, size, n) (t, k, m). n = m \<and> size = of_nat (sizes ! k)) out ?es"
    using cycles_of_spec [of blocks "plan_entries plan" out] assms(1)
    by (auto simp: cycles_def elim!: list_all2_mono)
  moreover have "\<forall>(t, k, n)\<in>set ?es. k < length sizes"
    using assms(2,4) plan_entries_in nth_mem by fastforce
  ultimately have "(\<Sum>(pc, size, n)\<leftarrow>out. n * (unat size + 1)) = (\<Sum>(t, k, n)\<leftarrow>?es. n * (sizes ! k + 1))"
    by (rule rows)
  then show ?thesis
    using sum_list_filter_pos [of "\<lambda>k. sizes ! k + 1" "plan_entries plan"] sum_entries [OF assms(4)] sum_filled [OF assms(2,3)]
    by simp
qed

section \<open>Properties\<close>

text \<open>C12: for any row counts and floors up to the row cap the planner finds a plan, and the plan takes every table
  to an exact power of two at or above its minimum and its floor without removing rows; every table the closing
  jumps do not land on gets exactly the least such power of two.\<close>
theorem solve_reaches_powers_of_two:
  assumes "length base = n_tables" "length floors = n_tables" "\<forall>c\<in>set base \<union> set floors. c \<le> 2 ^ 32"
  shows "\<exists>plan. solve base floors = Some plan \<and>
    (\<forall>t<n_tables. is_power_of_two (filled base plan ! t) \<and>
      max (max (base ! t) (min_rows ! t)) (floors ! t) \<le> filled base plan ! t \<and>
      (t \<noteq> jump_table \<longrightarrow>
        filled base plan ! t = next_power_of_two (max (max (base ! t) (min_rows ! t)) (floors ! t))))"
proof -
  obtain plan where plan: "solve base floors = Some plan" "fills base floors plan"
    using solve_fills [OF assms] by blast
  have "1 \<le> min_rows ! t" if "t < n_tables" for t using that by (auto simp: less_n_tables min_rows_def)
  then have one: "max (max (max (base ! t) (min_rows ! t)) (floors ! t)) 1 = max (max (base ! t) (min_rows ! t)) (floors ! t)"
    if "t < n_tables" for t using that by (simp add: max_absorb1 le_max_iff_disj)
  have "is_filled (filled base plan)" using plan(2) by (simp add: fills_def)
  then have "\<forall>t<n_tables. is_power_of_two (filled base plan ! t) \<and> min_rows ! t \<le> filled base plan ! t"
    by (simp add: is_filled_nth)
  then show ?thesis
    using plan one by (auto simp: fills_def natural_target_def ceil_pow2_def)
qed

theorem solve_reaches_powers_of_two_witness:
  "\<exists>plan. solve [1000, 2000, 3000, 4000, 500, 8] [0, 0, 2 ^ 16, 0, 0, 0] = Some plan \<and>
     filled [1000, 2000, 3000, 4000, 500, 8] plan ! 2 = 2 ^ 16"
proof -
  have len: "length [1000, 2000, 3000, 4000, 500, 8 :: nat] = n_tables" "length [0, 0, 2 ^ 16, 0, 0, 0 :: nat] = n_tables"
    by (simp_all add: n_tables_def)
  have 2: "2 < n_tables" "2 \<noteq> jump_table" by (simp_all add: n_tables_def jump_table_def)
  have small: "\<forall>c\<in>set [1000, 2000, 3000, 4000, 500, 8] \<union> set [0, 0, 2 ^ 16, 0, 0, 0]. c \<le> (2 ^ 32 :: nat)" by simp
  obtain plan where "solve [1000, 2000, 3000, 4000, 500, 8] [0, 0, 2 ^ 16, 0, 0, 0] = Some plan"
    "filled [1000, 2000, 3000, 4000, 500, 8] plan ! 2 = next_power_of_two (2 ^ 16)"
    using solve_reaches_powers_of_two [OF len small] 2 by (auto simp: min_rows_def)
  then show ?thesis unfolding next_power_of_two_id by blast
qed




definition all_blocks :: "fill_block list" where
  "all_blocks = concat (map (\<lambda>t. map (\<lambda>s. \<lparr>blk_pc = of_nat (1000 * t + s), blk_size = of_nat s, blk_table = of_nat t\<rparr>) sizes)
     [0..<n_tables])"


end
