(* ===== verification/Isa.thy ===== *)
theory Isa
  imports GF192 Blake2s Filler "HOL-Library.AList"
begin

text \<open>
  The instruction set (\<^verbatim>\<open>lean_vm/src/cpu/isa.rs\<close>), the hints the runner carries out
  between instructions (\<^verbatim>\<open>cpu/hints.rs\<close>), the program and its diagnostics
  (\<^verbatim>\<open>cpu/mod.rs\<close>), the faults of a run (\<^verbatim>\<open>cpu/execute.rs\<close>), and the compression
  call behind the \<^verbatim>\<open>BLAKE2s\<close> instruction (\<^verbatim>\<open>lean_vm/src/hash_flock.rs\<close>).
\<close>

section \<open>Instructions\<close>

datatype deref_mode = ModeCell | ModePc | ModeFp

text \<open>Operands are frame offsets. The four message chunks of a compression are separate operands.\<close>

datatype op =
    OpXor u32 u32 u32
  | OpMul u32 u32 u32
  | OpSet u32 f192
  | OpDeref u32 u32 u32 deref_mode
  | OpJump u32 u32 u32
  | OpBlake2s u32 u32 u32 u32 (op_cv: u32) (op_out: u32) (op_md: u32)

definition mode_f_pc :: "deref_mode \<Rightarrow> f64" where
  "mode_f_pc m = (if m = ModePc then F64 1 else F64 0)"

definition mode_f_fp :: "deref_mode \<Rightarrow> f64" where
  "mode_f_fp m = (if m = ModeFp then F64 1 else F64 0)"

section \<open>Hints\<close>

datatype bits_dest = BitsStack u32 | BitsHeap u32

datatype rhint =
    HFrameAddress u32
  | HAllocFrames (hf_ptr: u32) (hf_size: u32) (hf_end: u32) (hf_start_inverse: f64)
  | HAlloc u32 u32
  | HAllocDyn u32 u32
  | HWitnessStack string (ws_base: u32) (ws_len: u32)
  | HWitnessHeap string (wh_ptr: u32) (wh_lo: u32) (wh_len: u32)
  | HLog2Ceil bits_dest (lc_dst: u32) (lc_nbits: u32) (lc_floor: u32)
  | HBitDecompose u32 bits_dest u32
  | HBitDecomposeExp u32 bits_dest u32
  | HFieldLimbs u32 u32 u32
  | HInverse u32 u32
  | HPrint string u32

section \<open>Programs\<close>

text \<open>
  Hash maps are association lists with distinct keys; the bytecode digest is kept,
  the interpreter never reads it.
\<close>

record program =
  p_prog :: "op list"
  p_bytecode_hash :: "byte list"
  p_hints :: "(u32 \<times> rhint list) list"
  p_main_frame :: u32
  p_witness :: "(string \<times> f192 list list) list"
  p_filler :: "fill_block list"
  p_fn_ranges :: "(string \<times> u32 \<times> u32) list"
  p_src_lines :: "u32 list"
  p_min_log_committed :: nat

text \<open>Decimal output.\<close>

fun dec :: "nat \<Rightarrow> string" where
  "dec n = (if n < 10 then [char_of (48 + n)] else dec (n div 10) @ [char_of (48 + n mod 10)])"

declare dec.simps [simp del]

text \<open>The end of a range is computed in 32-bit arithmetic.\<close>

definition fn_at :: "program \<Rightarrow> u32 \<Rightarrow> string" where
  "fn_at p pc =
    (case find (\<lambda>(_, entry, len). entry \<le> pc \<and> pc < entry + len) (p_fn_ranges p) of
       None \<Rightarrow> ''<unknown fn>''
     | Some (name, _, _) \<Rightarrow> name)"

definition site_at :: "program \<Rightarrow> u32 \<Rightarrow> string" where
  "site_at p pc =
    (if unat pc < length (p_src_lines p) \<and> p_src_lines p ! unat pc \<noteq> 0
     then fn_at p pc @ '' (line '' @ dec (unat (p_src_lines p ! unat pc)) @ '')''
     else fn_at p pc)"

definition code_len :: "program \<Rightarrow> nat" where
  "code_len p = (case p_fn_ranges p of
      [] \<Rightarrow> length (p_prog p)
    | ranges \<Rightarrow> sum_list (map (\<lambda>(_, _, len). unat len) ranges))"

definition set_witness :: "program \<Rightarrow> string \<Rightarrow> f192 list list \<Rightarrow> program" where
  "set_witness p name entries = p\<lparr>p_witness := AList.update name entries (p_witness p)\<rparr>"

section \<open>Faults\<close>

datatype fault =
    Conflict (cf_cell: u32) (cf_had: f192) (cf_new: f192) (cf_hint: "string option")
  | WildPointer f192
  | NotInK string f192
  | NotAGPower string f64
  | NotCanonical string f192
  | BackSolveThroughZero
  | WitnessFault string
  | OutOfMemory
  | HaltOutsideMain u32
  | StepLimit

record exec_error =
  e_pc :: u32
  e_site :: string
  e_fault :: fault

definition exec_error_new :: "program \<Rightarrow> u32 \<Rightarrow> fault \<Rightarrow> exec_error" where
  "exec_error_new p pc f = \<lparr>e_pc = pc, e_site = site_at p pc, e_fault = f\<rparr>"

text \<open>A run stops early with an error value or by a panic.\<close>

datatype stop = Failed exec_error | Panicked

type_synonym 'a run = "(stop, 'a) result"

section \<open>The compression instruction\<close>

definition words_of :: "f64 \<Rightarrow> u32 list" where
  "words_of x = [ucast (raw64 x), ucast (drop_bit 32 (raw64 x))]"

definition pack_words :: "u32 \<Rightarrow> u32 \<Rightarrow> f64" where
  "pack_words a b = F64 (ucast a OR push_bit 32 (ucast b))"

definition metadata :: "64 word \<Rightarrow> u32 \<Rightarrow> u32 \<Rightarrow> f192" where
  "metadata counter f0 f1 = F192 counter (ucast f0 OR push_bit 32 (ucast f1)) 0"

text \<open>Unpacking asserts a zero top lane.\<close>

definition unpack_metadata :: "f192 \<Rightarrow> (64 word \<times> u32 \<times> u32) option" where
  "unpack_metadata x =
    (if coeff2 x = 0 then Some (coeff0 x, ucast (coeff1 x), ucast (drop_bit 32 (coeff1 x))) else None)"

type_synonym compression_input = "u32 list \<times> u32 list \<times> 64 word \<times> u32 \<times> u32"

definition compression :: "f64 list \<Rightarrow> f64 list \<Rightarrow> f64 list \<Rightarrow> f192 \<Rightarrow> compression_input option" where
  "compression a b cv meta =
    (case unpack_metadata meta of
       None \<Rightarrow> None
     | Some (counter, f0, f1) \<Rightarrow>
         Some (concat (map words_of cv), concat (map words_of a) @ concat (map words_of b), counter, f0, f1))"

definition digest :: "compression_input \<Rightarrow> f64 list" where
  "digest block =
    (case block of (cv, m, t, f0, f1) \<Rightarrow>
      (let h = flock_compress cv m t f0 f1
       in map (\<lambda>k. pack_words (h ! (2 * k)) (h ! (2 * k + 1))) [0..<4]))"

definition blake2s_compress :: "f64 list \<Rightarrow> f64 list \<Rightarrow> f64 list \<Rightarrow> f192 \<Rightarrow> f64 list option" where
  "blake2s_compress va vb vcv meta = map_option digest (compression va vb vcv meta)"

end
