(* ===== verification/Memory.thy ===== *)
theory Memory
  imports Isa GPow
begin

text \<open>
  The interpreter's data memory (\<^verbatim>\<open>lean_vm/src/cpu/execute.rs\<close>): write-once cells with
  an access count each, and the links a \<^verbatim>\<open>DEREF\<close> between two unwritten cells leaves.
  The lemmas show that a written cell keeps its value for good, that a link is an
  equality once either side is written, and that accesses advance counts only.
\<close>

section \<open>Definitions\<close>

datatype cell_state = Unwritten | Linked | Written

record mem =
  m_cells :: "f192 list"
  m_state :: "cell_state list"
  m_count :: "f64 list"
  m_links :: "u32 \<Rightarrow> u32 list option"
  m_unwritten_reads :: "u32 list"
  m_program :: program
  m_dbg_pc :: u32
  m_dbg_hint :: "string option"

text \<open>\<^verbatim>\<open>Vec::resize\<close>, where it only extends.\<close>

definition resize :: "nat \<Rightarrow> 'a \<Rightarrow> 'a list \<Rightarrow> 'a list" where
  "resize n x xs = take n xs @ replicate (n - length xs) x"

definition ensure :: "nat \<Rightarrow> mem \<Rightarrow> mem" where
  "ensure idx m =
    (if length (m_cells m) \<le> idx
     then m\<lparr>m_cells := resize (idx + 1) f192_zero (m_cells m),
            m_state := resize (idx + 1) Unwritten (m_state m),
            m_count := resize (idx + 1) (F64 1) (m_count m)\<rparr>
     else m)"

definition written :: "mem \<Rightarrow> u32 \<Rightarrow> bool" where
  "written m cell \<longleftrightarrow> unat cell < length (m_state m) \<and> m_state m ! unat cell = Written"

definition mem_get :: "mem \<Rightarrow> u32 \<Rightarrow> f192" where
  "mem_get m cell = (if unat cell < length (m_cells m) then m_cells m ! unat cell else f192_zero)"

definition mem_read :: "u32 \<Rightarrow> mem \<Rightarrow> mem \<times> f192" where
  "mem_read cell m =
    (let m = ensure (unat cell) m;
         m = (if m_state m ! unat cell \<noteq> Written
              then m\<lparr>m_state := (m_state m)[unat cell := Written],
                     m_unwritten_reads := m_unwritten_reads m @ [cell]\<rparr>
              else m)
     in (m, m_cells m ! unat cell))"

definition mem_conflict :: "mem \<Rightarrow> u32 \<Rightarrow> f192 \<Rightarrow> exec_error" where
  "mem_conflict m cell v =
    exec_error_new (m_program m) (m_dbg_pc m) (Conflict cell (m_cells m ! unat cell) v (m_dbg_hint m))"

text \<open>\<^verbatim>\<open>store\<close> returns whether the cell was linked.\<close>

definition mem_store :: "u32 \<Rightarrow> f192 \<Rightarrow> mem \<Rightarrow> (exec_error, mem \<times> bool) result" where
  "mem_store cell v m =
    (let m = ensure (unat cell) m;
         s = m_state m ! unat cell
     in if s = Written \<and> m_cells m ! unat cell \<noteq> v then Inl (mem_conflict m cell v)
        else Inr (m\<lparr>m_cells := (m_cells m)[unat cell := v], m_state := (m_state m)[unat cell := Written]\<rparr>,
                  s = Linked))"

text \<open>The body of \<^verbatim>\<open>spread\<close>'s inner loop: store to every partner, remember the linked ones.\<close>

primrec spread_to :: "u32 list \<Rightarrow> f192 \<Rightarrow> mem \<Rightarrow> u32 list \<Rightarrow> (exec_error, mem \<times> u32 list) result" where
  "spread_to [] v m todo = Inr (m, todo)"
| "spread_to (p # ps) v m todo =
    (case mem_store p v m of
       Inl e \<Rightarrow> Inl e
     | Inr (m, linked) \<Rightarrow> spread_to ps v m (if linked then p # todo else todo))"

lemma mem_store_links: "mem_store c v m = Inr (m', l) \<Longrightarrow> m_links m' = m_links m"
  by (auto simp: mem_store_def ensure_def Let_def split: if_splits)

lemma spread_to_links: "spread_to ps v m todo = Inr (m', todo') \<Longrightarrow> m_links m' = m_links m"
  by (induction ps arbitrary: m todo)
    (auto split: sum.splits prod.splits if_splits dest: mem_store_links)

lemma spread_to_nil: "spread_to [] v m todo = Inr (m', todo') \<Longrightarrow> m' = m \<and> todo' = todo"
  by simp

text \<open>
  \<^verbatim>\<open>spread\<close>: the stack of cells to process, top first. Each round removes a cell's
  links or shortens the stack.
\<close>

function spread_loop :: "u32 list \<Rightarrow> f192 \<Rightarrow> mem \<Rightarrow> (exec_error, mem) result" where
  "spread_loop [] v m = Inr m"
| "spread_loop (c # todo) v m =
    (case spread_to (case m_links m c of None \<Rightarrow> [] | Some ps \<Rightarrow> ps) v (m\<lparr>m_links := (m_links m)(c := None)\<rparr>) todo of
       Inl e \<Rightarrow> Inl e
     | Inr (m, todo) \<Rightarrow> spread_loop todo v m)"
  by pat_completeness auto

termination
proof (relation "measures [\<lambda>(todo, v, m). card (dom (m_links m)), \<lambda>(todo, v, m). length todo]")
  fix c v m todo b m' todo'
  assume b: "spread_to (case m_links m c of None \<Rightarrow> [] | Some ps \<Rightarrow> ps) v (m\<lparr>m_links := (m_links m)(c := None)\<rparr>) todo
      = Inr b" "(m', todo') = b"
  then have links: "m_links m' = (m_links m)(c := None)" by (auto dest: spread_to_links)
  show "((todo', v, m'), c # todo, v, m)
      \<in> measures [\<lambda>(todo, v, m). card (dom (m_links m)), \<lambda>(todo, v, m). length todo]"
  proof (cases "m_links m c")
    case None
    then have "m_links m' = m_links m" "todo' = todo" using links b by auto
    then show ?thesis by simp
  next
    case (Some ps)
    then have "card (dom (m_links m) - {c}) < card (dom (m_links m))"
      by (intro psubset_card_mono) auto
    then show ?thesis using links by simp
  qed
qed simp

declare spread_loop.simps [simp del]

definition mem_spread :: "u32 \<Rightarrow> f192 \<Rightarrow> mem \<Rightarrow> (exec_error, mem) result" where
  "mem_spread cell v m = spread_loop [cell] v m"

definition mem_put :: "u32 \<Rightarrow> f192 \<Rightarrow> mem \<Rightarrow> (exec_error, mem) result" where
  "mem_put cell v m =
    (case mem_store cell v m of
       Inl e \<Rightarrow> Inl e
     | Inr (m, linked) \<Rightarrow> if linked then mem_spread cell v m else Inr m)"

definition link_side :: "u32 \<Rightarrow> u32 \<Rightarrow> mem \<Rightarrow> mem" where
  "link_side x y m =
    (let m = ensure (unat x) m;
         m = (if m_state m ! unat x = Unwritten then m\<lparr>m_state := (m_state m)[unat x := Linked]\<rparr> else m)
     in m\<lparr>m_links := (m_links m)(x := Some ((case m_links m x of None \<Rightarrow> [] | Some ps \<Rightarrow> ps) @ [y]))\<rparr>)"

definition mem_link :: "u32 \<Rightarrow> u32 \<Rightarrow> mem \<Rightarrow> mem" where
  "mem_link a b m = link_side b a (link_side a b m)"

definition bump_access_count :: "u32 \<Rightarrow> mem \<Rightarrow> mem \<times> f64" where
  "bump_access_count cell m =
    (let m = ensure (unat cell) m;
         count = m_count m ! unat cell
     in (m\<lparr>m_count := (m_count m)[unat cell := mul_by_g count]\<rparr>, count))"

section \<open>Views of the memory\<close>

text \<open>A cell past the end of the vectors is unwritten, zero and never accessed.\<close>

definition mem_st :: "mem \<Rightarrow> u32 \<Rightarrow> cell_state" where
  "mem_st m c = (if unat c < length (m_state m) then m_state m ! unat c else Unwritten)"

definition mem_cnt :: "mem \<Rightarrow> u32 \<Rightarrow> f64" where
  "mem_cnt m c = (if unat c < length (m_count m) then m_count m ! unat c else F64 1)"

definition mem_wf :: "mem \<Rightarrow> bool" where
  "mem_wf m \<longleftrightarrow> length (m_state m) = length (m_cells m) \<and> length (m_count m) = length (m_cells m) \<and>
    (\<forall>c. mem_st m c \<noteq> Written \<longrightarrow> mem_get m c = f192_zero)"

definition mem_ctx :: "mem \<Rightarrow> program \<times> u32 \<times> string option" where
  "mem_ctx m = (m_program m, m_dbg_pc m, m_dbg_hint m)"

lemma written_st: "written m c \<longleftrightarrow> mem_st m c = Written"
  by (simp add: written_def mem_st_def)

lemma mem_wfD:
  "mem_wf m \<Longrightarrow> length (m_state m) = length (m_cells m)"
  "mem_wf m \<Longrightarrow> length (m_count m) = length (m_cells m)"
  "mem_wf m \<Longrightarrow> mem_st m c \<noteq> Written \<Longrightarrow> mem_get m c = f192_zero"
  by (auto simp: mem_wf_def)

lemma nth_resize:
  "length xs \<le> n \<Longrightarrow> i < n \<Longrightarrow> resize n x xs ! i = (if i < length xs then xs ! i else x)"
  by (simp add: resize_def nth_append)

lemma length_resize [simp]: "length (resize n x xs) = n"
  by (simp add: resize_def)

lemma ensure_views:
  assumes "mem_wf m"
  shows "mem_get (ensure i m) = mem_get m" "mem_st (ensure i m) = mem_st m" "mem_cnt (ensure i m) = mem_cnt m"
    "m_links (ensure i m) = m_links m" "mem_ctx (ensure i m) = mem_ctx m" "mem_wf (ensure i m)"
    "m_unwritten_reads (ensure i m) = m_unwritten_reads m"
    "length (m_cells (ensure i m)) = max (length (m_cells m)) (i + 1)"
proof -
  note len = mem_wfD(1,2) [OF assms]
  show get: "mem_get (ensure i m) = mem_get m"
    by (rule ext) (auto simp: mem_get_def ensure_def nth_resize)
  show st: "mem_st (ensure i m) = mem_st m"
    by (rule ext) (auto simp: mem_st_def ensure_def nth_resize len)
  show "mem_cnt (ensure i m) = mem_cnt m"
    by (rule ext) (auto simp: mem_cnt_def ensure_def nth_resize len)
  show "m_links (ensure i m) = m_links m" "mem_ctx (ensure i m) = mem_ctx m"
    "m_unwritten_reads (ensure i m) = m_unwritten_reads m"
    "length (m_cells (ensure i m)) = max (length (m_cells m)) (i + 1)"
    by (auto simp: ensure_def mem_ctx_def)
  have "length (m_state (ensure i m)) = length (m_cells (ensure i m))"
    "length (m_count (ensure i m)) = length (m_cells (ensure i m))"
    using len by (auto simp: ensure_def)
  then show "mem_wf (ensure i m)"
    using mem_wfD(3) [OF assms] by (simp add: mem_wf_def get st)
qed

lemma ensure_range: "mem_wf m \<Longrightarrow> i < length (m_cells (ensure i m))"
  by (simp add: ensure_views(8))

text \<open>Updating an index in range.\<close>

lemma get_upd:
  "unat c < length (m_cells m) \<Longrightarrow> mem_get (m\<lparr>m_cells := (m_cells m)[unat c := v]\<rparr>) = (mem_get m)(c := v)"
  by (rule ext) (auto simp: mem_get_def nth_list_update dest!: unsigned_word_eqI)

lemma st_upd:
  "unat c < length (m_state m) \<Longrightarrow> mem_st (m\<lparr>m_state := (m_state m)[unat c := s]\<rparr>) = (mem_st m)(c := s)"
  by (rule ext) (auto simp: mem_st_def nth_list_update dest!: unsigned_word_eqI)

lemma cnt_upd:
  "unat c < length (m_count m) \<Longrightarrow> mem_cnt (m\<lparr>m_count := (m_count m)[unat c := s]\<rparr>) = (mem_cnt m)(c := s)"
  by (rule ext) (auto simp: mem_cnt_def nth_list_update dest!: unsigned_word_eqI)

lemma views_upd [simp]:
  "mem_get (m\<lparr>m_state := s\<rparr>) = mem_get m" "mem_get (m\<lparr>m_count := n\<rparr>) = mem_get m"
  "mem_get (m\<lparr>m_links := l\<rparr>) = mem_get m" "mem_get (m\<lparr>m_unwritten_reads := u\<rparr>) = mem_get m"
  "mem_get (m\<lparr>m_dbg_pc := pc\<rparr>) = mem_get m" "mem_get (m\<lparr>m_dbg_hint := h\<rparr>) = mem_get m"
  "mem_st (m\<lparr>m_cells := cs\<rparr>) = mem_st m" "mem_st (m\<lparr>m_count := n\<rparr>) = mem_st m"
  "mem_st (m\<lparr>m_links := l\<rparr>) = mem_st m" "mem_st (m\<lparr>m_unwritten_reads := u\<rparr>) = mem_st m"
  "mem_st (m\<lparr>m_dbg_pc := pc\<rparr>) = mem_st m" "mem_st (m\<lparr>m_dbg_hint := h\<rparr>) = mem_st m"
  "mem_cnt (m\<lparr>m_cells := cs\<rparr>) = mem_cnt m" "mem_cnt (m\<lparr>m_state := s\<rparr>) = mem_cnt m"
  "mem_cnt (m\<lparr>m_links := l\<rparr>) = mem_cnt m" "mem_cnt (m\<lparr>m_unwritten_reads := u\<rparr>) = mem_cnt m"
  "mem_cnt (m\<lparr>m_dbg_pc := pc\<rparr>) = mem_cnt m" "mem_cnt (m\<lparr>m_dbg_hint := h\<rparr>) = mem_cnt m"
  "mem_ctx (m\<lparr>m_cells := cs\<rparr>) = mem_ctx m" "mem_ctx (m\<lparr>m_state := s\<rparr>) = mem_ctx m"
  "mem_ctx (m\<lparr>m_count := n\<rparr>) = mem_ctx m" "mem_ctx (m\<lparr>m_links := l\<rparr>) = mem_ctx m"
  "mem_ctx (m\<lparr>m_unwritten_reads := u\<rparr>) = mem_ctx m"
  by (auto simp: mem_get_def mem_st_def mem_cnt_def mem_ctx_def fun_eq_iff)

lemma wf_upd [simp]:
  "mem_wf (m\<lparr>m_links := l\<rparr>) = mem_wf m" "mem_wf (m\<lparr>m_unwritten_reads := u\<rparr>) = mem_wf m"
  "mem_wf (m\<lparr>m_dbg_pc := pc\<rparr>) = mem_wf m" "mem_wf (m\<lparr>m_dbg_hint := h\<rparr>) = mem_wf m"
  by (auto simp: mem_wf_def)

section \<open>The operations on the views\<close>

text \<open>What an operation leaves alone, bundled for the proofs about whole steps.\<close>

definition mem_frame :: "mem \<Rightarrow> mem \<Rightarrow> bool" where
  "mem_frame m m' \<longleftrightarrow> mem_wf m' \<and> mem_ctx m' = mem_ctx m \<and> length (m_cells m) \<le> length (m_cells m')"

lemma mem_frame_refl: "mem_wf m \<Longrightarrow> mem_frame m m"
  by (simp add: mem_frame_def)

lemma mem_frame_trans: "mem_frame a b \<Longrightarrow> mem_frame b c \<Longrightarrow> mem_frame a c"
  by (auto simp: mem_frame_def)

lemma mem_frameD: "mem_frame m m' \<Longrightarrow> mem_wf m'" "mem_frame m m' \<Longrightarrow> mem_ctx m' = mem_ctx m"
  by (simp_all add: mem_frame_def)

lemma mem_read_views:
  assumes "mem_wf m" "mem_read c m = (m', v)"
  shows "v = mem_get m c" "mem_get m' = mem_get m" "mem_st m' = (mem_st m)(c := Written)"
    "mem_cnt m' = mem_cnt m" "m_links m' = m_links m" "mem_frame m m'"
    "m_unwritten_reads m' = m_unwritten_reads m @ (if mem_st m c = Written then [] else [c])"
    "length (m_cells m') = max (length (m_cells m)) (unat c + 1)"
proof -
  let ?m = "ensure (unat c) m"
  note ens = ensure_views [OF assms(1), of "unat c"]
  have r: "unat c < length (m_cells ?m)" "unat c < length (m_state ?m)"
    using ensure_range [OF assms(1)] mem_wfD(1) [OF ens(6)] by simp_all
  have st: "m_state ?m ! unat c = mem_st m c" using r(2) by (simp add: mem_st_def flip: ens(2))
  have m': "m' = (if mem_st m c \<noteq> Written
      then ?m\<lparr>m_state := (m_state ?m)[unat c := Written], m_unwritten_reads := m_unwritten_reads ?m @ [c]\<rparr> else ?m)"
    "v = m_cells ?m ! unat c"
    using assms(2) by (auto simp: mem_read_def Let_def st split: if_splits)
  show "v = mem_get m c" using r(1) by (simp add: m'(2) mem_get_def flip: ens(1))
  show get: "mem_get m' = mem_get m" by (simp add: m'(1) ens)
  show st': "mem_st m' = (mem_st m)(c := Written)"
    using st_upd [OF r(2), of Written] by (simp add: m'(1) ens fun_upd_idem)
  show "mem_cnt m' = mem_cnt m" "m_links m' = m_links m" by (simp_all add: m'(1) ens)
  show "m_unwritten_reads m' = m_unwritten_reads m @ (if mem_st m c = Written then [] else [c])"
    by (simp add: m'(1) ens)
  show len: "length (m_cells m') = max (length (m_cells m)) (unat c + 1)" by (simp add: m'(1) ens)
  have "mem_wf m'"
    using mem_wfD(1,2) [OF ens(6)] mem_wfD(3) [OF assms(1)]
    by (simp add: mem_wf_def get st') (simp add: m'(1))
  then show "mem_frame m m'" by (simp add: mem_frame_def len) (simp add: m'(1) ens)
qed

lemma mem_store_views:
  assumes "mem_wf m" "mem_store c v m = Inr (m', l)"
  shows "l = (mem_st m c = Linked)" "mem_st m c = Written \<Longrightarrow> mem_get m c = v"
    "mem_get m' = (mem_get m)(c := v)" "mem_st m' = (mem_st m)(c := Written)"
    "mem_cnt m' = mem_cnt m" "m_links m' = m_links m" "mem_frame m m'"
    "m_unwritten_reads m' = m_unwritten_reads m" "length (m_cells m') = max (length (m_cells m)) (unat c + 1)"
proof -
  let ?m = "ensure (unat c) m"
  note ens = ensure_views [OF assms(1), of "unat c"]
  have r: "unat c < length (m_cells ?m)" "unat c < length (m_state ?m)"
    using ensure_range [OF assms(1)] mem_wfD(1) [OF ens(6)] by simp_all
  have st: "m_state ?m ! unat c = mem_st m c" using r(2) by (simp add: mem_st_def flip: ens(2))
  have get: "m_cells ?m ! unat c = mem_get m c" using r(1) by (simp add: mem_get_def flip: ens(1))
  have m': "m' = ?m\<lparr>m_cells := (m_cells ?m)[unat c := v], m_state := (m_state ?m)[unat c := Written]\<rparr>"
    and lw: "l = (mem_st m c = Linked)" "mem_st m c = Written \<Longrightarrow> mem_get m c = v"
    using assms(2) by (auto simp: mem_store_def Let_def st get split: if_splits)
  show "l = (mem_st m c = Linked)" "mem_st m c = Written \<Longrightarrow> mem_get m c = v" using lw by blast+
  have g: "mem_get (?m\<lparr>m_cells := (m_cells ?m)[unat c := v]\<rparr>) = (mem_get m)(c := v)"
    using get_upd [OF r(1)] by (simp add: ens)
  then show get': "mem_get m' = (mem_get m)(c := v)" by (simp add: m')
  show st': "mem_st m' = (mem_st m)(c := Written)"
    using st_upd [of c "?m\<lparr>m_cells := (m_cells ?m)[unat c := v]\<rparr>" Written] r(2) by (simp add: m' ens)
  show "mem_cnt m' = mem_cnt m" "m_links m' = m_links m" "m_unwritten_reads m' = m_unwritten_reads m"
    by (simp_all add: m' ens)
  show len: "length (m_cells m') = max (length (m_cells m)) (unat c + 1)" by (simp add: m' ens)
  have "mem_wf m'"
    using mem_wfD(1,2) [OF ens(6)] mem_wfD(3) [OF assms(1)]
    by (simp add: mem_wf_def get' st') (simp add: m')
  then show "mem_frame m m'" by (simp add: mem_frame_def len) (simp add: m' ens)
qed

lemma mem_store_conflict:
  assumes "mem_wf m" "mem_store c v m = Inl e"
  shows "mem_st m c = Written \<and> mem_get m c \<noteq> v \<and>
    e = exec_error_new (m_program m) (m_dbg_pc m) (Conflict c (mem_get m c) v (m_dbg_hint m))"
proof -
  let ?m = "ensure (unat c) m"
  note ens = ensure_views [OF assms(1), of "unat c"]
  have r: "unat c < length (m_cells ?m)" "unat c < length (m_state ?m)"
    using ensure_range [OF assms(1)] mem_wfD(1) [OF ens(6)] by simp_all
  have "m_state ?m ! unat c = mem_st m c" using r(2) by (simp add: mem_st_def flip: ens(2))
  moreover have "m_cells ?m ! unat c = mem_get m c" using r(1) by (simp add: mem_get_def flip: ens(1))
  ultimately show ?thesis
    using assms(2) ens(5) by (auto simp: mem_store_def Let_def mem_conflict_def mem_ctx_def split: if_splits)
qed

lemma bump_views:
  assumes "mem_wf m" "bump_access_count c m = (m', r)"
  shows "r = mem_cnt m c" "mem_cnt m' = (mem_cnt m)(c := mul_by_g (mem_cnt m c))" "mem_get m' = mem_get m"
    "mem_st m' = mem_st m" "m_links m' = m_links m" "mem_frame m m'" "m_unwritten_reads m' = m_unwritten_reads m"
    "length (m_cells m') = max (length (m_cells m)) (unat c + 1)"
proof -
  let ?m = "ensure (unat c) m"
  note ens = ensure_views [OF assms(1), of "unat c"]
  have r: "unat c < length (m_count ?m)" using ensure_range [OF assms(1)] mem_wfD(2) [OF ens(6)] by simp
  have cnt: "m_count ?m ! unat c = mem_cnt m c" using r by (simp add: mem_cnt_def flip: ens(3))
  have m': "m' = ?m\<lparr>m_count := (m_count ?m)[unat c := mul_by_g (mem_cnt m c)]\<rparr>" and rr: "r = mem_cnt m c"
    using assms(2) by (auto simp: bump_access_count_def Let_def cnt)
  show "r = mem_cnt m c" by (rule rr)
  show "mem_cnt m' = (mem_cnt m)(c := mul_by_g (mem_cnt m c))" using cnt_upd [OF r] by (simp add: m' ens)
  show get: "mem_get m' = mem_get m" and st: "mem_st m' = mem_st m" by (simp_all add: m' ens)
  show "m_links m' = m_links m" "m_unwritten_reads m' = m_unwritten_reads m" by (simp_all add: m' ens)
  show len: "length (m_cells m') = max (length (m_cells m)) (unat c + 1)" by (simp add: m' ens)
  have "mem_wf m'"
    using mem_wfD(1,2) [OF ens(6)] mem_wfD(3) [OF assms(1)] by (simp add: mem_wf_def get st) (simp add: m')
  then show "mem_frame m m'" by (simp add: mem_frame_def len) (simp add: m' ens)
qed

section \<open>Write-once order and links\<close>

text \<open>A later memory holds every written cell of an earlier one, with its value.\<close>

definition mem_le :: "mem \<Rightarrow> mem \<Rightarrow> bool" where
  "mem_le m m' \<longleftrightarrow> (\<forall>c. written m c \<longrightarrow> written m' c \<and> mem_get m' c = mem_get m c)"

lemma mem_le_refl [simp]: "mem_le m m"
  by (simp add: mem_le_def)

lemma mem_le_trans: "mem_le a b \<Longrightarrow> mem_le b c \<Longrightarrow> mem_le a c"
  by (simp add: mem_le_def)

lemma mem_leD: "mem_le m m' \<Longrightarrow> written m c \<Longrightarrow> written m' c \<and> mem_get m' c = mem_get m c"
  by (simp add: mem_le_def)

definition link_set :: "mem \<Rightarrow> u32 \<Rightarrow> u32 set" where
  "link_set m x = (case m_links m x of None \<Rightarrow> {} | Some ps \<Rightarrow> set ps)"

text \<open>
  The relation \<open>E\<close> of all links ever made is symmetric and an equality of values;
  an unwritten member still remembers its partners.
\<close>

definition link_graph :: "(u32 \<times> u32) set \<Rightarrow> mem \<Rightarrow> bool" where
  "link_graph E m \<longleftrightarrow> sym E \<and> (\<forall>x y. y \<in> link_set m x \<longrightarrow> (x, y) \<in> E) \<and>
    (\<forall>x y. (x, y) \<in> E \<longrightarrow> mem_st m x \<noteq> Written \<longrightarrow> mem_st m x = Linked \<and> y \<in> link_set m x)"

definition link_inv :: "(u32 \<times> u32) set \<Rightarrow> mem \<Rightarrow> bool" where
  "link_inv E m \<longleftrightarrow> mem_wf m \<and> link_graph E m \<and> (\<forall>x y. (x, y) \<in> E \<longrightarrow> mem_get m x = mem_get m y)"

lemma link_invD:
  "link_inv E m \<Longrightarrow> mem_wf m" "link_inv E m \<Longrightarrow> link_graph E m"
  "link_inv E m \<Longrightarrow> (x, y) \<in> E \<Longrightarrow> mem_get m x = mem_get m y"
  by (auto simp: link_inv_def)

lemma link_graphD:
  "link_graph E m \<Longrightarrow> (x, y) \<in> E \<Longrightarrow> (y, x) \<in> E" "link_graph E m \<Longrightarrow> y \<in> link_set m x \<Longrightarrow> (x, y) \<in> E"
  "link_graph E m \<Longrightarrow> (x, y) \<in> E \<Longrightarrow> mem_st m x \<noteq> Written \<Longrightarrow> mem_st m x = Linked"
  "link_graph E m \<Longrightarrow> (x, y) \<in> E \<Longrightarrow> mem_st m x \<noteq> Written \<Longrightarrow> y \<in> link_set m x"
  by (auto simp: link_graph_def dest: symD)

lemma link_set_cong: "m_links m' = m_links m \<Longrightarrow> link_set m' = link_set m"
  by (simp add: link_set_def fun_eq_iff)

text \<open>Marking more cells written keeps the graph.\<close>

lemma link_graph_written:
  assumes "link_graph E m" "m_links m' = m_links m" "\<And>x. mem_st m' x = Written \<or> mem_st m' x = mem_st m x"
  shows "link_graph E m'"
proof -
  note l = link_set_cong [OF assms(2)]
  have "mem_st m' x = mem_st m x" if "mem_st m' x \<noteq> Written" for x using assms(3) [of x] that by simp
  then have "mem_st m' x = mem_st m x \<and> mem_st m x \<noteq> Written" if "mem_st m' x \<noteq> Written" for x
    using that by metis
  with assms(1) show ?thesis unfolding link_graph_def l by metis
qed

lemma link_inv_read:
  assumes "link_inv E m" "mem_read c m = (m', v)"
  shows "link_inv E m'"
proof -
  note r = mem_read_views [OF link_invD(1) [OF assms(1)] assms(2)]
  show ?thesis
    using link_graph_written [OF link_invD(2) [OF assms(1)] r(5)] assms(1) r(3) mem_frameD(1) [OF r(6)]
    by (simp add: link_inv_def r(2))
qed

lemma link_inv_bump:
  assumes "link_inv E m" "bump_access_count c m = (m', v)"
  shows "link_inv E m'"
proof -
  note r = bump_views [OF link_invD(1) [OF assms(1)] assms(2)]
  show ?thesis
    using link_graph_written [OF link_invD(2) [OF assms(1)] r(5)] assms(1) mem_frameD(1) [OF r(6)]
    by (simp add: link_inv_def r(3,4))
qed

text \<open>The state between rounds of a spread: an unequal pair has one side waiting.\<close>

definition pending :: "mem \<Rightarrow> u32 list \<Rightarrow> u32 \<Rightarrow> u32 \<Rightarrow> bool" where
  "pending m todo x y \<longleftrightarrow> x \<in> set todo \<and> y \<in> link_set m x \<or> y \<in> set todo \<and> x \<in> link_set m y"

definition spreading :: "(u32 \<times> u32) set \<Rightarrow> f192 \<Rightarrow> u32 list \<Rightarrow> u32 \<Rightarrow> u32 list \<Rightarrow> mem \<Rightarrow> bool" where
  "spreading E v todo c ps m \<longleftrightarrow> mem_wf m \<and> link_graph E m \<and>
    (\<forall>x y. (x, y) \<in> E \<longrightarrow> mem_get m x = mem_get m y \<or> pending m todo x y \<or>
       x = c \<and> y \<in> set ps \<or> y = c \<and> x \<in> set ps) \<and>
    (\<forall>x\<in>set todo. mem_st m x = Written \<and> mem_get m x = v) \<and>
    mem_st m c = Written \<and> mem_get m c = v \<and> (\<forall>p\<in>set ps. (c, p) \<in> E)"

lemma spread_to_ok:
  assumes "spreading E v todo c ps m" "spread_to ps v m todo = Inr (m', todo')"
  shows "spreading E v todo' c [] m' \<and> mem_le m m' \<and> mem_frame m m' \<and> mem_cnt m' = mem_cnt m \<and>
    m_unwritten_reads m' = m_unwritten_reads m"
  using assms
proof (induction ps arbitrary: m todo)
  case Nil
  then show ?case by (simp add: mem_frame_refl spreading_def)
next
  case (Cons p ps)
  obtain m1 l where st: "mem_store p v m = Inr (m1, l)"
    and rest: "spread_to ps v m1 (if l then p # todo else todo) = Inr (m', todo')"
    using Cons.prems(2) by (auto split: sum.splits)
  have wf: "mem_wf m" and graph: "link_graph E m" and cE: "(c, p) \<in> E"
    and todo: "\<forall>x\<in>set todo. mem_st m x = Written \<and> mem_get m x = v"
    and c: "mem_st m c = Written" "mem_get m c = v"
    and pairs: "\<And>x y. (x, y) \<in> E \<Longrightarrow> mem_get m x = mem_get m y \<or> pending m todo x y \<or>
       x = c \<and> y \<in> set (p # ps) \<or> y = c \<and> x \<in> set (p # ps)"
    using Cons.prems(1) by (auto simp: spreading_def)
  note s = mem_store_views [OF wf st]
  note ls = link_set_cong [OF s(6)]
  have graph1: "link_graph E m1" by (rule link_graph_written [OF graph s(6)]) (simp add: s(4))
  have le: "mem_le m m1" using s(2,3,4) by (auto simp: mem_le_def written_st)
  have linked: "l \<longleftrightarrow> mem_st m p \<noteq> Written"
    using s(1) link_graphD(3) [OF graph link_graphD(1) [OF graph cE]] by auto
  let ?todo = "if l then p # todo else todo"
  have "mem_get m1 x = mem_get m1 y \<or> pending m1 ?todo x y \<or> x = c \<and> y \<in> set ps \<or> y = c \<and> x \<in> set ps"
    if xy: "(x, y) \<in> E" for x y
  proof (cases "mem_st m p = Written")
    case True
    then have "mem_get m1 = mem_get m" "\<not> l" using s(2,3) linked by auto
    then show ?thesis using pairs [OF xy] c s(2) [OF True] by (auto simp: pending_def ls)
  next
    case False
    then have l: l using linked by simp
    show ?thesis
    proof (cases "x = p \<or> y = p")
      case True
      then have "x = p \<and> y \<in> link_set m p \<or> y = p \<and> x \<in> link_set m p"
        using link_graphD(4) [OF graph xy] link_graphD(4) [OF graph link_graphD(1) [OF graph xy]] False by auto
      then show ?thesis using l by (auto simp: pending_def ls)
    next
      case False
      then show ?thesis using pairs [OF xy] l by (auto simp: pending_def ls s(3))
    qed
  qed
  then have "spreading E v ?todo c ps m1"
    using graph1 todo c Cons.prems(1) mem_frameD(1) [OF s(7)] by (auto simp: spreading_def s(3,4))
  from Cons.IH [OF this rest] show ?case
    using mem_le_trans [OF le] mem_frame_trans [OF s(7)] by (auto simp: s(5,8))
qed

lemma spread_loop_ok:
  assumes "mem_wf m" "link_graph E m" "\<forall>x\<in>set todo. mem_st m x = Written \<and> mem_get m x = v"
    and "\<forall>x y. (x, y) \<in> E \<longrightarrow> mem_get m x = mem_get m y \<or> pending m todo x y"
    and "spread_loop todo v m = Inr m'"
  shows "link_inv E m' \<and> mem_le m m' \<and> mem_frame m m' \<and> mem_cnt m' = mem_cnt m \<and>
    m_unwritten_reads m' = m_unwritten_reads m"
  using assms
proof (induction todo v m rule: spread_loop.induct)
  case (1 v m)
  then show ?case by (auto simp: spread_loop.simps link_inv_def pending_def mem_frame_refl)
next
  case (2 c todo v m)
  let ?ps = "case m_links m c of None \<Rightarrow> [] | Some ps \<Rightarrow> ps"
  let ?m = "m\<lparr>m_links := (m_links m)(c := None)\<rparr>"
  obtain m1 todo1 where st: "spread_to ?ps v ?m todo = Inr (m1, todo1)"
    and rest: "spread_loop todo1 v m1 = Inr m'"
    using 2(6) by (auto simp: spread_loop.simps(2) split: sum.splits)
  have ps: "set ?ps = link_set m c" by (simp add: link_set_def split: option.splits)
  have ls: "link_set ?m x = (if x = c then {} else link_set m x)" for x by (simp add: link_set_def)
  have c: "mem_st m c = Written" "mem_get m c = v" using 2(4) by auto
  have "link_graph E ?m" using 2(3) c by (auto simp: link_graph_def ls)
  moreover have "mem_get m x = mem_get m y \<or> pending ?m todo x y \<or> x = c \<and> y \<in> set ?ps \<or> y = c \<and> x \<in> set ?ps"
    if "(x, y) \<in> E" for x y
    using 2(5) that unfolding pending_def ps by (auto simp: ls)
  ultimately have "spreading E v todo c ?ps ?m"
    using 2(2,4) link_graphD(2) [OF 2(3)] c unfolding spreading_def ps by auto
  from spread_to_ok [OF this st] have sp: "spreading E v todo1 c [] m1" "mem_le m m1" "mem_frame m m1"
    "mem_cnt m1 = mem_cnt m" "m_unwritten_reads m1 = m_unwritten_reads m"
    by (auto simp: mem_le_def mem_frame_def written_def)
  have "link_inv E m' \<and> mem_le m1 m' \<and> mem_frame m1 m' \<and> mem_cnt m' = mem_cnt m1 \<and>
      m_unwritten_reads m' = m_unwritten_reads m1"
    using sp(1) rest by (intro 2(1) [OF st refl]) (auto simp: spreading_def)
  then show ?case using sp mem_le_trans mem_frame_trans by metis
qed

lemma mem_put_ok:
  assumes inv: "link_inv E m" and put: "mem_put c v m = Inr m'"
  shows "link_inv E m'" "mem_le m m'" "written m' c" "mem_get m' c = v" "mem_frame m m'"
    "mem_cnt m' = mem_cnt m" "m_unwritten_reads m' = m_unwritten_reads m"
proof -
  have wf: "mem_wf m" and graph: "link_graph E m" using inv by (auto simp: link_inv_def)
  obtain m1 l where st: "mem_store c v m = Inr (m1, l)"
    and rest: "(if l then mem_spread c v m1 else Inr m1) = Inr m'"
    using put by (auto simp: mem_put_def split: sum.splits)
  note s = mem_store_views [OF wf st]
  note ls = link_set_cong [OF s(6)]
  have graph1: "link_graph E m1" by (rule link_graph_written [OF graph s(6)]) (simp add: s(4))
  have le: "mem_le m m1" using s(2,3,4) by (auto simp: mem_le_def written_st)
  have "link_inv E m' \<and> mem_le m1 m' \<and> mem_frame m1 m' \<and> mem_cnt m' = mem_cnt m1 \<and>
      m_unwritten_reads m' = m_unwritten_reads m1"
  proof (cases l)
    case True
    have pend: "mem_get m1 x = mem_get m1 y \<or> pending m1 [c] x y" if xy: "(x, y) \<in> E" for x y
    proof (cases "x = c \<or> y = c")
      case cc: True
      have "mem_st m c \<noteq> Written" using True s(1) by auto
      then have "x = c \<and> y \<in> link_set m c \<or> y = c \<and> x \<in> link_set m c"
        using cc link_graphD(4) [OF graph xy] link_graphD(4) [OF graph link_graphD(1) [OF graph xy]] by auto
      then show ?thesis by (auto simp: pending_def ls)
    next
      case False
      then show ?thesis using link_invD(3) [OF inv xy] by (simp add: s(3))
    qed
    show ?thesis
      by (rule spread_loop_ok [OF mem_frameD(1) [OF s(7)] graph1])
        (use pend rest True in \<open>auto simp: s(3,4) mem_spread_def\<close>)
  next
    case False
    have "mem_get m1 x = mem_get m1 y" if xy: "(x, y) \<in> E" for x y
    proof (cases "mem_st m c = Written")
      case True
      then have "mem_get m1 = mem_get m" using s(2,3) by auto
      then show ?thesis using link_invD(3) [OF inv xy] by simp
    next
      case unw: False
      then have "x \<noteq> c \<and> y \<noteq> c"
        using False s(1) link_graphD(3) [OF graph xy] link_graphD(3) [OF graph link_graphD(1) [OF graph xy]] by auto
      then show ?thesis using link_invD(3) [OF inv xy] by (simp add: s(3))
    qed
    then show ?thesis
      using rest False graph1 mem_frameD(1) [OF s(7)] by (simp add: link_inv_def mem_frame_refl)
  qed
  then show "link_inv E m'" "mem_le m m'" "mem_frame m m'" "mem_cnt m' = mem_cnt m"
      "m_unwritten_reads m' = m_unwritten_reads m" "written m' c" "mem_get m' c = v"
    using mem_le_trans [OF le] mem_frame_trans [OF s(7)] mem_leD [of m1 m' c] s
    by (auto simp: written_st)
qed

lemma link_side_views:
  assumes "mem_wf m" "mem_st m x \<noteq> Written"
  shows "mem_get (link_side x y m) = mem_get m" "mem_st (link_side x y m) = (mem_st m)(x := Linked)"
    "mem_cnt (link_side x y m) = mem_cnt m" "mem_frame m (link_side x y m)"
    "m_unwritten_reads (link_side x y m) = m_unwritten_reads m"
    "link_set (link_side x y m) = (link_set m)(x := insert y (link_set m x))"
proof -
  let ?m = "ensure (unat x) m"
  note ens = ensure_views [OF assms(1), of "unat x"]
  have r: "unat x < length (m_state ?m)" using ensure_range [OF assms(1)] mem_wfD(1) [OF ens(6)] by simp
  have st: "m_state ?m ! unat x = mem_st m x" using r by (simp add: mem_st_def flip: ens(2))
  let ?s = "if mem_st m x = Unwritten then (m_state ?m)[unat x := Linked] else m_state ?m"
  have m': "link_side x y m = ?m\<lparr>m_state := ?s,
      m_links := (m_links ?m)(x := Some ((case m_links ?m x of None \<Rightarrow> [] | Some ps \<Rightarrow> ps) @ [y]))\<rparr>"
    by (simp add: link_side_def Let_def st)
  have lk: "mem_st m x \<noteq> Unwritten \<Longrightarrow> mem_st m x = Linked" using assms(2) cell_state.exhaust by blast
  show get: "mem_get (link_side x y m) = mem_get m" and "mem_cnt (link_side x y m) = mem_cnt m"
    and "m_unwritten_reads (link_side x y m) = m_unwritten_reads m"
    by (simp_all add: m' ens)
  have "mem_st (?m\<lparr>m_state := ?s\<rparr>) = (mem_st m)(x := Linked)"
    using st_upd [OF r, of Linked] lk by (cases "mem_st m x = Unwritten") (simp_all add: ens fun_upd_idem)
  then show st': "mem_st (link_side x y m) = (mem_st m)(x := Linked)" by (simp add: m')
  show "link_set (link_side x y m) = (link_set m)(x := insert y (link_set m x))"
  proof
    fix z
    have "m_links (link_side x y m) = (m_links m)(x := Some ((case m_links m x of None \<Rightarrow> [] | Some ps \<Rightarrow> ps) @ [y]))"
      by (simp add: m' ens)
    then show "link_set (link_side x y m) z = ((link_set m)(x := insert y (link_set m x))) z"
      by (cases "z = x"; cases "m_links m x") (simp_all add: link_set_def)
  qed
  have "length (m_state (link_side x y m)) = length (m_cells (link_side x y m))"
    "length (m_count (link_side x y m)) = length (m_cells (link_side x y m))"
    using mem_wfD(1,2) [OF ens(6)] by (simp_all add: m')
  then have "mem_wf (link_side x y m)"
    using mem_wfD(3) [OF assms(1)] assms(2) by (simp add: mem_wf_def get st')
  then show "mem_frame m (link_side x y m)" by (simp add: mem_frame_def) (simp add: m' ens)
qed

lemma mem_link_views:
  assumes inv: "link_inv E m" and "\<not> written m a" "\<not> written m b"
  shows "link_inv (E \<union> {(a, b), (b, a)}) (mem_link a b m)" "mem_get (mem_link a b m) = mem_get m"
    "mem_cnt (mem_link a b m) = mem_cnt m" "mem_frame m (mem_link a b m)"
    "m_unwritten_reads (mem_link a b m) = m_unwritten_reads m" "mem_le m (mem_link a b m)"
    "\<And>c. written (mem_link a b m) c = written m c"
proof -
  have wf: "mem_wf m" and graph: "link_graph E m" using inv by (auto simp: link_inv_def)
  have st: "mem_st m a \<noteq> Written" "mem_st m b \<noteq> Written" using assms(2,3) by (simp_all add: written_st)
  note v1 = link_side_views [OF wf st(1), of b]
  have st1: "mem_st (link_side a b m) b \<noteq> Written" using st by (simp add: v1(2))
  note v2 = link_side_views [OF mem_frameD(1) [OF v1(4)] st1, of a, folded mem_link_def]
  show get: "mem_get (mem_link a b m) = mem_get m" and "mem_cnt (mem_link a b m) = mem_cnt m"
    and frame: "mem_frame m (mem_link a b m)" and "m_unwritten_reads (mem_link a b m) = m_unwritten_reads m"
    using v1 v2 mem_frame_trans by auto
  have st': "mem_st (mem_link a b m) = (mem_st m)(a := Linked, b := Linked)" by (simp add: v2(2) v1(2))
  have ls: "link_set (mem_link a b m) = (\<lambda>x. link_set m x \<union> (if x = a then {b} else {}) \<union> (if x = b then {a} else {}))"
    by (rule ext) (auto simp: v2(6) v1(6))
  show w: "written (mem_link a b m) c = written m c" for c using st by (simp add: written_st st')
  then show "mem_le m (mem_link a b m)" by (simp add: mem_le_def get)
  have "link_graph (E \<union> {(a, b), (b, a)}) (mem_link a b m)"
    unfolding link_graph_def
  proof (intro conjI allI impI)
    have "sym E" using graph by (simp add: link_graph_def)
    then show "sym (E \<union> {(a, b), (b, a)})" by (auto simp: sym_def)
  next
    fix x y assume "y \<in> link_set (mem_link a b m) x"
    then show "(x, y) \<in> E \<union> {(a, b), (b, a)}"
      using link_graphD(2) [OF graph, of y x] by (auto simp: ls split: if_splits)
  next
    fix x y assume "(x, y) \<in> E \<union> {(a, b), (b, a)}" "mem_st (mem_link a b m) x \<noteq> Written"
    then show "mem_st (mem_link a b m) x = Linked" "y \<in> link_set (mem_link a b m) x"
      using link_graphD(3,4) [OF graph, of x y] st by (auto simp: ls st' split: if_splits)
  qed
  moreover have "mem_get m a = mem_get m b" using wf st by (simp add: mem_wfD(3))
  ultimately show "link_inv (E \<union> {(a, b), (b, a)}) (mem_link a b m)"
    using inv mem_frameD(1) [OF frame] by (auto simp: link_inv_def get)
qed

lemma mem_read_le:
  "mem_wf m \<Longrightarrow> mem_read c m = (m', v) \<Longrightarrow> mem_le m m'"
  using mem_read_views(2,3) [of m c m' v] by (auto simp: mem_le_def written_st)

lemma mem_bump_le:
  "mem_wf m \<Longrightarrow> bump_access_count c m = (m', r) \<Longrightarrow> mem_le m m'"
  using bump_views(3,4) [of m c m' r] by (auto simp: mem_le_def written_st)

section \<open>Failing stores\<close>

text \<open>Every failure is a conflict between two values for one written cell.\<close>

definition conflict_on :: "mem \<Rightarrow> f192 \<Rightarrow> exec_error \<Rightarrow> bool" where
  "conflict_on m v e \<longleftrightarrow> (\<exists>cell had. had \<noteq> v \<and>
    e = exec_error_new (m_program m) (m_dbg_pc m) (Conflict cell had v (m_dbg_hint m)))"

lemma conflict_on_ctx: "mem_ctx m' = mem_ctx m \<Longrightarrow> conflict_on m' v e = conflict_on m v e"
  by (simp add: conflict_on_def mem_ctx_def)

lemma store_conflict_on: "mem_wf m \<Longrightarrow> mem_store c v m = Inl e \<Longrightarrow> conflict_on m v e"
  using mem_store_conflict [of m c v e] by (auto simp: conflict_on_def)

lemma spread_to_conflict:
  "\<lbrakk>mem_wf m; spread_to ps v m todo = Inl e\<rbrakk> \<Longrightarrow> conflict_on m v e"
proof (induction ps arbitrary: m todo)
  case (Cons p ps)
  show ?case
  proof (cases "mem_store p v m")
    case (Inl e')
    then show ?thesis using Cons.prems store_conflict_on [of m p v e'] by simp
  next
    case (Inr r)
    then obtain m1 l where st: "mem_store p v m = Inr (m1, l)" by (cases r) simp
    then have "mem_wf m1" "mem_ctx m1 = mem_ctx m" using mem_store_views(7) [OF Cons.prems(1) st] by (auto dest: mem_frameD)
    moreover have "conflict_on m1 v e"
      by (rule Cons.IH) (use Cons.prems(2) st \<open>mem_wf m1\<close> in auto)
    ultimately show ?thesis using conflict_on_ctx by blast
  qed
qed simp

lemma spread_to_frame:
  "\<lbrakk>mem_wf m; spread_to ps v m todo = Inr (m', todo')\<rbrakk> \<Longrightarrow> mem_frame m m'"
proof (induction ps arbitrary: m todo)
  case (Cons p ps)
  obtain m1 l where st: "mem_store p v m = Inr (m1, l)"
    and rest: "spread_to ps v m1 (if l then p # todo else todo) = Inr (m', todo')"
    using Cons.prems(2) by (auto split: sum.splits)
  note f = mem_store_views(7) [OF Cons.prems(1) st]
  show ?case using mem_frame_trans [OF f Cons.IH [OF mem_frameD(1) [OF f] rest]] .
qed (simp add: mem_frame_refl)

lemma spread_loop_conflict:
  "\<lbrakk>mem_wf m; spread_loop todo v m = Inl e\<rbrakk> \<Longrightarrow> conflict_on m v e"
proof (induction todo v m rule: spread_loop.induct)
  case (2 c todo v m)
  let ?ps = "case m_links m c of None \<Rightarrow> [] | Some ps \<Rightarrow> ps"
  let ?m = "m\<lparr>m_links := (m_links m)(c := None)\<rparr>"
  have wf: "mem_wf ?m" and ctx: "mem_ctx ?m = mem_ctx m" using 2(2) by simp_all
  show ?case
  proof (cases "spread_to ?ps v ?m todo")
    case (Inl e')
    then show ?thesis
      using 2(3) spread_to_conflict [OF wf Inl] conflict_on_ctx [OF ctx] by (simp add: spread_loop.simps(2))
  next
    case (Inr r)
    then obtain m1 todo1 where st: "spread_to ?ps v ?m todo = Inr (m1, todo1)" by (cases r) simp
    note f = spread_to_frame [OF wf st]
    have "conflict_on m1 v e"
      using 2(1) [OF st refl mem_frameD(1) [OF f]] 2(3) st by (simp add: spread_loop.simps(2))
    then show ?thesis using conflict_on_ctx mem_frameD(2) [OF f] ctx by metis
  qed
qed (simp add: spread_loop.simps)

lemma mem_put_conflict:
  assumes "mem_wf m" "mem_put c v m = Inl e"
  shows "conflict_on m v e"
proof (cases "mem_store c v m")
  case (Inl e')
  then show ?thesis using assms store_conflict_on [of m c v e'] by (simp add: mem_put_def)
next
  case (Inr r)
  then obtain m1 l where st: "mem_store c v m = Inr (m1, l)" by (cases r) simp
  note f = mem_store_views(7) [OF assms(1) st]
  have "conflict_on m1 v e"
    using assms(2) st spread_loop_conflict [OF mem_frameD(1) [OF f]]
    by (auto simp: mem_put_def mem_spread_def split: if_splits)
  then show ?thesis using conflict_on_ctx mem_frameD(2) [OF f] by metis
qed

text \<open>On a cell without links the store fails exactly on a different written value.\<close>

lemma mem_put_unlinked:
  assumes "mem_wf m" "mem_st m c \<noteq> Linked"
  shows "(\<exists>m'. mem_put c v m = Inr m') \<longleftrightarrow> (written m c \<longrightarrow> mem_get m c = v)"
proof (cases "mem_store c v m")
  case (Inl e)
  then show ?thesis using mem_store_conflict [OF assms(1) Inl] by (simp add: mem_put_def written_st)
next
  case (Inr r)
  then obtain m1 l where st: "mem_store c v m = Inr (m1, l)" by (cases r) simp
  then show ?thesis using mem_store_views(1,2) [OF assms(1) st] assms(2) by (auto simp: mem_put_def written_st)
qed

section \<open>The contract of a write-once store\<close>

text \<open>
  What the instructions rely on: a store and a read keep the invariant, never
  change a written cell, and leave their own cell written with the value
  stored or returned.
\<close>

locale write_once =
  fixes inv :: "'m \<Rightarrow> bool" and is_written :: "'m \<Rightarrow> 'a \<Rightarrow> bool" and value_of :: "'m \<Rightarrow> 'a \<Rightarrow> 'v"
    and put :: "'a \<Rightarrow> 'v \<Rightarrow> 'm \<Rightarrow> ('e, 'm) result" and read :: "'a \<Rightarrow> 'm \<Rightarrow> 'm \<times> 'v"
  assumes put_inv: "\<lbrakk>inv m; put c v m = Inr m'\<rbrakk> \<Longrightarrow> inv m'"
    and put_keeps: "\<lbrakk>inv m; put c v m = Inr m'; is_written m d\<rbrakk> \<Longrightarrow> is_written m' d \<and> value_of m' d = value_of m d"
    and put_written: "\<lbrakk>inv m; put c v m = Inr m'\<rbrakk> \<Longrightarrow> is_written m' c \<and> value_of m' c = v"
    and read_inv: "\<lbrakk>inv m; read c m = (m', v)\<rbrakk> \<Longrightarrow> inv m'"
    and read_keeps: "\<lbrakk>inv m; read c m = (m', v); is_written m d\<rbrakk> \<Longrightarrow> is_written m' d \<and> value_of m' d = value_of m d"
    and read_written: "\<lbrakk>inv m; read c m = (m', v)\<rbrakk> \<Longrightarrow> is_written m' c \<and> value_of m' c = v"
begin

text \<open>Several stores in a row, as the hints that fill a buffer make them.\<close>

primrec put_all :: "('a \<times> 'v) list \<Rightarrow> 'm \<Rightarrow> ('e, 'm) result" where
  "put_all [] m = Inr m"
| "put_all (w # ws) m = (case put (fst w) (snd w) m of Inl e \<Rightarrow> Inl e | Inr m' \<Rightarrow> put_all ws m')"

lemma put_all_ok:
  "\<lbrakk>inv m; put_all ws m = Inr m'\<rbrakk> \<Longrightarrow> inv m' \<and>
    (\<forall>d. is_written m d \<longrightarrow> is_written m' d \<and> value_of m' d = value_of m d) \<and>
    (\<forall>(c, v)\<in>set ws. is_written m' c \<and> value_of m' c = v)"
proof (induction ws arbitrary: m)
  case (Cons w ws)
  obtain m1 where p: "put (fst w) (snd w) m = Inr m1" "put_all ws m1 = Inr m'"
    using Cons.prems(2) by (auto split: sum.splits)
  note one = put_inv [OF Cons.prems(1) p(1)] put_keeps [OF Cons.prems(1) p(1)] put_written [OF Cons.prems(1) p(1)]
  from Cons.IH [OF one(1) p(2)] one(2,3) show ?case by (cases w) auto
qed simp

text \<open>A value read earlier is what a later store to the cell must agree with.\<close>

lemma put_after_read:
  "\<lbrakk>inv m; read c m = (m', v); put c w m' = Inr m''\<rbrakk> \<Longrightarrow> w = v"
  using read_written [of m c m' v] read_inv [of m c m' v] put_keeps [of m' c w m'' c] put_written [of m' c w m'']
  by auto

end

interpretation wo: write_once "link_inv E" written mem_get mem_put mem_read for E
proof unfold_locales
  fix m c v m' d
  assume inv: "link_inv E m" and put: "mem_put c v m = Inr m'"
  show "link_inv E m'" "written m' c \<and> mem_get m' c = v" using mem_put_ok [OF inv put] by auto
  show "written m d \<Longrightarrow> written m' d \<and> mem_get m' d = mem_get m d"
    using mem_put_ok(2) [OF inv put] by (auto dest: mem_leD)
next
  fix m c m' v d
  assume inv: "link_inv E m" and rd: "mem_read c m = (m', v)"
  have wf: "mem_wf m" using inv by (rule link_invD)
  show "link_inv E m'" using inv rd by (rule link_inv_read)
  show "written m d \<Longrightarrow> written m' d \<and> mem_get m' d = mem_get m d"
    using mem_read_le [OF wf rd] by (auto dest: mem_leD)
  show "written m' c \<and> mem_get m' c = v" using mem_read_views [OF wf rd] by (simp add: written_st)
qed

end
