(* ===== verification/Stacking.thy ===== *)
theory Stacking
  imports GF64
begin

text \<open>
  The stacked witness of \<^verbatim>\<open>lean_vm/src/witness.rs\<close>: columns of power-of-two sizes laid
  end to end, largest first, into one vector. The lemmas show that the placement
  tiles the committed length without overlap, aligned, and that what is written
  through the windows reads back column by column.
\<close>

section \<open>Definitions\<close>

definition log_batch :: nat where "log_batch = 6"
definition min_mu :: nat where "min_mu = 15"
definition max_mu :: nat where "max_mu = 28"

text \<open>A placement is virtual when its size is the largest machine word.\<close>

record placement =
  pl_n_vars :: nat
  pl_offset :: nat

definition usize_max :: nat where "usize_max = 2 ^ 64 - 1"

definition placement_virtual :: placement where
  "placement_virtual = \<lparr>pl_n_vars = usize_max, pl_offset = 0\<rparr>"

definition is_virtual :: "placement \<Rightarrow> bool" where
  "is_virtual p \<longleftrightarrow> pl_n_vars p = usize_max"

record stack_shape =
  ss_mu :: nat
  ss_n_lanes :: nat

definition committed_len :: "stack_shape \<Rightarrow> nat option" where
  "committed_len s = (if log_batch \<le> ss_mu s then Some (ss_n_lanes s * 2 ^ (ss_mu s - log_batch)) else None)"

text \<open>
  The order of placement: a stable sort by decreasing size, so ties stay in index
  order.
\<close>

definition stack_order :: "nat option list \<Rightarrow> nat list" where
  "stack_order kappas =
    sort_key (\<lambda>i. - int (the (kappas ! i))) (filter (\<lambda>i. kappas ! i \<noteq> None) [0..<length kappas])"

fun place_loop :: "nat option list \<Rightarrow> nat list \<Rightarrow> nat list \<Rightarrow> nat \<Rightarrow> (nat list \<times> nat) option" where
  "place_loop kappas [] offsets off = Some (offsets, off)"
| "place_loop kappas (i # is) offsets off =
    (let kappa = the (kappas ! i)
     in if kappa < 64 then place_loop kappas is (offsets[i := off]) (off + 2 ^ kappa) else None)"

definition stack_offsets :: "nat option list \<Rightarrow> (nat list \<times> nat) option" where
  "stack_offsets kappas = place_loop kappas (stack_order kappas) (replicate (length kappas) 0) 0"

definition div_ceil :: "nat \<Rightarrow> nat \<Rightarrow> nat" where
  "div_ceil a b = (a + b - 1) div b"

definition placements_of :: "nat option list \<Rightarrow> (placement list \<times> stack_shape) option" where
  "placements_of kappas =
    (case stack_offsets kappas of
       None \<Rightarrow> None
     | Some (offsets, placed) \<Rightarrow>
         (let placements = map2 (\<lambda>k offset. case k of
                  Some n_vars \<Rightarrow> \<lparr>pl_n_vars = n_vars, pl_offset = offset\<rparr>
                | None \<Rightarrow> placement_virtual) kappas offsets;
              mu = max (log2_ceil (max placed 1)) min_mu;
              n_lanes = max (div_ceil placed (2 ^ (mu - log_batch))) 1
          in Some (placements, \<lparr>ss_mu = mu, ss_n_lanes = n_lanes\<rparr>)))"

text \<open>
  Carving the stack into windows: in offset order, each window must start where the
  last one ended (the failed assertion and a split past the end are \<open>None\<close>). A
  window is its start and length; the tail that is left is zeroed.
\<close>

definition window_order :: "placement list \<Rightarrow> nat list" where
  "window_order placements =
    sort_key (\<lambda>i. pl_offset (placements ! i)) (filter (\<lambda>i. \<not> is_virtual (placements ! i)) [0..<length placements])"

fun split_loop :: "placement list \<Rightarrow> nat list \<Rightarrow> (nat \<times> nat) list \<Rightarrow> nat \<Rightarrow> nat \<Rightarrow> ((nat \<times> nat) list \<times> nat) option" where
  "split_loop placements [] windows placed rest = Some (windows, placed)"
| "split_loop placements (i # is) windows placed rest =
    (let p = placements ! i
     in if pl_offset p = placed \<and> 2 ^ pl_n_vars p \<le> rest
        then split_loop placements is (windows[i := (placed, 2 ^ pl_n_vars p)]) (placed + 2 ^ pl_n_vars p)
               (rest - 2 ^ pl_n_vars p)
        else None)"

definition split_stack :: "f64 list \<Rightarrow> placement list \<Rightarrow> ((nat \<times> nat) list \<times> f64 list) option" where
  "split_stack q placements =
    (case split_loop placements (window_order placements) (replicate (length placements) (0, 0)) 0 (length q) of
       None \<Rightarrow> None
     | Some (windows, placed) \<Rightarrow> Some (windows, take placed q @ replicate (length q - placed) (F64 0)))"

text \<open>Writing a column through its window, and the read-only view of a placed column.\<close>

definition write_window :: "nat \<times> nat \<Rightarrow> 'a list \<Rightarrow> 'a list \<Rightarrow> 'a list" where
  "write_window w col q = take (fst w) q @ take (snd w) col @ drop (fst w + snd w) q"

definition column_view :: "f64 list \<Rightarrow> placement \<Rightarrow> f64 list" where
  "column_view q p = (if is_virtual p then [] else take (2 ^ pl_n_vars p) (drop (pl_offset p) q))"

definition committed_size :: "placement list \<Rightarrow> nat" where
  "committed_size ps = sum_list (map (\<lambda>p. 2 ^ pl_n_vars p) (filter (\<lambda>p. \<not> is_virtual p) ps))"

section \<open>Offsets\<close>

text \<open>What one placement pass establishes, over the order it walks.\<close>

definition widths :: "nat option list \<Rightarrow> nat list \<Rightarrow> nat" where
  "widths kappas is = sum_list (map (\<lambda>i. 2 ^ the (kappas ! i)) is)"

lemma place_loop_ok:
  assumes "distinct is" "\<forall>i\<in>set is. the (kappas ! i) < 64 \<and> i < length offsets"
  shows "\<exists>offsets'. place_loop kappas is offsets off = Some (offsets', off + widths kappas is) \<and>
    length offsets' = length offsets \<and> (\<forall>i. i \<notin> set is \<longrightarrow> offsets' ! i = offsets ! i) \<and>
    (\<forall>k<length is. offsets' ! (is ! k) = off + widths kappas (take k is))"
  using assms
proof (induction "is" arbitrary: offsets off)
  case (Cons i "is")
  let ?off = "off + 2 ^ the (kappas ! i)"
  obtain offsets' where o: "place_loop kappas is (offsets[i := off]) ?off = Some (offsets', ?off + widths kappas is)"
    "length offsets' = length offsets" "\<forall>j. j \<notin> set is \<longrightarrow> offsets' ! j = offsets[i := off] ! j"
    "\<forall>k<length is. offsets' ! (is ! k) = ?off + widths kappas (take k is)"
    using Cons.IH [of "offsets[i := off]" ?off] Cons.prems by auto
  have "offsets' ! ((i # is) ! k) = off + widths kappas (take k (i # is))" if "k < length (i # is)" for k
    using that o(3,4) Cons.prems by (cases k) (auto simp: widths_def)
  moreover have "offsets' ! j = offsets ! j" if "j \<notin> set (i # is)" for j using o(3) that by auto
  ultimately show ?case using o(1,2) Cons.prems by (auto simp: widths_def)
qed (simp add: widths_def)

lemma stack_order_set: "set (stack_order kappas) = {i. i < length kappas \<and> kappas ! i \<noteq> None}"
  by (auto simp: stack_order_def)

lemma stack_order_distinct: "distinct (stack_order kappas)"
  by (simp add: stack_order_def)

lemma stack_order_sorted:
  "j \<le> k \<Longrightarrow> k < length (stack_order kappas) \<Longrightarrow>
   the (kappas ! (stack_order kappas ! k)) \<le> the (kappas ! (stack_order kappas ! j))"
proof -
  assume jk: "j \<le> k" "k < length (stack_order kappas)"
  have "sorted (map (\<lambda>i. - int (the (kappas ! i))) (stack_order kappas))"
    unfolding stack_order_def by (rule sorted_sort_key)
  from sorted_nth_mono [OF this jk(1)] jk show ?thesis by simp
qed

lemma widths_mono: "j \<le> k \<Longrightarrow> widths kappas (take j is) \<le> widths kappas (take k is)"
proof -
  assume "j \<le> k"
  then have "take k is = take j is @ drop j (take k is)" by (metis append_take_drop_id min.absorb1 take_take)
  then have "widths kappas (take k is) = widths kappas (take j is) + widths kappas (drop j (take k is))"
    by (metis map_append sum_list_append widths_def)
  then show ?thesis by simp
qed

lemma widths_Suc: "k < length is \<Longrightarrow> widths kappas (take (Suc k) is) = widths kappas (take k is) + 2 ^ the (kappas ! (is ! k))"
  by (simp add: widths_def take_Suc_conv_app_nth)

lemma widths_dvd:
  assumes "\<And>j. j < k \<Longrightarrow> n \<le> the (kappas ! (is ! j))" "k \<le> length is"
  shows "2 ^ n dvd widths kappas (take k is)"
  using assms
proof (induction k)
  case (Suc k)
  then have "2 ^ n dvd widths kappas (take k is)" "(2 :: nat) ^ n dvd 2 ^ the (kappas ! (is ! k))"
    by (auto intro: le_imp_power_dvd)
  then show ?case using Suc.prems(2) by (simp add: widths_Suc)
qed (simp add: widths_def)

text \<open>The abstract description of a tiling.\<close>

definition tiles :: "nat option list \<Rightarrow> nat list \<Rightarrow> nat \<Rightarrow> bool" where
  "tiles kappas offsets placed \<longleftrightarrow>
    length offsets = length kappas \<and>
    placed = (\<Sum>k\<leftarrow>kappas. case k of None \<Rightarrow> 0 | Some k \<Rightarrow> 2 ^ k) \<and>
    (\<forall>i<length kappas. \<forall>k. kappas ! i = Some k \<longrightarrow> 2 ^ k dvd offsets ! i \<and> offsets ! i + 2 ^ k \<le> placed) \<and>
    (\<forall>i<length kappas. \<forall>j<length kappas. \<forall>k l. i \<noteq> j \<longrightarrow> kappas ! i = Some k \<longrightarrow> kappas ! j = Some l \<longrightarrow>
      offsets ! i + 2 ^ k \<le> offsets ! j \<or> offsets ! j + 2 ^ l \<le> offsets ! i)"

lemma widths_order: "widths kappas (stack_order kappas) = (\<Sum>k\<leftarrow>kappas. case k of None \<Rightarrow> 0 | Some k \<Rightarrow> 2 ^ k)"
proof -
  let ?f = "\<lambda>i. 2 ^ the (kappas ! i) :: nat" and ?g = "\<lambda>k. case k of None \<Rightarrow> 0 :: nat | Some k \<Rightarrow> 2 ^ k"
  have "widths kappas (stack_order kappas) = sum ?f (set (stack_order kappas))"
    unfolding widths_def using stack_order_distinct by (simp add: sum.distinct_set_conv_list)
  also have "\<dots> = (\<Sum>i\<in>set [0..<length kappas]. ?g (kappas ! i))"
    by (rule sum.mono_neutral_cong_left) (auto simp: stack_order_set split: option.splits)
  also have "\<dots> = (\<Sum>i\<leftarrow>[0..<length kappas]. ?g (kappas ! i))"
    by (rule sum.distinct_set_conv_list) simp
  also have "map (\<lambda>i. ?g (kappas ! i)) [0..<length kappas] = map ?g kappas"
    by (rule nth_equalityI) simp_all
  finally show ?thesis .
qed

lemma stack_offsets_tiles:
  assumes "\<forall>k. Some k \<in> set kappas \<longrightarrow> k < 64"
  shows "\<exists>offsets placed. stack_offsets kappas = Some (offsets, placed) \<and> tiles kappas offsets placed"
proof -
  let ?is = "stack_order kappas"
  have "\<forall>i\<in>set ?is. the (kappas ! i) < 64 \<and> i < length (replicate (length kappas) 0)"
  proof
    fix i assume "i \<in> set ?is"
    then obtain k where "i < length kappas" "kappas ! i = Some k" by (auto simp: stack_order_set)
    moreover then have "Some k \<in> set kappas" by (metis nth_mem)
    ultimately show "the (kappas ! i) < 64 \<and> i < length (replicate (length kappas) 0)" using assms by simp
  qed
  from place_loop_ok [OF stack_order_distinct this, of 0]
  obtain offsets where o: "stack_offsets kappas = Some (offsets, widths kappas ?is)" "length offsets = length kappas"
    "\<forall>k<length ?is. offsets ! (?is ! k) = widths kappas (take k ?is)"
    by (auto simp: stack_offsets_def)
  have pos: "\<exists>a<length ?is. ?is ! a = i" if "i < length kappas" "kappas ! i = Some k" for i k
    using that stack_order_set [of kappas] by (metis (mono_tags, lifting) in_set_conv_nth mem_Collect_eq option.distinct(1))
  have next_off: "offsets ! (?is ! a) + 2 ^ the (kappas ! (?is ! a)) = widths kappas (take (Suc a) ?is)"
    if "a < length ?is" for a
    using o(3) that by (simp add: widths_Suc)
  have single: "2 ^ k dvd offsets ! i \<and> offsets ! i + 2 ^ k \<le> widths kappas ?is"
    if i: "i < length kappas" "kappas ! i = Some k" for i k
  proof -
    obtain a where a: "a < length ?is" "?is ! a = i" using pos [OF i] by blast
    have "2 ^ k dvd widths kappas (take a ?is)"
    proof (rule widths_dvd)
      fix j assume "j < a"
      then show "k \<le> the (kappas ! (?is ! j))" using stack_order_sorted [of j a kappas] a i by simp
    qed (use a in simp)
    moreover have "widths kappas (take (Suc a) ?is) \<le> widths kappas (take (length ?is) ?is)"
      by (rule widths_mono) (use a in simp)
    moreover have "offsets ! i = widths kappas (take a ?is)" using o(3) a by blast
    ultimately show ?thesis using next_off [OF a(1)] a i by simp
  qed
  have apart: "offsets ! (?is ! a) + 2 ^ the (kappas ! (?is ! a)) \<le> offsets ! (?is ! b)"
    if "a < b" "b < length ?is" for a b
    using next_off [of a] widths_mono [of "Suc a" b kappas ?is] o(3) that by simp
  have "offsets ! i + 2 ^ k \<le> offsets ! j \<or> offsets ! j + 2 ^ l \<le> offsets ! i"
    if i: "i < length kappas" "kappas ! i = Some k" and j: "j < length kappas" "kappas ! j = Some l" and "i \<noteq> j" for i j k l
  proof -
    obtain a b where a: "a < length ?is" "?is ! a = i" and b: "b < length ?is" "?is ! b = j"
      using pos [OF i] pos [OF j] by blast
    then have "a \<noteq> b" using \<open>i \<noteq> j\<close> by blast
    then have "a < b \<or> b < a" by linarith
    then show ?thesis using apart [of a b] apart [of b a] a b i j by auto
  qed
  then show ?thesis using o(1,2) single by (auto simp: tiles_def widths_order)
qed


section \<open>Placements and windows\<close>

lemma stack_shape_ok:
  assumes "placements_of kappas = Some (ps, shape)" "stack_offsets kappas = Some (offsets, placed)"
  shows "placed \<le> 2 ^ ss_mu shape" "min_mu \<le> ss_mu shape"
    "\<exists>len. committed_len shape = Some len \<and> placed \<le> len \<and> len \<le> 2 ^ ss_mu shape \<and>
      (0 < placed \<longrightarrow> len < placed + 2 ^ (ss_mu shape - log_batch))"
proof -
  let ?mu = "max (log2_ceil (max placed 1)) min_mu"
  have shape: "shape = \<lparr>ss_mu = ?mu, ss_n_lanes = max (div_ceil placed (2 ^ (?mu - log_batch))) 1\<rparr>"
    using assms by (simp add: placements_of_def Let_def)
  have "placed \<le> 2 ^ log2_ceil (max placed 1)" using log2_ceil_ge [of "max placed 1"] by simp
  also have "\<dots> \<le> 2 ^ ?mu" by (rule power_increasing) simp_all
  finally have le: "placed \<le> 2 ^ ?mu" .
  then show "placed \<le> 2 ^ ss_mu shape" "min_mu \<le> ss_mu shape" by (simp_all add: shape)
  let ?b = "2 ^ (?mu - log_batch) :: nat"
  have mu: "log_batch \<le> ?mu" by (simp add: log_batch_def min_mu_def)
  have full: "2 ^ log_batch * ?b = 2 ^ ?mu" using mu by (simp flip: power_add)
  have up: "placed \<le> div_ceil placed ?b * ?b" "div_ceil placed ?b * ?b < placed + ?b"
  proof -
    have "(placed + ?b - 1) div ?b * ?b + (placed + ?b - 1) mod ?b = placed + ?b - 1" by (rule div_mult_mod_eq)
    moreover have "(placed + ?b - 1) mod ?b < ?b" by simp
    moreover have "0 < ?b" by simp
    ultimately show "placed \<le> div_ceil placed ?b * ?b" "div_ceil placed ?b * ?b < placed + ?b"
      unfolding div_ceil_def by linarith+
  qed
  have "div_ceil placed ?b \<le> 2 ^ log_batch"
  proof -
    have "placed \<le> 2 ^ log_batch * ?b" using le full by simp
    moreover have "0 < ?b" by simp
    ultimately have "placed + ?b - 1 < (2 ^ log_batch + 1) * ?b" unfolding distrib_right by linarith
    then have "div_ceil placed ?b < 2 ^ log_batch + 1" unfolding div_ceil_def by (rule less_mult_imp_div_less)
    then show ?thesis by simp
  qed
  then have "max (div_ceil placed ?b) 1 * ?b \<le> 2 ^ log_batch * ?b" by (intro mult_le_mono1) simp
  then have "max (div_ceil placed ?b) 1 * ?b \<le> 2 ^ ?mu" unfolding full .
  moreover have "placed \<le> max (div_ceil placed ?b) 1 * ?b"
    using up(1) by (rule le_trans) (rule mult_le_mono1, simp)
  moreover have "max (div_ceil placed ?b) 1 * ?b < placed + ?b" if "0 < placed"
  proof -
    have "1 \<le> div_ceil placed ?b" using up(1) that by (cases "div_ceil placed ?b") auto
    then show ?thesis using up by (simp add: max_def)
  qed
  moreover have "committed_len shape = Some (max (div_ceil placed ?b) 1 * ?b)" "ss_mu shape = ?mu"
    unfolding shape committed_len_def using mu by (simp_all del: max.bounded_iff)
  ultimately show "\<exists>len. committed_len shape = Some len \<and> placed \<le> len \<and> len \<le> 2 ^ ss_mu shape \<and>
      (0 < placed \<longrightarrow> len < placed + 2 ^ (ss_mu shape - log_batch))"
    by metis
qed

text \<open>The windows follow the placement order.\<close>

lemma split_loop_ok:
  assumes "distinct is" "\<forall>i\<in>set is. i < length windows"
    and "\<forall>k<length is. pl_offset (ps ! (is ! k)) = placed + widths kappas (take k is) \<and>
        pl_n_vars (ps ! (is ! k)) = the (kappas ! (is ! k))"
    and "widths kappas is \<le> rest"
  shows "\<exists>windows'. split_loop ps is windows placed rest = Some (windows', placed + widths kappas is) \<and>
    length windows' = length windows \<and> (\<forall>i. i \<notin> set is \<longrightarrow> windows' ! i = windows ! i) \<and>
    (\<forall>i\<in>set is. windows' ! i = (pl_offset (ps ! i), 2 ^ pl_n_vars (ps ! i)))"
  using assms
proof (induction "is" arbitrary: windows placed rest)
  case (Cons i "is")
  let ?w = "2 ^ the (kappas ! i) :: nat"
  have first: "pl_offset (ps ! i) = placed" "pl_n_vars (ps ! i) = the (kappas ! i)"
    using Cons.prems(3) by (auto simp: widths_def dest: spec [of _ 0])
  have w: "widths kappas (i # is) = ?w + widths kappas is" by (simp add: widths_def)
  have step: "pl_offset (ps ! (is ! k)) = placed + ?w + widths kappas (take k is) \<and>
      pl_n_vars (ps ! (is ! k)) = the (kappas ! (is ! k))" if "k < length is" for k
    using Cons.prems(3) [rule_format, of "Suc k"] that by (simp add: widths_def)
  obtain windows' where o: "split_loop ps is (windows[i := (placed, ?w)]) (placed + ?w) (rest - ?w) = Some (windows', placed + ?w + widths kappas is)"
    "length windows' = length windows" "\<forall>j. j \<notin> set is \<longrightarrow> windows' ! j = windows[i := (placed, ?w)] ! j"
    "\<forall>j\<in>set is. windows' ! j = (pl_offset (ps ! j), 2 ^ pl_n_vars (ps ! j))"
  proof -
    have "distinct is" "\<forall>j\<in>set is. j < length (windows[i := (placed, ?w)])" "widths kappas is \<le> rest - ?w"
      using Cons.prems w by auto
    from Cons.IH [OF this(1,2) _ this(3), of "placed + ?w"] step that show ?thesis by auto
  qed
  then show ?case using Cons.prems first w by (auto simp: Let_def)
qed (simp add: widths_def)

lemma sorted_by_unique:
  assumes "sorted (map f xs)" "sorted (map f ys)" "distinct (map f xs)" "distinct (map f ys)" "set xs = set ys"
  shows "xs = ys"
proof -
  have "map f xs = map f ys" using assms by (intro sorted_distinct_set_unique) simp_all
  moreover have "inj_on f (set xs \<union> set ys)" using assms(3,5) by (simp add: distinct_map)
  ultimately show ?thesis by (simp only: inj_on_map_eq_map)
qed

text \<open>Which windows a successful split hands out, in one definition.\<close>

definition windows_of :: "placement list \<Rightarrow> (nat \<times> nat) list" where
  "windows_of ps = map (\<lambda>p. if is_virtual p then (0, 0) else (pl_offset p, 2 ^ pl_n_vars p)) ps"

text \<open>The offsets of the placement order, as the code's sizes are small.\<close>

lemma stack_offsets_order:
  assumes "\<forall>k. Some k \<in> set kappas \<longrightarrow> k < 64"
  shows "\<exists>offsets. stack_offsets kappas = Some (offsets, widths kappas (stack_order kappas)) \<and>
    length offsets = length kappas \<and>
    (\<forall>k<length (stack_order kappas). offsets ! (stack_order kappas ! k) = widths kappas (take k (stack_order kappas)))"
proof -
  have "\<forall>i\<in>set (stack_order kappas). the (kappas ! i) < 64 \<and> i < length (replicate (length kappas) 0)"
    using assms nth_mem [of _ kappas] by (force simp: stack_order_set)
  from place_loop_ok [OF stack_order_distinct this, of 0] show ?thesis by (auto simp: stack_offsets_def)
qed

lemma placements_nth:
  assumes "placements_of kappas = Some (ps, shape)" "stack_offsets kappas = Some (offsets, placed)"
    "length offsets = length kappas"
  shows "length ps = length kappas"
    "i < length kappas \<Longrightarrow> ps ! i = (case kappas ! i of Some k \<Rightarrow> \<lparr>pl_n_vars = k, pl_offset = offsets ! i\<rparr> | None \<Rightarrow> placement_virtual)"
  using assms by (auto simp: placements_of_def Let_def)

lemma placement_virtual_iff:
  assumes "placements_of kappas = Some (ps, shape)" "stack_offsets kappas = Some (offsets, placed)"
    "length offsets = length kappas" "\<forall>k. Some k \<in> set kappas \<longrightarrow> k < 64" "i < length kappas"
  shows "is_virtual (ps ! i) \<longleftrightarrow> kappas ! i = None"
proof (cases "kappas ! i")
  case (Some k)
  then have "k < 64" using assms(4,5) nth_mem by metis
  then show ?thesis using placements_nth(2) [OF assms(1-3,5)] Some by (simp add: is_virtual_def usize_max_def)
next
  case None
  then show ?thesis using placements_nth(2) [OF assms(1-3,5)] by (simp add: is_virtual_def placement_virtual_def)
qed

lemma widths_strict: "\<lbrakk>j < k; k \<le> length is\<rbrakk> \<Longrightarrow> widths kappas (take j is) < widths kappas (take k is)"
proof -
  assume jk: "j < k" "k \<le> length is"
  then have "widths kappas (take j is) < widths kappas (take (Suc j) is)" by (simp add: widths_Suc)
  also have "\<dots> \<le> widths kappas (take k is)" by (rule widths_mono) (use jk in simp)
  finally show ?thesis .
qed

lemma split_stack_placed:
  assumes small: "\<forall>k. Some k \<in> set kappas \<longrightarrow> k < 64" and pl: "placements_of kappas = Some (ps, shape)"
    and so: "stack_offsets kappas = Some (offsets, placed)" and len: "placed \<le> length q"
  shows "split_stack q ps = Some (windows_of ps, take placed q @ replicate (length q - placed) (F64 0))"
proof -
  let ?is = "stack_order kappas"
  have o: "length offsets = length kappas" "placed = widths kappas ?is"
    "\<And>k. k < length ?is \<Longrightarrow> offsets ! (?is ! k) = widths kappas (take k ?is)"
    using stack_offsets_order [OF small] so by auto
  note nth = placements_nth [OF pl so o(1)]
  note virt = placement_virtual_iff [OF pl so o(1) small]
  have mem: "\<exists>n. i < length kappas \<and> kappas ! i = Some n" if "i \<in> set ?is" for i
    using that by (auto simp: stack_order_set)
  have sel: "pl_offset (ps ! i) = offsets ! i \<and> pl_n_vars (ps ! i) = the (kappas ! i) \<and> i < length ps" if "i \<in> set ?is" for i
    using mem [OF that] nth by auto
  have off: "pl_offset (ps ! (?is ! k)) = widths kappas (take k ?is)" if "k < length ?is" for k
    using sel [OF nth_mem [OF that]] o(3) [OF that] by simp
  let ?f = "\<lambda>i. pl_offset (ps ! i)"
  let ?ws = "filter (\<lambda>i. \<not> is_virtual (ps ! i)) [0..<length ps]"
  have lt: "?f (?is ! j) < ?f (?is ! k)" if "j < k" "k < length ?is" for j k
    using off [of j] off [of k] widths_strict [of j k ?is kappas] that by simp
  have "sorted_wrt (<) (map ?f ?is)" unfolding sorted_wrt_iff_nth_less using lt by simp
  then have ord: "sorted (map ?f ?is)" "distinct (map ?f ?is)"
    unfolding strict_sorted_iff by blast+
  have sets: "set ?ws = set ?is" using virt nth(1) by (auto simp: stack_order_set)
  have "window_order ps = ?is"
  proof (rule sorted_by_unique)
    show "sorted (map ?f (window_order ps))" unfolding window_order_def by (rule sorted_sort_key)
    show "set (window_order ps) = set ?is" using sets by (simp add: window_order_def)
    show "distinct (map ?f (window_order ps))"
      using ord(2) sets by (simp add: distinct_map window_order_def)
  qed (rule ord)+
  moreover have "\<forall>i\<in>set ?is. i < length (replicate (length ps) (0 :: nat, 0 :: nat))" using sel by simp
  moreover have "\<forall>k<length ?is. pl_offset (ps ! (?is ! k)) = 0 + widths kappas (take k ?is) \<and>
      pl_n_vars (ps ! (?is ! k)) = the (kappas ! (?is ! k))" using off sel nth_mem by auto
  ultimately obtain windows where w: "split_loop ps (window_order ps) (replicate (length ps) (0, 0)) 0 (length q)
      = Some (windows, placed)" "length windows = length ps"
    "\<And>i. i \<notin> set ?is \<Longrightarrow> windows ! i = replicate (length ps) (0, 0) ! i"
    "\<And>i. i \<in> set ?is \<Longrightarrow> windows ! i = (pl_offset (ps ! i), 2 ^ pl_n_vars (ps ! i))"
    using split_loop_ok [OF stack_order_distinct, of kappas "replicate (length ps) (0, 0)" ps 0 kappas "length q"]
      o(2) len by auto
  have "windows = windows_of ps"
  proof (rule nth_equalityI)
    fix i assume "i < length windows"
    then have i: "i < length ps" by (simp add: w(2))
    show "windows ! i = windows_of ps ! i"
      using virt [of i] w(3,4) [of i] i nth(1) by (cases "i \<in> set ?is") (auto simp: windows_of_def stack_order_set)
  qed (simp add: w(2) windows_of_def)
  then show ?thesis by (simp add: split_stack_def w(1))
qed

section \<open>Writing through the windows and reading back\<close>

text \<open>Every column's fill writes its own window, in column order.\<close>

definition write_columns :: "(nat \<times> nat) list \<Rightarrow> f64 list list \<Rightarrow> f64 list \<Rightarrow> f64 list" where
  "write_columns windows cols q = fold (\<lambda>(w, col). write_window w col) (zip windows cols) q"

lemma write_window_length:
  "fst w + snd w \<le> length q \<Longrightarrow> snd w \<le> length col \<Longrightarrow> length (write_window w col q) = length q"
  by (simp add: write_window_def)

lemma write_window_nth:
  assumes "fst w + snd w \<le> length q" "snd w \<le> length col" "i < length q"
  shows "write_window w col q ! i = (if fst w \<le> i \<and> i < fst w + snd w then col ! (i - fst w) else q ! i)"
proof -
  consider "i < fst w" | "fst w \<le> i" "i < fst w + snd w" | "fst w + snd w \<le> i" by linarith
  then show ?thesis
    using assms by cases (auto simp: write_window_def nth_append min_def)
qed

definition in_window :: "nat \<Rightarrow> nat \<times> nat \<Rightarrow> bool" where
  "in_window i w \<longleftrightarrow> fst w \<le> i \<and> i < fst w + snd w"

lemma write_columns_ok:
  assumes "\<forall>(w, col)\<in>set wcs. fst w + snd w \<le> length q \<and> snd w \<le> length col"
    and "\<And>a b. \<lbrakk>a < length wcs; b < length wcs; a \<noteq> b\<rbrakk> \<Longrightarrow> \<not> (in_window i (fst (wcs ! a)) \<and> in_window i (fst (wcs ! b)))"
    and "i < length q"
  shows "length (fold (\<lambda>(w, col). write_window w col) wcs q) = length q \<and>
    (\<forall>a<length wcs. in_window i (fst (wcs ! a)) \<longrightarrow>
      fold (\<lambda>(w, col). write_window w col) wcs q ! i = snd (wcs ! a) ! (i - fst (fst (wcs ! a)))) \<and>
    ((\<forall>a<length wcs. \<not> in_window i (fst (wcs ! a))) \<longrightarrow> fold (\<lambda>(w, col). write_window w col) wcs q ! i = q ! i)"
  using assms
proof (induction wcs arbitrary: q)
  case (Cons wc wcs)
  obtain w col where wc: "wc = (w, col)" by fastforce
  have ok: "fst w + snd w \<le> length q" "snd w \<le> length col" using Cons.prems(1) wc by auto
  let ?q = "write_window w col q"
  have len: "length ?q = length q" by (rule write_window_length [OF ok])
  have rest: "\<not> (in_window i (fst (wcs ! a)) \<and> in_window i (fst (wcs ! b)))"
    if "a < length wcs" "b < length wcs" "a \<noteq> b" for a b
    using Cons.prems(2) [of "Suc a" "Suc b"] that by simp
  have head: "\<not> (in_window i w \<and> in_window i (fst (wcs ! a)))" if "a < length wcs" for a
    using Cons.prems(2) [of 0 "Suc a"] that by (simp add: wc)
  have "\<forall>(w, col)\<in>set wcs. fst w + snd w \<le> length ?q \<and> snd w \<le> length col" using Cons.prems(1) len by auto
  note ih = Cons.IH [OF this rest, simplified len, OF _ _ _ Cons.prems(3)]
  show ?case
    using ih head write_window_nth [OF ok Cons.prems(3)]
    by (auto simp: wc len in_window_def nth_Cons split: nat.splits)
qed simp

lemma tilesD:
  assumes "tiles kappas offsets placed" "i < length kappas" "kappas ! i = Some k"
  shows "2 ^ k dvd offsets ! i" "offsets ! i + 2 ^ k \<le> placed"
    "\<lbrakk>j < length kappas; j \<noteq> i; kappas ! j = Some l\<rbrakk> \<Longrightarrow>
      offsets ! i + 2 ^ k \<le> offsets ! j \<or> offsets ! j + 2 ^ l \<le> offsets ! i"
  using assms unfolding tiles_def by blast+

lemma windows_apart:
  assumes "placements_of kappas = Some (ps, shape)" "stack_offsets kappas = Some (offsets, placed)"
    "\<forall>k. Some k \<in> set kappas \<longrightarrow> k < 64" "i \<noteq> j" "i < length kappas" "j < length kappas"
  shows "\<not> (in_window x (windows_of ps ! i) \<and> in_window x (windows_of ps ! j))"
proof -
  have t: "tiles kappas offsets placed" using stack_offsets_tiles [OF assms(3)] assms(2) by auto
  then have "length offsets = length kappas" by (simp add: tiles_def)
  note nth = placements_nth [OF assms(1,2) this] and virt = placement_virtual_iff [OF assms(1,2) this assms(3)]
  show ?thesis
  proof (cases "kappas ! i = None \<or> kappas ! j = None")
    case True
    then show ?thesis using virt nth(1) assms(5,6) by (auto simp: windows_of_def in_window_def)
  next
    case False
    then obtain k l where kl: "kappas ! i = Some k" "kappas ! j = Some l" by auto
    then have "offsets ! i + 2 ^ k \<le> offsets ! j \<or> offsets ! j + 2 ^ l \<le> offsets ! i"
      using t assms(4-6) by (simp add: tiles_def)
    moreover have "\<not> is_virtual (ps ! i)" "\<not> is_virtual (ps ! j)" using virt assms(5,6) kl by auto
    ultimately show ?thesis using kl nth assms(5,6) by (auto simp: windows_of_def in_window_def)
  qed
qed

lemma write_columns_view:
  assumes pl: "placements_of kappas = Some (ps, shape)" and so: "stack_offsets kappas = Some (offsets, placed)"
    and small: "\<forall>k. Some k \<in> set kappas \<longrightarrow> k < 64" and q: "placed \<le> length q"
    and cols: "length cols = length kappas" "\<forall>i<length kappas. \<forall>k. kappas ! i = Some k \<longrightarrow> length (cols ! i) = 2 ^ k"
    and i: "i < length kappas" "kappas ! i = Some k"
  shows "column_view (write_columns (windows_of ps) cols q) (ps ! i) = cols ! i"
proof -
  have t: "tiles kappas offsets placed" using stack_offsets_tiles [OF small] so by auto
  then have ol: "length offsets = length kappas" by (simp add: tiles_def)
  note nth = placements_nth [OF pl so ol] and virt = placement_virtual_iff [OF pl so ol small]
  let ?wcs = "zip (windows_of ps) cols"
  have len: "length ?wcs = length kappas" using nth(1) [of] cols(1) by (simp add: windows_of_def)
  have wj: "windows_of ps ! j = (case kappas ! j of None \<Rightarrow> (0, 0) | Some k \<Rightarrow> (offsets ! j, 2 ^ k))" if "j < length kappas" for j
    using that virt [OF that] nth(2) [OF that] nth(1) by (auto simp: windows_of_def split: option.splits)
  have fit: "offsets ! j + 2 ^ k \<le> placed" if "j < length kappas" "kappas ! j = Some k" for j k
    by (rule tilesD(2) [OF t that])
  have ok: "\<forall>(w, col)\<in>set ?wcs. fst w + snd w \<le> length q \<and> snd w \<le> length col"
  proof (clarify)
    fix a b col assume "((a, b), col) \<in> set ?wcs"
    then obtain j where j: "j < length kappas" "(a, b) = windows_of ps ! j" "col = cols ! j"
      using len by (metis in_set_zip fst_conv snd_conv length_zip min_less_iff_conj)
    then show "fst (a, b) + snd (a, b) \<le> length q \<and> snd (a, b) \<le> length col"
      using wj [OF j(1)] cols(2) fit [OF j(1)] q by (cases "kappas ! j") fastforce+
  qed
  have wi: "windows_of ps ! i = (offsets ! i, 2 ^ k)" "i < length ?wcs" using wj i len by auto
  have nthw: "?wcs ! a = (windows_of ps ! a, cols ! a)" if "a < length ?wcs" for a using that by simp
  have val: "length (write_columns (windows_of ps) cols q) = length q \<and>
      write_columns (windows_of ps) cols q ! (offsets ! i + x) = cols ! i ! x" if "x < 2 ^ k" for x
  proof -
    have lt: "offsets ! i + x < length q" using fit [OF i] that q by linarith
    have "\<not> (in_window y (fst (?wcs ! a)) \<and> in_window y (fst (?wcs ! b)))"
      if "a < length ?wcs" "b < length ?wcs" "a \<noteq> b" for a b y
      using windows_apart [OF pl so small that(3), of y] that nthw len by auto
    from write_columns_ok [OF ok this lt] show ?thesis
      using wi nthw that unfolding write_columns_def by (auto simp: in_window_def)
  qed
  have "0 < (2 :: nat) ^ k" by simp
  from val [OF this] have L: "length (write_columns (windows_of ps) cols q) = length q" ..
  have pi: "ps ! i = \<lparr>pl_n_vars = k, pl_offset = offsets ! i\<rparr>" using nth(2) [OF i(1)] i(2) by simp
  have "\<not> is_virtual (ps ! i)" using virt [OF i(1)] i(2) by simp
  then show ?thesis
    using fit [OF i] q cols(2) i val by (intro nth_equalityI) (auto simp: column_view_def pi L)
qed

section \<open>Properties\<close>



text \<open>C15: carving the committed allocation into windows succeeds, and once every column has been written through its
  own window each committed column reads back unchanged from its placement in the stack.\<close>
theorem stacked_columns_read_back:
  assumes "\<forall>k. Some k \<in> set kappas \<longrightarrow> k < 64" "placements_of kappas = Some (ps, shape)"
    and "committed_len shape = Some (length q)" "length cols = length kappas"
    and "\<forall>i<length kappas. \<forall>k. kappas ! i = Some k \<longrightarrow> length (cols ! i) = 2 ^ k"
  shows "\<exists>windows q'. split_stack q ps = Some (windows, q') \<and>
    (\<forall>i<length kappas. \<not> is_virtual (ps ! i) \<longrightarrow> column_view (write_columns windows cols q') (ps ! i) = cols ! i)"
proof -
  obtain offsets placed where so: "stack_offsets kappas = Some (offsets, placed)" and t: "tiles kappas offsets placed"
    using stack_offsets_tiles [OF assms(1)] by blast
  have len: "placed \<le> length q" using stack_shape_ok(3) [OF assms(2) so] assms(3) by auto
  have ol: "length offsets = length kappas" using t by (simp add: tiles_def)
  let ?q = "take placed q @ replicate (length q - placed) (F64 0)"
  have "column_view (write_columns (windows_of ps) cols ?q) (ps ! i) = cols ! i"
    if i: "i < length kappas" and nv: "\<not> is_virtual (ps ! i)" for i
  proof -
    obtain k where "kappas ! i = Some k" using placement_virtual_iff [OF assms(2) so ol assms(1) i] nv by blast
    from write_columns_view [OF assms(2) so assms(1) _ assms(4,5) i this] len show ?thesis by simp
  qed
  then show ?thesis using split_stack_placed [OF assms(1,2) so len] by blast
qed

theorem stacked_columns_read_back_witness:
  "\<exists>ps shape windows q'. placements_of [Some 0, None, Some 1] = Some (ps, shape) \<and>
     split_stack (replicate 512 (F64 7)) ps = Some (windows, q') \<and>
     column_view (write_columns windows [[F64 5], [], [F64 1, F64 2]] q') (ps ! 2) = [F64 1, F64 2]"
proof -
  let ?kappas = "[Some 0, None, Some 1 :: nat option]" and ?cols = "[[F64 5], [], [F64 1, F64 2]]"
  have so: "stack_offsets ?kappas = Some ([2, 0, 0], 3)"
    by (simp add: stack_offsets_def stack_order_def upt_rec)
  have l2: "log2_ceil 3 = 2" by (simp add: log2_ceil_def ilog2.simps)
  obtain ps shape where pl: "placements_of ?kappas = Some (ps, shape)" and len: "committed_len shape = Some 512"
    and v: "\<not> is_virtual (ps ! 2)"
    using so by (simp add: placements_of_def l2 committed_len_def log_batch_def min_mu_def div_ceil_def is_virtual_def usize_max_def)
  have *: "\<forall>k. Some k \<in> set ?kappas \<longrightarrow> k < (64 :: nat)" "committed_len shape = Some (length (replicate 512 (F64 7)))"
    "length ?cols = length ?kappas" "\<forall>i<length ?kappas. \<forall>k. ?kappas ! i = Some k \<longrightarrow> length (?cols ! i) = 2 ^ k"
    using len by (auto simp: less_Suc_eq nth_Cons' simp del: replicate_numeral)
  obtain windows q' where "split_stack (replicate 512 (F64 7)) ps = Some (windows, q')"
    "\<forall>i<length ?kappas. \<not> is_virtual (ps ! i) \<longrightarrow> column_view (write_columns windows ?cols q') (ps ! i) = ?cols ! i"
    using stacked_columns_read_back [OF *(1) pl *(2-4)] by blast
  then show ?thesis using pl v by (intro exI [of _ ps] exI [of _ shape] exI [of _ windows] exI [of _ q'] conjI) auto
qed

end
