(* ===== verification/Tables.thy ===== *)
theory Tables
  imports Isa
begin

text \<open>
  The per-instruction tables of \<^verbatim>\<open>lean_vm/src/tables.rs\<close>, their bus coordinates
  (\<^verbatim>\<open>lean_vm/src/leaf.rs\<close>) and the trace rows they are filled from
  (\<^verbatim>\<open>lean_vm/src/cpu/trace.rs\<close>).
\<close>

section \<open>Bus coordinates\<close>

datatype coord =
    CConst f64
  | CCol nat
  | CGCol nat nat
  | CProd nat nat nat
  | CIndex
  | CPublic "f64 list"
  | CSum "coord list"

record block =
  bl_kappa :: nat
  bl_coords :: "coord list"

text \<open>Domain separators and opcodes are generator powers.\<close>

primrec const_g_pow :: "nat \<Rightarrow> f64" where
  "const_g_pow 0 = F64 1"
| "const_g_pow (Suc k) = mul_by_g (const_g_pow k)"

definition sep_state :: f64 where "sep_state = const_g_pow 0"
definition sep_mem :: f64 where "sep_mem = const_g_pow 1"
definition sep_bytecode :: f64 where "sep_bytecode = const_g_pow 2"

definition opc_xor :: f64 where "opc_xor = const_g_pow 0"
definition opc_mul :: f64 where "opc_mul = const_g_pow 1"
definition opc_set :: f64 where "opc_set = const_g_pow 2"
definition opc_deref :: f64 where "opc_deref = const_g_pow 3"
definition opc_jump :: f64 where "opc_jump = const_g_pow 4"
definition opc_blake2s :: f64 where "opc_blake2s = const_g_pow 5"

section \<open>The flush builder\<close>

record flush_builder =
  fb_push :: "coord list list"
  fb_pull :: "coord list list"

definition fb_new :: flush_builder where
  "fb_new = \<lparr>fb_push = [], fb_pull = []\<rparr>"

definition fb_pair :: "coord list \<Rightarrow> coord list \<Rightarrow> flush_builder \<Rightarrow> flush_builder" where
  "fb_pair push pull f = \<lparr>fb_push = fb_push f @ [push], fb_pull = fb_pull f @ [pull]\<rparr>"

definition state_step :: "nat \<Rightarrow> nat \<Rightarrow> flush_builder \<Rightarrow> flush_builder" where
  "state_step pc fp = fb_pair [CConst sep_state, CGCol pc 1, CCol fp] [CConst sep_state, CCol pc, CCol fp]"

definition state_derived :: "nat \<Rightarrow> nat \<Rightarrow> coord \<Rightarrow> coord \<Rightarrow> flush_builder \<Rightarrow> flush_builder" where
  "state_derived pc fp npc nfp =
    fb_pair [CConst sep_state, npc, nfp] [CConst sep_state, CCol pc, CCol fp]"

definition bytecode_flush :: "nat \<Rightarrow> nat \<Rightarrow> f64 \<Rightarrow> coord list \<Rightarrow> flush_builder \<Rightarrow> flush_builder" where
  "bytecode_flush pc count opcode operands =
    fb_pair ([CConst sep_bytecode, CCol pc, CGCol count 1, CConst opcode] @ operands)
      ([CConst sep_bytecode, CCol pc, CCol count, CConst opcode] @ operands)"

definition memory_coords :: "coord \<Rightarrow> nat \<Rightarrow> coord list \<Rightarrow> flush_builder \<Rightarrow> flush_builder" where
  "memory_coords addr count vals =
    fb_pair ([CConst sep_mem, addr, CGCol count 1] @ vals) ([CConst sep_mem, addr, CCol count] @ vals)"

definition memory_flush :: "coord \<Rightarrow> nat \<Rightarrow> nat \<Rightarrow> nat \<Rightarrow> nat \<Rightarrow> flush_builder \<Rightarrow> flush_builder" where
  "memory_flush addr count val0 val1 val2 = memory_coords addr count [CCol val0, CCol val1, CCol val2]"

definition memory_k :: "coord \<Rightarrow> nat \<Rightarrow> nat \<Rightarrow> flush_builder \<Rightarrow> flush_builder" where
  "memory_k addr count val = memory_coords addr count [CCol val, CConst (F64 0), CConst (F64 0)]"

definition memory_128 :: "coord \<Rightarrow> nat \<Rightarrow> nat \<Rightarrow> nat \<Rightarrow> flush_builder \<Rightarrow> flush_builder" where
  "memory_128 addr count lo hi = memory_coords addr count [CCol lo, CCol hi, CConst (F64 0)]"

section \<open>The tables\<close>

datatype table = Arith (is_xor: bool) | SetTable | DerefTable | JumpTable | Blake2sTable

definition tables :: "table list" where
  "tables = [Arith True, Arith False, SetTable, DerefTable, JumpTable, Blake2sTable]"

definition blake2s_table :: nat where "blake2s_table = 5"

text \<open>Local column indices of \<^verbatim>\<open>XOR\<close> and \<^verbatim>\<open>MUL\<close>.\<close>

definition arith_pc :: nat where "arith_pc = 0"
definition arith_fp :: nat where "arith_fp = 1"
definition arith_oa :: nat where "arith_oa = 2"
definition arith_ob :: nat where "arith_ob = 3"
definition arith_oc :: nat where "arith_oc = 4"
definition arith_va :: "nat list" where "arith_va = [5, 6, 7]"
definition arith_vb :: "nat list" where "arith_vb = [8, 9, 10]"
definition arith_ra :: nat where "arith_ra = 11"
definition arith_rb :: nat where "arith_rb = 12"
definition arith_rc :: nat where "arith_rc = 13"
definition arith_rbc :: nat where "arith_rbc = 14"
definition arith_n :: nat where "arith_n = 15"

lemmas arith_cols = arith_pc_def arith_fp_def arith_oa_def arith_ob_def arith_oc_def arith_va_def arith_vb_def
  arith_ra_def arith_rb_def arith_rc_def arith_rbc_def arith_n_def

text \<open>The lanes of the tower product.\<close>

definition tower_lanes :: "(nat \<times> nat) list list" where
  "tower_lanes =
    [[(0, 0), (1, 2), (2, 1)],
     [(0, 1), (1, 0), (1, 2), (2, 1), (2, 2)],
     [(0, 2), (1, 1), (2, 0), (2, 2)]]"

definition arith_result :: "bool \<Rightarrow> coord list" where
  "arith_result x =
    (if x
     then [CSum [CCol (arith_va ! 0), CCol (arith_vb ! 0)], CSum [CCol (arith_va ! 1), CCol (arith_vb ! 1)],
           CSum [CCol (arith_va ! 2), CCol (arith_vb ! 2)]]
     else map (\<lambda>lane. CSum (map (\<lambda>(j, k). CProd (arith_va ! j) (arith_vb ! k) 0) lane)) tower_lanes)"

text \<open>\<^verbatim>\<open>SET\<close>.\<close>

definition set_pc :: nat where "set_pc = 0"
definition set_fp :: nat where "set_fp = 1"
definition set_o :: nat where "set_o = 2"
definition set_k :: "nat list" where "set_k = [3, 4, 5]"
definition set_r :: nat where "set_r = 6"
definition set_rbc :: nat where "set_rbc = 7"
definition set_n :: nat where "set_n = 8"

lemmas set_cols = set_pc_def set_fp_def set_o_def set_k_def set_r_def set_rbc_def set_n_def

text \<open>\<^verbatim>\<open>DEREF\<close>.\<close>

definition deref_pc :: nat where "deref_pc = 0"
definition deref_fp :: nat where "deref_fp = 1"
definition deref_o1 :: nat where "deref_o1 = 2"
definition deref_o2 :: nat where "deref_o2 = 3"
definition deref_o3 :: nat where "deref_o3 = 4"
definition deref_fpc :: nat where "deref_fpc = 5"
definition deref_ffp :: nat where "deref_ffp = 6"
definition deref_p :: nat where "deref_p = 7"
definition deref_v3 :: "nat list" where "deref_v3 = [8, 9, 10]"
definition deref_r1 :: nat where "deref_r1 = 11"
definition deref_r2 :: nat where "deref_r2 = 12"
definition deref_r3 :: nat where "deref_r3 = 13"
definition deref_rbc :: nat where "deref_rbc = 14"
definition deref_n :: nat where "deref_n = 15"

lemmas deref_cols = deref_pc_def deref_fp_def deref_o1_def deref_o2_def deref_o3_def deref_fpc_def deref_ffp_def
  deref_p_def deref_v3_def deref_r1_def deref_r2_def deref_r3_def deref_rbc_def deref_n_def

definition deref_gated :: "nat \<Rightarrow> coord list" where
  "deref_gated v = [CCol v, CProd deref_fpc v 0, CProd deref_ffp v 0]"

definition deref_store :: "coord list" where
  "deref_store =
    [CSum (deref_gated (deref_v3 ! 0) @ [CProd deref_fpc deref_pc 2, CProd deref_ffp deref_fp 0]),
     CSum (deref_gated (deref_v3 ! 1)), CSum (deref_gated (deref_v3 ! 2))]"

text \<open>\<^verbatim>\<open>JUMP\<close>.\<close>

definition jump_pc :: nat where "jump_pc = 0"
definition jump_fp :: nat where "jump_fp = 1"
definition jump_oc :: nat where "jump_oc = 2"
definition jump_od :: nat where "jump_od = 3"
definition jump_of :: nat where "jump_of = 4"
definition jump_v_cond :: nat where "jump_v_cond = 5"
definition jump_v_pc :: nat where "jump_v_pc = 6"
definition jump_v_fp :: nat where "jump_v_fp = 7"
definition jump_rc :: nat where "jump_rc = 8"
definition jump_rd :: nat where "jump_rd = 9"
definition jump_rf :: nat where "jump_rf = 10"
definition jump_rbc :: nat where "jump_rbc = 11"
definition jump_w :: nat where "jump_w = 12"
definition jump_b :: nat where "jump_b = 13"
definition jump_n :: nat where "jump_n = 14"

lemmas jump_cols = jump_pc_def jump_fp_def jump_oc_def jump_od_def jump_of_def jump_v_cond_def jump_v_pc_def
  jump_v_fp_def jump_rc_def jump_rd_def jump_rf_def jump_rbc_def jump_w_def jump_b_def jump_n_def

text \<open>\<^verbatim>\<open>BLAKE2s\<close>.\<close>

definition bl_pc :: nat where "bl_pc = 0"
definition bl_fp :: nat where "bl_fp = 1"
definition bl_o_m0 :: nat where "bl_o_m0 = 2"
definition bl_o_m1 :: nat where "bl_o_m1 = 3"
definition bl_o_m2 :: nat where "bl_o_m2 = 4"
definition bl_o_m3 :: nat where "bl_o_m3 = 5"
definition bl_o_cv :: nat where "bl_o_cv = 6"
definition bl_o_out :: nat where "bl_o_out = 7"
definition bl_o_md :: nat where "bl_o_md = 8"
definition bl_v_m0 :: nat where "bl_v_m0 = 9"
definition bl_v_m2 :: nat where "bl_v_m2 = 13"
definition bl_v_out0 :: nat where "bl_v_out0 = 17"
definition bl_v_cv0 :: nat where "bl_v_cv0 = 21"
definition bl_md0 :: nat where "bl_md0 = 25"
definition bl_md1 :: nat where "bl_md1 = 26"
definition bl_r_m0 :: nat where "bl_r_m0 = 27"
definition bl_r_m1 :: nat where "bl_r_m1 = 28"
definition bl_r_m2 :: nat where "bl_r_m2 = 29"
definition bl_r_m3 :: nat where "bl_r_m3 = 30"
definition bl_r_cv0 :: nat where "bl_r_cv0 = 31"
definition bl_r_cv1 :: nat where "bl_r_cv1 = 32"
definition bl_r_out0 :: nat where "bl_r_out0 = 33"
definition bl_r_out1 :: nat where "bl_r_out1 = 34"
definition bl_r_md :: nat where "bl_r_md = 35"
definition bl_rbc :: nat where "bl_rbc = 36"
definition bl_n :: nat where "bl_n = 37"

lemmas bl_cols = bl_pc_def bl_fp_def bl_o_m0_def bl_o_m1_def bl_o_m2_def bl_o_m3_def bl_o_cv_def bl_o_out_def
  bl_o_md_def bl_v_m0_def bl_v_m2_def bl_v_out0_def bl_v_cv0_def bl_md0_def bl_md1_def bl_r_m0_def bl_r_m1_def
  bl_r_m2_def bl_r_m3_def bl_r_cv0_def bl_r_cv1_def bl_r_out0_def bl_r_out1_def bl_r_md_def bl_rbc_def bl_n_def

definition blake2s_value_cols :: "nat list" where
  "blake2s_value_cols = [bl_v_m0..<bl_v_m0 + 4] @ [bl_v_m2..<bl_v_m2 + 4] @ [bl_v_out0..<bl_v_out0 + 4]
     @ [bl_v_cv0..<bl_v_cv0 + 4] @ [bl_md0, bl_md1]"

text \<open>What each table declares.\<close>

primrec n_committed_columns :: "table \<Rightarrow> nat" where
  "n_committed_columns (Arith x) = arith_n"
| "n_committed_columns SetTable = set_n"
| "n_committed_columns DerefTable = deref_n"
| "n_committed_columns JumpTable = jump_n"
| "n_committed_columns Blake2sTable = bl_n"

primrec count_columns :: "table \<Rightarrow> nat list" where
  "count_columns (Arith x) = [arith_ra, arith_rb, arith_rc, arith_rbc]"
| "count_columns SetTable = [set_r, set_rbc]"
| "count_columns DerefTable = [deref_r1, deref_r2, deref_r3, deref_rbc]"
| "count_columns JumpTable = [jump_rc, jump_rd, jump_rf, jump_rbc]"
| "count_columns Blake2sTable = [bl_r_m0, bl_r_m1, bl_r_m2, bl_r_m3, bl_r_cv0, bl_r_cv1, bl_r_out0, bl_r_out1,
     bl_r_md, bl_rbc]"

definition arith_flushes :: "bool \<Rightarrow> flush_builder \<Rightarrow> flush_builder" where
  "arith_flushes x f =
    (let f = state_step arith_pc arith_fp f;
         f = bytecode_flush arith_pc arith_rbc (if x then opc_xor else opc_mul)
               [CCol arith_oa, CCol arith_ob, CCol arith_oc, CConst (F64 0), CConst (F64 0)] f;
         f = memory_flush (CProd arith_fp arith_oa 0) arith_ra (arith_va ! 0) (arith_va ! 1) (arith_va ! 2) f;
         f = memory_flush (CProd arith_fp arith_ob 0) arith_rb (arith_vb ! 0) (arith_vb ! 1) (arith_vb ! 2) f
     in memory_coords (CProd arith_fp arith_oc 0) arith_rc (arith_result x) f)"

definition set_flushes :: "flush_builder \<Rightarrow> flush_builder" where
  "set_flushes f =
    (let f = state_step set_pc set_fp f;
         f = bytecode_flush set_pc set_rbc opc_set
               [CCol set_o, CCol (set_k ! 0), CCol (set_k ! 1), CCol (set_k ! 2), CConst (F64 0)] f
     in memory_flush (CProd set_fp set_o 0) set_r (set_k ! 0) (set_k ! 1) (set_k ! 2) f)"

definition deref_flushes :: "flush_builder \<Rightarrow> flush_builder" where
  "deref_flushes f =
    (let f = state_step deref_pc deref_fp f;
         f = bytecode_flush deref_pc deref_rbc opc_deref
               [CCol deref_o1, CCol deref_o2, CCol deref_o3, CCol deref_fpc, CCol deref_ffp] f;
         f = memory_k (CProd deref_fp deref_o1 0) deref_r1 deref_p f;
         f = memory_coords (CProd deref_p deref_o2 0) deref_r2 deref_store f
     in memory_flush (CProd deref_fp deref_o3 0) deref_r3 (deref_v3 ! 0) (deref_v3 ! 1) (deref_v3 ! 2) f)"

definition jump_flushes :: "flush_builder \<Rightarrow> flush_builder" where
  "jump_flushes f =
    (let f = state_derived jump_pc jump_fp
               (CSum [CProd jump_b jump_v_pc 0, CProd jump_b jump_pc 1, CGCol jump_pc 1])
               (CSum [CProd jump_b jump_v_fp 0, CProd jump_b jump_fp 0, CCol jump_fp]) f;
         f = bytecode_flush jump_pc jump_rbc opc_jump
               [CCol jump_oc, CCol jump_od, CCol jump_of, CConst (F64 0), CConst (F64 0)] f;
         f = memory_k (CProd jump_fp jump_oc 0) jump_rc jump_v_cond f;
         f = memory_k (CProd jump_fp jump_od 0) jump_rd jump_v_pc f
     in memory_k (CProd jump_fp jump_of 0) jump_rf jump_v_fp f)"

definition blake2s_flushes :: "flush_builder \<Rightarrow> flush_builder" where
  "blake2s_flushes f =
    (let f = state_step bl_pc bl_fp f;
         f = bytecode_flush bl_pc bl_rbc opc_blake2s
               [CCol bl_o_m0, CCol bl_o_m1, CCol bl_o_m2, CCol bl_o_m3, CCol bl_o_cv, CCol bl_o_out, CCol bl_o_md] f;
         f = memory_128 (CProd bl_fp bl_o_m0 0) bl_r_m0 bl_v_m0 (bl_v_m0 + 1) f;
         f = memory_128 (CProd bl_fp bl_o_m1 0) bl_r_m1 (bl_v_m0 + 2) (bl_v_m0 + 3) f;
         f = memory_128 (CProd bl_fp bl_o_m2 0) bl_r_m2 bl_v_m2 (bl_v_m2 + 1) f;
         f = memory_128 (CProd bl_fp bl_o_m3 0) bl_r_m3 (bl_v_m2 + 2) (bl_v_m2 + 3) f;
         f = memory_128 (CProd bl_fp bl_o_cv 0) bl_r_cv0 bl_v_cv0 (bl_v_cv0 + 1) f;
         f = memory_128 (CProd bl_fp bl_o_cv 1) bl_r_cv1 (bl_v_cv0 + 2) (bl_v_cv0 + 3) f;
         f = memory_128 (CProd bl_fp bl_o_out 0) bl_r_out0 bl_v_out0 (bl_v_out0 + 1) f;
         f = memory_128 (CProd bl_fp bl_o_out 1) bl_r_out1 (bl_v_out0 + 2) (bl_v_out0 + 3) f
     in memory_128 (CProd bl_fp bl_o_md 0) bl_r_md bl_md0 bl_md1 f)"

primrec flushes :: "table \<Rightarrow> flush_builder \<Rightarrow> flush_builder" where
  "flushes (Arith x) = arith_flushes x"
| "flushes SetTable = set_flushes"
| "flushes DerefTable = deref_flushes"
| "flushes JumpTable = jump_flushes"
| "flushes Blake2sTable = blake2s_flushes"

section \<open>Trace rows\<close>

record xrow = x_pc :: u32 x_fp :: u32 x_ra :: f64 x_rb :: f64 x_rc :: f64 x_bytecode_read :: f64
record srow = s_pc :: u32 s_fp :: u32 s_r :: f64 s_bytecode_read :: f64
record drow = d_pc :: u32 d_fp :: u32 d_r1 :: f64 d_r2 :: f64 d_r3 :: f64 d_bytecode_read :: f64
record jrow = j_pc :: u32 j_fp :: u32 j_rc :: f64 j_rd :: f64 j_rf :: f64 j_bytecode_read :: f64
record brow = b_pc :: u32 b_fp :: u32 b_ra :: "f64 list" b_rb :: "f64 list" b_rcv :: "f64 list" b_rc :: "f64 list"
  b_rmd :: f64 b_bytecode_read :: f64

record trace =
  t_xor :: "xrow list"
  t_mul :: "xrow list"
  t_set :: "srow list"
  t_deref :: "drow list"
  t_jump :: "jrow list"
  t_blake2s :: "brow list"
  t_mem_count :: "f64 list"
  t_bytecode_count :: "f64 list"

definition row_counts :: "trace \<Rightarrow> nat list" where
  "row_counts t = [length (t_xor t), length (t_mul t), length (t_set t), length (t_deref t), length (t_jump t),
     length (t_blake2s t)]"

end
