(* ===== verification/Layout.thy ===== *)
theory Layout
  imports Tables Stacking
begin

text \<open>
  The public column schema, sizes and bus blocks of \<^verbatim>\<open>lean_vm/src/cpu/layout.rs\<close>,
  which prover and verifier derive from the program and the announced sizes.
\<close>

section \<open>Definitions\<close>

definition col_mem_lo :: nat where "col_mem_lo = 0"
definition col_mem_hi :: nat where "col_mem_hi = 1"
definition col_mem_top :: nat where "col_mem_top = 2"
definition col_mfcnt :: nat where "col_mfcnt = 3"
definition col_bfcnt :: nat where "col_bfcnt = 4"
definition col_qflock :: nat where "col_qflock = 5"
definition n_shared :: nat where "n_shared = 6"

lemmas shared_cols = col_mem_lo_def col_mem_hi_def col_mem_top_def col_mfcnt_def col_bfcnt_def col_qflock_def
  n_shared_def

definition k_log :: nat where "k_log = 14"
definition log_packing :: nat where "log_packing = 6"
definition max_log_mem :: nat where "max_log_mem = 32"
definition max_log_rows :: nat where "max_log_rows = 32"
definition max_log_bytecode :: nat where "max_log_bytecode = 32"

record schema =
  sch_base :: "nat list"
  sch_n :: nat

fun schema_loop :: "table list \<Rightarrow> nat \<Rightarrow> nat list \<times> nat" where
  "schema_loop [] next_col = ([], next_col)"
| "schema_loop (t # ts) next_col =
    (let (bases, n) = schema_loop ts (next_col + n_committed_columns t) in (next_col # bases, n))"

definition the_schema :: schema where
  "the_schema = (let (base, n) = schema_loop tables n_shared in \<lparr>sch_base = base, sch_n = n\<rparr>)"

fun offset_coord :: "nat \<Rightarrow> coord \<Rightarrow> coord" where
  "offset_coord base (CCol i) = CCol (base + i)"
| "offset_coord base (CGCol i k) = CGCol (base + i) k"
| "offset_coord base (CProd i j k) = CProd (base + i) (base + j) k"
| "offset_coord base (CSum cs) = CSum (map (offset_coord base) cs)"
| "offset_coord base (CConst v) = CConst v"
| "offset_coord base CIndex = CIndex"
| "offset_coord base (CPublic vs) = CPublic vs"

definition offset_coords :: "nat \<Rightarrow> coord list \<Rightarrow> coord list" where
  "offset_coords base coords = map (offset_coord base) coords"

text \<open>
  Column sizes by source: \<open>None\<close> is a virtual column, \<open>Some (s, adj)\<close> the size of
  source \<open>s\<close> plus \<open>adj\<close>.
\<close>

definition fill_range :: "nat \<Rightarrow> nat \<Rightarrow> 'a \<Rightarrow> 'a list \<Rightarrow> 'a list" where
  "fill_range a n x xs = fold (\<lambda>i xs. xs[a + i := x]) [0..<n] xs"

definition col_kappa_sources :: "nat \<Rightarrow> (nat \<times> nat) option list" where
  "col_kappa_sources log_bytecode =
    (let sch = the_schema;
         k = replicate (sch_n sch) (Some (0, 0));
         k = k[col_mem_lo := Some (1, 0), col_mem_hi := Some (1, 0), col_mem_top := Some (1, 0),
               col_mfcnt := Some (1, 0), col_bfcnt := Some (0, log_bytecode),
               col_qflock := Some (2 + blake2s_table, k_log - log_packing)];
         k = fold (\<lambda>(t, tab) k. fill_range (sch_base sch ! t) (n_committed_columns tab) (Some (2 + t, 0)) k)
               (enumerate 0 tables) k;
         b3 = sch_base sch ! blake2s_table
     in fold (\<lambda>c k. k[b3 + c := None]) blake2s_value_cols k)"

definition block_kappa_sources :: "nat \<Rightarrow> (nat \<times> nat) list" where
  "block_kappa_sources log_bytecode =
    (let frame = [(0, 0), (1, 0), (0, log_bytecode)];
         push = frame @ concat (map (\<lambda>(t, tab). replicate (length (fb_push (flushes tab fb_new))) (2 + t, 0))
           (enumerate 0 tables));
         pull = frame @ concat (map (\<lambda>(t, tab). replicate (length (fb_pull (flushes tab fb_new))) (2 + t, 0))
           (enumerate 0 tables));
         count = concat (map (\<lambda>(t, tab). replicate (length (count_columns tab)) (2 + t, 0)) (enumerate 0 tables))
     in push @ pull @ count)"

definition col_kappas :: "nat \<Rightarrow> nat \<Rightarrow> nat list \<Rightarrow> nat option list" where
  "col_kappas log_mem log_bytecode taus =
    map (map_option (\<lambda>(source, adj). ([0, log_mem] @ taus) ! source + adj)) (col_kappa_sources log_bytecode)"

definition committed_log :: "nat \<Rightarrow> nat \<Rightarrow> nat list \<Rightarrow> nat option" where
  "committed_log log_mem log_bytecode taus =
    map_option (\<lambda>r. ss_mu (snd r)) (placements_of (col_kappas log_mem log_bytecode taus))"

text \<open>The eight public bytecode columns.\<close>

fun op_max_operand :: "op \<Rightarrow> u32" where
  "op_max_operand (OpXor a b c) = max (max a b) c"
| "op_max_operand (OpMul a b c) = max (max a b) c"
| "op_max_operand (OpSet o' k) = o'"
| "op_max_operand (OpDeref o1 o2 o3 m) = max (max o1 o2) o3"
| "op_max_operand (OpJump oc od of') = max (max oc od) of'"
| "op_max_operand (OpBlake2s i0 i1 i2 i3 cv out md) = max (max (max (max (max (max i0 i1) i2) i3) cv) out) md"

fun op_opcode :: "op \<Rightarrow> f64" where
  "op_opcode (OpXor a b c) = opc_xor"
| "op_opcode (OpMul a b c) = opc_mul"
| "op_opcode (OpSet o' k) = opc_set"
| "op_opcode (OpDeref o1 o2 o3 m) = opc_deref"
| "op_opcode (OpJump oc od of') = opc_jump"
| "op_opcode (OpBlake2s i0 i1 i2 i3 cv out md) = opc_blake2s"

fun op_operands :: "(u32 \<Rightarrow> f64) \<Rightarrow> op \<Rightarrow> f64 \<times> f64 \<times> f64" where
  "op_operands g_at (OpXor a b c) = (g_at a, g_at b, g_at c)"
| "op_operands g_at (OpMul a b c) = (g_at a, g_at b, g_at c)"
| "op_operands g_at (OpSet o' k) = (g_at o', F64 (coeff0 k), F64 (coeff1 k))"
| "op_operands g_at (OpDeref o1 o2 o3 m) = (g_at o1, g_at o2, g_at o3)"
| "op_operands g_at (OpJump oc od of') = (g_at oc, g_at od, g_at of')"
| "op_operands g_at (OpBlake2s i0 i1 i2 i3 cv out md) = (g_at i0, g_at i1, g_at i2)"

fun op_fpc :: "(u32 \<Rightarrow> f64) \<Rightarrow> op \<Rightarrow> f64" where
  "op_fpc g_at (OpDeref o1 o2 o3 m) = mode_f_pc m"
| "op_fpc g_at (OpBlake2s i0 i1 i2 i3 cv out md) = g_at i3"
| "op_fpc g_at (OpSet o' k) = F64 (coeff2 k)"
| "op_fpc g_at _ = F64 0"

fun op_ffp :: "(u32 \<Rightarrow> f64) \<Rightarrow> op \<Rightarrow> f64" where
  "op_ffp g_at (OpDeref o1 o2 o3 m) = mode_f_fp m"
| "op_ffp g_at (OpBlake2s i0 i1 i2 i3 cv out md) = g_at cv"
| "op_ffp g_at _ = F64 0"

fun op_extra0 :: "(u32 \<Rightarrow> f64) \<Rightarrow> op \<Rightarrow> f64" where
  "op_extra0 g_at (OpBlake2s i0 i1 i2 i3 cv out md) = g_at out"
| "op_extra0 g_at _ = F64 0"

fun op_extra1 :: "(u32 \<Rightarrow> f64) \<Rightarrow> op \<Rightarrow> f64" where
  "op_extra1 g_at (OpBlake2s i0 i1 i2 i3 cv out md) = g_at md"
| "op_extra1 g_at _ = F64 0"

definition bytecode_columns :: "op list \<Rightarrow> f64 list list" where
  "bytecode_columns prog =
    (let max_op = unat (fold max (map op_max_operand prog) 0);
         gpow = g_powers (max (max_op + 1) 2);
         g_at = (\<lambda>i. gpow ! unat i)
     in [map op_opcode prog, map (\<lambda>o'. fst (op_operands g_at o')) prog,
         map (\<lambda>o'. fst (snd (op_operands g_at o'))) prog, map (\<lambda>o'. snd (snd (op_operands g_at o'))) prog,
         map (op_fpc g_at) prog, map (op_ffp g_at) prog, map (op_extra0 g_at) prog, map (op_extra1 g_at) prog])"

text \<open>The bus blocks.\<close>

definition blk :: "nat \<Rightarrow> coord list \<Rightarrow> block" where
  "blk kappa coords = \<lparr>bl_kappa = kappa, bl_coords = coords\<rparr>"

record layout =
  lay_push :: "block list"
  lay_pull :: "block list"
  lay_count :: "block list"
  lay_placements :: "placement list"
  lay_shape :: stack_shape
  lay_pi :: "f192 list"
  lay_taus :: "nat list"

definition frame_push :: "op list \<Rightarrow> nat \<Rightarrow> nat \<Rightarrow> block list" where
  "frame_push prog log_mem log_bytecode =
    [blk 0 [CConst sep_state, CConst (F64 1), CConst (F64 1)],
     blk log_mem [CConst sep_mem, CIndex, CConst (F64 1), CCol col_mem_lo, CCol col_mem_hi, CCol col_mem_top],
     blk log_bytecode ([CConst sep_bytecode, CIndex, CConst (F64 1)] @ map CPublic (bytecode_columns prog))]"

definition frame_pull :: "op list \<Rightarrow> nat \<Rightarrow> nat \<Rightarrow> block list" where
  "frame_pull prog log_mem log_bytecode =
    [blk 0 [CConst sep_state, CConst (g_pow (unat (of_nat (length prog) - 1 :: u32))), CConst (F64 1)],
     blk log_mem [CConst sep_mem, CIndex, CCol col_mfcnt, CCol col_mem_lo, CCol col_mem_hi, CCol col_mem_top],
     blk log_bytecode ([CConst sep_bytecode, CIndex, CCol col_bfcnt] @ map CPublic (bytecode_columns prog))]"

definition table_blocks :: "(flush_builder \<Rightarrow> coord list list) \<Rightarrow> nat list \<Rightarrow> block list" where
  "table_blocks side taus =
    concat (map (\<lambda>(t, tab). map (\<lambda>coords. blk (taus ! t) (offset_coords (sch_base the_schema ! t) coords))
      (side (flushes tab fb_new))) (enumerate 0 tables))"

definition count_blocks :: "nat list \<Rightarrow> block list" where
  "count_blocks taus =
    concat (map (\<lambda>(t, tab). map (\<lambda>c. blk (taus ! t) [CCol (sch_base the_schema ! t + c)]) (count_columns tab))
      (enumerate 0 tables))"

definition make_layout :: "op list \<Rightarrow> nat \<Rightarrow> nat list \<Rightarrow> f192 list \<Rightarrow> layout option" where
  "make_layout prog log_mem taus pi =
    (case log2_strict (length prog) of
       None \<Rightarrow> None
     | Some log_bytecode \<Rightarrow>
         (case placements_of (col_kappas log_mem log_bytecode taus) of
            None \<Rightarrow> None
          | Some (placements, shape) \<Rightarrow>
              Some \<lparr>lay_push = frame_push prog log_mem log_bytecode @ table_blocks fb_push taus,
                    lay_pull = frame_pull prog log_mem log_bytecode @ table_blocks fb_pull taus,
                    lay_count = count_blocks taus, lay_placements = placements, lay_shape = shape,
                    lay_pi = pi, lay_taus = taus\<rparr>))"

end
