(* ===== verification/Hints.thy ===== *)
theory Hints
  imports Memory Tables
begin

text \<open>
  The interpreter's state and the hints it carries out between instructions
  (\<^verbatim>\<open>lean_vm/src/cpu/execute.rs\<close>). Addresses are 32-bit words and wrap, as in a
  release build; a hint that panics or fails ends the run.
\<close>

section \<open>The state\<close>

record mach =
  ms_mem :: mem
  ms_g :: gpow
  ms_next_free :: u32
  ms_pc :: u32
  ms_fp :: u32
  ms_bytecode_count :: "f64 list"
  ms_witness_pos :: "string \<Rightarrow> nat"
  ms_dlog_cache :: "(gpow \<times> f64) option"
  ms_xor :: "xrow list"
  ms_mul :: "xrow list"
  ms_set :: "srow list"
  ms_deref :: "drow list"
  ms_jump :: "jrow list"
  ms_blake2s :: "brow list"
  ms_left :: "nat option"
  ms_cycles :: "(u32 \<times> u32 \<times> nat) list"
  ms_base_counts :: "nat list option"
  ms_unconstrained_reads :: "u32 list"

definition fail :: "program \<Rightarrow> mach \<Rightarrow> fault \<Rightarrow> 'a run" where
  "fail p st f = Inl (Failed (exec_error_new p (ms_pc st) f))"

text \<open>Lifting the parts' results into a run: a lost option is a panic.\<close>

definition or_panic :: "'a option \<Rightarrow> 'a run" where
  "or_panic r = (case r of None \<Rightarrow> Inl Panicked | Some x \<Rightarrow> Inr x)"

definition or_fail :: "program \<Rightarrow> mach \<Rightarrow> (fault, 'a) result \<Rightarrow> 'a run" where
  "or_fail p st r = (case r of Inl f \<Rightarrow> fail p st f | Inr x \<Rightarrow> Inr x)"

definition some_or_fail :: "program \<Rightarrow> mach \<Rightarrow> fault \<Rightarrow> 'a option \<Rightarrow> 'a run" where
  "some_or_fail p st f r = (case r of None \<Rightarrow> fail p st f | Some x \<Rightarrow> Inr x)"

definition st_put :: "u32 \<Rightarrow> f192 \<Rightarrow> mach \<Rightarrow> mach run" where
  "st_put cell v st = (case mem_put cell v (ms_mem st) of Inl e \<Rightarrow> Inl (Failed e) | Inr m \<Rightarrow> Inr (st\<lparr>ms_mem := m\<rparr>))"

definition st_log :: "f64 \<Rightarrow> mach \<Rightarrow> (mach \<times> nat option) run" where
  "st_log x st = res_bind (or_panic (gp_log x (ms_g st))) (\<lambda>(g, r). Inr (st\<lparr>ms_g := g\<rparr>, r))"

definition st_grow :: "nat \<Rightarrow> mach \<Rightarrow> mach run" where
  "st_grow lim st = res_bind (or_panic (gp_grow_to lim (ms_g st))) (\<lambda>g. Inr (st\<lparr>ms_g := g\<rparr>))"

definition st_note :: "nat \<Rightarrow> mach \<Rightarrow> mach run" where
  "st_note k st = res_bind (or_panic (gp_note k (ms_g st))) (\<lambda>g. Inr (st\<lparr>ms_g := g\<rparr>))"

definition st_pow :: "nat \<Rightarrow> mach \<Rightarrow> f64 run" where
  "st_pow k st = or_panic (gp_pow_at k (ms_g st))"

definition st_ensure :: "nat \<Rightarrow> mach \<Rightarrow> mach" where
  "st_ensure i st = st\<lparr>ms_mem := ensure i (ms_mem st)\<rparr>"

text \<open>Writing consecutive cells; the index is added in 32 bits.\<close>

primrec put_run :: "u32 \<Rightarrow> f192 list \<Rightarrow> mach \<Rightarrow> mach run" where
  "put_run cell [] st = Inr st"
| "put_run cell (v # vs) st = res_bind (st_put cell v st) (put_run (cell + 1) vs)"

section \<open>Reading words as addresses\<close>

definition as_addr :: "f192 \<Rightarrow> f64 option" where
  "as_addr v = (if coeff1 v = 0 \<and> coeff2 v = 0 then Some (F64 (coeff0 v)) else None)"

definition in_k :: "string \<Rightarrow> f192 \<Rightarrow> (fault, f64) result" where
  "in_k what v = (case as_addr v of None \<Rightarrow> Inl (NotInK what v) | Some x \<Rightarrow> Inr x)"

definition heap_base :: "program \<Rightarrow> u32 \<Rightarrow> string \<Rightarrow> mach \<Rightarrow> (mach \<times> u32) run" where
  "heap_base p cell what st =
    res_bind (or_fail p st (in_k what (mem_get (ms_mem st) cell))) (\<lambda>x.
    res_bind (st_log x st) (\<lambda>(st, r).
    res_bind (some_or_fail p st (NotAGPower what x) r) (\<lambda>k. Inr (st, of_nat k))))"

fun bits_base :: "program \<Rightarrow> bits_dest \<Rightarrow> string \<Rightarrow> mach \<Rightarrow> (mach \<times> u32) run" where
  "bits_base p (BitsStack base) what st = Inr (st, ms_fp st + base)"
| "bits_base p (BitsHeap ptr) what st = heap_base p (ms_fp st + ptr) what st"

section \<open>Witness streams\<close>

definition pop_witness :: "program \<Rightarrow> string \<Rightarrow> u32 \<Rightarrow> mach \<Rightarrow> (fault, mach \<times> f192 list) result" where
  "pop_witness p name len st =
    (case map_of (p_witness p) name of
       None \<Rightarrow> Inl (WitnessFault (''no witness stream `'' @ name @ ''` (Program::set_witness)''))
     | Some entries \<Rightarrow>
         (let position = ms_witness_pos st name
          in if position < length entries
             then (let entry = entries ! position
                   in if length entry \<noteq> unat len
                      then Inl (WitnessFault (''witness `'' @ name @ ''` entry '' @ dec position @ '' holds ''
                             @ dec (length entry) @ '' values, the destination '' @ dec (unat len)))
                      else Inr (st\<lparr>ms_witness_pos := (ms_witness_pos st)(name := position + 1)\<rparr>, entry))
             else Inl (WitnessFault (''witness stream `'' @ name @ ''` exhausted (needs entry '' @ dec (position + 1)
                    @ '', has '' @ dec (length entries) @ '')''))))"

section \<open>Bounded discrete logarithm\<close>

definition log_baby :: nat where "log_baby = 17"

primrec giant_loop :: "nat \<Rightarrow> nat \<Rightarrow> f64 \<Rightarrow> f64 \<Rightarrow> gpow \<Rightarrow> (gpow \<times> 128 word option) option" where
  "giant_loop 0 a y giant baby = Some (baby, None)"
| "giant_loop (Suc n) a y giant baby =
    (case gp_log y baby of
       None \<Rightarrow> None
     | Some (baby, Some j) \<Rightarrow> Some (baby, Some (push_bit log_baby (of_nat a) OR of_nat j))
     | Some (baby, None) \<Rightarrow> giant_loop n (a + 1) (f64_mul y giant) giant baby)"

definition new_dlog_cache :: "(gpow \<times> f64) option" where
  "new_dlog_cache =
    (case gp_new (2 ^ log_baby - 1) of
       None \<Rightarrow> None
     | Some baby \<Rightarrow>
         (case gp_pow_at (2 ^ log_baby - 1) baby of
            None \<Rightarrow> None
          | Some x \<Rightarrow> Some (baby, f64_inv (mul_by_g x))))"

definition bounded_dlog :: "f64 \<Rightarrow> u32 \<Rightarrow> (gpow \<times> f64) option \<Rightarrow> ((gpow \<times> f64) \<times> 128 word option) option" where
  "bounded_dlog x nbits cache =
    (case (case cache of None \<Rightarrow> new_dlog_cache | Some c \<Rightarrow> Some c) of
       None \<Rightarrow> None
     | Some (baby, giant) \<Rightarrow>
         (let max_giant = (if log_baby < unat nbits then 2 ^ ((unat nbits - log_baby) mod 64) else 1)
          in case giant_loop max_giant 0 x giant baby of
               None \<Rightarrow> None
             | Some (baby, r) \<Rightarrow> Some ((baby, giant), r)))"

section \<open>Allocation\<close>

definition alloc_region :: "program \<Rightarrow> u32 \<Rightarrow> u32 \<Rightarrow> mach \<Rightarrow> mach run" where
  "alloc_region p ptr amount st =
    (let cell = ms_fp st + ptr
     in if written (ms_mem st) cell then Inr st
        else
          (let base = ms_next_free st
           in if unat base + unat amount < max_cells
              then
                res_bind (st_grow (unat (base + amount)) (st\<lparr>ms_next_free := base + amount\<rparr>)) (\<lambda>st.
                res_bind (st_note (unat base) st) (\<lambda>st.
                (let st = st_ensure (unat (ms_next_free st)) st
                 in res_bind (st_pow (unat base) st) (\<lambda>x. st_put cell (f192_from x) st))))
              else fail p st OutOfMemory))"

text \<open>
  The search for a loop bound's exponent: the index is widened to twice its range,
  up to the largest span that fits, until the bound is found.
\<close>

lemma gp_widen_pow: "gp_widen g = Some g' \<Longrightarrow> gp_pow g' = gp_pow g"
  by (auto simp: gp_widen_def Let_def split: option.splits)

lemma gp_note_pow: "gp_note k g = Some g' \<Longrightarrow> gp_pow g' = gp_pow g"
  by (auto simp: gp_note_def Let_def gp_widen_pow split: option.splits if_splits)

lemma gp_log_pow: "gp_log x g = Some (g', r) \<Longrightarrow> gp_pow g' = gp_pow g"
  by (auto simp: gp_log_def Let_def dest!: gp_widen_pow split: option.splits if_splits)

lemma gp_grow_steps_pow: "gp_grow_steps n g = Some g' \<Longrightarrow> length (gp_pow g') = length (gp_pow g) + n"
proof (induction n arbitrary: g)
  case (Suc n)
  let ?g = "g\<lparr>gp_pow := gp_pow g @ [mul_by_g (last (gp_pow g))]\<rparr>"
  obtain h where h: "(if gp_dense ?g then gp_note (length (gp_pow ?g) - 1) ?g else Some ?g) = Some h"
    "gp_grow_steps n h = Some g'" using Suc.prems by (auto simp: Let_def split: option.splits)
  then have "gp_pow h = gp_pow ?g" by (auto dest: gp_note_pow split: if_splits)
  then show ?case using Suc.IH [OF h(2)] by simp
qed simp

lemma gp_grow_to_pow: "gp_grow_to lim g = Some g' \<Longrightarrow> gp_covered g' = max (gp_covered g) (lim + 1)"
  by (auto simp: gp_grow_to_def gp_covered_def dest!: gp_grow_steps_pow split: if_splits)

function grow_until :: "f64 \<Rightarrow> nat \<Rightarrow> nat option \<Rightarrow> gpow \<Rightarrow> (gpow \<times> nat option) option" where
  "grow_until span max_span exponent g =
    (if exponent = None \<and> gp_covered g \<le> max_span
     then
       (case gp_grow_to (min (2 * gp_covered g) max_span) g of
          None \<Rightarrow> None
        | Some g \<Rightarrow>
            (case gp_log span g of
               None \<Rightarrow> None
             | Some (g, exponent) \<Rightarrow> grow_until span max_span exponent g))
     else Some (g, exponent))"
  by pat_completeness auto

termination
proof (relation "measure (\<lambda>(span, max_span, exponent, g). Suc max_span - gp_covered g)")
  fix span max_span g g1 r g2 exponent' and exponent :: "nat option"
  assume "exponent = None \<and> gp_covered g \<le> max_span" "gp_grow_to (min (2 * gp_covered g) max_span) g = Some g1"
    "gp_log span g1 = Some r" "(g2, exponent') = r"
  then have "gp_covered g2 = max (gp_covered g) (min (2 * gp_covered g) max_span + 1)" "gp_covered g \<le> max_span"
    using gp_log_pow [of span g1 g2 exponent'] gp_grow_to_pow by (auto simp: gp_covered_def)
  then show "((span, max_span, exponent', g2), span, max_span, exponent, g)
      \<in> measure (\<lambda>(span, max_span, exponent, g). Suc max_span - gp_covered g)" by simp
qed simp

declare grow_until.simps [simp del]

definition frames_size :: "program \<Rightarrow> u32 \<Rightarrow> u32 \<Rightarrow> f64 \<Rightarrow> mach \<Rightarrow> (mach \<times> u32) run" where
  "frames_size p amount end_off start_inverse st =
    res_bind (or_fail p st (in_k ''loop bound'' (mem_get (ms_mem st) (ms_fp st + end_off)))) (\<lambda>x.
    (let span = f64_mul x start_inverse
     in if f64_is_zero span then fail p st (NotAGPower ''loop bound'' span)
        else if amount = 0 then Inl Panicked
        else
          (let max_frames = (max_cells - unat (ms_next_free st)) div unat amount;
               max_span = max_frames - 1
           in res_bind (st_log span st) (\<lambda>(st, exponent).
              res_bind (or_panic (grow_until span max_span exponent (ms_g st))) (\<lambda>(g, exponent).
              (let st = st\<lparr>ms_g := g\<rparr>
               in case exponent of
                    None \<Rightarrow> fail p st OutOfMemory
                  | Some k \<Rightarrow>
                      if unat amount * (k + 1) < 2 ^ 32 then Inr (st, amount * (of_nat k + 1)) else fail p st OutOfMemory))))))"

definition dyn_size :: "program \<Rightarrow> u32 \<Rightarrow> mach \<Rightarrow> (mach \<times> u32) run" where
  "dyn_size p amount st =
    res_bind (or_fail p st (in_k ''HeapBuf size'' (mem_get (ms_mem st) (ms_fp st + amount)))) (\<lambda>sz.
    res_bind (st_log sz st) (\<lambda>(st, r).
    (case r of
       Some cells \<Rightarrow> Inr (st, of_nat cells)
     | None \<Rightarrow>
         res_bind (st_grow (2 ^ 20) st) (\<lambda>st.
         res_bind (st_log sz st) (\<lambda>(st, r).
         res_bind (some_or_fail p st (NotAGPower ''HeapBuf size'' sz) r) (\<lambda>cells. Inr (st, of_nat cells)))))))"

section \<open>Computed advice\<close>

definition limbs :: "f192 \<Rightarrow> 64 word list" where
  "limbs v = [coeff0 v, coeff1 v, coeff2 v]"

definition bit_word :: "bool \<Rightarrow> f192" where
  "bit_word b = F192 (if b then 1 else 0) 0 0"

text \<open>The word a bit buffer holds: a bit is set when its cell is nonzero; shifts wrap at 128.\<close>

definition bits_value :: "mem \<Rightarrow> u32 \<Rightarrow> nat \<Rightarrow> 128 word" where
  "bits_value m b nbits =
    fold (\<lambda>j word. if \<not> f192_is_zero (mem_get m (b + of_nat j)) then word OR push_bit (j mod 128) 1 else word)
      [0..<nbits] 0"

definition leading_zeros128 :: "128 word \<Rightarrow> nat" where
  "leading_zeros128 w = length (takeWhile (\<lambda>i. \<not> bit w i) (rev [0..<128]))"

definition word_log2_ceil :: "128 word \<Rightarrow> nat" where
  "word_log2_ceil w = (if w \<le> 1 then 0 else 128 - leading_zeros128 (w - 1))"

text \<open>The names under which a conflict reports the hint.\<close>

fun hint_name :: "rhint \<Rightarrow> string" where
  "hint_name (HFrameAddress _) = ''FrameAddress''"
| "hint_name (HAllocFrames _ _ _ _) = ''AllocFrames''"
| "hint_name (HAlloc _ _) = ''Alloc''"
| "hint_name (HAllocDyn _ _) = ''AllocDyn''"
| "hint_name (HWitnessStack _ _ _) = ''WitnessStack''"
| "hint_name (HWitnessHeap _ _ _ _) = ''WitnessHeap''"
| "hint_name (HLog2Ceil _ _ _ _) = ''Log2Ceil''"
| "hint_name (HBitDecompose _ _ _) = ''BitDecompose''"
| "hint_name (HBitDecomposeExp _ _ _) = ''BitDecomposeExp''"
| "hint_name (HFieldLimbs _ _ _) = ''FieldLimbs''"
| "hint_name (HInverse _ _) = ''Inverse''"
| "hint_name (HPrint _ _) = ''Print''"

section \<open>The hints\<close>

definition h_alloc_frames :: "program \<Rightarrow> u32 \<Rightarrow> u32 \<Rightarrow> u32 \<Rightarrow> f64 \<Rightarrow> mach \<Rightarrow> mach run" where
  "h_alloc_frames p ptr amount end_off start_inverse st =
    res_bind (frames_size p amount end_off start_inverse st) (\<lambda>(st, n). alloc_region p ptr n st)"

definition h_alloc_dyn :: "program \<Rightarrow> u32 \<Rightarrow> u32 \<Rightarrow> mach \<Rightarrow> mach run" where
  "h_alloc_dyn p ptr amount st = res_bind (dyn_size p amount st) (\<lambda>(st, n). alloc_region p ptr n st)"

definition h_witness_stack :: "program \<Rightarrow> string \<Rightarrow> u32 \<Rightarrow> u32 \<Rightarrow> mach \<Rightarrow> mach run" where
  "h_witness_stack p name base len st =
    res_bind (or_fail p st (pop_witness p name len st)) (\<lambda>(st, values). put_run (ms_fp st + base) values st)"

definition h_witness_heap :: "program \<Rightarrow> string \<Rightarrow> u32 \<Rightarrow> u32 \<Rightarrow> u32 \<Rightarrow> mach \<Rightarrow> mach run" where
  "h_witness_heap p name ptr lo len st =
    res_bind (heap_base p (ms_fp st + ptr) ''hint_witness heap pointer'' st) (\<lambda>(st, b).
    res_bind (or_fail p st (pop_witness p name len st)) (\<lambda>(st, values). put_run (b + lo) values st))"

definition h_log2_ceil :: "program \<Rightarrow> bits_dest \<Rightarrow> u32 \<Rightarrow> u32 \<Rightarrow> u32 \<Rightarrow> mach \<Rightarrow> mach run" where
  "h_log2_ceil p bits dst nbits floor_log st =
    res_bind (bits_base p bits ''log2_ceil pointer'' st) (\<lambda>(st, b).
    (let word = bits_value (ms_mem st) b (unat nbits);
         mu = max (word_log2_ceil word) (unat floor_log)
     in st_put (ms_fp st + dst) (f192_from (g_pow mu)) st))"

definition h_bit_decompose :: "program \<Rightarrow> u32 \<Rightarrow> bits_dest \<Rightarrow> u32 \<Rightarrow> mach \<Rightarrow> mach run" where
  "h_bit_decompose p val bits nbits st =
    (if unat nbits \<le> 192
     then
       (let v = mem_get (ms_mem st) (ms_fp st + val)
        in res_bind (bits_base p bits ''decompose pointer'' st) (\<lambda>(st, bb).
           put_run bb (map (\<lambda>j. bit_word (bit (limbs v ! (j div 64)) (j mod 64))) [0..<unat nbits]) st))
     else Inl Panicked)"

definition dlog_what :: string where "dlog_what = ''hint_decompose_bits_exponent value''"

definition h_bit_decompose_exp :: "program \<Rightarrow> u32 \<Rightarrow> bits_dest \<Rightarrow> u32 \<Rightarrow> mach \<Rightarrow> mach run" where
  "h_bit_decompose_exp p val bits nbits st =
    res_bind (or_fail p st (in_k dlog_what (mem_get (ms_mem st) (ms_fp st + val)))) (\<lambda>x.
    res_bind (or_panic (bounded_dlog x nbits (ms_dlog_cache st))) (\<lambda>(cache, r).
    (let st = st\<lparr>ms_dlog_cache := Some cache\<rparr>
     in res_bind (some_or_fail p st (NotAGPower dlog_what x) r) (\<lambda>n.
        res_bind (bits_base p bits ''hint_decompose_bits_exponent pointer'' st) (\<lambda>(st, bb).
        put_run bb (map (\<lambda>j. bit_word (bit n (j mod 128))) [0..<unat nbits]) st)))))"

definition h_field_limbs :: "u32 \<Rightarrow> u32 \<Rightarrow> u32 \<Rightarrow> mach \<Rightarrow> mach run" where
  "h_field_limbs val base len st =
    (if 1 \<le> len \<and> len \<le> 3
     then put_run (ms_fp st + base) (map (\<lambda>w. F192 w 0 0) (take (unat len) (limbs (mem_get (ms_mem st) (ms_fp st + val))))) st
     else Inl Panicked)"

definition h_inverse :: "u32 \<Rightarrow> u32 \<Rightarrow> mach \<Rightarrow> mach run" where
  "h_inverse val dst st =
    (let v = mem_get (ms_mem st) (ms_fp st + val)
     in st_put (ms_fp st + dst) (if f192_is_zero v then f192_zero else f192_inv v) st)"

text \<open>Printing looks the value up, which may widen the index; the text goes to the terminal.\<close>

definition h_print :: "u32 \<Rightarrow> mach \<Rightarrow> mach run" where
  "h_print cell st =
    (let c = ms_fp st + cell
     in if written (ms_mem st) c
        then (case as_addr (m_cells (ms_mem st) ! unat c) of
                None \<Rightarrow> Inr st
              | Some x \<Rightarrow> res_bind (st_log x st) (\<lambda>(st, r). Inr st))
        else Inr st)"

fun run_hint :: "program \<Rightarrow> rhint \<Rightarrow> mach \<Rightarrow> mach run" where
  "run_hint p (HFrameAddress off) st = st_note (unat (ms_fp st + off)) st"
| "run_hint p (HAllocFrames ptr amount end_off start_inverse) st = h_alloc_frames p ptr amount end_off start_inverse st"
| "run_hint p (HAlloc ptr amount) st = alloc_region p ptr amount st"
| "run_hint p (HAllocDyn ptr amount) st = h_alloc_dyn p ptr amount st"
| "run_hint p (HWitnessStack name base len) st = h_witness_stack p name base len st"
| "run_hint p (HWitnessHeap name ptr lo len) st = h_witness_heap p name ptr lo len st"
| "run_hint p (HLog2Ceil bits dst nbits floor_log) st = h_log2_ceil p bits dst nbits floor_log st"
| "run_hint p (HBitDecompose val bits nbits) st = h_bit_decompose p val bits nbits st"
| "run_hint p (HBitDecomposeExp val bits nbits) st = h_bit_decompose_exp p val bits nbits st"
| "run_hint p (HFieldLimbs val base len) st = h_field_limbs val base len st"
| "run_hint p (HInverse val dst) st = h_inverse val dst st"
| "run_hint p (HPrint label cell) st = h_print cell st"

definition set_dbg_hint :: "string option \<Rightarrow> mach \<Rightarrow> mach" where
  "set_dbg_hint h st = st\<lparr>ms_mem := (ms_mem st)\<lparr>m_dbg_hint := h\<rparr>\<rparr>"

primrec run_hints :: "program \<Rightarrow> rhint list \<Rightarrow> mach \<Rightarrow> mach run" where
  "run_hints p [] st = Inr st"
| "run_hints p (h # hs) st =
    res_bind (run_hint p h (set_dbg_hint (Some (hint_name h)) st)) (\<lambda>st. run_hints p hs (set_dbg_hint None st))"

end
