(* ===== verification/Machine.thy ===== *)
theory Machine
  imports Hints Layout
begin

text \<open>
  The execution interpreter of \<^verbatim>\<open>lean_vm/src/cpu/execute.rs\<close>: one instruction per
  step, the halt at the sentinel, the fill cycles that follow it, and the
  execution a run returns.
\<close>

section \<open>Memory accesses on the state\<close>

definition st_read :: "u32 \<Rightarrow> mach \<Rightarrow> mach \<times> f192" where
  "st_read cell st = (let (m, v) = mem_read cell (ms_mem st) in (st\<lparr>ms_mem := m\<rparr>, v))"

definition st_bump :: "u32 \<Rightarrow> mach \<Rightarrow> mach \<times> f64" where
  "st_bump cell st = (let (m, r) = bump_access_count cell (ms_mem st) in (st\<lparr>ms_mem := m\<rparr>, r))"

definition st_link :: "u32 \<Rightarrow> u32 \<Rightarrow> mach \<Rightarrow> mach" where
  "st_link a b st = st\<lparr>ms_mem := mem_link a b (ms_mem st)\<rparr>"

primrec st_reads :: "u32 list \<Rightarrow> mach \<Rightarrow> mach \<times> f192 list" where
  "st_reads [] st = (st, [])"
| "st_reads (c # cs) st = (let (st, v) = st_read c st; (st, vs) = st_reads cs st in (st, v # vs))"

primrec st_bumps :: "u32 list \<Rightarrow> mach \<Rightarrow> mach \<times> f64 list" where
  "st_bumps [] st = (st, [])"
| "st_bumps (c # cs) st = (let (st, r) = st_bump c st; (st, rs) = st_bumps cs st in (st, r # rs))"

section \<open>Instructions\<close>

definition back_solve :: "program \<Rightarrow> u32 \<Rightarrow> u32 \<Rightarrow> u32 \<Rightarrow> mach \<Rightarrow> mach run" where
  "back_solve p aa ab ac st =
    (if written (ms_mem st) ac
     then
       (let ha = written (ms_mem st) aa; hb = written (ms_mem st) ab
        in if ha \<noteq> hb
           then (let vk = mem_get (ms_mem st) (if ha then aa else ab)
                 in if f192_is_zero vk then fail p st BackSolveThroughZero
                    else st_put (if ha then ab else aa) (f192_mul (mem_get (ms_mem st) ac) (f192_inv vk)) st)
           else Inr st)
     else Inr st)"

definition step_arith :: "program \<Rightarrow> bool \<Rightarrow> u32 \<Rightarrow> u32 \<Rightarrow> u32 \<Rightarrow> f64 \<Rightarrow> mach \<Rightarrow> mach run" where
  "step_arith p isx a b c bytecode_read st =
    (let aa = ms_fp st + a; ab = ms_fp st + b; ac = ms_fp st + c
     in res_bind (if isx then Inr st else back_solve p aa ab ac st) (\<lambda>st.
        (let (st, va) = st_read aa st; (st, vb) = st_read ab st;
             vc = (if isx then f192_add va vb else f192_mul va vb)
         in res_bind (st_put ac vc st) (\<lambda>st.
            (let (st, ra) = st_bump aa st; (st, rb) = st_bump ab st; (st, rc) = st_bump ac st;
                 row = \<lparr>x_pc = ms_pc st, x_fp = ms_fp st, x_ra = ra, x_rb = rb, x_rc = rc, x_bytecode_read = bytecode_read\<rparr>;
                 st = (if isx then st\<lparr>ms_xor := ms_xor st @ [row]\<rparr> else st\<lparr>ms_mul := ms_mul st @ [row]\<rparr>)
             in Inr (st\<lparr>ms_pc := ms_pc st + 1\<rparr>))))))"

definition step_set :: "u32 \<Rightarrow> f192 \<Rightarrow> f64 \<Rightarrow> mach \<Rightarrow> mach run" where
  "step_set o' k bytecode_read st =
    (let a = ms_fp st + o'
     in res_bind (st_put a k st) (\<lambda>st.
        (let (st, r) = st_bump a st;
             row = \<lparr>s_pc = ms_pc st, s_fp = ms_fp st, s_r = r, s_bytecode_read = bytecode_read\<rparr>
         in Inr (st\<lparr>ms_set := ms_set st @ [row], ms_pc := ms_pc st + 1\<rparr>))))"

text \<open>Resolving a pointer: an unknown word gets one growth of the index to the minimum memory size.\<close>

definition deref_base :: "program \<Rightarrow> f192 \<Rightarrow> mach \<Rightarrow> (mach \<times> u32) run" where
  "deref_base p ptr st =
    res_bind (some_or_fail p st (WildPointer ptr) (as_addr ptr)) (\<lambda>x.
    res_bind (st_log x st) (\<lambda>(st, r).
    (case r of
       Some k \<Rightarrow> Inr (st, of_nat k)
     | None \<Rightarrow>
         res_bind (st_grow (2 ^ min_log_mem) st) (\<lambda>st.
         res_bind (st_log x st) (\<lambda>(st, r).
         res_bind (some_or_fail p st (WildPointer ptr) r) (\<lambda>k. Inr (st, of_nat k)))))))"

definition deref_effect :: "deref_mode \<Rightarrow> u32 \<Rightarrow> u32 \<Rightarrow> mach \<Rightarrow> mach run" where
  "deref_effect mode a2 a3 st =
    (case mode of
       ModeCell \<Rightarrow>
         if written (ms_mem st) a2 then st_put a3 (m_cells (ms_mem st) ! unat a2) st
         else if written (ms_mem st) a3 then st_put a2 (m_cells (ms_mem st) ! unat a3) st
         else Inr (st_link a2 a3 st)
     | ModePc \<Rightarrow>
         res_bind (st_note (unat (ms_pc st) + 2) st) (\<lambda>st.
         res_bind (st_pow (unat (ms_pc st) + 2) st) (\<lambda>x. st_put a2 (f192_from x) st))
     | ModeFp \<Rightarrow>
         res_bind (st_note (unat (ms_fp st)) st) (\<lambda>st.
         res_bind (st_pow (unat (ms_fp st)) st) (\<lambda>x. st_put a2 (f192_from x) st)))"

definition step_deref :: "program \<Rightarrow> u32 \<Rightarrow> u32 \<Rightarrow> u32 \<Rightarrow> deref_mode \<Rightarrow> f64 \<Rightarrow> mach \<Rightarrow> mach run" where
  "step_deref p o1 o2 o3 mode bytecode_read st =
    (let a1 = ms_fp st + o1; (st, ptr) = st_read a1 st
     in res_bind (deref_base p ptr st) (\<lambda>(st, base).
        (let a2 = base + o2; a3 = ms_fp st + o3
         in res_bind (deref_effect mode a2 a3 st) (\<lambda>st.
            (let (st, r1) = st_bump a1 st; (st, r2) = st_bump a2 st; (st, r3) = st_bump a3 st;
                 row = \<lparr>d_pc = ms_pc st, d_fp = ms_fp st, d_r1 = r1, d_r2 = r2, d_r3 = r3, d_bytecode_read = bytecode_read\<rparr>
             in Inr (st\<lparr>ms_deref := ms_deref st @ [row], ms_pc := ms_pc st + 1\<rparr>))))))"

definition step_jump :: "program \<Rightarrow> u32 \<Rightarrow> u32 \<Rightarrow> u32 \<Rightarrow> f64 \<Rightarrow> mach \<Rightarrow> mach run" where
  "step_jump p oc od of' bytecode_read st =
    (let ac = ms_fp st + oc; ad = ms_fp st + od; af = ms_fp st + of';
         (st, wc) = st_read ac st
     in res_bind (or_fail p st (in_k ''JUMP condition'' wc)) (\<lambda>c.
        (let (st, wd) = st_read ad st
         in res_bind (or_fail p st (in_k ''JUMP target'' wd)) (\<lambda>d.
            (let (st, wf) = st_read af st
             in res_bind (or_fail p st (in_k ''JUMP fp'' wf)) (\<lambda>f.
                (let (st, rc) = st_bump ac st; (st, rd) = st_bump ad st; (st, rf) = st_bump af st;
                     row = \<lparr>j_pc = ms_pc st, j_fp = ms_fp st, j_rc = rc, j_rd = rd, j_rf = rf, j_bytecode_read = bytecode_read\<rparr>;
                     st = st\<lparr>ms_jump := ms_jump st @ [row]\<rparr>
                 in if \<not> f64_is_zero c
                    then
                      res_bind (st_log d st) (\<lambda>(st, t).
                      res_bind (some_or_fail p st (NotAGPower ''JUMP target'' d)
                        (case t of None \<Rightarrow> None | Some t \<Rightarrow> if t < length (p_prog p) then Some t else None)) (\<lambda>t.
                      res_bind (st_log f st) (\<lambda>(st', k).
                      res_bind (some_or_fail p (st'\<lparr>ms_pc := ms_pc st\<rparr>) (NotAGPower ''JUMP fp'' f) k) (\<lambda>k.
                      Inr (st'\<lparr>ms_pc := of_nat t, ms_fp := of_nat k\<rparr>)))))
                    else Inr (st\<lparr>ms_pc := ms_pc st + 1\<rparr>))))))))"

definition blake2s_cells :: "string list" where
  "blake2s_cells = [''m0'', ''m1'', ''m2'', ''m3'', ''cv0'', ''cv1'', ''md'']"

definition lane_pair :: "f192 \<Rightarrow> f64 list" where
  "lane_pair w = [F64 (coeff0 w), F64 (coeff1 w)]"

definition step_blake2s :: "program \<Rightarrow> u32 \<Rightarrow> u32 \<Rightarrow> u32 \<Rightarrow> u32 \<Rightarrow> u32 \<Rightarrow> u32 \<Rightarrow> u32 \<Rightarrow> f64 \<Rightarrow> mach \<Rightarrow> mach run" where
  "step_blake2s p i0 i1 i2 i3 cv out md bytecode_read st =
    (let fp = ms_fp st;
         aa0 = fp + i0; aa1 = fp + i1; ab0 = fp + i2; ab1 = fp + i3; acv = fp + cv; ac = fp + out; amd = fp + md;
         (st, words) = st_reads [aa0, aa1, ab0, ab1, acv, acv + 1, amd] st
     in case find (\<lambda>(i, w). coeff2 w \<noteq> 0) (enumerate 0 words) of
          Some (i, w) \<Rightarrow> fail p st (NotCanonical (blake2s_cells ! i) w)
        | None \<Rightarrow>
            (let va = lane_pair (words ! 0) @ lane_pair (words ! 1);
                 vb = lane_pair (words ! 2) @ lane_pair (words ! 3);
                 vcv = lane_pair (words ! 4) @ lane_pair (words ! 5)
             in res_bind (or_panic (blake2s_compress va vb vcv (words ! 6))) (\<lambda>vc.
                res_bind (st_put ac (F192 (raw64 (vc ! 0)) (raw64 (vc ! 1)) 0) st) (\<lambda>st.
                res_bind (st_put (ac + 1) (F192 (raw64 (vc ! 2)) (raw64 (vc ! 3)) 0) st) (\<lambda>st.
                (let (st, ra) = st_bumps [aa0, aa1] st; (st, rb) = st_bumps [ab0, ab1] st;
                     (st, rcv) = st_bumps [acv, acv + 1] st; (st, rc) = st_bumps [ac, ac + 1] st; (st, rmd) = st_bump amd st;
                     row = \<lparr>b_pc = ms_pc st, b_fp = ms_fp st, b_ra = ra, b_rb = rb, b_rcv = rcv, b_rc = rc, b_rmd = rmd,
                        b_bytecode_read = bytecode_read\<rparr>
                 in Inr (st\<lparr>ms_blake2s := ms_blake2s st @ [row], ms_pc := ms_pc st + 1\<rparr>)))))))"

fun step_op :: "program \<Rightarrow> op \<Rightarrow> f64 \<Rightarrow> mach \<Rightarrow> mach run" where
  "step_op p (OpXor a b c) r st = step_arith p True a b c r st"
| "step_op p (OpMul a b c) r st = step_arith p False a b c r st"
| "step_op p (OpSet o' k) r st = step_set o' k r st"
| "step_op p (OpDeref o1 o2 o3 mode) r st = step_deref p o1 o2 o3 mode r st"
| "step_op p (OpJump oc od of') r st = step_jump p oc od of' r st"
| "step_op p (OpBlake2s i0 i1 i2 i3 cv out md) r st = step_blake2s p i0 i1 i2 i3 cv out md r st"

text \<open>One step: the hints scheduled before the instruction, the index guard, the fetch, the instruction.\<close>

definition fetch_count :: "mach \<Rightarrow> mach \<times> f64" where
  "fetch_count st =
    (let pc = unat (ms_pc st); v = ms_bytecode_count st ! pc
     in (st\<lparr>ms_bytecode_count := (ms_bytecode_count st)[pc := mul_by_g v]\<rparr>, v))"

definition cover_step :: "mach \<Rightarrow> mach run" where
  "cover_step st =
    (let need = max (unat (ms_pc st) + 2) (unat (ms_fp st))
     in if gp_covered (ms_g st) \<le> need then st_grow need st else Inr st)"

definition exec_step :: "program \<Rightarrow> mach \<Rightarrow> mach run" where
  "exec_step p st =
    (let st = st\<lparr>ms_mem := (ms_mem st)\<lparr>m_dbg_pc := ms_pc st\<rparr>\<rparr>
     in if unat (ms_pc st) < length (p_prog p)
        then
          res_bind (case map_of (p_hints p) (ms_pc st) of None \<Rightarrow> Inr st | Some hs \<Rightarrow> run_hints p hs st) (\<lambda>st.
          res_bind (cover_step st) (\<lambda>st.
          (let (st, bytecode_read) = fetch_count st
           in step_op p (p_prog p ! unat (ms_pc st)) bytecode_read st)))
        else Inl Panicked)"

section \<open>Halting and filling\<close>

definition state_row_counts :: "mach \<Rightarrow> nat list" where
  "state_row_counts st = [length (ms_xor st), length (ms_mul st), length (ms_set st), length (ms_deref st),
     length (ms_jump st), length (ms_blake2s st)]"

definition plan_committed_log :: "nat list \<Rightarrow> nat \<Rightarrow> nat \<Rightarrow> plan \<Rightarrow> nat option" where
  "plan_committed_log counts start log_bytecode plan =
    (let cells = start + frames plan * unat fr_cells
     in case log2_strict (max (next_power_of_two cells) (2 ^ min_log_mem)) of
          None \<Rightarrow> None
        | Some log_mem \<Rightarrow>
            (case traverse_opt log2_strict (filled counts plan) of
               None \<Rightarrow> None
             | Some taus \<Rightarrow> committed_log log_mem log_bytecode taus))"

text \<open>The frames of the cycles, each written before it runs.\<close>

primrec prepare_cycles :: "(u32 \<times> u32 \<times> nat) list \<Rightarrow> u32 \<Rightarrow> mach \<Rightarrow> (mach \<times> (u32 \<times> u32 \<times> nat) list) run" where
  "prepare_cycles [] frame st = Inr (st, [])"
| "prepare_cycles (c # cs) frame st =
    (case c of (block_pc, size', n) \<Rightarrow>
      res_bind (st_grow (unat frame) st) (\<lambda>st.
      res_bind (st_note (unat frame) st) (\<lambda>st.
      (let st = st_ensure (unat (frame + fr_cells - 1)) st
       in res_bind (st_pow (unat block_pc) st) (\<lambda>x.
          res_bind (st_put (frame + fr_dest) (f192_from x) st) (\<lambda>st.
          res_bind (st_pow (unat frame) st) (\<lambda>y.
          res_bind (st_put (frame + fr_next_fp) (f192_from y) st) (\<lambda>st.
          res_bind (st_put (frame + fr_ptr) f192_one st) (\<lambda>st.
          res_bind (prepare_cycles cs (frame + fr_cells) st) (\<lambda>(st, runs).
          Inr (st, (block_pc, frame, n * (unat size' + 1)) # runs)))))))))))"

definition halt_and_plan :: "program \<Rightarrow> mach \<Rightarrow> mach run" where
  "halt_and_plan p st =
    (if ms_fp st \<noteq> 0 then fail p st (HaltOutsideMain (ms_fp st))
     else
       (let counts = state_row_counts st;
            st = st\<lparr>ms_base_counts := Some counts, ms_unconstrained_reads := m_unwritten_reads (ms_mem st),
                    ms_mem := (ms_mem st)\<lparr>m_unwritten_reads := []\<rparr>\<rparr>
        in if p_filler p = [] then Inr (st\<lparr>ms_cycles := []\<rparr>)
           else
             (let start = length (m_cells (ms_mem st))
              in res_bind (or_panic (log2_strict (length (p_prog p)))) (\<lambda>log_bytecode.
                 res_bind (or_panic (fill_plan counts (p_min_log_committed p) (plan_committed_log counts start log_bytecode))) (\<lambda>plan.
                 res_bind (or_panic (cycles (p_filler p) plan)) (\<lambda>cs.
                 res_bind (prepare_cycles cs (of_nat start) st) (\<lambda>(st, runs).
                 Inr (st\<lparr>ms_cycles := runs\<rparr>))))))))"

text \<open>The head of the loop: whether to switch to the next cycle, and whether the run is over.\<close>

definition ending_pc :: "program \<Rightarrow> u32" where
  "ending_pc p = of_nat (length (p_prog p)) - 1"

definition wants_switch :: "program \<Rightarrow> mach \<Rightarrow> bool" where
  "wants_switch p st = (case ms_left st of None \<Rightarrow> ms_pc st = ending_pc p | Some n \<Rightarrow> n = 0)"

definition next_cycle :: "mach \<Rightarrow> mach option" where
  "next_cycle st =
    (case ms_cycles st of
       [] \<Rightarrow> None
     | (pc, frame, rows) # cs \<Rightarrow> Some (st\<lparr>ms_pc := pc, ms_fp := frame, ms_left := Some rows, ms_cycles := cs\<rparr>))"

definition loop_head :: "program \<Rightarrow> mach \<Rightarrow> (mach \<times> bool) run" where
  "loop_head p st =
    (if wants_switch p st
     then
       res_bind (if ms_left st = None then halt_and_plan p st else Inr st) (\<lambda>st.
       (case next_cycle st of None \<Rightarrow> Inr (st, True) | Some st \<Rightarrow> Inr (st, False)))
     else Inr (st, False))"

definition count_down :: "mach \<Rightarrow> mach" where
  "count_down st = (case ms_left st of None \<Rightarrow> st | Some n \<Rightarrow> st\<lparr>ms_left := Some (n - 1)\<rparr>)"

definition max_steps :: nat where "max_steps = 100000000"

function run_loop :: "program \<Rightarrow> nat \<Rightarrow> mach \<Rightarrow> (mach \<times> nat) run" where
  "run_loop p steps st =
    (case loop_head p st of
       Inl e \<Rightarrow> Inl e
     | Inr (st, finished) \<Rightarrow>
         if finished then Inr (st, steps)
         else
           (let st = count_down st
            in if max_steps \<le> steps then fail p st StepLimit
               else (case exec_step p st of Inl e \<Rightarrow> Inl e | Inr st \<Rightarrow> run_loop p (steps + 1) st)))"
  by pat_completeness auto

termination
  by (relation "measure (\<lambda>(p, steps, st). max_steps - steps)") auto

declare run_loop.simps [simp del]

section \<open>The execution\<close>

record execution =
  ex_mem :: "f192 list"
  ex_cycles :: nat
  ex_mem_used :: nat
  ex_base_counts :: "nat list"
  ex_unconstrained_reads :: "u32 list"
  ex_trace :: trace

definition initial_mem :: "program \<Rightarrow> mem" where
  "initial_mem p =
    (let n0 = unat (max (p_main_frame p) 2)
     in \<lparr>m_cells = replicate n0 f192_zero, m_state = replicate n0 Unwritten, m_count = replicate n0 (F64 1),
         m_links = (\<lambda>_. None), m_unwritten_reads = [], m_program = p, m_dbg_pc = 0, m_dbg_hint = None\<rparr>)"

definition mach_init :: "program \<Rightarrow> gpow \<Rightarrow> mem \<Rightarrow> mach" where
  "mach_init p g m =
    \<lparr>ms_mem = m, ms_g = g, ms_next_free = p_main_frame p, ms_pc = 0, ms_fp = 0,
     ms_bytecode_count = replicate (length (p_prog p)) (F64 1), ms_witness_pos = (\<lambda>_. 0), ms_dlog_cache = None,
     ms_xor = [], ms_mul = [], ms_set = [], ms_deref = [], ms_jump = [], ms_blake2s = [],
     ms_left = None, ms_cycles = [], ms_base_counts = None, ms_unconstrained_reads = []\<rparr>"

text \<open>Flattening the hints into a table panics on a key outside the program.\<close>

definition hints_in_range :: "program \<Rightarrow> bool" where
  "hints_in_range p \<longleftrightarrow> list_all (\<lambda>(pc, hs). unat pc < length (p_prog p)) (p_hints p)"

definition start_up :: "program \<Rightarrow> f192 list \<Rightarrow> mach run" where
  "start_up p public_input =
    res_bind (or_panic (gp_new (length (p_prog p) + 2))) (\<lambda>g.
    res_bind (st_put 0 (public_input ! 0) (mach_init p g (initial_mem p))) (\<lambda>st.
    res_bind (st_put 1 (public_input ! 1) st) (\<lambda>st.
    if hints_in_range p then Inr st else Inl Panicked)))"

definition finish :: "mach \<Rightarrow> nat \<Rightarrow> execution run" where
  "finish st steps =
    (let used = length (m_cells (ms_mem st));
         cells = max (next_power_of_two used) (2 ^ min_log_mem)
     in if cells \<le> 2 ^ max_log_mem
        then
          res_bind (or_panic (ms_base_counts st)) (\<lambda>base_counts.
          Inr \<lparr>ex_mem = resize cells f192_zero (m_cells (ms_mem st)), ex_cycles = steps, ex_mem_used = used,
               ex_base_counts = base_counts, ex_unconstrained_reads = ms_unconstrained_reads st,
               ex_trace = \<lparr>t_xor = ms_xor st, t_mul = ms_mul st, t_set = ms_set st, t_deref = ms_deref st,
                 t_jump = ms_jump st, t_blake2s = ms_blake2s st,
                 t_mem_count = resize cells (F64 1) (m_count (ms_mem st)), t_bytecode_count = ms_bytecode_count st\<rparr>\<rparr>)
        else Inl Panicked)"

definition execute :: "program \<Rightarrow> f192 list \<Rightarrow> execution run" where
  "execute p public_input =
    res_bind (start_up p public_input) (\<lambda>st.
    res_bind (run_loop p 0 st) (\<lambda>(st, steps). finish st steps))"

end
