(* ===== verification/Steps.thy ===== *)
theory Steps
  imports Machine
begin

text \<open>
  What a step of the interpreter keeps: the memory invariant, the index invariant and
  every written cell. Hints are quiet, they touch neither the counters nor the trace;
  an instruction adds its row.
\<close>

section \<open>Quiet state changes\<close>

definition mach_ok :: "program \<Rightarrow> (u32 \<times> u32) set \<Rightarrow> mach \<Rightarrow> bool" where
  "mach_ok p E st \<longleftrightarrow> link_inv E (ms_mem st) \<and> gp_ok (ms_g st) \<and> m_program (ms_mem st) = p"

lemma mach_okD:
  "mach_ok p E st \<Longrightarrow> link_inv E (ms_mem st)" "mach_ok p E st \<Longrightarrow> mem_wf (ms_mem st)"
  "mach_ok p E st \<Longrightarrow> gp_ok (ms_g st)" "mach_ok p E st \<Longrightarrow> m_program (ms_mem st) = p"
  by (auto simp: mach_ok_def link_inv_def)

text \<open>The parts of the state only instructions and the halt change.\<close>

definition control :: "mach \<Rightarrow> _" where
  "control st = ((ms_pc st, ms_fp st, ms_bytecode_count st, mem_cnt (ms_mem st)),
     (ms_xor st, ms_mul st, ms_set st, ms_deref st, ms_jump st, ms_blake2s st),
     ms_left st, ms_cycles st, ms_base_counts st, ms_unconstrained_reads st)"

lemma control_iff:
  "control st' = control st \<longleftrightarrow> ms_pc st' = ms_pc st \<and> ms_fp st' = ms_fp st \<and> ms_bytecode_count st' = ms_bytecode_count st \<and>
    mem_cnt (ms_mem st') = mem_cnt (ms_mem st) \<and> ms_xor st' = ms_xor st \<and> ms_mul st' = ms_mul st \<and> ms_set st' = ms_set st \<and>
    ms_deref st' = ms_deref st \<and> ms_jump st' = ms_jump st \<and> ms_blake2s st' = ms_blake2s st \<and> ms_left st' = ms_left st \<and>
    ms_cycles st' = ms_cycles st \<and> ms_base_counts st' = ms_base_counts st \<and>
    ms_unconstrained_reads st' = ms_unconstrained_reads st"
  by (auto simp: control_def)

definition mem_grows :: "mach \<Rightarrow> mach \<Rightarrow> bool" where
  "mem_grows st st' \<longleftrightarrow> mem_le (ms_mem st) (ms_mem st') \<and> length (m_cells (ms_mem st)) \<le> length (m_cells (ms_mem st')) \<and>
    gp_covered (ms_g st) \<le> gp_covered (ms_g st')"

definition quiet :: "program \<Rightarrow> (u32 \<times> u32) set \<Rightarrow> mach \<Rightarrow> mach \<Rightarrow> bool" where
  "quiet p E st st' \<longleftrightarrow> mach_ok p E st' \<and> mem_grows st st' \<and> control st' = control st"

lemma mem_grows_refl [simp]: "mem_grows st st"
  by (simp add: mem_grows_def)

lemma mem_grows_trans: "mem_grows a b \<Longrightarrow> mem_grows b c \<Longrightarrow> mem_grows a c"
  by (auto simp: mem_grows_def intro: mem_le_trans)

lemma quiet_refl: "mach_ok p E st \<Longrightarrow> quiet p E st st"
  by (simp add: quiet_def)

lemma quiet_trans: "quiet p E a b \<Longrightarrow> quiet p E b c \<Longrightarrow> quiet p E a c"
  by (auto simp: quiet_def intro: mem_grows_trans)

lemma quietD:
  "quiet p E a b \<Longrightarrow> mach_ok p E b" "quiet p E a b \<Longrightarrow> mem_grows a b" "quiet p E a b \<Longrightarrow> control b = control a"
  by (simp_all add: quiet_def)

text \<open>Handlers that leave the state quiet, with or without a result.\<close>

definition keeps :: "program \<Rightarrow> (u32 \<times> u32) set \<Rightarrow> (mach \<Rightarrow> mach run) \<Rightarrow> bool" where
  "keeps p E f \<longleftrightarrow> (\<forall>st st'. mach_ok p E st \<longrightarrow> f st = Inr st' \<longrightarrow> quiet p E st st')"

definition keeps_val :: "program \<Rightarrow> (u32 \<times> u32) set \<Rightarrow> (mach \<Rightarrow> (mach \<times> 'a) run) \<Rightarrow> bool" where
  "keeps_val p E f \<longleftrightarrow> (\<forall>st st' v. mach_ok p E st \<longrightarrow> f st = Inr (st', v) \<longrightarrow> quiet p E st st')"

lemma keepsD: "keeps p E f \<Longrightarrow> f st = Inr st' \<Longrightarrow> mach_ok p E st \<Longrightarrow> quiet p E st st'"
  by (auto simp: keeps_def)

lemma keeps_valD: "keeps_val p E f \<Longrightarrow> f st = Inr (st', v) \<Longrightarrow> mach_ok p E st \<Longrightarrow> quiet p E st st'"
  by (auto simp: keeps_val_def)

lemma keeps_bind: "keeps p E f \<Longrightarrow> keeps p E g \<Longrightarrow> keeps p E (\<lambda>st. res_bind (f st) g)"
  unfolding keeps_def res_bind_eq_Inr using quiet_trans quietD(1) by blast

lemma keeps_val_bind:
  assumes "keeps_val p E f" "\<And>v. keeps p E (\<lambda>st. g st v)"
  shows "keeps p E (\<lambda>st. res_bind (f st) (\<lambda>(st, v). g st v))"
  unfolding keeps_def [of _ _ "\<lambda>st. res_bind (f st) (\<lambda>(st, v). g st v)"]
proof (intro allI impI)
  fix st st' assume ok: "mach_ok p E st" and run: "res_bind (f st) (\<lambda>(st, v). g st v) = Inr st'"
  then obtain s1 v where f: "f st = Inr (s1, v)" and g: "g s1 v = Inr st'"
    by (auto simp: res_bind_eq_Inr)
  have q: "quiet p E st s1" using keeps_valD [OF assms(1) f ok] .
  show "quiet p E st st'" using quiet_trans [OF q keepsD [OF assms(2) g quietD(1) [OF q]]] .
qed

lemma keeps_val_bind_val:
  assumes "keeps_val p E f" "\<And>v. keeps_val p E (\<lambda>st. g st v)"
  shows "keeps_val p E (\<lambda>st. res_bind (f st) (\<lambda>(st, v). g st v))"
  unfolding keeps_val_def [of _ _ "\<lambda>st. res_bind (f st) (\<lambda>(st, v). g st v)"]
proof (intro allI impI)
  fix st st' w assume ok: "mach_ok p E st" and run: "res_bind (f st) (\<lambda>(st, v). g st v) = Inr (st', w)"
  then obtain s1 v where f: "f st = Inr (s1, v)" and g: "g s1 v = Inr (st', w)"
    by (auto simp: res_bind_eq_Inr)
  have q: "quiet p E st s1" using keeps_valD [OF assms(1) f ok] .
  show "quiet p E st st'" using quiet_trans [OF q keeps_valD [OF assms(2) g quietD(1) [OF q]]] .
qed

lemma keeps_bind_val:
  assumes "keeps p E f" "keeps_val p E g"
  shows "keeps_val p E (\<lambda>st. res_bind (f st) g)"
  unfolding keeps_val_def [of _ _ "\<lambda>st. res_bind (f st) g"]
proof (intro allI impI)
  fix st st' w assume ok: "mach_ok p E st" and run: "res_bind (f st) g = Inr (st', w)"
  then obtain s1 where f: "f st = Inr s1" and g: "g s1 = Inr (st', w)"
    by (auto simp: res_bind_eq_Inr)
  have q: "quiet p E st s1" using keepsD [OF assms(1) f ok] .
  show "quiet p E st st'" using quiet_trans [OF q keeps_valD [OF assms(2) g quietD(1) [OF q]]] .
qed

text \<open>Arguments read off the state.\<close>

lemma keeps_arg: "(\<And>a. keeps p E (f a)) \<Longrightarrow> keeps p E (\<lambda>st. f (k st) st)"
  by (auto simp: keeps_def)

lemma keeps_val_arg: "(\<And>a. keeps_val p E (f a)) \<Longrightarrow> keeps_val p E (\<lambda>st. f (k st) st)"
  by (auto simp: keeps_val_def)

text \<open>Checks that do not change the state.\<close>

lemma keeps_check: "(\<And>st x. c st = Inr x \<Longrightarrow> keeps p E (f x)) \<Longrightarrow> keeps p E (\<lambda>st. res_bind (c st) (\<lambda>x. f x st))"
  unfolding keeps_def res_bind_eq_Inr by blast

lemma keeps_val_check:
  "(\<And>st x. c st = Inr x \<Longrightarrow> keeps_val p E (f x)) \<Longrightarrow> keeps_val p E (\<lambda>st. res_bind (c st) (\<lambda>x. f x st))"
  unfolding keeps_val_def res_bind_eq_Inr by blast

lemma keeps_Inr [simp]: "keeps p E Inr" "keeps_val p E (\<lambda>st. Inr (st, x))" "keeps p E (\<lambda>st. Inr st)"
  by (auto simp: keeps_def keeps_val_def quiet_refl)

lemma keeps_Inl [simp]: "keeps p E (\<lambda>st. Inl (e st))" "keeps_val p E (\<lambda>st. Inl (e st))"
  by (auto simp: keeps_def keeps_val_def)

lemma keeps_fail [simp]: "keeps p E (\<lambda>st. fail q st (e st))" "keeps_val p E (\<lambda>st. fail q st (e st))"
  by (auto simp: keeps_def keeps_val_def fail_def)

lemma keeps_if:
  "keeps p E f \<Longrightarrow> keeps p E g \<Longrightarrow> keeps p E (\<lambda>st. if b st then f st else g st)"
  "keeps_val p E f' \<Longrightarrow> keeps_val p E g' \<Longrightarrow> keeps_val p E (\<lambda>st. if b st then f' st else g' st)"
  by (auto simp: keeps_def keeps_val_def)

lemma keeps_case_option:
  "keeps p E f \<Longrightarrow> (\<And>x. keeps p E (g x)) \<Longrightarrow> keeps p E (\<lambda>st. case v st of None \<Rightarrow> f st | Some x \<Rightarrow> g x st)"
  "keeps_val p E f' \<Longrightarrow> (\<And>x. keeps_val p E (g' x)) \<Longrightarrow> keeps_val p E (\<lambda>st. case v st of None \<Rightarrow> f' st | Some x \<Rightarrow> g' x st)"
  by (auto simp: keeps_def keeps_val_def split: option.splits)

lemma or_panic_Inr [simp]: "or_panic r = Inr x \<longleftrightarrow> r = Some x"
  by (cases r) (simp_all add: or_panic_def)

lemma or_fail_Inr [simp]: "or_fail p st r = Inr x \<longleftrightarrow> r = Inr x"
  by (cases r) (simp_all add: or_fail_def fail_def)

lemma some_or_fail_Inr [simp]: "some_or_fail p st f r = Inr x \<longleftrightarrow> r = Some x"
  by (cases r) (simp_all add: some_or_fail_def fail_def)

lemma fail_Inr [simp]: "fail p st f \<noteq> Inr x" "Inr x \<noteq> fail p st f"
  by (simp_all add: fail_def)

subsection \<open>Primitives\<close>

lemma st_put_iff: "st_put c v st = Inr st' \<longleftrightarrow> (\<exists>m. mem_put c v (ms_mem st) = Inr m \<and> st' = st\<lparr>ms_mem := m\<rparr>)"
  by (auto simp: st_put_def split: sum.splits)

lemma mem_frame_program: "mem_frame m m' \<Longrightarrow> m_program m' = m_program m"
  by (simp add: mem_frame_def mem_ctx_def)

lemma keeps_put: "keeps p E (st_put c v)"
  unfolding keeps_def st_put_iff
proof (intro allI impI, elim exE conjE)
  fix st st' m assume ok: "mach_ok p E st" and put: "mem_put c v (ms_mem st) = Inr m" and st': "st' = st\<lparr>ms_mem := m\<rparr>"
  note m = mem_put_ok [OF mach_okD(1) [OF ok] put]
  show "quiet p E st st'"
    using ok m(1,2,5,6) mem_frame_program [OF m(5)] by (simp add: st' quiet_def mach_ok_def mem_grows_def control_iff mem_frame_def)
qed

lemma quiet_index: "mach_ok p E st \<Longrightarrow> gp_ok g \<Longrightarrow> gp_covered (ms_g st) \<le> gp_covered g \<Longrightarrow> quiet p E st (st\<lparr>ms_g := g\<rparr>)"
  by (simp add: quiet_def mach_ok_def mem_grows_def control_iff)

lemma keeps_log: "keeps_val p E (st_log x)"
  using gi.log_ok mach_okD(3) quiet_index
  by (fastforce simp: keeps_val_def st_log_def res_bind_eq_Inr)

lemma keeps_grow: "keeps p E (st_grow lim)"
  using gi.grow_ok mach_okD(3) quiet_index
  by (fastforce simp: keeps_def st_grow_def res_bind_eq_Inr)

lemma keeps_note: "keeps p E (st_note k)"
  using gi.note_ok mach_okD(3) quiet_index
  by (fastforce simp: keeps_def st_note_def res_bind_eq_Inr)

lemma quiet_mem:
  "\<lbrakk>mach_ok p E st; link_inv E m; m_program m = p; mem_le (ms_mem st) m; length (m_cells (ms_mem st)) \<le> length (m_cells m);
    mem_cnt m = mem_cnt (ms_mem st)\<rbrakk> \<Longrightarrow> quiet p E st (st\<lparr>ms_mem := m\<rparr>)"
  by (simp add: quiet_def mach_ok_def mem_grows_def control_iff)

lemma link_inv_cong:
  assumes "link_inv E m" "mem_wf m'" "mem_get m' = mem_get m" "mem_st m' = mem_st m" "m_links m' = m_links m"
  shows "link_inv E m'"
  using link_graph_written [OF link_invD(2) [OF assms(1)] assms(5)] assms by (simp add: link_inv_def)

lemma keeps_ensure: "keeps p E (\<lambda>st. Inr (st_ensure i st))"
proof -
  have "quiet p E st (st_ensure i st)" if ok: "mach_ok p E st" for st
  proof -
    note v = ensure_views [OF mach_okD(2) [OF ok], of i]
    have "m_program (ensure i (ms_mem st)) = p" using v(5) mach_okD(4) [OF ok] by (simp add: mem_ctx_def)
    then show ?thesis
      unfolding st_ensure_def using ok v link_inv_cong [OF mach_okD(1) [OF ok] v(6,1,2,4)]
      by (intro quiet_mem) (simp_all add: mem_le_def written_st)
  qed
  then show ?thesis by (simp add: keeps_def)
qed

lemma keeps_put_run: "keeps p E (put_run c vs)"
proof (induction vs arbitrary: c)
  case (Cons v vs)
  have "put_run c (v # vs) = (\<lambda>st. res_bind (st_put c v st) (put_run (c + 1) vs))" by (rule ext) simp
  then show ?case using keeps_bind [OF keeps_put Cons.IH] by simp
qed (simp add: keeps_def quiet_refl)

lemma keeps_put_arg: "keeps p E (\<lambda>st. st_put (c st) (v st) st)"
  using keeps_put by (simp add: keeps_def)

lemma keeps_put_run_arg: "keeps p E (\<lambda>st. put_run (c st) (vs st) st)"
  using keeps_put_run by (simp add: keeps_def)

text \<open>The rules that take a handler apart.\<close>

lemmas keeps_intros = keeps_put keeps_put_run keeps_log keeps_grow keeps_note keeps_ensure
  keeps_bind keeps_val_bind keeps_val_bind_val keeps_bind_val keeps_if keeps_case_option keeps_check keeps_val_check

subsection \<open>Hints\<close>

lemma keeps_heap_base: "keeps_val p E (heap_base q c what)"
  unfolding heap_base_def
  by (intro keeps_val_check keeps_val_bind_val keeps_log keeps_Inr)

lemma keeps_bits_base: "keeps_val p E (bits_base q dest what)"
  by (cases dest) (simp_all add: keeps_heap_base keeps_val_def quiet_refl, use keeps_heap_base in \<open>simp add: keeps_val_def\<close>)

lemma quiet_same:
  "mach_ok p E st \<Longrightarrow> ms_mem st' = ms_mem st \<Longrightarrow> ms_g st' = ms_g st \<Longrightarrow> control st' = control st \<Longrightarrow> quiet p E st st'"
  by (simp add: quiet_def mach_ok_def mem_grows_def)

lemma keeps_pop_witness: "keeps_val p E (\<lambda>st. or_fail q st (pop_witness r name len st))"
  by (auto simp: keeps_val_def pop_witness_def Let_def control_iff intro!: quiet_same split: option.splits if_splits)

lemma keeps_pow: "(\<And>x. keeps p E (f x)) \<Longrightarrow> keeps p E (\<lambda>st. res_bind (st_pow k st) (\<lambda>x. f x st))"
  by (rule keeps_check)

lemma keeps_alloc_region: "keeps p E (alloc_region q ptr n)"
proof -
  have grown: "keeps p E (\<lambda>st. st_grow l (st\<lparr>ms_next_free := a\<rparr>))" for l a
    unfolding keeps_def
  proof (intro allI impI)
    fix st st' assume ok: "mach_ok p E st" and g: "st_grow l (st\<lparr>ms_next_free := a\<rparr>) = Inr st'"
    have q: "quiet p E st (st\<lparr>ms_next_free := a\<rparr>)" using ok by (intro quiet_same) (simp_all add: control_iff)
    show "quiet p E st st'" using quiet_trans [OF q keepsD [OF keeps_grow g quietD(1) [OF q]]] .
  qed
  have 1: "keeps p E (\<lambda>st. res_bind (st_grow l (st\<lparr>ms_next_free := a\<rparr>)) (\<lambda>st.
      res_bind (st_note k st) (\<lambda>st. res_bind (Inr (st_ensure (unat (ms_next_free st)) st)) (\<lambda>st.
      res_bind (st_pow j st) (\<lambda>x. st_put c (f192_from x) st)))))" for l a k j c
  proof (intro keeps_bind grown keeps_note keeps_check keeps_put)
    show "keeps p E (\<lambda>st. Inr (st_ensure (unat (ms_next_free st)) st))"
      using keeps_ensure by (simp add: keeps_def)
  qed
  show ?thesis
    using 1 unfolding alloc_region_def keeps_def Let_def
    by (auto simp: quiet_refl split: if_splits)
qed

lemma grow_until_ok: "\<lbrakk>gp_ok g; grow_until sp mx r g = Some (g', r')\<rbrakk> \<Longrightarrow> gp_ok g' \<and> gp_covered g \<le> gp_covered g'"
proof (induction sp mx r g rule: grow_until.induct)
  case (1 sp mx r g)
  show ?case
  proof (cases "r = None \<and> gp_covered g \<le> mx")
    case True
    then obtain g1 g2 r2 where s: "gp_grow_to (min (2 * gp_covered g) mx) g = Some g1" "gp_log sp g1 = Some (g2, r2)"
        "grow_until sp mx r2 g2 = Some (g', r')"
      using 1(3) by (subst (asm) grow_until.simps) (auto split: option.splits prod.splits)
    have g1: "gp_ok g1" "gp_covered g \<le> gp_covered g1" using gi.grow_ok [OF 1(2) s(1)] by simp_all
    then have "gp_ok g2" "gp_covered g \<le> gp_covered g2" using gi.log_ok [OF g1(1) s(2)] by simp_all
    then show ?thesis using 1(1) [OF True s(1,2) refl _ s(3)] by simp
  next
    case False
    then show ?thesis using 1(2,3) by (subst (asm) grow_until.simps) auto
  qed
qed

lemma keeps_frames_size: "keeps_val p E (frames_size q n e i)"
  unfolding keeps_val_def
proof (intro allI impI)
  fix st st' v assume ok: "mach_ok p E st" and run: "frames_size q n e i st = Inr (st', v)"
  obtain x s1 r g r' where 1: "st_log x st = Inr (s1, r)"
    and 2: "grow_until x ((max_cells - unat (ms_next_free st)) div unat n - 1) r (ms_g s1) = Some (g, r')" "st' = s1\<lparr>ms_g := g\<rparr>"
    using run by (auto simp: frames_size_def Let_def res_bind_eq_Inr split: option.splits if_splits)
  note q = keeps_valD [OF keeps_log 1 ok]
  have "gp_ok g \<and> gp_covered (ms_g s1) \<le> gp_covered g" using grow_until_ok [OF mach_okD(3) [OF quietD(1) [OF q]] 2(1)] .
  then show "quiet p E st st'" using quiet_trans [OF q quiet_index [OF quietD(1) [OF q]]] 2(2) by simp
qed

lemma keeps_dyn_size: "keeps_val p E (dyn_size q n)"
  unfolding dyn_size_def
  by (intro keeps_val_check keeps_val_bind_val keeps_log keeps_case_option keeps_Inr keeps_bind_val keeps_grow)

lemma keeps_cache: "mach_ok p E st \<Longrightarrow> quiet p E st (st\<lparr>ms_dlog_cache := c\<rparr>)"
  by (intro quiet_same) (simp_all add: control_iff)

lemma keeps_bit_decompose_exp: "keeps p E (h_bit_decompose_exp q a bits n)"
proof -
  let ?k = "\<lambda>x r. \<lambda>st. res_bind (some_or_fail q st (NotAGPower dlog_what x) r) (\<lambda>n'.
        res_bind (bits_base q bits ''hint_decompose_bits_exponent pointer'' st) (\<lambda>(st, bb).
        put_run bb (map (\<lambda>j. bit_word (bit n' (j mod 128))) [0..<unat n]) st))"
  have k: "keeps p E (?k x r)" for x r
    by (intro keeps_check keeps_val_bind keeps_bits_base keeps_put_run)
  have "keeps p E (\<lambda>st. res_bind (or_panic (bounded_dlog x n (ms_dlog_cache st))) (\<lambda>(c, r). ?k x r (st\<lparr>ms_dlog_cache := Some c\<rparr>)))" for x
    unfolding keeps_def
  proof (intro allI impI)
    fix st st' assume ok: "mach_ok p E st" and run: "res_bind (or_panic (bounded_dlog x n (ms_dlog_cache st)))
      (\<lambda>(c, r). ?k x r (st\<lparr>ms_dlog_cache := Some c\<rparr>)) = Inr st'"
    obtain b where b: "bounded_dlog x n (ms_dlog_cache st) = Some b" using run by (auto simp only: res_bind_eq_Inr or_panic_Inr)
    obtain c r where c: "b = (c, r)" by (cases b)
    have r: "?k x r (st\<lparr>ms_dlog_cache := Some c\<rparr>) = Inr st'"
      using run unfolding b c by (simp add: or_panic_def)
    note q = keeps_cache [OF ok, of "Some c"]
    show "quiet p E st st'" using quiet_trans [OF q keepsD [OF k r quietD(1) [OF q]]] .
  qed
  note * = this
  show ?thesis unfolding h_bit_decompose_exp_def Let_def by (rule keeps_check) (rule *)
qed

lemma keeps_print: "keeps p E (h_print c)"
  unfolding h_print_def Let_def
  by (intro keeps_if keeps_case_option keeps_Inr keeps_val_bind keeps_log)

lemma keeps_alloc_frames: "keeps p E (h_alloc_frames q ptr n e i)"
  unfolding h_alloc_frames_def by (intro keeps_val_bind keeps_frames_size keeps_alloc_region)

lemma keeps_alloc_dyn: "keeps p E (h_alloc_dyn q ptr n)"
  unfolding h_alloc_dyn_def by (intro keeps_val_bind keeps_dyn_size keeps_alloc_region)

lemma keeps_witness_stack: "keeps p E (h_witness_stack q name base len)"
  unfolding h_witness_stack_def
  by (intro keeps_val_bind keeps_pop_witness keeps_put_run_arg)

lemma keeps_witness_heap: "keeps p E (h_witness_heap q name ptr lo len)"
proof -
  have "keeps_val p E (\<lambda>st. heap_base q (ms_fp st + ptr) what st)" for what
    using keeps_heap_base by (simp add: keeps_val_def)
  then show ?thesis
    unfolding h_witness_heap_def by (rule keeps_val_bind) (intro keeps_val_bind keeps_pop_witness keeps_put_run)
qed

lemma keeps_log2_ceil: "keeps p E (h_log2_ceil q bits dst n f)"
  unfolding h_log2_ceil_def Let_def
  by (intro keeps_val_bind keeps_bits_base keeps_put_arg)

lemma keeps_bit_decompose: "keeps p E (h_bit_decompose q a bits n)"
proof -
  have "keeps p E (\<lambda>st. res_bind (bits_base q bits ''decompose pointer'' st) (\<lambda>(st, bb). put_run bb (vs v) st))" for vs and v :: f192
    by (intro keeps_val_bind keeps_bits_base keeps_put_run)
  note * = keeps_arg [where k = "\<lambda>st. mem_get (ms_mem st) (ms_fp st + a)", OF this]
  show ?thesis unfolding h_bit_decompose_def Let_def by (intro keeps_if * keeps_Inl)
qed

lemma keeps_field_limbs: "keeps p E (h_field_limbs a base len)"
  unfolding h_field_limbs_def
  by (intro keeps_if keeps_Inl keeps_put_run_arg)

lemma keeps_inverse: "keeps p E (h_inverse a dst)"
  unfolding h_inverse_def Let_def
  by (rule keeps_put_arg)

lemma keeps_run_hint: "keeps p E (run_hint q h)"
proof (cases h)
  case (HFrameAddress off)
  have "run_hint q h = (\<lambda>st. st_note (unat (ms_fp st + off)) st)" by (rule ext) (simp add: HFrameAddress)
  then show ?thesis using keeps_arg [OF keeps_note] by simp
next
  case (HPrint label c)
  have "run_hint q h = h_print c" by (rule ext) (simp add: HPrint)
  then show ?thesis using keeps_print by simp
qed (simp_all add: keeps_def, insert keeps_alloc_frames keeps_alloc_region keeps_alloc_dyn keeps_witness_stack
  keeps_witness_heap keeps_log2_ceil keeps_bit_decompose keeps_bit_decompose_exp keeps_field_limbs keeps_inverse,
  simp_all add: keeps_def)

lemma keeps_dbg_hint: "mach_ok p E st \<Longrightarrow> quiet p E st (set_dbg_hint h st)"
proof -
  assume ok: "mach_ok p E st"
  have "link_inv E ((ms_mem st)\<lparr>m_dbg_hint := h\<rparr>)" by (rule link_inv_cong [OF mach_okD(1) [OF ok]]) (use ok in \<open>simp_all add: mach_okD\<close>)
  then show ?thesis
    unfolding set_dbg_hint_def using ok by (intro quiet_mem) (simp_all add: mach_okD mem_le_def written_st)
qed

lemma keeps_run_hints: "keeps p E (run_hints q hs)"
proof (induction hs)
  case (Cons h hs)
  show ?case
    unfolding keeps_def
  proof (intro allI impI)
    fix st st' assume ok: "mach_ok p E st" and run: "run_hints q (h # hs) st = Inr st'"
    obtain s1 where h: "run_hint q h (set_dbg_hint (Some (hint_name h)) st) = Inr s1"
      and hs: "run_hints q hs (set_dbg_hint None s1) = Inr st'" using run by (auto simp: res_bind_eq_Inr)
    note q1 = keeps_dbg_hint [OF ok, of "Some (hint_name h)"]
    note q2 = quiet_trans [OF q1 keepsD [OF keeps_run_hint h quietD(1) [OF q1]]]
    note q3 = quiet_trans [OF q2 keeps_dbg_hint [OF quietD(1) [OF q2], of None]]
    show "quiet p E st st'" using quiet_trans [OF q3 keepsD [OF Cons.IH hs quietD(1) [OF q3]]] .
  qed
qed (simp add: keeps_def quiet_refl)

end
