(* ===== verification/Semantics.thy ===== *)
theory Semantics
  imports Steps
begin

text \<open>
  The instruction set as a relation over a fixed memory: which cells an instruction
  touches, the equation it imposes on them, and the next program counter and frame.
  Every step of the interpreter is one such instruction on any memory that agrees with
  what the run has written and linked.
\<close>

section \<open>The instruction set over a fixed memory\<close>

inductive instr :: "op list \<Rightarrow> (u32 \<Rightarrow> f192) \<Rightarrow> table \<Rightarrow> u32 \<Rightarrow> u32 \<Rightarrow> u32 list \<Rightarrow> u32 \<Rightarrow> u32 \<Rightarrow> bool"
  for prog :: "op list" and M :: "u32 \<Rightarrow> f192" where
  instr_xor: "\<lbrakk>unat pc < length prog; prog ! unat pc = OpXor a b c;
      M (fp + c) = f192_add (M (fp + a)) (M (fp + b))\<rbrakk> \<Longrightarrow>
    instr prog M (Arith True) pc fp [fp + a, fp + b, fp + c] (pc + 1) fp"
| instr_mul: "\<lbrakk>unat pc < length prog; prog ! unat pc = OpMul a b c;
      M (fp + c) = f192_mul (M (fp + a)) (M (fp + b))\<rbrakk> \<Longrightarrow>
    instr prog M (Arith False) pc fp [fp + a, fp + b, fp + c] (pc + 1) fp"
| instr_set: "\<lbrakk>unat pc < length prog; prog ! unat pc = OpSet d k; M (fp + d) = k\<rbrakk> \<Longrightarrow>
    instr prog M SetTable pc fp [fp + d] (pc + 1) fp"
| instr_deref: "\<lbrakk>unat pc < length prog; prog ! unat pc = OpDeref o1 o2 o3 mode;
      M (fp + o1) = f192_from (f64_g ^ base); base < max_cells;
      M (of_nat base + o2) = (case mode of ModeCell \<Rightarrow> M (fp + o3)
        | ModePc \<Rightarrow> f192_from (f64_g ^ (unat pc + 2)) | ModeFp \<Rightarrow> f192_from (f64_g ^ unat fp))\<rbrakk> \<Longrightarrow>
    instr prog M DerefTable pc fp [fp + o1, of_nat base + o2, fp + o3] (pc + 1) fp"
| instr_jump: "\<lbrakk>unat pc < length prog; prog ! unat pc = OpJump oc od of';
      M (fp + oc) = f192_from c; M (fp + od) = f192_from d; M (fp + of') = f192_from f;
      c \<noteq> F64 0 \<Longrightarrow> d = f64_g ^ unat npc \<and> unat npc < length prog \<and> f = f64_g ^ unat nfp \<and> unat nfp < max_cells;
      c = F64 0 \<Longrightarrow> npc = pc + 1 \<and> nfp = fp\<rbrakk> \<Longrightarrow>
    instr prog M JumpTable pc fp [fp + oc, fp + od, fp + of'] npc nfp"
| instr_blake2s: "\<lbrakk>unat pc < length prog; prog ! unat pc = OpBlake2s i0 i1 i2 i3 cv out md;
      \<forall>c\<in>set [fp + i0, fp + i1, fp + i2, fp + i3, fp + cv, fp + cv + 1, fp + out, fp + out + 1, fp + md]. coeff2 (M c) = 0;
      blake2s_compress (lane_pair (M (fp + i0)) @ lane_pair (M (fp + i1))) (lane_pair (M (fp + i2)) @ lane_pair (M (fp + i3)))
        (lane_pair (M (fp + cv)) @ lane_pair (M (fp + cv + 1))) (M (fp + md)) =
      Some (lane_pair (M (fp + out)) @ lane_pair (M (fp + out + 1)))\<rbrakk> \<Longrightarrow>
    instr prog M Blake2sTable pc fp
      [fp + i0, fp + i1, fp + i2, fp + i3, fp + cv, fp + cv + 1, fp + out, fp + out + 1, fp + md] (pc + 1) fp"

inductive_cases instr_xorE: "instr prog M (Arith True) pc fp cells npc nfp"
inductive_cases instr_mulE: "instr prog M (Arith False) pc fp cells npc nfp"
inductive_cases instr_setE: "instr prog M SetTable pc fp cells npc nfp"
inductive_cases instr_derefE: "instr prog M DerefTable pc fp cells npc nfp"
inductive_cases instr_jumpE: "instr prog M JumpTable pc fp cells npc nfp"
inductive_cases instr_blake2sE: "instr prog M Blake2sTable pc fp cells npc nfp"

section \<open>Memories that extend a run's\<close>

definition compat :: "(u32 \<times> u32) set \<Rightarrow> mem \<Rightarrow> (u32 \<Rightarrow> f192) \<Rightarrow> bool" where
  "compat E m M \<longleftrightarrow> (\<forall>c. written m c \<longrightarrow> M c = mem_get m c) \<and> (\<forall>x y. (x, y) \<in> E \<longrightarrow> M x = M y)"

lemma compat_get: "compat E m M \<Longrightarrow> written m c \<Longrightarrow> M c = mem_get m c"
  by (simp add: compat_def)

lemma compat_link: "compat E m M \<Longrightarrow> (x, y) \<in> E \<Longrightarrow> M x = M y"
  by (simp add: compat_def)

lemma compat_mono: "compat E' m' M \<Longrightarrow> mem_le m m' \<Longrightarrow> E \<subseteq> E' \<Longrightarrow> compat E m M"
  by (auto simp: compat_def mem_le_def)

lemma compat_self: "link_inv E m \<Longrightarrow> compat E m (mem_get m)"
  by (simp add: compat_def link_invD)

section \<open>Access counts\<close>

primrec cnt_after :: "u32 list \<Rightarrow> (u32 \<Rightarrow> f64) \<Rightarrow> u32 \<Rightarrow> f64" where
  "cnt_after [] f = f"
| "cnt_after (c # cs) f = cnt_after cs (f(c := mul_by_g (f c)))"

primrec cnt_reads :: "u32 list \<Rightarrow> (u32 \<Rightarrow> f64) \<Rightarrow> f64 list" where
  "cnt_reads [] f = []"
| "cnt_reads (c # cs) f = f c # cnt_reads cs (f(c := mul_by_g (f c)))"

lemma cnt_append:
  "cnt_after (xs @ ys) f = cnt_after ys (cnt_after xs f)"
  "cnt_reads (xs @ ys) f = cnt_reads xs f @ cnt_reads ys (cnt_after xs f)"
  by (induction xs arbitrary: f) simp_all

lemma length_cnt_reads [simp]: "length (cnt_reads cs f) = length cs"
  by (induction cs arbitrary: f) simp_all

text \<open>What an access leaves of the state: reads write the cell, bumps only count.\<close>

definition touched :: "program \<Rightarrow> (u32 \<times> u32) set \<Rightarrow> u32 list \<Rightarrow> mach \<Rightarrow> mach \<Rightarrow> bool" where
  "touched p E cs st st' \<longleftrightarrow> mach_ok p E st' \<and> mem_grows st st' \<and>
    mem_cnt (ms_mem st') = cnt_after cs (mem_cnt (ms_mem st)) \<and>
    ms_g st' = ms_g st \<and> (\<exists>m. st' = st\<lparr>ms_mem := m\<rparr>) \<and> (\<forall>c\<in>set cs. unat c < length (m_cells (ms_mem st')))"

lemma st_read_ok:
  assumes ok: "mach_ok p E st" and rd: "st_read c st = (st', v)"
  shows "mach_ok p E st'" "mem_grows st st'" "control st' = control st" "written (ms_mem st') c"
    "mem_get (ms_mem st') = mem_get (ms_mem st)" "v = mem_get (ms_mem st) c" "\<exists>m. st' = st\<lparr>ms_mem := m\<rparr>"
proof -
  obtain m where m: "mem_read c (ms_mem st) = (m, v)" and st': "st' = st\<lparr>ms_mem := m\<rparr>"
    using rd by (auto simp: st_read_def split: prod.splits)
  note v = mem_read_views [OF mach_okD(2) [OF ok] m]
  show "mach_ok p E st'" "mem_grows st st'" "control st' = control st"
    using ok v(4,8) link_inv_read [OF mach_okD(1) [OF ok] m] mem_read_le [OF mach_okD(2) [OF ok] m] mem_frame_program [OF v(6)]
    by (simp_all add: st' mach_ok_def mem_grows_def control_iff)
  show "written (ms_mem st') c" "mem_get (ms_mem st') = mem_get (ms_mem st)" "v = mem_get (ms_mem st) c"
    "\<exists>m. st' = st\<lparr>ms_mem := m\<rparr>"
    using v(1,2,3) by (auto simp: st' written_st)
qed

lemma st_bump_ok:
  assumes ok: "mach_ok p E st" and b: "st_bump c st = (st', r)"
  shows "mach_ok p E st'" "mem_grows st st'" "mem_cnt (ms_mem st') = (mem_cnt (ms_mem st))(c := mul_by_g (mem_cnt (ms_mem st) c))"
    "r = mem_cnt (ms_mem st) c" "mem_get (ms_mem st') = mem_get (ms_mem st)" "written (ms_mem st') = written (ms_mem st)"
    "\<exists>m. st' = st\<lparr>ms_mem := m\<rparr>" "unat c < length (m_cells (ms_mem st'))"
proof -
  obtain m where m: "bump_access_count c (ms_mem st) = (m, r)" and st': "st' = st\<lparr>ms_mem := m\<rparr>"
    using b by (auto simp: st_bump_def split: prod.splits)
  note v = bump_views [OF mach_okD(2) [OF ok] m]
  show "mach_ok p E st'" "mem_grows st st'"
    using ok v(8) link_inv_bump [OF mach_okD(1) [OF ok] m] mem_bump_le [OF mach_okD(2) [OF ok] m] mem_frame_program [OF v(6)]
    by (simp_all add: st' mach_ok_def mem_grows_def)
  show "mem_cnt (ms_mem st') = (mem_cnt (ms_mem st))(c := mul_by_g (mem_cnt (ms_mem st) c))"
    "r = mem_cnt (ms_mem st) c" "mem_get (ms_mem st') = mem_get (ms_mem st)" "written (ms_mem st') = written (ms_mem st)"
    "\<exists>m. st' = st\<lparr>ms_mem := m\<rparr>" "unat c < length (m_cells (ms_mem st'))"
    using v by (auto simp: st' written_st fun_eq_iff)
qed

lemma mach_self: "\<exists>m. st = st\<lparr>ms_mem := m\<rparr>"
  by (rule exI [of _ "ms_mem st"]) simp

text \<open>A run of bumps, read as one.\<close>

lemma st_bumps_ok:
  assumes "mach_ok p E st" "st_bumps cs st = (st', rs)"
  shows "touched p E cs st st' \<and> rs = cnt_reads cs (mem_cnt (ms_mem st)) \<and> mem_get (ms_mem st') = mem_get (ms_mem st) \<and>
    written (ms_mem st') = written (ms_mem st)"
  using assms
proof (induction cs arbitrary: st st' rs)
  case (Cons c cs)
  obtain s1 r rs' where b: "st_bump c st = (s1, r)" and bs: "st_bumps cs s1 = (st', rs')" and rs: "rs = r # rs'"
    using Cons.prems(2) by (auto split: prod.splits)
  note v = st_bump_ok [OF Cons.prems(1) b]
  from Cons.IH [OF v(1) bs] have t: "touched p E cs s1 st'" and r: "rs' = cnt_reads cs (mem_cnt (ms_mem s1))"
    and m: "mem_get (ms_mem st') = mem_get (ms_mem s1)" "written (ms_mem st') = written (ms_mem s1)" by blast+
  have "unat c < length (m_cells (ms_mem st'))" using v(8) t by (auto simp: touched_def mem_grows_def)
  moreover have "ms_g s1 = ms_g st" "\<exists>m. st' = st\<lparr>ms_mem := m\<rparr>" using v(7) t by (auto simp: touched_def)
  ultimately have "touched p E (c # cs) st st'"
    using t v(2) mem_grows_trans [OF v(2)] by (simp add: touched_def v(3))
  moreover have "rs = cnt_reads (c # cs) (mem_cnt (ms_mem st))" unfolding rs r by (simp only: cnt_reads.simps v(3,4))
  ultimately show ?case using m v(5,6) by simp
qed (simp add: touched_def mach_self)

lemma st_bumps_Cons:
  "st_bump c st = (s1, r) \<Longrightarrow> st_bumps cs s1 = (s2, rs) \<Longrightarrow> st_bumps (c # cs) st = (s2, r # rs)"
  by simp

section \<open>One instruction\<close>

definition traces :: "mach \<Rightarrow> _" where
  "traces st = (ms_xor st, ms_mul st, ms_set st, ms_deref st, ms_jump st, ms_blake2s st)"

fun log_row :: "table \<Rightarrow> u32 \<Rightarrow> u32 \<Rightarrow> f64 list \<Rightarrow> f64 \<Rightarrow> mach \<Rightarrow> mach" where
  "log_row (Arith True) pc fp cs br st = st\<lparr>ms_xor := ms_xor st @
     [\<lparr>x_pc = pc, x_fp = fp, x_ra = cs ! 0, x_rb = cs ! 1, x_rc = cs ! 2, x_bytecode_read = br\<rparr>]\<rparr>"
| "log_row (Arith False) pc fp cs br st = st\<lparr>ms_mul := ms_mul st @
     [\<lparr>x_pc = pc, x_fp = fp, x_ra = cs ! 0, x_rb = cs ! 1, x_rc = cs ! 2, x_bytecode_read = br\<rparr>]\<rparr>"
| "log_row SetTable pc fp cs br st = st\<lparr>ms_set := ms_set st @
     [\<lparr>s_pc = pc, s_fp = fp, s_r = cs ! 0, s_bytecode_read = br\<rparr>]\<rparr>"
| "log_row DerefTable pc fp cs br st = st\<lparr>ms_deref := ms_deref st @
     [\<lparr>d_pc = pc, d_fp = fp, d_r1 = cs ! 0, d_r2 = cs ! 1, d_r3 = cs ! 2, d_bytecode_read = br\<rparr>]\<rparr>"
| "log_row JumpTable pc fp cs br st = st\<lparr>ms_jump := ms_jump st @
     [\<lparr>j_pc = pc, j_fp = fp, j_rc = cs ! 0, j_rd = cs ! 1, j_rf = cs ! 2, j_bytecode_read = br\<rparr>]\<rparr>"
| "log_row Blake2sTable pc fp cs br st = st\<lparr>ms_blake2s := ms_blake2s st @
     [\<lparr>b_pc = pc, b_fp = fp, b_ra = [cs ! 0, cs ! 1], b_rb = [cs ! 2, cs ! 3], b_rcv = [cs ! 4, cs ! 5],
       b_rc = [cs ! 6, cs ! 7], b_rmd = cs ! 8, b_bytecode_read = br\<rparr>]\<rparr>"

lemma log_row_same [simp]:
  "ms_mem (log_row t pc fp cs br st) = ms_mem st" "ms_g (log_row t pc fp cs br st) = ms_g st"
  "ms_pc (log_row t pc fp cs br st) = ms_pc st" "ms_fp (log_row t pc fp cs br st) = ms_fp st"
  "ms_bytecode_count (log_row t pc fp cs br st) = ms_bytecode_count st" "ms_left (log_row t pc fp cs br st) = ms_left st"
  "ms_cycles (log_row t pc fp cs br st) = ms_cycles st" "ms_base_counts (log_row t pc fp cs br st) = ms_base_counts st"
  "ms_unconstrained_reads (log_row t pc fp cs br st) = ms_unconstrained_reads st"
  by (cases "(t, pc, fp, cs, br, st)" rule: log_row.cases; simp)+

lemma traces_log_row: "traces st' = traces st \<Longrightarrow> traces (log_row t pc fp cs br st') = traces (log_row t pc fp cs br st)"
  by (cases "(t, pc, fp, cs, br, st)" rule: log_row.cases) (simp_all add: traces_def)

lemma traces_upd [simp]:
  "traces (st\<lparr>ms_mem := m\<rparr>) = traces st" "traces (st\<lparr>ms_pc := a\<rparr>) = traces st" "traces (st\<lparr>ms_fp := b\<rparr>) = traces st"
  "traces (st\<lparr>ms_g := g\<rparr>) = traces st" "traces (st\<lparr>ms_bytecode_count := bc\<rparr>) = traces st"
  by (simp_all add: traces_def)

text \<open>What the instruction of table \<open>t\<close> on the given cells did to the state.\<close>

definition frame_ctl :: "mach \<Rightarrow> _" where
  "frame_ctl st = (ms_bytecode_count st, ms_left st, ms_cycles st, ms_base_counts st, ms_unconstrained_reads st)"

definition did :: "program \<Rightarrow> (u32 \<times> u32) set \<Rightarrow> (u32 \<times> u32) set \<Rightarrow> f64 \<Rightarrow> table \<Rightarrow> u32 list \<Rightarrow> mach \<Rightarrow> mach \<Rightarrow> bool" where
  "did p E E' br t cells st st' \<longleftrightarrow> mach_ok p E' st' \<and> E \<subseteq> E' \<and> mem_grows st st' \<and>
    (\<forall>M. compat E' (ms_mem st') M \<longrightarrow> instr (p_prog p) M t (ms_pc st) (ms_fp st) cells (ms_pc st') (ms_fp st')) \<and>
    mem_cnt (ms_mem st') = cnt_after cells (mem_cnt (ms_mem st)) \<and>
    (\<forall>c\<in>set cells. unat c < length (m_cells (ms_mem st'))) \<and> unat (ms_fp st') < max_cells \<and>
    traces st' = traces (log_row t (ms_pc st) (ms_fp st) (cnt_reads cells (mem_cnt (ms_mem st))) br st) \<and>
    frame_ctl st' = frame_ctl st"

lemma didI:
  assumes ok: "mach_ok p E' s" and E: "E \<subseteq> E'" and grows: "mem_grows st s" and ctl: "control s = control st"
    and bumps: "st_bumps cells s = (s', rs)"
    and st': "st' = (log_row t (ms_pc st) (ms_fp st) rs br s')\<lparr>ms_pc := npc, ms_fp := nfp, ms_g := g\<rparr>"
    and g: "gp_ok g \<and> gp_covered (ms_g s) \<le> gp_covered g" and nfp: "unat nfp < max_cells"
    and instr: "\<And>M. compat E' (ms_mem s') M \<Longrightarrow> instr (p_prog p) M t (ms_pc st) (ms_fp st) cells npc nfp"
  shows "did p E E' br t cells st st'"
proof -
  from st_bumps_ok [OF ok bumps] have t: "touched p E' cells s s'" and rs: "rs = cnt_reads cells (mem_cnt (ms_mem s))"
    and m: "mem_get (ms_mem s') = mem_get (ms_mem s)" "written (ms_mem s') = written (ms_mem s)" by blast+
  obtain m' where s': "s' = s\<lparr>ms_mem := m'\<rparr>" using t by (auto simp: touched_def)
  have "traces s = traces st" using ctl by (simp add: control_iff traces_def)
  then have tr: "traces (log_row u a b x y s') = traces (log_row u a b x y st)" for u a b x y
    using traces_log_row [of s' st] by (simp add: s')
  have "mach_ok p E' st'" using t g by (simp add: touched_def mach_ok_def st')
  moreover have "mem_grows st st'" using mem_grows_trans [OF grows, of s'] t g by (auto simp: touched_def mem_grows_def st')
  moreover have "traces st' = traces (log_row t (ms_pc st) (ms_fp st) (cnt_reads cells (mem_cnt (ms_mem st))) br st)"
    using ctl by (simp add: st' tr rs control_iff)
  moreover have "frame_ctl st' = frame_ctl st" using ctl by (simp add: st' s' frame_ctl_def control_iff)
  ultimately show ?thesis
    using E t ctl nfp instr by (simp add: did_def st' touched_def control_iff)
qed

lemma quiet_prefix: "quiet p E st s \<Longrightarrow> mach_ok p E s \<and> mem_grows st s \<and> control s = control st"
  by (simp add: quiet_def)

lemma st_read_quiet: "mach_ok p E st \<Longrightarrow> st_read c st = (st', v) \<Longrightarrow> quiet p E st st'"
  using st_read_ok(1,2,3) by (simp add: quiet_def)

lemma controlD: "control s = control st \<Longrightarrow> ms_pc s = ms_pc st" "control s = control st \<Longrightarrow> ms_fp s = ms_fp st"
  by (simp_all add: control_iff)

text \<open>A value seen on the way is the value in every compatible memory.\<close>

lemma compat_seen:
  assumes "compat E' m M" "mem_le (ms_mem s) m" "written (ms_mem s) c"
  shows "M c = mem_get (ms_mem s) c"
  using assms by (simp add: compat_def mem_leD)

lemma step_set_did:
  assumes ok: "mach_ok p E st" and fp: "unat (ms_fp st) < max_cells" and pc: "unat (ms_pc st) < length (p_prog p)"
    and op: "p_prog p ! unat (ms_pc st) = OpSet d k" and run: "step_set d k br st = Inr st'"
  shows "did p E E br SetTable [ms_fp st + d] st st'"
proof -
  let ?a = "ms_fp st + d"
  obtain s where put: "st_put ?a k st = Inr s" using run by (auto simp: step_set_def Let_def res_bind_eq_Inr)
  obtain s' r where b: "st_bump ?a s = (s', r)" by fastforce
  note q = keepsD [OF keeps_put put ok]
  obtain m where m: "mem_put ?a k (ms_mem st) = Inr m" "s = st\<lparr>ms_mem := m\<rparr>" using put by (auto simp: st_put_iff)
  note w = mem_put_ok [OF mach_okD(1) [OF ok] m(1)]
  note v = st_bump_ok [OF quietD(1) [OF q] b]
  note c = controlD [OF quietD(3) [OF q]]
  have st': "st' = (log_row SetTable (ms_pc st) (ms_fp st) [r] br s')\<lparr>ms_pc := ms_pc st + 1, ms_fp := ms_fp st, ms_g := ms_g s'\<rparr>"
    using run put b c v(7) by (auto simp: step_set_def Let_def)
  show ?thesis
  proof (rule didI [OF quietD(1) [OF q] subset_refl quietD(2,3) [OF q] _ st'])
    show "st_bumps [?a] s = (s', [r])" using b by simp
    fix M assume "compat E (ms_mem s') M"
    then have "M ?a = k" using w(3,4) v(5,6) by (simp add: compat_def m(2))
    then show "instr (p_prog p) M SetTable (ms_pc st) (ms_fp st) [?a] (ms_pc st + 1) (ms_fp st)"
      by (rule instr_set [OF pc op])
  qed (use fp mach_okD(3) [OF v(1)] v(7) in auto)
qed

lemma st_put_seen:
  assumes "mach_ok p E st" "st_put c v st = Inr s"
  shows "written (ms_mem s) c" "mem_get (ms_mem s) c = v"
proof -
  obtain m where m: "mem_put c v (ms_mem st) = Inr m" "s = st\<lparr>ms_mem := m\<rparr>" using assms(2) by (auto simp: st_put_iff)
  show "written (ms_mem s) c" "mem_get (ms_mem s) c = v"
    using mem_put_ok(3,4) [OF mach_okD(1) [OF assms(1)] m(1)] by (simp_all add: m(2))
qed

lemma keeps_back_solve: "keeps p E (back_solve q aa ab ac)"
  unfolding back_solve_def Let_def by (intro keeps_if keeps_fail keeps_put_arg keeps_Inr)

lemma grows_seen: "mem_grows s s' \<Longrightarrow> written (ms_mem s) c \<Longrightarrow> written (ms_mem s') c \<and> mem_get (ms_mem s') c = mem_get (ms_mem s) c"
  by (simp add: mem_grows_def mem_le_def)

text \<open>Bumps see no more than was there before them.\<close>

lemma bumps_compat: "mach_ok p E s \<Longrightarrow> st_bumps cs s = (s', rs) \<Longrightarrow> compat E' (ms_mem s') M = compat E' (ms_mem s) M"
  using st_bumps_ok by (fastforce simp: compat_def)

lemma st_bumps3: "st_bump a s = (s1, ra) \<Longrightarrow> st_bump b s1 = (s2, rb) \<Longrightarrow> st_bump c s2 = (s3, rc) \<Longrightarrow>
   st_bumps [a, b, c] s = (s3, [ra, rb, rc])"
  by simp

lemma bumps_same:
  "mach_ok p E s \<Longrightarrow> st_bumps cs s = (s', rs) \<Longrightarrow> ms_pc s' = ms_pc s \<and> ms_fp s' = ms_fp s \<and> gp_ok (ms_g s') \<and> mach_ok p E s' \<and>
    gp_covered (ms_g s') = gp_covered (ms_g s)"
  using st_bumps_ok [of p E s cs s' rs] by (auto simp: touched_def mach_okD)

lemma step_arith_did:
  assumes ok: "mach_ok p E st" and fp: "unat (ms_fp st) < max_cells" and pc: "unat (ms_pc st) < length (p_prog p)"
    and op: "p_prog p ! unat (ms_pc st) = (if isx then OpXor a b c else OpMul a b c)"
    and run: "step_arith p isx a b c br st = Inr st'"
  shows "did p E E br (Arith isx) [ms_fp st + a, ms_fp st + b, ms_fp st + c] st st'"
proof -
  let ?aa = "ms_fp st + a" and ?ab = "ms_fp st + b" and ?ac = "ms_fp st + c"
  let ?f = "\<lambda>x y. if isx then f192_add x y else f192_mul x y"
  obtain s0 where s0: "(if isx then Inr st else back_solve p ?aa ?ab ?ac st) = Inr s0"
    using run by (auto simp: step_arith_def Let_def res_bind_eq_Inr)
  obtain s1 va where s1: "st_read ?aa s0 = (s1, va)" by fastforce
  obtain s2 vb where s2: "st_read ?ab s1 = (s2, vb)" by fastforce
  obtain s3 where s3: "st_put ?ac (?f va vb) s2 = Inr s3"
    using run s0 s1 s2 by (auto simp: step_arith_def Let_def res_bind_eq_Inr)
  obtain s4 ra where s4: "st_bump ?aa s3 = (s4, ra)" by fastforce
  obtain s5 rb where s5: "st_bump ?ab s4 = (s5, rb)" by fastforce
  obtain s6 rc where s6: "st_bump ?ac s5 = (s6, rc)" by fastforce
  have q0: "quiet p E st s0" using s0 keepsD [OF keeps_back_solve _ ok] quiet_refl [OF ok] by (auto split: if_splits)
  note r1 = st_read_ok [OF quietD(1) [OF q0] s1]
  note q1 = quiet_trans [OF q0 st_read_quiet [OF quietD(1) [OF q0] s1]]
  note r2 = st_read_ok [OF quietD(1) [OF q1] s2]
  note q2 = quiet_trans [OF q1 st_read_quiet [OF quietD(1) [OF q1] s2]]
  note p3 = st_put_seen [OF quietD(1) [OF q2] s3]
  note k3 = keepsD [OF keeps_put s3 quietD(1) [OF q2]]
  note q3 = quiet_trans [OF q2 k3]
  note b = st_bumps3 [OF s4 s5 s6]
  have seen: "written (ms_mem s3) ?aa" "mem_get (ms_mem s3) ?aa = va" "written (ms_mem s3) ?ab" "mem_get (ms_mem s3) ?ab = vb"
    using grows_seen [OF r2(2) r1(4)] grows_seen [OF quietD(2) [OF k3]] r1 r2 by auto
  note c = controlD [OF quietD(3) [OF q3]]
  note same = bumps_same [OF quietD(1) [OF q3] b]
  have st': "st' = (log_row (Arith isx) (ms_pc st) (ms_fp st) [ra, rb, rc] br s6)
      \<lparr>ms_pc := ms_pc st + 1, ms_fp := ms_fp st, ms_g := ms_g s6\<rparr>"
    using run s0 s1 s2 s3 s4 s5 s6 c same by (cases isx) (auto simp: step_arith_def Let_def)
  show ?thesis
  proof (rule didI [OF quietD(1) [OF q3] subset_refl quietD(2,3) [OF q3] b st'])
    fix M assume "compat E (ms_mem s6) M"
    then have M: "compat E (ms_mem s3) M" using bumps_compat [OF quietD(1) [OF q3] b] by simp
    have "M ?ac = ?f (M ?aa) (M ?ab)" using seen p3 by (simp add: compat_get [OF M])
    then show "instr (p_prog p) M (Arith isx) (ms_pc st) (ms_fp st) [?aa, ?ab, ?ac] (ms_pc st + 1) (ms_fp st)"
      using pc op by (cases isx) (auto intro: instr_xor instr_mul)
  qed (use fp same in simp_all)
qed

lemma as_addr_Some: "as_addr v = Some x \<longleftrightarrow> v = f192_from x"
  by (cases v; cases x) (auto simp: as_addr_def f192_from_def)

lemma as_addr_from [simp]: "as_addr (f192_from x) = Some x"
  by (simp add: as_addr_Some)

lemma f192_from_inj [simp]: "f192_from x = f192_from y \<longleftrightarrow> x = y"
  by (cases x; cases y) (auto simp: f192_from_def)

lemma in_k_Inr: "in_k what v = Inr x \<longleftrightarrow> v = f192_from x"
  by (cases "as_addr v") (auto simp: in_k_def as_addr_Some)

lemma st_log_found:
  assumes "mach_ok p E st" "st_log x st = Inr (st', r)"
  shows "quiet p E st st'" "r = Some k \<Longrightarrow> k < max_cells \<and> x = f64_g ^ k" "\<exists>g. st' = st\<lparr>ms_g := g\<rparr>"
proof -
  obtain g where g: "gp_log x (ms_g st) = Some (g, r)" "st' = st\<lparr>ms_g := g\<rparr>"
    using assms(2) by (auto simp: st_log_def res_bind_eq_Inr)
  show "quiet p E st st'" using keeps_valD [OF keeps_log assms(2,1)] .
  have "gp_covered (ms_g st) \<le> max_cells" using mach_okD(3) [OF assms(1)] by (simp add: gp_ok_def gp_inv_def gp_covered_def)
  then show "r = Some k \<Longrightarrow> k < max_cells \<and> x = f64_g ^ k"
    using gi.log_found [OF mach_okD(3) [OF assms(1)]] g(1) by fastforce
  show "\<exists>g. st' = st\<lparr>ms_g := g\<rparr>" using g(2) by blast
qed

lemma st_grow_upd: "st_grow n st = Inr st' \<Longrightarrow> \<exists>g. st' = st\<lparr>ms_g := g\<rparr>"
  by (auto simp: st_grow_def res_bind_eq_Inr)

lemma st_note_upd: "st_note n st = Inr st' \<Longrightarrow> \<exists>g. st' = st\<lparr>ms_g := g\<rparr>"
  by (auto simp: st_note_def res_bind_eq_Inr)

lemma st_pow_ok: "mach_ok p E st \<Longrightarrow> st_pow k st = Inr x \<Longrightarrow> x = f64_g ^ k"
  using gp_pow_nth [of "ms_g st" k]
  by (auto simp: st_pow_def gp_pow_at_def mach_ok_def gp_ok_def gp_inv_def split: if_splits)

lemma deref_base_ok:
  assumes ok: "mach_ok p E st" and run: "deref_base q ptr st = Inr (st', w)"
  shows "quiet p E st st'" "\<exists>k. w = of_nat k \<and> k < max_cells \<and> ptr = f192_from (f64_g ^ k)"
proof -
  obtain x s1 r where x: "ptr = f192_from x" and s1: "st_log x st = Inr (s1, r)"
    and rest: "case r of Some k \<Rightarrow> st' = s1 \<and> w = of_nat k
      | None \<Rightarrow> \<exists>s2 s3 k. st_grow (2 ^ min_log_mem) s1 = Inr s2 \<and> st_log x s2 = Inr (st', Some k) \<and> w = of_nat k"
    using run by (auto simp: deref_base_def res_bind_eq_Inr as_addr_Some split: option.splits prod.splits)
  note l1 = st_log_found [OF ok s1]
  have "quiet p E st st' \<and> (\<exists>k. w = of_nat k \<and> k < max_cells \<and> ptr = f192_from (f64_g ^ k))"
  proof (cases r)
    case (Some k)
    then show ?thesis using rest l1(1,2) x by auto
  next
    case None
    then obtain s2 k where s2: "st_grow (2 ^ min_log_mem) s1 = Inr s2" "st_log x s2 = Inr (st', Some k)" "w = of_nat k"
      using rest by auto
    note q = quiet_trans [OF l1(1) keepsD [OF keeps_grow s2(1) quietD(1) [OF l1(1)]]]
    note l2 = st_log_found [OF quietD(1) [OF q] s2(2)]
    show ?thesis using quiet_trans [OF q l2(1)] l2(2) [OF refl] s2(3) x by auto
  qed
  then show "quiet p E st st'" "\<exists>k. w = of_nat k \<and> k < max_cells \<and> ptr = f192_from (f64_g ^ k)" by blast+
qed

text \<open>The effect of a \<^verbatim>\<open>DEREF\<close> on its two cells: equal, or the stored counter.\<close>

lemma mach_ok_link:
  assumes ok: "mach_ok p E st" and "\<not> written (ms_mem st) a" "\<not> written (ms_mem st) b"
  shows "mach_ok p (E \<union> {(a, b), (b, a)}) (st_link a b st)" "mem_grows st (st_link a b st)"
    "control (st_link a b st) = control st"
proof -
  note v = mem_link_views [OF mach_okD(1) [OF ok] assms(2,3)]
  show "mach_ok p (E \<union> {(a, b), (b, a)}) (st_link a b st)" "mem_grows st (st_link a b st)"
    "control (st_link a b st) = control st"
    using v ok mem_frame_program [OF v(4)]
    by (simp_all add: st_link_def mach_ok_def mem_grows_def control_iff mem_frame_def)
qed

definition deref_value :: "deref_mode \<Rightarrow> (u32 \<Rightarrow> f192) \<Rightarrow> u32 \<Rightarrow> u32 \<Rightarrow> u32 \<Rightarrow> f192" where
  "deref_value mode M pc fp a3 = (case mode of ModeCell \<Rightarrow> M a3
     | ModePc \<Rightarrow> f192_from (f64_g ^ (unat pc + 2)) | ModeFp \<Rightarrow> f192_from (f64_g ^ unat fp))"

lemma deref_effect_ok:
  assumes ok: "mach_ok p E st" and run: "deref_effect mode a2 a3 st = Inr st'"
  shows "\<exists>E'. E \<subseteq> E' \<and> mach_ok p E' st' \<and> mem_grows st st' \<and> control st' = control st \<and>
    (\<forall>M. compat E' (ms_mem st') M \<longrightarrow> M a2 = deref_value mode M (ms_pc st) (ms_fp st) a3)"
proof (cases mode)
  case ModeCell
  note run = run [unfolded ModeCell deref_effect_def deref_mode.case]
  have copy: "mach_ok p E st' \<and> mem_grows st st' \<and> control st' = control st \<and> (\<forall>M. compat E (ms_mem st') M \<longrightarrow> M x = M y)"
    if w: "written (ms_mem st) y" and put: "st_put x (m_cells (ms_mem st) ! unat y) st = Inr st'" for x y
  proof -
    note q = keepsD [OF keeps_put put ok]
    have "unat y < length (m_cells (ms_mem st))" using w mem_wfD(1) [OF mach_okD(2) [OF ok]] by (simp add: written_def)
    then have y: "m_cells (ms_mem st) ! unat y = mem_get (ms_mem st) y" by (simp add: mem_get_def)
    show ?thesis
      using quiet_prefix [OF q] st_put_seen [OF ok put] grows_seen [OF quietD(2) [OF q] w] y by (auto simp: compat_def)
  qed
  consider "written (ms_mem st) a2" "st_put a3 (m_cells (ms_mem st) ! unat a2) st = Inr st'"
    | "written (ms_mem st) a3" "st_put a2 (m_cells (ms_mem st) ! unat a3) st = Inr st'"
    | "\<not> written (ms_mem st) a2" "\<not> written (ms_mem st) a3" "st' = st_link a2 a3 st"
    using run by (auto split: if_splits)
  then show ?thesis
  proof cases
    case 1
    then show ?thesis using copy [OF 1] by (auto simp: deref_value_def ModeCell intro!: exI [of _ E])
  next
    case 2
    then show ?thesis using copy [OF 2] by (auto simp: deref_value_def ModeCell intro!: exI [of _ E])
  next
    case 3
    let ?E = "E \<union> {(a2, a3), (a3, a2)}"
    have "M a2 = M a3" if "compat ?E (ms_mem st') M" for M using compat_link [OF that] by blast
    moreover have "E \<subseteq> ?E" by blast
    ultimately show ?thesis
      using mach_ok_link [OF ok 3(1,2)] 3(3)
      by (intro exI [of _ ?E]) (simp add: deref_value_def ModeCell)
  qed
next
  case ModePc
  obtain s1 x where s1: "st_note (unat (ms_pc st) + 2) st = Inr s1" and x0: "st_pow (unat (ms_pc s1) + 2) s1 = Inr x"
    and put: "st_put a2 (f192_from x) s1 = Inr st'" using run by (auto simp: deref_effect_def ModePc res_bind_eq_Inr)
  have x: "st_pow (unat (ms_pc st) + 2) s1 = Inr x" using x0 st_note_upd [OF s1] by auto
  note q1 = keepsD [OF keeps_note s1 ok]
  note q2 = quiet_trans [OF q1 keepsD [OF keeps_put put quietD(1) [OF q1]]]
  show ?thesis
    using quiet_prefix [OF q2] st_put_seen [OF quietD(1) [OF q1] put] st_pow_ok [OF quietD(1) [OF q1] x]
    by (intro exI [of _ E]) (auto simp: deref_value_def ModePc compat_def)
next
  case ModeFp
  obtain s1 x where s1: "st_note (unat (ms_fp st)) st = Inr s1" and x0: "st_pow (unat (ms_fp s1)) s1 = Inr x"
    and put: "st_put a2 (f192_from x) s1 = Inr st'" using run by (auto simp: deref_effect_def ModeFp res_bind_eq_Inr)
  have x: "st_pow (unat (ms_fp st)) s1 = Inr x" using x0 st_note_upd [OF s1] by auto
  note q1 = keepsD [OF keeps_note s1 ok]
  note q2 = quiet_trans [OF q1 keepsD [OF keeps_put put quietD(1) [OF q1]]]
  show ?thesis
    using quiet_prefix [OF q2] st_put_seen [OF quietD(1) [OF q1] put] st_pow_ok [OF quietD(1) [OF q1] x]
    by (intro exI [of _ E]) (auto simp: deref_value_def ModeFp compat_def)
qed

lemma step_deref_did:
  assumes ok: "mach_ok p E st" and fp: "unat (ms_fp st) < max_cells" and pc: "unat (ms_pc st) < length (p_prog p)"
    and op: "p_prog p ! unat (ms_pc st) = OpDeref o1 o2 o3 mode" and run: "step_deref p o1 o2 o3 mode br st = Inr st'"
  shows "\<exists>E' cells. did p E E' br DerefTable cells st st'"
proof -
  let ?a1 = "ms_fp st + o1" and ?a3 = "ms_fp st + o3"
  obtain s1 ptr where s1: "st_read ?a1 st = (s1, ptr)" by fastforce
  note r1 = st_read_ok [OF ok s1]
  note c1 = controlD [OF r1(3)]
  obtain s2 base where s2: "deref_base p ptr s1 = Inr (s2, base)"
    using run s1 by (auto simp: step_deref_def Let_def res_bind_eq_Inr)
  note d = deref_base_ok [OF r1(1) s2]
  obtain k where k: "base = of_nat k" "k < max_cells" "ptr = f192_from (f64_g ^ k)" using d(2) by blast
  note q2 = quiet_trans [OF st_read_quiet [OF ok s1] d(1)]
  note c2 = controlD [OF quietD(3) [OF q2]]
  let ?a2 = "of_nat k + o2"
  obtain s3 where s3: "deref_effect mode ?a2 ?a3 s2 = Inr s3"
    using run s1 s2 c2 by (auto simp: step_deref_def Let_def res_bind_eq_Inr k(1))
  from deref_effect_ok [OF quietD(1) [OF q2] s3] obtain E' where E: "E \<subseteq> E'" and ok3: "mach_ok p E' s3"
    and g3: "mem_grows s2 s3" and ct3: "control s3 = control s2"
    and M3: "\<And>M. compat E' (ms_mem s3) M \<Longrightarrow> M ?a2 = deref_value mode M (ms_pc s2) (ms_fp s2) ?a3" by blast
  obtain s4 ra where s4: "st_bump ?a1 s3 = (s4, ra)" by fastforce
  obtain s5 rb where s5: "st_bump ?a2 s4 = (s5, rb)" by fastforce
  obtain s6 rc where s6: "st_bump ?a3 s5 = (s6, rc)" by fastforce
  note b = st_bumps3 [OF s4 s5 s6]
  note same = bumps_same [OF ok3 b]
  have ctl: "control s3 = control st" and grows: "mem_grows st s3"
    using ct3 quietD(3) [OF q2] mem_grows_trans [OF quietD(2) [OF q2] g3] by simp_all
  note c3 = controlD [OF ctl]
  have st': "st' = (log_row DerefTable (ms_pc st) (ms_fp st) [ra, rb, rc] br s6)
      \<lparr>ms_pc := ms_pc st + 1, ms_fp := ms_fp st, ms_g := ms_g s6\<rparr>"
    using run s1 s2 s3 s4 s5 s6 c2 c3 same k(1) by (auto simp: step_deref_def Let_def)
  have "did p E E' br DerefTable [?a1, ?a2, ?a3] st st'"
  proof (rule didI [OF ok3 E grows ctl b st'])
    fix M assume "compat E' (ms_mem s6) M"
    then have M: "compat E' (ms_mem s3) M" using bumps_compat [OF ok3 b] by simp
    have "written (ms_mem s3) ?a1" "mem_get (ms_mem s3) ?a1 = ptr"
      using grows_seen [OF mem_grows_trans [OF quietD(2) [OF d(1)] g3] r1(4)] r1(5,6) by simp_all
    then have "M ?a1 = f192_from (f64_g ^ k)" using compat_get [OF M] k(3) by simp
    then show "instr (p_prog p) M DerefTable (ms_pc st) (ms_fp st) [?a1, ?a2, ?a3] (ms_pc st + 1) (ms_fp st)"
      using M3 [OF M] c2 by (intro instr_deref [OF pc op _ k(2)]) (simp_all add: deref_value_def)
  qed (use fp same in simp_all)
  then show ?thesis by blast
qed

lemma step_jump_did:
  assumes ok: "mach_ok p E st" and fp: "unat (ms_fp st) < max_cells" and pc: "unat (ms_pc st) < length (p_prog p)"
    and len: "length (p_prog p) < max_cells"
    and op: "p_prog p ! unat (ms_pc st) = OpJump oc od of'" and run: "step_jump p oc od of' br st = Inr st'"
  shows "did p E E br JumpTable [ms_fp st + oc, ms_fp st + od, ms_fp st + of'] st st'"
proof -
  let ?ac = "ms_fp st + oc" and ?ad = "ms_fp st + od" and ?af = "ms_fp st + of'"
  obtain s1 wc where s1: "st_read ?ac st = (s1, wc)" by fastforce
  obtain s2 wd where s2: "st_read ?ad s1 = (s2, wd)" by fastforce
  obtain s3 wf where s3: "st_read ?af s2 = (s3, wf)" by fastforce
  obtain s4 rc where s4: "st_bump ?ac s3 = (s4, rc)" by fastforce
  obtain s5 rd where s5: "st_bump ?ad s4 = (s5, rd)" by fastforce
  obtain s6 rf where s6: "st_bump ?af s5 = (s6, rf)" by fastforce
  note b = st_bumps3 [OF s4 s5 s6]
  note q1 = st_read_quiet [OF ok s1]
  note q2 = quiet_trans [OF q1 st_read_quiet [OF quietD(1) [OF q1] s2]]
  note q3 = quiet_trans [OF q2 st_read_quiet [OF quietD(1) [OF q2] s3]]
  note r1 = st_read_ok [OF ok s1] and r2 = st_read_ok [OF quietD(1) [OF q1] s2] and r3 = st_read_ok [OF quietD(1) [OF q2] s3]
  note same = bumps_same [OF quietD(1) [OF q3] b]
  note ct = controlD [OF quietD(3) [OF q3]]
  obtain c d f where cdf: "wc = f192_from c" "wd = f192_from d" "wf = f192_from f"
    using run s1 s2 s3 by (auto simp: step_jump_def Let_def res_bind_eq_Inr in_k_Inr)
  let ?row = "log_row JumpTable (ms_pc st) (ms_fp st) [rc, rd, rf] br s6"
  define row where "row = ?row"
  have row_ok: "mach_ok p E row" using same by (simp add: row_def mach_ok_def)
  have cov_row: "gp_covered (ms_g s3) \<le> gp_covered (ms_g row)" using same by (simp add: row_def)
  have "\<exists>npc nfp g. st' = row\<lparr>ms_pc := npc, ms_fp := nfp, ms_g := g\<rparr> \<and> (gp_ok g \<and> gp_covered (ms_g s3) \<le> gp_covered g) \<and>
     unat nfp < max_cells \<and> (c \<noteq> F64 0 \<longrightarrow> d = f64_g ^ unat npc \<and> unat npc < length (p_prog p) \<and> f = f64_g ^ unat nfp) \<and>
     (c = F64 0 \<longrightarrow> npc = ms_pc st + 1 \<and> nfp = ms_fp st)"
  proof (cases "f64_is_zero c")
    case True
    then have "st' = row\<lparr>ms_pc := ms_pc st + 1, ms_fp := ms_fp st, ms_g := ms_g row\<rparr>"
      using run s1 s2 s3 s4 s5 s6 ct same cdf by (auto simp: step_jump_def Let_def in_k_Inr row_def in_k_def or_fail_def)
    moreover have "c = F64 0" using True by (cases c) (simp add: f64_is_zero_def)
    ultimately show ?thesis
      using fp mach_okD(3) [OF row_ok] cov_row
      by (intro exI [of _ "ms_pc st + 1"] exI [of _ "ms_fp st"] exI [of _ "ms_g row"]) simp
  next
    case False
    then have "\<exists>s7 t s8 k. st_log d row = Inr (s7, Some t) \<and> t < length (p_prog p) \<and> st_log f s7 = Inr (s8, Some k) \<and>
        st' = s8\<lparr>ms_pc := of_nat t, ms_fp := of_nat k\<rparr>"
      using run s1 s2 s3 s4 s5 s6 ct same cdf
      by (auto simp: step_jump_def Let_def in_k_def or_fail_def res_bind_eq_Inr row_def split: option.splits if_splits)
    then obtain s7 t s8 k where j: "st_log d row = Inr (s7, Some t)" "t < length (p_prog p)" "st_log f s7 = Inr (s8, Some k)"
      "st' = s8\<lparr>ms_pc := of_nat t, ms_fp := of_nat k\<rparr>" by blast
    note l1 = st_log_found [OF row_ok j(1)]
    note l2 = st_log_found [OF quietD(1) [OF l1(1)] j(3)]
    have t: "unat (of_nat t :: u32) = t" "unat (of_nat k :: u32) = k"
      using j(2) len l2(2) [OF refl] by (simp_all add: unat_of_nat max_cells_def)
    obtain g where "s8 = row\<lparr>ms_g := g\<rparr>" using l1(3) l2(3) by auto
    moreover from this have "gp_ok g" "gp_covered (ms_g s3) \<le> gp_covered g"
      using mach_okD(3) [OF quietD(1) [OF l2(1)]] quietD(2) [OF l1(1)] quietD(2) [OF l2(1)] cov_row
      by (simp_all add: mem_grows_def)
    ultimately show ?thesis using j(2,4) l1(2) [OF refl] l2(2) [OF refl] t False
      by (intro exI [of _ "of_nat t"] exI [of _ "of_nat k"] exI [of _ g]) (auto simp: f64_is_zero_def)
  qed
  then obtain npc nfp g where st': "st' = ?row\<lparr>ms_pc := npc, ms_fp := nfp, ms_g := g\<rparr>" and g: "gp_ok g \<and> gp_covered (ms_g s3) \<le> gp_covered g" "unat nfp < max_cells"
    and taken: "c \<noteq> F64 0 \<Longrightarrow> d = f64_g ^ unat npc \<and> unat npc < length (p_prog p) \<and> f = f64_g ^ unat nfp"
    and fall: "c = F64 0 \<Longrightarrow> npc = ms_pc st + 1 \<and> nfp = ms_fp st" unfolding row_def by blast
  show ?thesis
  proof (rule didI [OF quietD(1) [OF q3] subset_refl quietD(2,3) [OF q3] b st' g])
    fix M assume "compat E (ms_mem s6) M"
    then have M: "compat E (ms_mem s3) M" using bumps_compat [OF quietD(1) [OF q3] b] by simp
    have "M ?ac = wc" "M ?ad = wd" "M ?af = wf"
      using compat_get [OF M] grows_seen [OF mem_grows_trans [OF r2(2) r3(2)] r1(4)] grows_seen [OF r3(2) r2(4)] r3(4)
      by (simp_all add: r1(5,6) r2(5,6) r3(5,6))
    then show "instr (p_prog p) M JumpTable (ms_pc st) (ms_fp st) [?ac, ?ad, ?af] npc nfp"
      using taken fall g(2) by (intro instr_jump [OF pc op]) (simp_all add: cdf)
  qed
qed

lemma st_reads_ok:
  assumes "mach_ok p E st" "st_reads cs st = (st', vs)"
  shows "quiet p E st st' \<and> (\<forall>c\<in>set cs. written (ms_mem st') c) \<and> mem_get (ms_mem st') = mem_get (ms_mem st) \<and>
    vs = map (mem_get (ms_mem st)) cs \<and> (\<exists>m. st' = st\<lparr>ms_mem := m\<rparr>)"
  using assms
proof (induction cs arbitrary: st st' vs)
  case (Cons c cs)
  obtain s1 v vs' where r: "st_read c st = (s1, v)" and rs: "st_reads cs s1 = (st', vs')" and vs: "vs = v # vs'"
    using Cons.prems(2) by (auto split: prod.splits)
  note k = st_read_ok [OF Cons.prems(1) r]
  note ih = Cons.IH [OF k(1) rs]
  have "written (ms_mem st') c" using ih grows_seen [OF _ k(4)] by (auto simp: quiet_def)
  then show ?case using ih k(5,6,7) quiet_trans [OF st_read_quiet [OF Cons.prems(1) r]] vs by auto
qed (simp add: quiet_refl mach_self)

lemma st_bumps_append:
  "st_bumps xs s = (s1, rs) \<Longrightarrow> st_bumps ys s1 = (s2, qs) \<Longrightarrow> st_bumps (xs @ ys) s = (s2, rs @ qs)"
  by (induction xs arbitrary: s rs) (auto split: prod.splits)

lemma blake2s_compress_length: "blake2s_compress va vb vcv md = Some vc \<Longrightarrow> \<exists>w x y z. vc = [w, x, y, z]"
  by (auto simp: blake2s_compress_def digest_def Let_def split: prod.splits) (simp add: upt_rec numeral_eq_Suc)

lemma find_enumerate_None: "find P (enumerate n xs) = None \<Longrightarrow> (\<And>i x. P (i, x) \<longleftrightarrow> Q x) \<Longrightarrow> \<forall>x\<in>set xs. \<not> Q x"
  by (induction xs arbitrary: n) (auto split: if_splits)

lemma lane_pair_F192 [simp]: "lane_pair (F192 (raw64 x) (raw64 y) 0) = [x, y]"
  by (simp add: lane_pair_def)

declare st_reads.simps [simp del] st_bumps.simps [simp del]

lemma step_blake2s_did:
  assumes ok: "mach_ok p E st" and fp: "unat (ms_fp st) < max_cells" and pc: "unat (ms_pc st) < length (p_prog p)"
    and op: "p_prog p ! unat (ms_pc st) = OpBlake2s i0 i1 i2 i3 cv out md"
    and run: "step_blake2s p i0 i1 i2 i3 cv out md br st = Inr st'"
  shows "did p E E br Blake2sTable [ms_fp st + i0, ms_fp st + i1, ms_fp st + i2, ms_fp st + i3, ms_fp st + cv, ms_fp st + cv + 1,
    ms_fp st + out, ms_fp st + out + 1, ms_fp st + md] st st'"
proof -
  let ?aa0 = "ms_fp st + i0" and ?aa1 = "ms_fp st + i1" and ?ab0 = "ms_fp st + i2" and ?ab1 = "ms_fp st + i3"
    and ?acv = "ms_fp st + cv" and ?ac = "ms_fp st + out" and ?amd = "ms_fp st + md"
  let ?ins = "[?aa0, ?aa1, ?ab0, ?ab1, ?acv, ?acv + 1, ?amd]"
  obtain s1 words where s1: "st_reads ?ins st = (s1, words)" by fastforce
  have words: "words = map (mem_get (ms_mem st)) ?ins" and q1: "quiet p E st s1" and w1: "\<forall>c\<in>set ?ins. written (ms_mem s1) c"
    and g1: "mem_get (ms_mem s1) = mem_get (ms_mem st)" using st_reads_ok [OF ok s1] by blast+
  let ?g = "mem_get (ms_mem st)"
  note run = run [unfolded step_blake2s_def Let_def s1 prod.case]
  have none: "find (\<lambda>(i, w). coeff2 w \<noteq> 0) (enumerate 0 words) = None"
    using run by (cases "find (\<lambda>(i, w). coeff2 w \<noteq> 0) (enumerate 0 words)") auto
  note run = run [unfolded none option.case]
  have canon: "\<forall>w\<in>set words. coeff2 w = 0" using find_enumerate_None [OF none, of "\<lambda>w. coeff2 w \<noteq> 0"] by simp
  let ?va = "lane_pair (?g ?aa0) @ lane_pair (?g ?aa1)" and ?vb = "lane_pair (?g ?ab0) @ lane_pair (?g ?ab1)"
    and ?vcv = "lane_pair (?g ?acv) @ lane_pair (?g (?acv + 1))"
  have nth: "words ! 0 = ?g ?aa0" "words ! 1 = ?g ?aa1" "words ! 2 = ?g ?ab0" "words ! 3 = ?g ?ab1" "words ! 4 = ?g ?acv"
    "words ! 5 = ?g (?acv + 1)" "words ! 6 = ?g ?amd" by (simp_all add: words)
  note run = run [unfolded nth]
  obtain vc s2 s3 where vc: "blake2s_compress ?va ?vb ?vcv (?g ?amd) = Some vc"
    and s2: "st_put ?ac (F192 (raw64 (vc ! 0)) (raw64 (vc ! 1)) 0) s1 = Inr s2"
    and s3: "st_put (?ac + 1) (F192 (raw64 (vc ! 2)) (raw64 (vc ! 3)) 0) s2 = Inr s3"
    using run unfolding res_bind_eq_Inr or_panic_Inr by blast
  note run = run [unfolded vc or_panic_def option.case res_bind_Inr s2 s3]
  obtain x0 x1 x2 x3 where x: "vc = [x0, x1, x2, x3]" using blake2s_compress_length [OF vc] by blast
  note p2 = st_put_seen [OF quietD(1) [OF q1] s2]
  note k2 = keepsD [OF keeps_put s2 quietD(1) [OF q1]]
  note q2 = quiet_trans [OF q1 k2]
  note p3 = st_put_seen [OF quietD(1) [OF q2] s3]
  note k3 = keepsD [OF keeps_put s3 quietD(1) [OF q2]]
  note q3 = quiet_trans [OF q2 k3]
  obtain t1 ra where t1: "st_bumps [?aa0, ?aa1] s3 = (t1, ra)" by fastforce
  obtain t2 rb where t2: "st_bumps [?ab0, ?ab1] t1 = (t2, rb)" by fastforce
  obtain t3 rcv where t3: "st_bumps [?acv, ?acv + 1] t2 = (t3, rcv)" by fastforce
  obtain t4 rc where t4: "st_bumps [?ac, ?ac + 1] t3 = (t4, rc)" by fastforce
  obtain t5 rmd where t5: "st_bump ?amd t4 = (t5, rmd)" by fastforce
  have "st_bumps [?amd] t4 = (t5, [rmd])" using t5 by (simp add: st_bumps.simps)
  from st_bumps_append [OF t1 st_bumps_append [OF t2 st_bumps_append [OF t3 st_bumps_append [OF t4 this]]]]
  have b: "st_bumps [?aa0, ?aa1, ?ab0, ?ab1, ?acv, ?acv + 1, ?ac, ?ac + 1, ?amd] s3 = (t5, ra @ rb @ rcv @ rc @ [rmd])" by simp
  have pair: "length rs = 2" if "st_bumps [u, v] s = (s', rs)" for u v s s' rs using that by (auto simp: st_bumps.simps split: prod.splits)
  obtain a0 a1 b0 b1 v0 v1 c0 c1 where rs: "ra = [a0, a1]" "rb = [b0, b1]" "rcv = [v0, v1]" "rc = [c0, c1]"
    using pair [OF t1] pair [OF t2] pair [OF t3] pair [OF t4] by (auto simp: length_Suc_conv numeral_2_eq_2)
  note same = bumps_same [OF quietD(1) [OF q3] b]
  note ct = controlD [OF quietD(3) [OF q3]]
  have st': "st' = (log_row Blake2sTable (ms_pc st) (ms_fp st) (ra @ rb @ rcv @ rc @ [rmd]) br t5)
      \<lparr>ms_pc := ms_pc st + 1, ms_fp := ms_fp st, ms_g := ms_g t5\<rparr>"
    using run [unfolded t1 t2 t3 t4 t5 prod.case] ct same by (auto simp: rs eval_nat_numeral)
  show ?thesis
  proof (rule didI [OF quietD(1) [OF q3] subset_refl quietD(2,3) [OF q3] b st'])
    fix M assume "compat E (ms_mem t5) M"
    then have M: "compat E (ms_mem s3) M" using bumps_compat [OF quietD(1) [OF q3] b] by simp
    have in_seen: "M c = ?g c" if "c \<in> set ?ins" for c
    proof -
      have "written (ms_mem s1) c" using w1 that by blast
      from grows_seen [OF mem_grows_trans [OF quietD(2) [OF k2] quietD(2) [OF k3]] this]
      show ?thesis using compat_get [OF M] g1 by simp
    qed
    have out: "M ?ac = F192 (raw64 x0) (raw64 x1) 0" "M (?ac + 1) = F192 (raw64 x2) (raw64 x3) 0"
      using compat_get [OF M] grows_seen [OF quietD(2) [OF k3] p2(1)] p2 p3 by (simp_all add: x)
    have ins: "M ?aa0 = ?g ?aa0" "M ?aa1 = ?g ?aa1" "M ?ab0 = ?g ?ab0" "M ?ab1 = ?g ?ab1" "M ?acv = ?g ?acv"
      "M (?acv + 1) = ?g (?acv + 1)" "M ?amd = ?g ?amd" by (rule in_seen; simp)+
    show "instr (p_prog p) M Blake2sTable (ms_pc st) (ms_fp st)
      [?aa0, ?aa1, ?ab0, ?ab1, ?acv, ?acv + 1, ?ac, ?ac + 1, ?amd] (ms_pc st + 1) (ms_fp st)"
    proof (rule instr_blake2s [OF pc op])
      show "\<forall>c\<in>set [?aa0, ?aa1, ?ab0, ?ab1, ?acv, ?acv + 1, ?ac, ?ac + 1, ?amd]. coeff2 (M c) = 0"
        using canon words by (simp add: ins out)
      show "blake2s_compress (lane_pair (M ?aa0) @ lane_pair (M ?aa1)) (lane_pair (M ?ab0) @ lane_pair (M ?ab1))
        (lane_pair (M ?acv) @ lane_pair (M (?acv + 1))) (M ?amd) = Some (lane_pair (M ?ac) @ lane_pair (M (?ac + 1)))"
        using vc by (simp add: ins out x)
    qed
  qed (use fp same in simp_all)
qed

section \<open>One step\<close>

lemma step_op_did:
  assumes "mach_ok p E st" "unat (ms_fp st) < max_cells" "unat (ms_pc st) < length (p_prog p)" "length (p_prog p) < max_cells"
    and "step_op p (p_prog p ! unat (ms_pc st)) br st = Inr st'"
  shows "\<exists>E' t cells. did p E E' br t cells st st'"
proof (cases "p_prog p ! unat (ms_pc st)")
  case (OpXor a b c)
  then have "step_arith p True a b c br st = Inr st'" using assms(5) by simp
  from step_arith_did [OF assms(1-3) _ this] show ?thesis using OpXor by auto
next
  case (OpMul a b c)
  then have "step_arith p False a b c br st = Inr st'" using assms(5) by simp
  from step_arith_did [OF assms(1-3) _ this] show ?thesis using OpMul by auto
next
  case (OpSet d k)
  then have "step_set d k br st = Inr st'" using assms(5) by simp
  from step_set_did [OF assms(1-3) OpSet this] show ?thesis by blast
next
  case (OpDeref o1 o2 o3 mode)
  then have "step_deref p o1 o2 o3 mode br st = Inr st'" using assms(5) by simp
  from step_deref_did [OF assms(1-3) OpDeref this] show ?thesis by blast
next
  case (OpJump oc od of')
  then have "step_jump p oc od of' br st = Inr st'" using assms(5) by simp
  from step_jump_did [OF assms(1-4) OpJump this] show ?thesis by blast
next
  case (OpBlake2s i0 i1 i2 i3 cv out md)
  then have "step_blake2s p i0 i1 i2 i3 cv out md br st = Inr st'" using assms(5) by simp
  from step_blake2s_did [OF assms(1-3) OpBlake2s this] show ?thesis by blast
qed

lemma did_from:
  assumes "did p E E' br t cells s st'" "mem_grows st s" "control s = control st"
  shows "did p E E' br t cells st st'"
proof -
  have "traces (log_row t pc fp cs br s) = traces (log_row t pc fp cs br st)" for pc fp cs
    using assms(3) by (intro traces_log_row) (simp add: traces_def control_iff)
  then show ?thesis
    using assms mem_grows_trans [OF assms(2)] by (simp add: did_def control_iff frame_ctl_def)
qed

definition counted :: "mach \<Rightarrow> mach" where
  "counted st = st\<lparr>ms_bytecode_count :=
     (ms_bytecode_count st)[unat (ms_pc st) := mul_by_g (ms_bytecode_count st ! unat (ms_pc st))]\<rparr>"

definition stepped :: "program \<Rightarrow> (u32 \<times> u32) set \<Rightarrow> (u32 \<times> u32) set \<Rightarrow> table \<Rightarrow> u32 list \<Rightarrow> mach \<Rightarrow> mach \<Rightarrow> bool" where
  "stepped p E E' t cells st st' \<longleftrightarrow> unat (ms_pc st) < length (p_prog p) \<and>
    did p E E' (ms_bytecode_count st ! unat (ms_pc st)) t cells (counted st) st'"

lemma quiet_dbg_pc: "mach_ok p E st \<Longrightarrow> quiet p E st (st\<lparr>ms_mem := (ms_mem st)\<lparr>m_dbg_pc := pc\<rparr>\<rparr>)"
  using link_inv_cong [of E "ms_mem st" "(ms_mem st)\<lparr>m_dbg_pc := pc\<rparr>"]
  by (intro quiet_mem) (simp_all add: mach_okD mem_le_def written_st)

lemma keeps_cover_step: "keeps p E cover_step"
proof -
  have "keeps p E (\<lambda>st. st_grow (f st) st)" for f using keeps_grow by (simp add: keeps_def)
  then show ?thesis unfolding cover_step_def Let_def by (intro keeps_if keeps_Inr)
qed

theorem exec_step_stepped:
  assumes ok: "mach_ok p E st" and fp: "unat (ms_fp st) < max_cells" and len: "length (p_prog p) < max_cells"
    and run: "exec_step p st = Inr st'"
  shows "\<exists>E' t cells. stepped p E E' t cells st st'"
proof -
  let ?s0 = "st\<lparr>ms_mem := (ms_mem st)\<lparr>m_dbg_pc := ms_pc st\<rparr>\<rparr>"
  have pc: "unat (ms_pc st) < length (p_prog p)" using run by (auto simp: exec_step_def Let_def split: if_splits)
  note q0 = quiet_dbg_pc [OF ok, of "ms_pc st"]
  obtain s1 s2 where s1: "(case map_of (p_hints p) (ms_pc st) of None \<Rightarrow> Inr ?s0 | Some hs \<Rightarrow> run_hints p hs ?s0) = Inr s1"
    and s2: "cover_step s1 = Inr s2"
    and op: "(case fetch_count s2 of (s3, r) \<Rightarrow> step_op p (p_prog p ! unat (ms_pc s3)) r s3) = Inr st'"
    using run by (auto simp: exec_step_def Let_def res_bind_eq_Inr split: if_splits)
  have "quiet p E ?s0 s1"
    using s1 keepsD [OF keeps_run_hints _ quietD(1) [OF q0]] quiet_refl [OF quietD(1) [OF q0]] by (auto split: option.splits)
  note q1 = quiet_trans [OF q0 this]
  note q2 = quiet_trans [OF q1 keepsD [OF keeps_cover_step s2 quietD(1) [OF q1]]]
  note c2 = quietD(3) [OF q2]
  let ?s3 = "counted s2"
  have s3: "fetch_count s2 = (?s3, ms_bytecode_count st ! unat (ms_pc st))"
    using c2 by (simp add: fetch_count_def counted_def Let_def control_iff)
  have ok3: "mach_ok p E ?s3" using quietD(1) [OF q2] by (simp add: counted_def mach_ok_def)
  have same: "ms_pc ?s3 = ms_pc st" "ms_fp ?s3 = ms_fp st" using c2 by (simp_all add: counted_def control_iff)
  have "step_op p (p_prog p ! unat (ms_pc ?s3)) (ms_bytecode_count st ! unat (ms_pc st)) ?s3 = Inr st'"
    using op s3 by simp
  from step_op_did [OF ok3 _ _ len this] fp pc same obtain E' t cells
    where d: "did p E E' (ms_bytecode_count st ! unat (ms_pc st)) t cells ?s3 st'" by auto
  have "control ?s3 = control (counted st)" "mem_grows (counted st) ?s3"
    using c2 quietD(2) [OF q2] by (simp_all add: counted_def control_iff mem_grows_def)
  from did_from [OF d this(2,1)] pc show ?thesis by (auto simp: stepped_def)
qed

end
