(* ===== verification/Runs.thy ===== *)
theory Runs
  imports Semantics
begin

text \<open>
  Whole runs. The events of a run, in order, explain its state: the trace rows, the
  access counts of every cell and instruction, and a chain of instructions from the
  first program counter to the current one.
\<close>

section \<open>Events\<close>

record event =
  ev_table :: table
  ev_pc :: u32
  ev_fp :: u32
  ev_cells :: "u32 list"
  ev_counts :: "f64 list"
  ev_bread :: f64
  ev_npc :: u32
  ev_nfp :: u32

definition is_instr :: "op list \<Rightarrow> (u32 \<Rightarrow> f192) \<Rightarrow> event \<Rightarrow> bool" where
  "is_instr prog M e \<longleftrightarrow> instr prog M (ev_table e) (ev_pc e) (ev_fp e) (ev_cells e) (ev_npc e) (ev_nfp e)"

definition xrow_of :: "event \<Rightarrow> xrow" where
  "xrow_of e = \<lparr>x_pc = ev_pc e, x_fp = ev_fp e, x_ra = ev_counts e ! 0, x_rb = ev_counts e ! 1, x_rc = ev_counts e ! 2,
     x_bytecode_read = ev_bread e\<rparr>"

definition srow_of :: "event \<Rightarrow> srow" where
  "srow_of e = \<lparr>s_pc = ev_pc e, s_fp = ev_fp e, s_r = ev_counts e ! 0, s_bytecode_read = ev_bread e\<rparr>"

definition drow_of :: "event \<Rightarrow> drow" where
  "drow_of e = \<lparr>d_pc = ev_pc e, d_fp = ev_fp e, d_r1 = ev_counts e ! 0, d_r2 = ev_counts e ! 1, d_r3 = ev_counts e ! 2,
     d_bytecode_read = ev_bread e\<rparr>"

definition jrow_of :: "event \<Rightarrow> jrow" where
  "jrow_of e = \<lparr>j_pc = ev_pc e, j_fp = ev_fp e, j_rc = ev_counts e ! 0, j_rd = ev_counts e ! 1, j_rf = ev_counts e ! 2,
     j_bytecode_read = ev_bread e\<rparr>"

definition brow_of :: "event \<Rightarrow> brow" where
  "brow_of e = \<lparr>b_pc = ev_pc e, b_fp = ev_fp e, b_ra = [ev_counts e ! 0, ev_counts e ! 1],
     b_rb = [ev_counts e ! 2, ev_counts e ! 3], b_rcv = [ev_counts e ! 4, ev_counts e ! 5],
     b_rc = [ev_counts e ! 6, ev_counts e ! 7], b_rmd = ev_counts e ! 8, b_bytecode_read = ev_bread e\<rparr>"

lemmas row_of_defs = xrow_of_def srow_of_def drow_of_def jrow_of_def brow_of_def

definition in_table :: "table \<Rightarrow> event list \<Rightarrow> event list" where
  "in_table t evs = filter (\<lambda>e. ev_table e = t) evs"

lemma in_table_append [simp]: "in_table t (xs @ ys) = in_table t xs @ in_table t ys"
  by (simp add: in_table_def)

lemma in_table_single [simp]: "in_table t [e] = (if ev_table e = t then [e] else [])" "in_table t [] = []"
  by (simp_all add: in_table_def)

definition rows_of :: "event list \<Rightarrow> _" where
  "rows_of evs = (map xrow_of (in_table (Arith True) evs), map xrow_of (in_table (Arith False) evs),
     map srow_of (in_table SetTable evs), map drow_of (in_table DerefTable evs), map jrow_of (in_table JumpTable evs),
     map brow_of (in_table Blake2sTable evs))"

lemma rows_of_log:
  assumes "traces st = rows_of evs"
  shows "traces (log_row (ev_table e) (ev_pc e) (ev_fp e) (ev_counts e) (ev_bread e) st) = rows_of (evs @ [e])"
  using assms
  by (cases "(ev_table e, ev_pc e, ev_fp e, ev_counts e, ev_bread e, st)" rule: log_row.cases)
    (simp_all add: traces_def rows_of_def row_of_defs)

text \<open>Consecutive instructions.\<close>

fun path :: "u32 \<times> u32 \<Rightarrow> event list \<Rightarrow> u32 \<times> u32 \<Rightarrow> bool" where
  "path s [] s' \<longleftrightarrow> s = s'"
| "path s (e # es) s' \<longleftrightarrow> s = (ev_pc e, ev_fp e) \<and> path (ev_npc e, ev_nfp e) es s'"

lemma path_append: "path s (xs @ ys) s' \<longleftrightarrow> (\<exists>u. path s xs u \<and> path u ys s')"
  by (induction xs arbitrary: s) auto

lemma path_snoc: "path s (xs @ [e]) s' \<longleftrightarrow> path s xs (ev_pc e, ev_fp e) \<and> s' = (ev_npc e, ev_nfp e)"
  by (auto simp: path_append)

section \<open>Events that explain a state\<close>

definition touched_cells :: "event list \<Rightarrow> u32 list" where
  "touched_cells evs = concat (map ev_cells evs)"

lemma touched_cells_append [simp]: "touched_cells (xs @ ys) = touched_cells xs @ touched_cells ys"
  by (simp add: touched_cells_def)

lemma touched_cells_single [simp]: "touched_cells [e] = ev_cells e" "touched_cells [] = []"
  by (simp_all add: touched_cells_def)

abbreviation fresh_counts :: "u32 \<Rightarrow> f64" where "fresh_counts \<equiv> (\<lambda>_. F64 1)"

definition counts_ok :: "program \<Rightarrow> event list \<Rightarrow> mach \<Rightarrow> bool" where
  "counts_ok p evs st \<longleftrightarrow>
    mem_cnt (ms_mem st) = cnt_after (touched_cells evs) fresh_counts \<and>
    concat (map ev_counts evs) = cnt_reads (touched_cells evs) fresh_counts \<and>
    map ev_bread evs = cnt_reads (map ev_pc evs) fresh_counts \<and>
    length (ms_bytecode_count st) = length (p_prog p) \<and>
    (\<forall>pc. unat pc < length (p_prog p) \<longrightarrow> ms_bytecode_count st ! unat pc = cnt_after (map ev_pc evs) fresh_counts pc)"

definition event_ok :: "mach \<Rightarrow> event \<Rightarrow> bool" where
  "event_ok st e \<longleftrightarrow> length (ev_counts e) = length (ev_cells e) \<and> unat (ev_fp e) < max_cells \<and> unat (ev_nfp e) < max_cells \<and>
    (\<forall>c\<in>set (ev_cells e). unat c < length (m_cells (ms_mem st)))"

definition explains :: "program \<Rightarrow> (u32 \<times> u32) set \<Rightarrow> event list \<Rightarrow> mach \<Rightarrow> bool" where
  "explains p E evs st \<longleftrightarrow> mach_ok p E st \<and> unat (ms_fp st) < max_cells \<and>
    (\<forall>M. compat E (ms_mem st) M \<longrightarrow> (\<forall>e\<in>set evs. is_instr (p_prog p) M e)) \<and>
    counts_ok p evs st \<and> traces st = rows_of evs \<and> (\<forall>e\<in>set evs. event_ok st e)"

lemma explainsD:
  "explains p E evs st \<Longrightarrow> mach_ok p E st" "explains p E evs st \<Longrightarrow> unat (ms_fp st) < max_cells"
  "explains p E evs st \<Longrightarrow> counts_ok p evs st" "explains p E evs st \<Longrightarrow> traces st = rows_of evs"
  "explains p E evs st \<Longrightarrow> compat E (ms_mem st) M \<Longrightarrow> e \<in> set evs \<Longrightarrow> is_instr (p_prog p) M e"
  "explains p E evs st \<Longrightarrow> e \<in> set evs \<Longrightarrow> event_ok st e"
  by (auto simp: explains_def)

text \<open>The parts of the control state the loop drives.\<close>

definition loop_ctl :: "mach \<Rightarrow> _" where
  "loop_ctl st = (ms_left st, ms_cycles st, ms_base_counts st, ms_unconstrained_reads st)"

lemma length_instr_cells: "instr prog M t pc fp cells npc nfp \<Longrightarrow> unat pc < length prog"
  by (auto elim: instr.cases)

lemma exec_step_explains:
  assumes ex: "explains p E evs st" and len: "length (p_prog p) < max_cells" and run: "exec_step p st = Inr st'"
  shows "\<exists>E' e. E \<subseteq> E' \<and> explains p E' (evs @ [e]) st' \<and> mem_grows st st' \<and> loop_ctl st' = loop_ctl st \<and>
    (ev_pc e, ev_fp e) = (ms_pc st, ms_fp st) \<and> (ev_npc e, ev_nfp e) = (ms_pc st', ms_fp st')"
proof -
  note exD = explainsD [OF ex]
  from exec_step_stepped [OF exD(1,2) len run] obtain E' t cells where s: "stepped p E E' t cells st st'" by blast
  let ?cnt = "mem_cnt (ms_mem st)" and ?pc = "unat (ms_pc st)"
  define e where "e = \<lparr>ev_table = t, ev_pc = ms_pc st, ev_fp = ms_fp st, ev_cells = cells, ev_counts = cnt_reads cells ?cnt,
    ev_bread = ms_bytecode_count st ! ?pc, ev_npc = ms_pc st', ev_nfp = ms_fp st'\<rparr>"
  have d: "did p E E' (ms_bytecode_count st ! ?pc) t cells (counted st) st'" and pc: "?pc < length (p_prog p)"
    using s by (auto simp: stepped_def)
  have same: "ms_mem (counted st) = ms_mem st" "ms_pc (counted st) = ms_pc st" "ms_fp (counted st) = ms_fp st" "ms_g (counted st) = ms_g st"
    "traces (counted st) = traces st" by (simp_all add: counted_def traces_def)
  have grows: "mem_grows st st'" using d same by (simp add: did_def mem_grows_def)
  have E: "E \<subseteq> E'" and ok': "mach_ok p E' st'" and fp': "unat (ms_fp st') < max_cells" using d by (simp_all add: did_def)
  have tr: "traces st' = rows_of (evs @ [e])"
    using d rows_of_log [of "counted st" evs e] exD(4) by (simp add: did_def same e_def)
  have instr: "is_instr (p_prog p) M f" if "compat E' (ms_mem st') M" "f \<in> set (evs @ [e])" for M f
  proof (cases "f \<in> set evs")
    case True
    then show ?thesis using exD(5) compat_mono [OF that(1) _ E] grows by (auto simp: mem_grows_def)
  next
    case False
    then show ?thesis using that d same by (auto simp: did_def e_def is_instr_def)
  qed
  have ok: "event_ok st' f" if "f \<in> set (evs @ [e])" for f
  proof (cases "f \<in> set evs")
    case True
    then show ?thesis using exD(6) [OF True] grows by (force simp: event_ok_def mem_grows_def)
  next
    case False
    then show ?thesis using that d fp' exD(2) by (auto simp: event_ok_def e_def did_def)
  qed
  have bc: "ms_bytecode_count st' = (ms_bytecode_count st)[?pc := mul_by_g (ms_bytecode_count st ! ?pc)]"
    using d by (simp add: did_def frame_ctl_def counted_def)
  have cnt: "mem_cnt (ms_mem st') = cnt_after cells ?cnt" using d same by (simp add: did_def)
  have "counts_ok p (evs @ [e]) st'"
    unfolding counts_ok_def
  proof (intro conjI allI impI)
    fix c :: u32 assume "unat c < length (p_prog p)"
    moreover have "unat (ms_pc st) = unat c \<Longrightarrow> c = ms_pc st" by (auto dest!: unsigned_word_eqI)
    ultimately show "ms_bytecode_count st' ! unat c = cnt_after (map ev_pc (evs @ [e])) fresh_counts c"
      using exD(3) pc
      by (cases "c = ms_pc st") (auto simp: counts_ok_def bc cnt_append e_def nth_list_update)
  qed (use exD(3) pc in \<open>simp_all add: counts_ok_def bc cnt cnt_append e_def\<close>)
  then have "explains p E' (evs @ [e]) st'"
    using ok' fp' instr tr ok unfolding explains_def by blast
  moreover have "loop_ctl st' = loop_ctl st" using d by (simp add: did_def frame_ctl_def loop_ctl_def counted_def)
  ultimately show ?thesis using E grows by (intro exI [of _ E'] exI [of _ e]) (simp add: e_def)
qed

text \<open>The invariant reads only some of the state.\<close>

lemma explains_cong:
  assumes "explains p E evs st" "mach_ok p E st'" "mem_grows st st'" "control st' = control st"
  shows "explains p E evs st'"
  using assms(1,2,3) control_iff [of st' st] assms(4) compat_mono [of E "ms_mem st'" _ "ms_mem st" E]
  by (fastforce simp: explains_def counts_ok_def event_ok_def traces_def mem_grows_def)

lemma explains_loop_upd [simp]:
  "explains p E evs (st\<lparr>ms_left := l\<rparr>) = explains p E evs st" "explains p E evs (st\<lparr>ms_cycles := c\<rparr>) = explains p E evs st"
  "explains p E evs (st\<lparr>ms_base_counts := b\<rparr>) = explains p E evs st"
  "explains p E evs (st\<lparr>ms_unconstrained_reads := u\<rparr>) = explains p E evs st"
  "explains p E evs (st\<lparr>ms_pc := pc\<rparr>) = explains p E evs st"
  by (simp_all add: explains_def mach_ok_def counts_ok_def traces_def event_ok_def)

end
