(* ===== verification/FillBlocks.thy ===== *)
theory FillBlocks
  imports Runs
begin

text \<open>
  The fill blocks the compiler emits past \<^verbatim>\<open>main\<close>'s halt
  (\<^verbatim>\<open>lean_compiler/src/filler.rs\<close>, \<^verbatim>\<open>lower_filler_blocks\<close> in
  \<^verbatim>\<open>lean_compiler/src/lower.rs\<close>). The lemmas show that a traversal of a block in the
  frame the interpreter gives it ends where it began, on the rows the planner counts.
\<close>

section \<open>The emitted blocks\<close>

datatype filler_op = FillXor | FillMul | FillSet | FillDeref | FillJump | FillBlake2s

definition filler_tables :: "(8 word \<times> filler_op) list" where
  "filler_tables = [(0, FillXor), (1, FillMul), (2, FillSet), (3, FillDeref), (4, FillJump), (5, FillBlake2s)]"

fun filler_dummy :: "filler_op \<Rightarrow> op" where
  "filler_dummy FillXor = OpXor fr_scratch fr_scratch fr_scratch"
| "filler_dummy FillMul = OpMul fr_scratch fr_scratch fr_scratch"
| "filler_dummy FillSet = OpSet fr_scratch f192_zero"
| "filler_dummy FillDeref = OpDeref fr_ptr 0 fr_scratch ModeCell"
| "filler_dummy FillJump = OpJump fr_zero fr_zero fr_zero"
| "filler_dummy FillBlake2s = OpBlake2s (fr_digest + 2) (fr_digest + 3) (fr_digest + 4) (fr_digest + 5)
     fr_scratch fr_digest fr_zero"

definition closing_jump :: op where "closing_jump = OpJump fr_dest fr_dest fr_next_fp"

definition filler_block_code :: "filler_op \<Rightarrow> nat \<Rightarrow> op list" where
  "filler_block_code f n = replicate n (filler_dummy f) @ [closing_jump]"

fun emit_filler :: "((8 word \<times> filler_op) \<times> nat) list \<Rightarrow> op list \<Rightarrow> op list \<times> fill_block list" where
  "emit_filler [] code = (code, [])"
| "emit_filler (((t, f), n) # todo) code =
    (let (code', blocks) = emit_filler todo (code @ filler_block_code f n)
     in (code', \<lparr>blk_pc = of_nat (length code), blk_size = of_nat n, blk_table = t\<rparr> # blocks))"

definition lower_filler_blocks :: "op list \<Rightarrow> op list \<times> fill_block list" where
  "lower_filler_blocks code = emit_filler (concat (map (\<lambda>t. map (Pair t) sizes) filler_tables)) code"

text \<open>A program whose blocks are in place, with no hint scheduled inside them.\<close>

definition block_at :: "program \<Rightarrow> filler_op \<Rightarrow> u32 \<Rightarrow> nat \<Rightarrow> bool" where
  "block_at p f pc n \<longleftrightarrow> unat pc + n < length (p_prog p) \<and>
    (\<forall>i\<le>n. p_prog p ! (unat pc + i) = filler_block_code f n ! i \<and> map_of (p_hints p) (pc + of_nat i) = None)"

definition filler_ok :: "program \<Rightarrow> bool" where
  "filler_ok p \<longleftrightarrow> (\<forall>b\<in>set (p_filler p). \<exists>f. (blk_table b, f) \<in> set filler_tables \<and>
     block_at p f (blk_pc b) (unat (blk_size b)))"

lemma emit_filler_prefix: "\<exists>rest. fst (emit_filler todo code) = code @ rest"
proof (induction todo code rule: emit_filler.induct)
  case (2 t f n todo code)
  then show ?case by (auto split: prod.splits)
qed simp

lemma filler_block_code_length [simp]: "length (filler_block_code f n) = Suc n"
  by (simp add: filler_block_code_def)

text \<open>The emitted blocks are in place in any program that extends the emitted code.\<close>

lemma emit_filler_in_place:
  assumes "emit_filler todo code = (code', blocks)" "b \<in> set blocks" "length code' < 2 ^ 32" "\<forall>(_, n)\<in>set todo. n < 2 ^ 32"
  shows "\<exists>t f n. ((t, f), n) \<in> set todo \<and> blk_table b = t \<and> unat (blk_size b) = n \<and>
    unat (blk_pc b) + n < length code' \<and> (\<forall>i\<le>n. code' ! (unat (blk_pc b) + i) = filler_block_code f n ! i)"
  using assms
proof (induction todo code arbitrary: code' blocks rule: emit_filler.induct)
  case (2 t f n todo code)
  obtain blocks' where e: "emit_filler todo (code @ filler_block_code f n) = (code', blocks')"
    and blocks: "blocks = \<lparr>blk_pc = of_nat (length code), blk_size = of_nat n, blk_table = t\<rparr> # blocks'"
    using 2(2) by (auto split: prod.splits)
  show ?case
  proof (cases "b \<in> set blocks'")
    case True
    have "\<exists>t f n. ((t, f), n) \<in> set todo \<and> blk_table b = t \<and> unat (blk_size b) = n \<and>
        unat (blk_pc b) + n < length code' \<and> (\<forall>i\<le>n. code' ! (unat (blk_pc b) + i) = filler_block_code f n ! i)"
      using 2(5) by (intro 2(1) [OF e True 2(4)]) auto
    then show ?thesis by (metis list.set_intros(2))
  next
    case False
    then have b: "b = \<lparr>blk_pc = of_nat (length code), blk_size = of_nat n, blk_table = t\<rparr>" using 2(3) blocks by simp
    obtain rest where code': "code' = (code @ filler_block_code f n) @ rest"
      using emit_filler_prefix [of todo "code @ filler_block_code f n"] e by auto
    have "unat (of_nat (length code) :: u32) = length code" "unat (of_nat n :: u32) = n"
      using 2(4,5) code' by (simp_all add: unat_of_nat)
    then show ?thesis
      by (intro exI [of _ t] exI [of _ f] exI [of _ n]) (auto simp: b code' nth_append)
  qed
qed simp

section \<open>Steps that leave most cells alone\<close>

definition calm :: "u32 set \<Rightarrow> mach \<Rightarrow> mach \<Rightarrow> bool" where
  "calm C st st' \<longleftrightarrow> (\<forall>c. c \<notin> C \<longrightarrow> mem_get (ms_mem st') c = mem_get (ms_mem st) c) \<and>
    (\<forall>c. mem_st (ms_mem st') c = Linked \<longrightarrow> mem_st (ms_mem st) c = Linked)"

lemma calm_trans: "calm C a b \<Longrightarrow> calm C b c \<Longrightarrow> calm C a c"
  by (simp add: calm_def)

lemma calm_mono: "calm C a b \<Longrightarrow> C \<subseteq> D \<Longrightarrow> calm D a b"
  by (auto simp: calm_def)

lemma calm_same [simp]: "ms_mem st' = ms_mem st \<Longrightarrow> calm C st st'"
  by (simp add: calm_def)

lemma calm_read: "mach_ok p E st \<Longrightarrow> st_read c st = (st', v) \<Longrightarrow> calm C st st'"
  using mem_read_views(2,3) [OF mach_okD(2)]
  by (auto simp: calm_def st_read_def split: prod.splits if_splits)

lemma calm_bump: "mach_ok p E st \<Longrightarrow> st_bump c st = (st', v) \<Longrightarrow> calm C st st'"
  using bump_views(3,4) [OF mach_okD(2)]
  by (auto simp: calm_def st_bump_def split: prod.splits if_splits)

lemma calm_put:
  assumes "mach_ok p E st" "st_put c v st = Inr st'" "mem_st (ms_mem st) c \<noteq> Linked" "c \<in> C"
  shows "calm C st st'"
proof -
  obtain m where m: "mem_put c v (ms_mem st) = Inr m" "st' = st\<lparr>ms_mem := m\<rparr>" using assms(2) by (auto simp: st_put_iff)
  obtain m1 l where s: "mem_store c v (ms_mem st) = Inr (m1, l)" and l: "(if l then mem_spread c v m1 else Inr m1) = Inr m"
    using m(1) by (auto simp: mem_put_def split: sum.splits)
  note w = mem_store_views [OF mach_okD(2) [OF assms(1)] s]
  show ?thesis using w(1,3,4) l assms(3,4) m(2) by (auto simp: calm_def split: if_splits)
qed

lemma calm_bumps: "mach_ok p E st \<Longrightarrow> st_bumps cs st = (st', rs) \<Longrightarrow> calm C st st'"
proof (induction cs arbitrary: st st' rs)
  case (Cons c cs)
  obtain s1 r rs' where b: "st_bump c st = (s1, r)" "st_bumps cs s1 = (st', rs')"
    using Cons.prems(2) by (auto simp: st_bumps.simps split: prod.splits)
  show ?case using calm_trans [OF calm_bump [OF Cons.prems(1) b(1)] Cons.IH [OF st_bump_ok(1) [OF Cons.prems(1) b(1)] b(2)]] .
qed (simp add: st_bumps.simps)

lemma calm_reads: "mach_ok p E st \<Longrightarrow> st_reads cs st = (st', rs) \<Longrightarrow> calm C st st'"
proof (induction cs arbitrary: st st' rs)
  case (Cons c cs)
  obtain s1 r rs' where b: "st_read c st = (s1, r)" "st_reads cs s1 = (st', rs')"
    using Cons.prems(2) by (auto simp: st_reads.simps split: prod.splits)
  show ?case using calm_trans [OF calm_read [OF Cons.prems(1) b(1)] Cons.IH [OF st_read_ok(1) [OF Cons.prems(1) b(1)] b(2)]] .
qed (simp add: st_reads.simps)

text \<open>The cells a dummy may change, and what it needs of its frame.\<close>

definition dummy_cells :: "u32 \<Rightarrow> u32 set" where
  "dummy_cells fp = {fp + fr_scratch, fp + fr_digest, fp + fr_digest + 1}"

definition plain_frame :: "mach \<Rightarrow> u32 \<Rightarrow> bool" where
  "plain_frame st fp \<longleftrightarrow> (\<forall>c\<in>dummy_cells fp. mem_st (ms_mem st) c \<noteq> Linked)"

lemma calm_plain: "calm C st st' \<Longrightarrow> plain_frame st fp \<Longrightarrow> plain_frame st' fp"
  by (auto simp: plain_frame_def calm_def)

lemma calm_step_arith:
  assumes ok: "mach_ok p E st" and plain: "plain_frame st (ms_fp st)"
    and run: "step_arith p isx fr_scratch fr_scratch fr_scratch br st = Inr st'"
  shows "calm (dummy_cells (ms_fp st)) st st'"
proof -
  let ?a = "ms_fp st + fr_scratch"
  have bs: "back_solve p ?a ?a ?a st = Inr st" by (simp add: back_solve_def Let_def)
  obtain s1 va where s1: "st_read ?a st = (s1, va)" by fastforce
  obtain s2 vb where s2: "st_read ?a s1 = (s2, vb)" by fastforce
  obtain s3 where s3: "st_put ?a (if isx then f192_add va vb else f192_mul va vb) s2 = Inr s3"
    using run s1 s2 bs by (auto simp: step_arith_def Let_def res_bind_eq_Inr split: if_splits)
  obtain s4 ra where s4: "st_bump ?a s3 = (s4, ra)" by fastforce
  obtain s5 rb where s5: "st_bump ?a s4 = (s5, rb)" by fastforce
  obtain s6 rc where s6: "st_bump ?a s5 = (s6, rc)" by fastforce
  note q1 = st_read_quiet [OF ok s1]
  note q2 = quiet_trans [OF q1 st_read_quiet [OF quietD(1) [OF q1] s2]]
  note q3 = keepsD [OF keeps_put s3 quietD(1) [OF q2]]
  have c2: "calm (dummy_cells (ms_fp st)) st s2"
    by (rule calm_trans [OF calm_read [OF ok s1] calm_read [OF quietD(1) [OF q1] s2]])
  have "mem_st (ms_mem s2) ?a \<noteq> Linked" using calm_plain [OF c2 plain] by (simp add: plain_frame_def dummy_cells_def)
  then have c3: "calm (dummy_cells (ms_fp st)) st s3"
    by (intro calm_trans [OF c2] calm_put [OF quietD(1) [OF q2] s3]) (simp_all add: dummy_cells_def)
  note c6 = calm_trans [OF c3 calm_bumps [OF quietD(1) [OF q3] st_bumps3 [OF s4 s5 s6]]]
  have "ms_mem st' = ms_mem s6" using run s1 s2 s3 s4 s5 s6 bs by (auto simp: step_arith_def Let_def split: if_splits)
  then show ?thesis using calm_trans [OF c6 calm_same] by blast
qed

lemma calm_step_set:
  assumes ok: "mach_ok p E st" and plain: "plain_frame st (ms_fp st)" and run: "step_set fr_scratch k br st = Inr st'"
  shows "calm (dummy_cells (ms_fp st)) st st'"
proof -
  let ?a = "ms_fp st + fr_scratch"
  obtain s where put: "st_put ?a k st = Inr s" using run by (auto simp: step_set_def Let_def res_bind_eq_Inr)
  obtain s' r where b: "st_bump ?a s = (s', r)" by fastforce
  note q = keepsD [OF keeps_put put ok]
  have "calm (dummy_cells (ms_fp st)) st s"
    using plain by (intro calm_put [OF ok put]) (simp_all add: plain_frame_def dummy_cells_def)
  note c = calm_trans [OF this calm_bump [OF quietD(1) [OF q] b]]
  have "ms_mem st' = ms_mem s'" using run put b by (auto simp: step_set_def Let_def)
  then show ?thesis using calm_trans [OF c calm_same] by blast
qed

lemma calm_step_jump:
  assumes ok: "mach_ok p E st" and run: "step_jump p oc od of' br st = Inr st'"
  shows "calm C st st'"
proof -
  let ?ac = "ms_fp st + oc" and ?ad = "ms_fp st + od" and ?af = "ms_fp st + of'"
  obtain s1 wc where s1: "st_read ?ac st = (s1, wc)" by fastforce
  obtain s2 wd where s2: "st_read ?ad s1 = (s2, wd)" by fastforce
  obtain s3 wf where s3: "st_read ?af s2 = (s3, wf)" by fastforce
  obtain s4 rc where s4: "st_bump ?ac s3 = (s4, rc)" by fastforce
  obtain s5 rd where s5: "st_bump ?ad s4 = (s5, rd)" by fastforce
  obtain s6 rf where s6: "st_bump ?af s5 = (s6, rf)" by fastforce
  note q1 = st_read_quiet [OF ok s1]
  note q2 = quiet_trans [OF q1 st_read_quiet [OF quietD(1) [OF q1] s2]]
  note q3 = quiet_trans [OF q2 st_read_quiet [OF quietD(1) [OF q2] s3]]
  note c3 = calm_trans [OF calm_trans [OF calm_read [OF ok s1] calm_read [OF quietD(1) [OF q1] s2]]
      calm_read [OF quietD(1) [OF q2] s3]]
  note c6 = calm_trans [OF c3 calm_bumps [OF quietD(1) [OF q3] st_bumps3 [OF s4 s5 s6]]]
  have log: "ms_mem a = ms_mem b" if "st_log x b = Inr (a, r)" for a b r x
    using that by (auto simp: st_log_def res_bind_eq_Inr)
  have "ms_mem st' = ms_mem s6"
    using run s1 s2 s3 s4 s5 s6 log
    by (auto simp: step_jump_def Let_def res_bind_eq_Inr split: if_splits option.splits)
  then show ?thesis using calm_trans [OF c6 calm_same] by blast
qed

lemma deref_base_mem: "deref_base q ptr st = Inr (st', w) \<Longrightarrow> ms_mem st' = ms_mem st"
  by (auto simp: deref_base_def st_log_def st_grow_def res_bind_eq_Inr split: option.splits)

lemma f64_pow_zero: "f64_g ^ k = 1 \<Longrightarrow> k < max_cells \<Longrightarrow> k = 0"
  using g_power_inj [of k 0] max_cells_order(2) by simp

lemma calm_step_deref:
  assumes ok: "mach_ok p E st" and plain: "plain_frame st (ms_fp st)"
    and ptr: "mem_get (ms_mem st) (ms_fp st + fr_ptr) = f192_one" and zero: "written (ms_mem st) 0"
    and run: "step_deref p fr_ptr 0 fr_scratch ModeCell br st = Inr st'"
  shows "calm (dummy_cells (ms_fp st)) st st'"
proof -
  let ?a1 = "ms_fp st + fr_ptr" and ?a3 = "ms_fp st + fr_scratch"
  obtain s1 v where s1: "st_read ?a1 st = (s1, v)" by fastforce
  note r1 = st_read_ok [OF ok s1] and q1 = st_read_quiet [OF ok s1]
  obtain s2 base where s2: "deref_base p v s1 = Inr (s2, base)"
    using run s1 by (auto simp: step_deref_def Let_def res_bind_eq_Inr)
  note d = deref_base_ok [OF r1(1) s2]
  note q2 = quiet_trans [OF q1 d(1)]
  have one: "f192_one = f192_from 1" by (simp add: f192_one_def f192_from_def one_f64_def)
  obtain k where "base = of_nat k" "k < max_cells" "v = f192_from (f64_g ^ k)" using d(2) by blast
  then have base: "base = 0" using ptr r1(6) f64_pow_zero [of k] by (simp add: one)
  have "written (ms_mem s2) 0" using grows_seen [OF quietD(2) [OF q2] zero] by blast
  then obtain s3 where s3: "st_put ?a3 (m_cells (ms_mem s2) ! 0) s2 = Inr s3"
    using run s1 s2 controlD [OF quietD(3) [OF q2]]
    by (auto simp: step_deref_def Let_def res_bind_eq_Inr deref_effect_def base)
  note q3 = keepsD [OF keeps_put s3 quietD(1) [OF q2]]
  obtain s4 ra where s4: "st_bump ?a1 s3 = (s4, ra)" by fastforce
  obtain s5 rb where s5: "st_bump 0 s4 = (s5, rb)" by fastforce
  obtain s6 rc where s6: "st_bump ?a3 s5 = (s6, rc)" by fastforce
  have c2: "calm (dummy_cells (ms_fp st)) st s2"
    by (rule calm_trans [OF calm_read [OF ok s1] calm_same [OF deref_base_mem [OF s2]]])
  have "mem_st (ms_mem s2) ?a3 \<noteq> Linked" using calm_plain [OF c2 plain] by (simp add: plain_frame_def dummy_cells_def)
  then have c3: "calm (dummy_cells (ms_fp st)) st s3"
    by (intro calm_trans [OF c2] calm_put [OF quietD(1) [OF q2] s3]) (simp_all add: dummy_cells_def)
  note c6 = calm_trans [OF c3 calm_bumps [OF quietD(1) [OF q3] st_bumps3 [OF s4 s5 s6]]]
  have eff: "deref_effect ModeCell 0 ?a3 s2 = Inr s3"
    using \<open>written (ms_mem s2) 0\<close> s3 by (simp add: deref_effect_def)
  have "ms_mem st' = ms_mem s6"
    using run s1 s2 eff s4 s5 s6 controlD [OF quietD(3) [OF q2]] by (auto simp: step_deref_def Let_def base)
  then show ?thesis using calm_trans [OF c6 calm_same] by blast
qed

lemma calm_step_blake2s:
  assumes ok: "mach_ok p E st" and plain: "plain_frame st (ms_fp st)"
    and run: "step_blake2s p i0 i1 i2 i3 cv fr_digest md br st = Inr st'"
  shows "calm (dummy_cells (ms_fp st)) st st'"
proof -
  let ?ac = "ms_fp st + fr_digest"
  let ?ins = "[ms_fp st + i0, ms_fp st + i1, ms_fp st + i2, ms_fp st + i3, ms_fp st + cv, ms_fp st + cv + 1, ms_fp st + md]"
  obtain s1 words where s1: "st_reads ?ins st = (s1, words)" by fastforce
  have q1: "quiet p E st s1" using st_reads_ok [OF ok s1] by blast
  note run = run [unfolded step_blake2s_def Let_def s1 prod.case]
  have none: "find (\<lambda>(i, w). coeff2 w \<noteq> 0) (enumerate 0 words) = None"
    using run by (cases "find (\<lambda>(i, w). coeff2 w \<noteq> 0) (enumerate 0 words)") auto
  note run = run [unfolded none option.case]
  obtain va s2 s3 vb where vc: "blake2s_compress (lane_pair (words ! 0) @ lane_pair (words ! 1))
      (lane_pair (words ! 2) @ lane_pair (words ! 3)) (lane_pair (words ! 4) @ lane_pair (words ! 5)) (words ! 6) = Some va"
    and s2: "st_put ?ac (F192 (raw64 (va ! 0)) (raw64 (va ! 1)) 0) s1 = Inr s2"
    and s3: "st_put (?ac + 1) (F192 (raw64 (va ! 2)) (raw64 (va ! 3)) 0) s2 = Inr s3"
    using run unfolding res_bind_eq_Inr or_panic_Inr by blast
  note run = run [unfolded vc or_panic_def option.case res_bind_Inr s2 s3]
  note q2 = quiet_trans [OF q1 keepsD [OF keeps_put s2 quietD(1) [OF q1]]]
  note q3 = quiet_trans [OF q2 keepsD [OF keeps_put s3 quietD(1) [OF q2]]]
  let ?C = "dummy_cells (ms_fp st)"
  have c1: "calm ?C st s1" by (rule calm_reads [OF ok s1])
  have c2: "calm ?C st s2"
    using calm_plain [OF c1 plain] by (intro calm_trans [OF c1] calm_put [OF quietD(1) [OF q1] s2]) (simp_all add: plain_frame_def dummy_cells_def)
  have c3: "calm ?C st s3"
    using calm_plain [OF c2 plain] by (intro calm_trans [OF c2] calm_put [OF quietD(1) [OF q2] s3]) (simp_all add: plain_frame_def dummy_cells_def)
  obtain cells t rs where b: "st_bumps cells s3 = (t, rs)" and st': "ms_mem st' = ms_mem t"
  proof -
    obtain t1 ra where t1: "st_bumps [ms_fp st + i0, ms_fp st + i1] s3 = (t1, ra)" by fastforce
    obtain t2 rb where t2: "st_bumps [ms_fp st + i2, ms_fp st + i3] t1 = (t2, rb)" by fastforce
    obtain t3 rcv where t3: "st_bumps [ms_fp st + cv, ms_fp st + cv + 1] t2 = (t3, rcv)" by fastforce
    obtain t4 rc where t4: "st_bumps [?ac, ?ac + 1] t3 = (t4, rc)" by fastforce
    obtain t5 rmd where t5: "st_bump (ms_fp st + md) t4 = (t5, rmd)" by fastforce
    have "st_bumps [ms_fp st + md] t4 = (t5, [rmd])" using t5 by (simp add: st_bumps.simps)
    from st_bumps_append [OF t1 st_bumps_append [OF t2 st_bumps_append [OF t3 st_bumps_append [OF t4 this]]]]
    show ?thesis by (rule that) (use run [unfolded t1 t2 t3 t4 t5 prod.case] in auto)
  qed
  show ?thesis using calm_trans [OF calm_trans [OF c3 calm_bumps [OF quietD(1) [OF q3] b]] calm_same [OF st']] .
qed

text \<open>One step inside a block.\<close>

lemma calm_exec_step:
  assumes ok: "mach_ok p E st" and plain: "plain_frame st (ms_fp st)"
    and ptr: "mem_get (ms_mem st) (ms_fp st + fr_ptr) = f192_one" and zero: "written (ms_mem st) 0"
    and hints: "map_of (p_hints p) (ms_pc st) = None"
    and op: "p_prog p ! unat (ms_pc st) = filler_dummy f \<or> p_prog p ! unat (ms_pc st) = closing_jump"
    and run: "exec_step p st = Inr st'"
  shows "calm (dummy_cells (ms_fp st)) st st'"
proof -
  let ?s0 = "st\<lparr>ms_mem := (ms_mem st)\<lparr>m_dbg_pc := ms_pc st\<rparr>\<rparr>"
  note q0 = quiet_dbg_pc [OF ok, of "ms_pc st"]
  obtain s2 where s2: "cover_step ?s0 = Inr s2"
    and op2: "(case fetch_count s2 of (s3, r) \<Rightarrow> step_op p (p_prog p ! unat (ms_pc s3)) r s3) = Inr st'"
    using run by (auto simp: exec_step_def Let_def res_bind_eq_Inr hints split: if_splits)
  note q2 = quiet_trans [OF q0 keepsD [OF keeps_cover_step s2 quietD(1) [OF q0]]]
  let ?s3 = "counted s2"
  have m2: "ms_mem s2 = ms_mem ?s0" using s2 by (auto simp: cover_step_def Let_def st_grow_def res_bind_eq_Inr split: if_splits)
  have s3: "fetch_count s2 = (?s3, ms_bytecode_count s2 ! unat (ms_pc s2))" by (simp add: fetch_count_def counted_def Let_def)
  have same: "ms_pc ?s3 = ms_pc st" "ms_fp ?s3 = ms_fp st" "ms_mem ?s3 = ms_mem ?s0"
    using controlD [OF quietD(3) [OF q2]] m2 by (simp_all add: counted_def)
  have ok3: "mach_ok p E ?s3" using quietD(1) [OF q2] by (simp add: counted_def mach_ok_def)
  have c0: "calm C st ?s3" for C unfolding calm_def same(3) by simp
  have plain3: "plain_frame ?s3 (ms_fp ?s3)" using calm_plain [OF c0 plain] same by simp
  have ptr3: "mem_get (ms_mem ?s3) (ms_fp ?s3 + fr_ptr) = f192_one" "written (ms_mem ?s3) 0"
    using ptr zero by (simp_all add: same written_st)
  have step: "step_op p (p_prog p ! unat (ms_pc st)) (ms_bytecode_count s2 ! unat (ms_pc s2)) ?s3 = Inr st'"
    using op2 same(1) unfolding s3 prod.case by (simp only:)
  have "calm (dummy_cells (ms_fp ?s3)) ?s3 st'"
    using op
  proof
    assume "p_prog p ! unat (ms_pc st) = closing_jump"
    then show ?thesis using step calm_step_jump [OF ok3] by (simp add: closing_jump_def)
  next
    assume "p_prog p ! unat (ms_pc st) = filler_dummy f"
    then show ?thesis
      using step calm_step_arith [OF ok3 plain3] calm_step_set [OF ok3 plain3] calm_step_deref [OF ok3 plain3 ptr3]
        calm_step_jump [OF ok3] calm_step_blake2s [OF ok3 plain3]
      by (cases f) simp_all
  qed
  then show ?thesis using calm_trans [OF c0] same(2) by simp
qed

section \<open>Prepared frames\<close>

definition prepared :: "mach \<Rightarrow> u32 \<Rightarrow> u32 \<Rightarrow> bool" where
  "prepared st b f \<longleftrightarrow> written (ms_mem st) (f + fr_dest) \<and> mem_get (ms_mem st) (f + fr_dest) = f192_from (f64_g ^ unat b) \<and>
    written (ms_mem st) (f + fr_next_fp) \<and> mem_get (ms_mem st) (f + fr_next_fp) = f192_from (f64_g ^ unat f) \<and>
    written (ms_mem st) (f + fr_ptr) \<and> mem_get (ms_mem st) (f + fr_ptr) = f192_one \<and>
    mem_get (ms_mem st) (f + fr_zero) = f192_zero \<and> plain_frame st f \<and> unat f < max_cells"

lemma prepared_keeps:
  assumes "prepared st b f" "mem_grows st st'" "calm C st st'" "f + fr_zero \<notin> C"
  shows "prepared st' b f"
  using assms grows_seen [OF assms(2)] calm_plain [OF assms(3)]
  unfolding prepared_def by (simp add: calm_def)

lemma prepared_cong: "prepared st b f \<Longrightarrow> ms_mem st' = ms_mem st \<Longrightarrow> prepared st' b f"
  by (simp add: prepared_def plain_frame_def)

text \<open>Cells from an address on that no link and no value has reached.\<close>

definition blank_from :: "nat \<Rightarrow> mach \<Rightarrow> bool" where
  "blank_from a st \<longleftrightarrow> (\<forall>c. a \<le> unat c \<longrightarrow> mem_st (ms_mem st) c \<noteq> Linked \<and> mem_get (ms_mem st) c = f192_zero)"

lemma blank_past_end:
  "mach_ok p E st \<Longrightarrow> blank_from (length (m_cells (ms_mem st))) st"
  using mem_wfD(1) [OF mach_okD(2)] by (simp add: blank_from_def mem_st_def mem_get_def)

lemma blank_calm: "blank_from a st \<Longrightarrow> calm C st st' \<Longrightarrow> a \<le> a' \<Longrightarrow> \<forall>c\<in>C. unat c < a' \<Longrightarrow> blank_from a' st'"
  unfolding blank_from_def calm_def by (metis leD le_trans)

lemma unat_frame_add: "unat (f :: u32) < max_cells \<Longrightarrow> unat k < 16 \<Longrightarrow> unat (f + k) = unat f + unat k"
  by (rule unat_plus_simple [THEN iffD1]) (simp add: max_cells_def word_le_nat_alt unat_word_ariths)

lemmas fr_offsets = fr_dest_def fr_next_fp_def fr_ptr_def fr_zero_def fr_scratch_def fr_digest_def fr_cells_def

lemma calm_index: "st_grow n st = Inr st' \<Longrightarrow> calm C st st'" "st_note n st = Inr st' \<Longrightarrow> calm C st st'"
  by (auto simp: st_grow_def st_note_def res_bind_eq_Inr)

lemma calm_ensure: "mach_ok p E st \<Longrightarrow> calm C st (st_ensure i st)"
  using ensure_views(1,2) [OF mach_okD(2)] by (simp add: calm_def st_ensure_def)

lemma st_grow_range: "mach_ok p E st \<Longrightarrow> st_grow n st = Inr st' \<Longrightarrow> n < max_cells"
  by (auto simp: st_grow_def res_bind_eq_Inr dest: gi.grow_ok [OF mach_okD(3)])

text \<open>Preparing one frame.\<close>

lemma prepare_one:
  assumes ok: "mach_ok p E st" and blank: "blank_from (unat f) st"
    and s1: "st_grow (unat f) st = Inr s1" and s2: "st_note (unat f) s1 = Inr s2"
    and x: "st_pow (unat b) (st_ensure i s2) = Inr x" and s3: "st_put (f + fr_dest) (f192_from x) (st_ensure i s2) = Inr s3"
    and y: "st_pow (unat f) s3 = Inr y" and s4: "st_put (f + fr_next_fp) (f192_from y) s3 = Inr s4"
    and s5: "st_put (f + fr_ptr) f192_one s4 = Inr s5"
  shows "quiet p E st s5" "prepared s5 b f" "unat f < max_cells" "blank_from (unat f + 12) s5"
    "calm {f + fr_dest, f + fr_next_fp, f + fr_ptr} st s5"
proof -
  let ?C = "{f + fr_dest, f + fr_next_fp, f + fr_ptr}"
  show f: "unat f < max_cells" using st_grow_range [OF ok s1] .
  have addr: "unat (f + k) = unat f + unat k" if "unat k < 16" for k using unat_frame_add [OF f that] .
  note q1 = keepsD [OF keeps_grow s1 ok]
  note q2 = quiet_trans [OF q1 keepsD [OF keeps_note s2 quietD(1) [OF q1]]]
  note q3 = quiet_trans [OF q2 keepsD [OF keeps_ensure refl quietD(1) [OF q2], of i]]
  note q4 = quiet_trans [OF q3 keepsD [OF keeps_put s3 quietD(1) [OF q3]]]
  note q5 = quiet_trans [OF q4 keepsD [OF keeps_put s4 quietD(1) [OF q4]]]
  note k4 = keepsD [OF keeps_put s4 quietD(1) [OF q4]] and k5 = keepsD [OF keeps_put s5 quietD(1) [OF q5]]
  show q: "quiet p E st s5" using quiet_trans [OF q5 k5] .
  have c3: "calm ?C st (st_ensure i s2)"
    using calm_trans [OF calm_trans [OF calm_index(1) [OF s1] calm_index(2) [OF s2]] calm_ensure [OF quietD(1) [OF q2]]] .
  have unlinked: "mem_st (ms_mem s) c \<noteq> Linked" if "calm ?C st s" "unat f \<le> unat c" for s c
    using that blank by (auto simp: calm_def blank_from_def)
  have c4: "calm ?C st s3"
    by (rule calm_trans [OF c3 calm_put [OF quietD(1) [OF q3] s3]]) (use unlinked [OF c3] addr in \<open>auto simp: fr_offsets\<close>)
  have c5: "calm ?C st s4"
    by (rule calm_trans [OF c4 calm_put [OF quietD(1) [OF q4] s4]]) (use unlinked [OF c4] addr in \<open>auto simp: fr_offsets\<close>)
  show c6: "calm ?C st s5"
    by (rule calm_trans [OF c5 calm_put [OF quietD(1) [OF q5] s5]]) (use unlinked [OF c5] addr in \<open>auto simp: fr_offsets\<close>)
  have xy: "x = f64_g ^ unat b" "y = f64_g ^ unat f" using st_pow_ok [OF quietD(1) [OF q3] x] st_pow_ok [OF quietD(1) [OF q4] y] by simp_all
  note p3 = st_put_seen [OF quietD(1) [OF q3] s3] and p4 = st_put_seen [OF quietD(1) [OF q4] s4]
    and p5 = st_put_seen [OF quietD(1) [OF q5] s5]
  note g3 = grows_seen [OF mem_grows_trans [OF quietD(2) [OF k4] quietD(2) [OF k5]] p3(1)] and g4 = grows_seen [OF quietD(2) [OF k5] p4(1)]
  have zero: "mem_get (ms_mem s5) (f + fr_zero) = f192_zero"
  proof -
    have "f + fr_zero \<notin> ?C" by (simp add: fr_offsets)
    then have "mem_get (ms_mem s5) (f + fr_zero) = mem_get (ms_mem st) (f + fr_zero)" using c6 by (simp add: calm_def)
    then show ?thesis using blank addr [of fr_zero] by (simp add: blank_from_def fr_offsets)
  qed
  have plain: "plain_frame s5 f"
    using unlinked [OF c6] addr [of fr_scratch] addr [of fr_digest] addr [of "fr_digest + 1"]
    by (auto simp: plain_frame_def dummy_cells_def fr_offsets add.assoc)
  show "prepared s5 b f" using p3 p4 p5 g3 g4 xy zero plain f by (simp add: prepared_def)
  show "blank_from (unat f + 12) s5"
    by (rule blank_calm [OF blank c6]) (use addr in \<open>auto simp: fr_offsets\<close>)
qed

definition frames_from :: "nat \<Rightarrow> (u32 \<times> u32 \<times> nat) list \<Rightarrow> bool" where
  "frames_from a F \<longleftrightarrow> (\<forall>i<length F. unat (fst (snd (F ! i))) = a + 12 * i)"

lemma prepare_cycles_ok:
  assumes "mach_ok p E st" "blank_from (unat frame) st" "prepare_cycles cs frame st = Inr (st', F)"
  shows "quiet p E st st' \<and> (\<forall>(b, f, rows)\<in>set F. prepared st' b f) \<and> frames_from (unat frame) F \<and>
    list_all2 (\<lambda>(b, size', n) (b', f, rows). b' = b \<and> rows = n * (unat size' + 1)) cs F \<and>
    (\<forall>c. unat c < unat frame \<longrightarrow> mem_get (ms_mem st') c = mem_get (ms_mem st) c) \<and>
    (\<forall>c. mem_st (ms_mem st') c = Linked \<longrightarrow> mem_st (ms_mem st) c = Linked)"
  using assms
proof (induction cs arbitrary: frame st F)
  case (Cons c cs)
  obtain b size' n where c: "c = (b, size', n)" by (rule prod_cases3)
  obtain s1 s2 x s3 y s4 s5 F' where s1: "st_grow (unat frame) st = Inr s1" and s2: "st_note (unat frame) s1 = Inr s2"
    and x: "st_pow (unat b) (st_ensure (unat (frame + fr_cells - 1)) s2) = Inr x"
    and s3: "st_put (frame + fr_dest) (f192_from x) (st_ensure (unat (frame + fr_cells - 1)) s2) = Inr s3"
    and y: "st_pow (unat frame) s3 = Inr y" and s4: "st_put (frame + fr_next_fp) (f192_from y) s3 = Inr s4"
    and s5: "st_put (frame + fr_ptr) f192_one s4 = Inr s5"
    and rest: "prepare_cycles cs (frame + fr_cells) s5 = Inr (st', F')"
    and F: "F = (b, frame, n * (unat size' + 1)) # F'"
    using Cons.prems(3) by (auto simp: c Let_def res_bind_eq_Inr)
  note one = prepare_one [OF Cons.prems(1,2) s1 s2 x s3 y s4 s5]
  have next_frame: "unat (frame + fr_cells) = unat frame + 12" using unat_frame_add [OF one(3), of fr_cells] by (simp add: fr_cells_def)
  note ih = Cons.IH [OF quietD(1) [OF one(1)] _ rest, unfolded next_frame, OF one(4)]
  have addr: "unat (frame + k) = unat frame + unat k" if "unat k < 16" for k using unat_frame_add [OF one(3) that] .
  let ?C = "{c. unat frame + 12 \<le> unat c}"
  have late: "calm ?C s5 st'" using ih by (auto simp: calm_def not_le)
  have "frame + fr_zero \<notin> ?C" using addr [of fr_zero] by (simp add: fr_zero_def)
  then have "prepared st' b frame" using prepared_keeps [OF one(2) _ late] ih by (auto simp: quiet_def)
  moreover have "frames_from (unat frame) F"
    using ih by (auto simp: frames_from_def F nth_Cons split: nat.splits)
  moreover have "mem_get (ms_mem st') c = mem_get (ms_mem st) c" if "unat c < unat frame" for c
  proof -
    have "c \<notin> {frame + fr_dest, frame + fr_next_fp, frame + fr_ptr}"
      using that addr [of fr_dest] addr [of fr_next_fp] addr [of fr_ptr] by (auto simp: fr_offsets)
    then show ?thesis using one(5) ih that by (simp add: calm_def)
  qed
  moreover have "mem_st (ms_mem st) c = Linked" if "mem_st (ms_mem st') c = Linked" for c
    using one(5) ih that by (auto simp: calm_def)
  ultimately show ?case using ih quiet_trans [OF one(1)] by (auto simp: F c)
qed (auto simp: quiet_refl frames_from_def)

section \<open>Traversing a block\<close>

fun table_of_filler :: "filler_op \<Rightarrow> table" where
  "table_of_filler FillXor = Arith True"
| "table_of_filler FillMul = Arith False"
| "table_of_filler FillSet = SetTable"
| "table_of_filler FillDeref = DerefTable"
| "table_of_filler FillJump = JumpTable"
| "table_of_filler FillBlake2s = Blake2sTable"

lemma f192_from_zero: "f192_zero = f192_from (F64 0)"
  by (simp add: f192_zero_def f192_from_def)

lemma dummy_event:
  assumes "is_instr prog M e" "prog ! unat (ev_pc e) = filler_dummy fl" "M (ev_fp e + fr_zero) = f192_zero"
  shows "ev_table e = table_of_filler fl \<and> ev_npc e = ev_pc e + 1 \<and> ev_nfp e = ev_fp e"
  using assms(1)[unfolded is_instr_def]
proof cases
  case (instr_jump oc od of' c d f)
  then have "oc = fr_zero" using assms(2) by (cases fl) simp_all
  then have "c = F64 0" using instr_jump(5) assms(3) by (simp add: f192_from_zero)
  then show ?thesis using instr_jump(1,4,9) assms(2) by (cases fl) simp_all
qed (use assms(2) in \<open>cases fl; simp\<close>)+

lemma unat_less_2p32: "unat (a :: u32) < 2 ^ 32"
  using unsigned_less [of a] by simp

lemma g_power_inj_u32: "f64_g ^ unat (a :: u32) = f64_g ^ unat (b :: u32) \<Longrightarrow> a = b"
proof -
  assume eq: "f64_g ^ unat a = f64_g ^ unat b"
  have "unat a < 2 ^ 64 - 1" "unat b < 2 ^ 64 - 1" using unat_less_2p32 [of a] unat_less_2p32 [of b] by simp_all
  from g_power_inj [OF this eq] show "a = b" by (auto dest!: unsigned_word_eqI)
qed

lemma f64_g_pow_nonzero: "f64_g ^ k \<noteq> F64 0"
  by (metis f64_g_nonzero power_not_zero zero_f64_def)

lemma closing_event:
  assumes "is_instr prog M e" "prog ! unat (ev_pc e) = closing_jump"
    and "M (ev_fp e + fr_dest) = f192_from (f64_g ^ unat b)" "M (ev_fp e + fr_next_fp) = f192_from (f64_g ^ unat f)"
  shows "ev_table e = JumpTable \<and> ev_npc e = b \<and> ev_nfp e = f"
  using assms(1)[unfolded is_instr_def] assms(2-4)
  by cases (auto simp: closing_jump_def f64_g_pow_nonzero dest!: g_power_inj_u32)

text \<open>Where a traversal stands after a number of rows, and what it has added to the tables.\<close>

definition cycle_rows :: "filler_op \<Rightarrow> nat \<Rightarrow> nat \<Rightarrow> table \<Rightarrow> nat" where
  "cycle_rows fl n m t = (if t = table_of_filler fl then (m div Suc n) * n + m mod Suc n else 0) +
     (if t = JumpTable then m div Suc n else 0)"

definition cycling :: "program \<Rightarrow> filler_op \<Rightarrow> nat \<Rightarrow> u32 \<Rightarrow> u32 \<Rightarrow> event list \<Rightarrow> mach \<Rightarrow> bool" where
  "cycling p fl n b f cur st \<longleftrightarrow> block_at p fl b n \<and> ms_fp st = f \<and> ms_pc st = b + of_nat (length cur mod Suc n) \<and>
    path (b, f) cur (ms_pc st, ms_fp st) \<and> (\<forall>t. length (in_table t cur) = cycle_rows fl n (length cur) t)"

lemma cycle_rows_step:
  "cycle_rows fl n (Suc m) t = cycle_rows fl n m t +
     (if m mod Suc n < n then (if t = table_of_filler fl then 1 else 0) else (if t = JumpTable then 1 else 0))"
proof (cases "m mod Suc n < n")
  case True
  then have "Suc m mod Suc n = Suc (m mod Suc n)" "Suc m div Suc n = m div Suc n"
    by (simp_all add: mod_Suc div_Suc)
  then show ?thesis using True by (simp add: cycle_rows_def)
next
  case False
  then have n: "m mod Suc n = n" using mod_less_divisor [of "Suc n" m] by linarith
  then have "Suc m mod Suc n = 0" "Suc m div Suc n = Suc (m div Suc n)" by (simp_all add: mod_Suc div_Suc)
  then show ?thesis using n by (simp add: cycle_rows_def)
qed

text \<open>The frames of all cycles, none within reach of another's dummies.\<close>

definition apart :: "(u32 \<times> u32 \<times> nat) list \<Rightarrow> bool" where
  "apart F \<longleftrightarrow> (\<forall>(b, f, rows)\<in>set F. \<forall>(b', f', rows')\<in>set F. f' + fr_zero \<notin> dummy_cells f)"

definition all_prepared :: "mach \<Rightarrow> (u32 \<times> u32 \<times> nat) list \<Rightarrow> bool" where
  "all_prepared st F \<longleftrightarrow> (\<forall>(b, f, rows)\<in>set F. prepared st b f)"

lemma frames_apart:
  assumes "frames_from a F" "\<forall>(b, f, rows)\<in>set F. unat f < max_cells"
  shows "apart F"
  unfolding apart_def
proof (clarify)
  fix b f rows b' f' rows' assume in1: "(b, f, rows) \<in> set F" and in2: "(b', f', rows') \<in> set F" and c: "f' + fr_zero \<in> dummy_cells f"
  obtain i where i: "i < length F" "F ! i = (b, f, rows)" using in1 by (auto simp: in_set_conv_nth)
  obtain j where j: "j < length F" "F ! j = (b', f', rows')" using in2 by (auto simp: in_set_conv_nth)
  have f: "unat f = a + 12 * i" "unat f' = a + 12 * j" "unat f < max_cells" "unat f' < max_cells"
    using assms i j in1 in2 by (auto simp: frames_from_def)
  have "unat (f' + fr_zero) = a + 12 * j + 3" using unat_frame_add [OF f(4), of fr_zero] f(2) by (simp add: fr_zero_def)
  moreover have "unat (f' + fr_zero) \<in> {a + 12 * i + 4, a + 12 * i + 6, a + 12 * i + 7}"
    using imageI [OF c, of unat] unat_frame_add [OF f(3), of fr_scratch] unat_frame_add [OF f(3), of fr_digest]
      unat_frame_add [OF f(3), of "fr_digest + 1"] f(1) by (auto simp: dummy_cells_def fr_offsets add.assoc)
  ultimately have "3 + 12 * j \<in> {4 + 12 * i, 6 + 12 * i, 7 + 12 * i}" by auto
  then have "(3 + 12 * j) mod 12 \<in> {4 mod 12, 6 mod 12, 7 mod (12::nat)}"
    by (elim insertE) (simp_all only: mod_mult_self2 insert_iff simp_thms, simp)
  moreover have "(3 + 12 * j) mod 12 = 3 mod 12" by (simp only: mod_mult_self2)
  ultimately show False by simp
qed

lemma cycling_step:
  assumes ex: "explains p E evs st" and len: "length (p_prog p) < max_cells" and run: "exec_step p st = Inr st'"
    and cyc: "cycling p fl n b f cur st" and prep: "all_prepared st F" and F: "(b, f, rows) \<in> set F" and apart: "apart F"
    and zero: "written (ms_mem st) 0"
  shows "\<exists>E' e. explains p E' (evs @ [e]) st' \<and> mem_grows st st' \<and> loop_ctl st' = loop_ctl st \<and>
    cycling p fl n b f (cur @ [e]) st' \<and> all_prepared st' F"
proof -
  from exec_step_explains [OF ex len run] obtain E' e where e: "explains p E' (evs @ [e]) st'" "mem_grows st st'"
      "loop_ctl st' = loop_ctl st" "ev_pc e = ms_pc st" "ev_fp e = ms_fp st" "ev_npc e = ms_pc st'" "ev_nfp e = ms_fp st'"
    by auto
  let ?i = "length cur mod Suc n"
  have i: "?i \<le> n" using mod_less_divisor [of "Suc n" "length cur"] by linarith
  have blk: "block_at p fl b n" and fp: "ms_fp st = f" and pc: "ms_pc st = b + of_nat ?i" using cyc by (simp_all add: cycling_def)
  have blen: "unat b + n < length (p_prog p)" using blk by (simp add: block_at_def)
  have upc: "unat (ms_pc st) = unat b + ?i"
  proof -
    have less: "unat b + ?i < 2 ^ 32" using i blen len max_cells_order(1) by linarith
    then have "unat (of_nat ?i :: u32) = ?i" by (simp add: unat_of_nat)
    moreover from this have "unat b + unat (of_nat ?i :: u32) < 2 ^ 32" using less by simp
    ultimately show ?thesis unfolding pc by (simp add: unat_word_ariths)
  qed
  have op: "p_prog p ! unat (ms_pc st) = filler_block_code fl n ! ?i" and hints: "map_of (p_hints p) (ms_pc st) = None"
    using blk i upc by (simp_all add: block_at_def pc)
  have opi: "filler_block_code fl n ! ?i = (if ?i < n then filler_dummy fl else closing_jump)"
    using i by (simp add: filler_block_code_def nth_append)
  note ok = explainsD(1) [OF ex]
  have pr: "prepared st b f" using prep F by (auto simp: all_prepared_def)
  have calm: "calm (dummy_cells f) st st'"
    using calm_exec_step [OF ok _ _ zero hints _ run, of fl] pr op opi fp by (auto simp: prepared_def split: if_splits)
  have prep': "all_prepared st' F"
    unfolding all_prepared_def
  proof clarify
    fix b' f' rows' assume in': "(b', f', rows') \<in> set F"
    then have "prepared st b' f'" using prep by (auto simp: all_prepared_def)
    moreover have "f' + fr_zero \<notin> dummy_cells f" using apart F in' unfolding apart_def by blast
    ultimately show "prepared st' b' f'" by (rule prepared_keeps [OF _ e(2) calm])
  qed
  then have pr': "prepared st' b f" using F by (auto simp: all_prepared_def)
  let ?M = "mem_get (ms_mem st')"
  have "compat E' (ms_mem st') ?M" by (rule compat_self [OF mach_okD(1) [OF explainsD(1) [OF e(1)]]])
  then have instr: "is_instr (p_prog p) ?M e" using explainsD(5) [OF e(1)] by simp
  have "cycling p fl n b f (cur @ [e]) st'"
  proof (cases "?i < n")
    case True
    then have "ev_table e = table_of_filler fl" "ms_pc st' = ms_pc st + 1" "ms_fp st' = ms_fp st"
      using dummy_event [OF instr, of fl] op opi pr' e fp by (auto simp: prepared_def)
    moreover have "Suc (length cur) mod Suc n = Suc ?i" using True by (simp add: mod_Suc)
    ultimately show ?thesis
      using cyc True e by (auto simp: cycling_def path_snoc cycle_rows_step add.assoc)
  next
    case False
    then have "ev_table e = JumpTable" "ms_pc st' = b" "ms_fp st' = f"
      using closing_event [OF instr, of b f] op opi pr' e fp by (auto simp: prepared_def)
    moreover have "Suc (length cur) mod Suc n = 0" using False i by (simp add: mod_Suc)
    ultimately show ?thesis
      using cyc False e by (auto simp: cycling_def path_snoc cycle_rows_step)
  qed
  then show ?thesis using e(1,2,3) prep' by blast
qed

text \<open>A closed cycle.\<close>

definition closed_cycle :: "program \<Rightarrow> u32 \<times> u32 \<times> nat \<Rightarrow> event list \<Rightarrow> bool" where
  "closed_cycle p c es \<longleftrightarrow> (case c of (b, f, rows) \<Rightarrow> path (b, f) es (b, f) \<and> length es = rows \<and>
    (\<exists>fl n. block_at p fl b n \<and> Suc n dvd rows \<and> (\<forall>t. length (in_table t es) = cycle_rows fl n rows t)))"

lemma cycling_closes:
  assumes "cycling p fl n b f cur st" "length cur = rows" "Suc n dvd rows"
  shows "closed_cycle p (b, f, rows) cur"
proof -
  have "length cur mod Suc n = 0" using assms(2,3) by simp
  then have "ms_pc st = b" "ms_fp st = f" using assms(1) by (simp_all add: cycling_def)
  then show ?thesis using assms by (auto simp: cycling_def closed_cycle_def)
qed

end
