(* ===== verification/Execution.thy ===== *)
theory Execution
  imports FillBlocks
begin

text \<open>
  A whole run: the chain to the halt sentinel, the plan made there, the fill cycles,
  and the execution returned. The last section holds the properties of the machine.
\<close>

section \<open>The halt\<close>

lemma prepare_cycles_quiet:
  assumes "mach_ok p E st" "prepare_cycles cs frame st = Inr (st', F)"
  shows "quiet p E st st' \<and> (\<forall>(b, f, rows)\<in>set F. unat f < max_cells)"
  using assms
proof (induction cs arbitrary: frame st F)
  case (Cons c cs)
  obtain b size' n where c: "c = (b, size', n)" by (rule prod_cases3)
  obtain s1 s2 s3 s4 s5 F' x y where s1: "st_grow (unat frame) st = Inr s1" and s2: "st_note (unat frame) s1 = Inr s2"
    and s3: "st_put (frame + fr_dest) (f192_from x) (st_ensure (unat (frame + fr_cells - 1)) s2) = Inr s3"
    and s4: "st_put (frame + fr_next_fp) (f192_from y) s3 = Inr s4" and s5: "st_put (frame + fr_ptr) f192_one s4 = Inr s5"
    and rest: "prepare_cycles cs (frame + fr_cells) s5 = Inr (st', F')" and F: "F = (b, frame, n * (unat size' + 1)) # F'"
    using Cons.prems(2) by (auto simp: c Let_def res_bind_eq_Inr)
  note q1 = keepsD [OF keeps_grow s1 Cons.prems(1)]
  note q2 = quiet_trans [OF q1 keepsD [OF keeps_note s2 quietD(1) [OF q1]]]
  note q3 = quiet_trans [OF q2 keepsD [OF keeps_ensure refl quietD(1) [OF q2], of "unat (frame + fr_cells - 1)"]]
  note q4 = quiet_trans [OF q3 keepsD [OF keeps_put s3 quietD(1) [OF q3]]]
  note q5 = quiet_trans [OF q4 keepsD [OF keeps_put s4 quietD(1) [OF q4]]]
  note q6 = quiet_trans [OF q5 keepsD [OF keeps_put s5 quietD(1) [OF q5]]]
  show ?case using Cons.IH [OF quietD(1) [OF q6] rest] quiet_trans [OF q6] st_grow_range [OF Cons.prems(1) s1] by (auto simp: F)
qed (simp add: quiet_refl)

definition cycles_planned :: "program \<Rightarrow> nat list \<Rightarrow> (u32 \<times> u32 \<times> nat) list \<Rightarrow> bool" where
  "cycles_planned p base F \<longleftrightarrow> (if p_filler p = [] then F = []
    else \<exists>start lb plan cs. log2_strict (length (p_prog p)) = Some lb \<and>
      fill_plan base (p_min_log_committed p) (plan_committed_log base start lb) = Some plan \<and>
      cycles (p_filler p) plan = Some cs \<and>
      list_all2 (\<lambda>(b, size', n) (b', f, rows). b' = b \<and> rows = n * (unat size' + 1)) cs F)"

lemma prepare_cycles_rows:
  "prepare_cycles cs frame st = Inr (st', F) \<Longrightarrow>
    list_all2 (\<lambda>(b, size', n) (b', f, rows). b' = b \<and> rows = n * (unat size' + 1)) cs F"
  by (induction cs arbitrary: frame st F) (auto simp: Let_def res_bind_eq_Inr)

definition halted :: "program \<Rightarrow> (u32 \<times> u32) set \<Rightarrow> mach \<Rightarrow> mach \<Rightarrow> bool" where
  "halted p E st st' \<longleftrightarrow> mach_ok p E st' \<and> mem_grows st st' \<and> ms_pc st' = ms_pc st \<and> ms_fp st' = ms_fp st \<and> traces st' = traces st \<and>
    mem_cnt (ms_mem st') = mem_cnt (ms_mem st) \<and> ms_bytecode_count st' = ms_bytecode_count st \<and> ms_left st' = ms_left st \<and>
    ms_base_counts st' = Some (state_row_counts st) \<and> cycles_planned p (state_row_counts st) (ms_cycles st') \<and>
    (\<forall>(b, f, rows)\<in>set (ms_cycles st'). unat f < max_cells) \<and>
    (length (m_cells (ms_mem st)) < 2 ^ 32 \<longrightarrow> all_prepared st' (ms_cycles st') \<and> apart (ms_cycles st'))"

lemma halt_and_plan_ok:
  assumes ok: "mach_ok p E st" and run: "halt_and_plan p st = Inr st'"
  shows "ms_fp st = 0" "halted p E st st'"
proof -
  let ?counts = "state_row_counts st"
  let ?s = "st\<lparr>ms_base_counts := Some ?counts, ms_unconstrained_reads := m_unwritten_reads (ms_mem st),
      ms_mem := (ms_mem st)\<lparr>m_unwritten_reads := []\<rparr>\<rparr>"
  show fp: "ms_fp st = 0" using run by (auto simp: halt_and_plan_def split: if_splits)
  have ok': "mach_ok p E ?s"
    using ok link_inv_cong [OF mach_okD(1) [OF ok], of "(ms_mem st)\<lparr>m_unwritten_reads := []\<rparr>"] mach_okD(2) [OF ok]
    by (simp add: mach_ok_def)
  have grows: "mem_grows st ?s" by (simp add: mem_grows_def mem_le_def written_st)
  show "halted p E st st'"
  proof (cases "p_filler p = []")
    case True
    then have "st' = ?s\<lparr>ms_cycles := []\<rparr>" using run fp by (simp add: halt_and_plan_def Let_def)
    then show ?thesis
      using ok' grows True
      by (simp add: halted_def mach_ok_def mem_grows_def traces_def cycles_planned_def all_prepared_def apart_def)
  next
    case False
    let ?start = "length (m_cells (ms_mem st))"
    obtain lb plan cs s1 F where lb: "log2_strict (length (p_prog p)) = Some lb"
      and plan: "fill_plan ?counts (p_min_log_committed p) (plan_committed_log ?counts ?start lb) = Some plan"
      and cs: "cycles (p_filler p) plan = Some cs" and prep: "prepare_cycles cs (of_nat ?start) ?s = Inr (s1, F)"
      and st': "st' = s1\<lparr>ms_cycles := F\<rparr>"
      using run fp False by (auto simp: halt_and_plan_def Let_def res_bind_eq_Inr)
    from prepare_cycles_quiet [OF ok' prep] have q: "quiet p E ?s s1" and small: "\<forall>(b, f, rows)\<in>set F. unat f < max_cells" by blast+
    have planned: "cycles_planned p ?counts F"
      unfolding cycles_planned_def using False lb plan cs prepare_cycles_rows [OF prep] by (metis (no_types, lifting))
    have "all_prepared st' F \<and> apart F" if less: "?start < 2 ^ 32"
    proof -
      have "unat (of_nat ?start :: u32) = ?start" using less by (simp add: unat_of_nat)
      moreover have "blank_from ?start ?s" using blank_past_end [OF ok'] by simp
      ultimately have "(\<forall>(b, f, rows)\<in>set F. prepared s1 b f)" "frames_from ?start F"
        using prepare_cycles_ok [OF ok' _ prep] by simp_all
      then show ?thesis using frames_apart small prepared_cong by (fastforce simp: all_prepared_def st')
    qed
    then show ?thesis
      using q small planned mem_grows_trans [OF grows quietD(2) [OF q]]
      by (simp add: halted_def st' quiet_def control_iff traces_def mach_ok_def mem_grows_def)
  qed
qed

section \<open>The loop\<close>

text \<open>What every state of a run satisfies, before or after the halt.\<close>

definition alive :: "program \<Rightarrow> mach \<Rightarrow> bool" where
  "alive p st \<longleftrightarrow> (\<exists>E. mach_ok p E st) \<and> unat (ms_fp st) < max_cells \<and> (\<forall>(b, f, rows)\<in>set (ms_cycles st). unat f < max_cells)"

lemma next_cycle_Some:
  "next_cycle st = Some st' \<longleftrightarrow> (\<exists>b f rows rest. ms_cycles st = (b, f, rows) # rest \<and>
     st' = st\<lparr>ms_pc := b, ms_fp := f, ms_left := Some rows, ms_cycles := rest\<rparr>)"
  by (auto simp: next_cycle_def split: list.splits)

lemma next_cycle_None: "next_cycle st = None \<longleftrightarrow> ms_cycles st = []"
  by (auto simp: next_cycle_def split: list.splits)

lemma loop_head_cases:
  assumes "loop_head p st = Inr (st', fin)"
  obtains (stay) "\<not> wants_switch p st" "st' = st" "\<not> fin"
    | (switch) s where "wants_switch p st" "if ms_left st = None then halt_and_plan p st = Inr s else s = st"
        "if fin then ms_cycles s = [] \<and> st' = s else next_cycle s = Some st'"
proof (cases "wants_switch p st")
  case True
  obtain s where s: "(if ms_left st = None then halt_and_plan p st else Inr st) = Inr s"
    and n: "(case next_cycle s of None \<Rightarrow> Inr (s, True) | Some st \<Rightarrow> Inr (st, False)) = (Inr (st', fin) :: (mach \<times> bool) run)"
    using assms True by (auto simp: loop_head_def res_bind_eq_Inr)
  show ?thesis
    by (rule switch [OF True, of s]) (use s n in \<open>auto simp: next_cycle_None [symmetric] split: if_splits option.splits\<close>)
next
  case False
  then have "st' = st \<and> \<not> fin" using assms by (auto simp: loop_head_def)
  then show ?thesis by (intro stay [OF False]) simp_all
qed

lemma halted_alive: "halted p E st s \<Longrightarrow> unat (ms_fp st) < max_cells \<Longrightarrow> alive p s"
  by (auto simp: halted_def alive_def)

lemma alive_next_cycle: "alive p st \<Longrightarrow> next_cycle st = Some st' \<Longrightarrow> alive p st' \<and> mem_grows st st'"
  by (auto simp: next_cycle_Some alive_def mach_ok_def mem_grows_def)

lemma loop_head_alive:
  assumes "alive p st" "loop_head p st = Inr (st', fin)"
  shows "alive p st' \<and> mem_grows st st'"
  using assms(2)
proof (cases rule: loop_head_cases)
  case stay
  then show ?thesis using assms(1) by simp
next
  case (switch s)
  have s: "alive p s \<and> mem_grows st s"
  proof (cases "ms_left st = None")
    case True
    then have run: "halt_and_plan p st = Inr s" using switch(2) by simp
    obtain E where "mach_ok p E st" using assms(1) by (auto simp: alive_def)
    from halt_and_plan_ok [OF this run] show ?thesis using assms(1) halted_alive by (auto simp: alive_def halted_def)
  next
    case False
    then show ?thesis using switch(2) assms(1) by simp
  qed
  show ?thesis
  proof (cases fin)
    case False
    then show ?thesis using s switch(3) alive_next_cycle mem_grows_trans by (metis (full_types))
  qed (use s switch(3) in simp)
qed

lemma alive_count_down: "alive p st \<Longrightarrow> alive p (count_down st) \<and> mem_grows st (count_down st)"
  by (auto simp: count_down_def alive_def mach_ok_def mem_grows_def split: option.splits)

lemma alive_exec_step:
  assumes "alive p st" "length (p_prog p) < max_cells" "exec_step p st = Inr st'"
  shows "alive p st' \<and> mem_grows st st'"
proof -
  obtain E where ok: "mach_ok p E st" and fp: "unat (ms_fp st) < max_cells" using assms(1) by (auto simp: alive_def)
  from exec_step_stepped [OF ok fp assms(2,3)] obtain E' t cells where "stepped p E E' t cells st st'" by blast
  then have "mach_ok p E' st'" "mem_grows st st'" "unat (ms_fp st') < max_cells" "ms_cycles st' = ms_cycles st"
    by (auto simp: stepped_def did_def counted_def frame_ctl_def mem_grows_def)
  then show ?thesis using assms(1) by (auto simp: alive_def)
qed

lemma run_loop_step:
  assumes "run_loop p steps st = Inr (st', n)"
  obtains (fin) "loop_head p st = Inr (st', True)" "n = steps"
    | (step) s1 s2 where "loop_head p st = Inr (s1, False)" "exec_step p (count_down s1) = Inr s2" "steps < max_steps"
        "run_loop p (steps + 1) s2 = Inr (st', n)"
  using assms by (subst (asm) run_loop.simps) (auto simp: Let_def split: sum.splits if_splits)

text \<open>Induction over the loop: an invariant of its head and its steps holds to the end.\<close>

lemma run_loop_induct [consumes 1, case_names fin step]:
  assumes run: "run_loop p steps st = Inr (st', n)"
    and fin: "\<And>steps st. loop_head p st = Inr (st', True) \<Longrightarrow> n = steps \<Longrightarrow> P steps st"
    and step: "\<And>steps st s1 s2. \<lbrakk>loop_head p st = Inr (s1, False); exec_step p (count_down s1) = Inr s2; steps < max_steps;
      run_loop p (steps + 1) s2 = Inr (st', n); P (steps + 1) s2\<rbrakk> \<Longrightarrow> P steps st"
  shows "P steps st"
  using run
proof (induction "max_steps - steps" arbitrary: steps st rule: less_induct)
  case less
  from less.prems show ?case
  proof (cases rule: run_loop_step)
    case fin
    then show ?thesis by (rule assms(2))
  next
    case (step s1 s2)
    have "P (steps + 1) s2" by (rule less.hyps [OF _ step(4)]) (use step(3) in simp)
    then show ?thesis by (rule assms(3) [OF step(1,2,3,4)])
  qed
qed

lemma run_loop_alive:
  assumes "run_loop p steps st = Inr (st', n)" "alive p st" "length (p_prog p) < max_cells"
  shows "alive p st' \<and> mem_grows st st'"
  using assms
proof (induction rule: run_loop_induct)
  case (fin steps st)
  then show ?case using loop_head_alive by blast
next
  case (step steps st s1 s2)
  have 1: "alive p s1 \<and> mem_grows st s1" using loop_head_alive step(1,6) by blast
  then have 2: "alive p (count_down s1) \<and> mem_grows s1 (count_down s1)" using alive_count_down by blast
  then have 3: "alive p s2 \<and> mem_grows (count_down s1) s2" using alive_exec_step step(2,7) by blast
  then show ?case using 1 2 step(5,7) mem_grows_trans by blast
qed

definition public_cells :: "f192 \<Rightarrow> f192 \<Rightarrow> mach \<Rightarrow> bool" where
  "public_cells x y st \<longleftrightarrow> written (ms_mem st) 0 \<and> mem_get (ms_mem st) 0 = x \<and> written (ms_mem st) 1 \<and> mem_get (ms_mem st) 1 = y"

lemma public_cells_grows: "public_cells x y st \<Longrightarrow> mem_grows st st' \<Longrightarrow> public_cells x y st'"
  using grows_seen by (fastforce simp: public_cells_def)

definition table_counts :: "event list \<Rightarrow> nat list" where
  "table_counts evs = map (\<lambda>t. length (in_table t evs)) tables"

lemma explains_row_counts: "explains p E evs st \<Longrightarrow> state_row_counts st = table_counts evs"
  by (simp add: explains_def traces_def rows_of_def state_row_counts_def table_counts_def tables_def)

definition blocks_known :: "program \<Rightarrow> (u32 \<times> u32 \<times> nat) list \<Rightarrow> bool" where
  "blocks_known p F \<longleftrightarrow> (\<forall>(b, f, rows)\<in>set F. \<exists>fl n. 0 < rows \<and> block_at p fl b n \<and> Suc n dvd rows)"

lemma planned_blocks_known:
  assumes "filler_ok p" "cycles_planned p base F"
  shows "blocks_known p F"
  unfolding blocks_known_def
proof clarify
  fix b f rows assume F: "(b, f, rows) \<in> set F"
  then obtain plan cs where cs: "cycles (p_filler p) plan = Some cs"
    and all: "list_all2 (\<lambda>(b, size', n) (b', f, rows). b' = b \<and> rows = n * (unat size' + 1)) cs F"
    using assms(2) by (auto simp: cycles_planned_def split: if_splits)
  obtain i where i: "i < length F" "F ! i = (b, f, rows)" using F by (auto simp: in_set_conv_nth)
  obtain b' s n where csi: "cs ! i = (b', s, n)" by (rule prod_cases3)
  have rows: "b = b'" "rows = n * (unat s + 1)" using list_all2_nthD2 [OF all i(1)] i(2) csi by simp_all
  from cycles_of_spec [of "p_filler p" "plan_entries plan" cs] cs
  have spec: "list_all2 (\<lambda>(pc, size', n) (t, k, m). n = m \<and> size' = of_nat (sizes ! k) \<and>
        (\<exists>b\<in>set (p_filler p). unat (blk_table b) = t \<and> blk_size b = size' \<and> blk_pc b = pc))
      cs (filter (\<lambda>(t, k, n). 0 < n) (plan_entries plan))" by (simp add: cycles_def)
  have "i < length cs" using list_all2_lengthD [OF all] i(1) by simp
  note at = list_all2_nthD [OF spec this]
  have "i < length (filter (\<lambda>(t, k, n). 0 < n) (plan_entries plan))" using list_all2_lengthD [OF spec] \<open>i < length cs\<close> by simp
  then have "filter (\<lambda>(t, k, n). 0 < n) (plan_entries plan) ! i \<in> set (filter (\<lambda>(t, k, n). 0 < n) (plan_entries plan))"
    by (rule nth_mem)
  then have "0 < n" using at csi by auto
  obtain blk where blk: "blk \<in> set (p_filler p)" "blk_size blk = s" "blk_pc blk = b'"
    using at csi by (auto split: prod.splits)
  then obtain fl where "block_at p fl b' (unat s)" using assms(1) by (auto simp: filler_ok_def)
  moreover have "Suc (unat s) dvd rows" unfolding rows(2) by (metis Suc_eq_plus1 dvd_triv_right)
  moreover have "0 < rows" using \<open>0 < n\<close> rows(2) by simp
  ultimately show "\<exists>fl n. 0 < rows \<and> block_at p fl b n \<and> Suc n dvd rows" using rows(1) by blast
qed

text \<open>The chain runs; then the cycles run; then the run is over.\<close>

definition chain_phase :: "program \<Rightarrow> f192 \<Rightarrow> f192 \<Rightarrow> event list \<Rightarrow> mach \<Rightarrow> bool" where
  "chain_phase p x y evs st \<longleftrightarrow> (\<exists>E. explains p E evs st) \<and> ms_left st = None \<and> ms_cycles st = [] \<and>
    path (0, 0) evs (ms_pc st, ms_fp st) \<and> public_cells x y st"

definition after_halt :: "program \<Rightarrow> f192 \<Rightarrow> f192 \<Rightarrow> event list \<Rightarrow> (u32 \<times> u32 \<times> nat) list \<Rightarrow> event list \<Rightarrow> mach \<Rightarrow> bool" where
  "after_halt p x y chain F evs st \<longleftrightarrow> (\<exists>E. explains p E evs st) \<and> path (0, 0) chain (ending_pc p, 0) \<and>
    ms_base_counts st = Some (table_counts chain) \<and> cycles_planned p (table_counts chain) F \<and> public_cells x y st"

definition cycle_phase :: "program \<Rightarrow> f192 \<Rightarrow> f192 \<Rightarrow> event list \<Rightarrow> mach \<Rightarrow> bool" where
  "cycle_phase p x y evs st \<longleftrightarrow> (\<exists>chain F done runs cur b f rows fl n k.
    after_halt p x y chain F evs st \<and> evs = chain @ concat runs @ cur \<and> F = done @ (b, f, rows) # ms_cycles st \<and>
    list_all2 (closed_cycle p) done runs \<and> all_prepared st F \<and> apart F \<and> blocks_known p F \<and>
    ms_left st = Some k \<and> k + length cur = rows \<and> Suc n dvd rows \<and> cycling p fl n b f cur st)"

definition finished :: "program \<Rightarrow> f192 \<Rightarrow> f192 \<Rightarrow> event list \<Rightarrow> mach \<Rightarrow> bool" where
  "finished p x y evs st \<longleftrightarrow> (\<exists>chain F runs. after_halt p x y chain F evs st \<and> evs = chain @ concat runs \<and>
    list_all2 (closed_cycle p) F runs)"

text \<open>Entering the next cycle, or finishing.\<close>

lemma enter_cycle:
  assumes h: "after_halt p x y chain F evs s" and evs: "evs = chain @ concat runs" and F: "F = done @ ms_cycles s"
    and closed: "list_all2 (closed_cycle p) done runs" and prep: "all_prepared s F" "apart F" and known: "blocks_known p F"
  shows "ms_cycles s = [] \<Longrightarrow> finished p x y evs s" "next_cycle s = Some s' \<Longrightarrow> cycle_phase p x y evs s' \<and> \<not> wants_switch p s'"
proof -
  show "ms_cycles s = [] \<Longrightarrow> finished p x y evs s" using h evs F closed by (auto simp: finished_def)
  assume "next_cycle s = Some s'"
  then obtain b f rows rest where c: "ms_cycles s = (b, f, rows) # rest"
    and s': "s' = s\<lparr>ms_pc := b, ms_fp := f, ms_left := Some rows, ms_cycles := rest\<rparr>" by (auto simp: next_cycle_Some)
  have inF: "(b, f, rows) \<in> set F" using F c by simp
  then obtain fl n where blk: "block_at p fl b n" "Suc n dvd rows" "0 < rows" using known by (fastforce simp: blocks_known_def)
  have pr: "prepared s b f" using prep(1) inF by (auto simp: all_prepared_def)
  have "after_halt p x y chain F evs s'"
    using h pr unfolding after_halt_def
    by (auto simp: s' explains_def mach_ok_def counts_ok_def traces_def event_ok_def public_cells_def prepared_def)
  moreover have "all_prepared s' F" using prep(1) prepared_cong [of s _ _ s'] by (fastforce simp: all_prepared_def s')
  moreover have "cycling p fl n b f [] s'" using blk by (simp add: cycling_def s' cycle_rows_def)
  ultimately have "cycle_phase p x y evs s'"
    unfolding cycle_phase_def
    using evs F c closed prep(2) known blk(2)
    by (intro exI [of _ chain] exI [of _ F] exI [of _ "done"] exI [of _ runs] exI [of _ "[]"] exI [of _ b] exI [of _ f]
        exI [of _ rows] exI [of _ fl] exI [of _ n] exI [of _ rows]) (simp add: s')
  then show "cycle_phase p x y evs s' \<and> \<not> wants_switch p s'" using blk(3) by (simp add: s' wants_switch_def)
qed

lemma chain_head:
  assumes ph: "chain_phase p x y evs st" and fo: "filler_ok p" and small: "length (m_cells (ms_mem st)) < 2 ^ 32"
    and run: "loop_head p st = Inr (st', fin)"
  shows "if fin then finished p x y evs st' else chain_phase p x y evs st' \<or> (cycle_phase p x y evs st' \<and> \<not> wants_switch p st')"
  using run
proof (cases rule: loop_head_cases)
  case stay
  then show ?thesis using ph by simp
next
  case (switch s)
  have left: "ms_left st = None" using ph by (simp add: chain_phase_def)
  then have run: "halt_and_plan p st = Inr s" and pc: "ms_pc st = ending_pc p" using switch by (auto simp: wants_switch_def)
  obtain E where ex: "explains p E evs st" and path: "path (0, 0) evs (ms_pc st, ms_fp st)" and pub: "public_cells x y st"
    using ph by (auto simp: chain_phase_def)
  note h = halt_and_plan_ok [OF explainsD(1) [OF ex] run]
  have same: "traces s = traces st" "mem_cnt (ms_mem s) = mem_cnt (ms_mem st)" "ms_bytecode_count s = ms_bytecode_count st"
    "ms_fp s = ms_fp st" and ok: "mach_ok p E s" and grows: "mem_grows st s"
    and base: "ms_base_counts s = Some (state_row_counts st)" and planned: "cycles_planned p (state_row_counts st) (ms_cycles s)"
    and prep: "all_prepared s (ms_cycles s)" "apart (ms_cycles s)" using h(2) small by (simp_all add: halted_def)
  have "compat E (ms_mem st) M" if "compat E (ms_mem s) M" for M
    using compat_mono [OF that] grows by (simp add: mem_grows_def)
  moreover have "event_ok s e" if "event_ok st e" for e using that grows by (force simp: event_ok_def mem_grows_def)
  ultimately have ex': "explains p E evs s" using ex ok same by (simp add: explains_def counts_ok_def)
  have ah: "after_halt p x y evs (ms_cycles s) evs s"
    using ex' path pc h(1) base planned public_cells_grows [OF pub grows] explains_row_counts [OF ex]
    by (auto simp: after_halt_def)
  note enter = enter_cycle [OF ah, of "[]" "[]", OF _ _ _ prep planned_blocks_known [OF fo planned], simplified]
  show ?thesis using switch(3) enter by (cases fin) auto
qed

lemma cycle_head:
  assumes ph: "cycle_phase p x y evs st" and run: "loop_head p st = Inr (st', fin)"
  shows "if fin then finished p x y evs st' else cycle_phase p x y evs st' \<and> \<not> wants_switch p st'"
  using run
proof (cases rule: loop_head_cases)
  case stay
  then show ?thesis using ph by simp
next
  case (switch s)
  obtain chain F "done" runs cur b f rows fl n k where h: "after_halt p x y chain F evs st" and evs: "evs = chain @ concat runs @ cur"
    and F: "F = done @ (b, f, rows) # ms_cycles st" and closed: "list_all2 (closed_cycle p) done runs"
    and prep: "all_prepared st F" "apart F" and known: "blocks_known p F"
    and left: "ms_left st = Some k" "k + length cur = rows" and n: "Suc n dvd rows" and cyc: "cycling p fl n b f cur st"
    using ph unfolding cycle_phase_def by blast
  have s: "s = st" and k: "k = 0" using switch left by (auto simp: wants_switch_def)
  have "closed_cycle p (b, f, rows) cur" using cycling_closes [OF cyc _ n] left k by simp
  then have closed': "list_all2 (closed_cycle p) (done @ [(b, f, rows)]) (runs @ [cur])"
    using closed list_all2_appendI by fastforce
  note enter = enter_cycle [OF h, of "runs @ [cur]" "done @ [(b, f, rows)]", OF _ _ closed' prep known]
  show ?thesis using switch(3) enter evs F by (cases fin) (auto simp: s)
qed

text \<open>One instruction in either phase.\<close>

lemma chain_step:
  assumes ph: "chain_phase p x y evs st" and len: "length (p_prog p) < max_cells" and run: "exec_step p (count_down st) = Inr st'"
  shows "\<exists>e. chain_phase p x y (evs @ [e]) st'"
proof -
  have st: "count_down st = st" using ph by (simp add: count_down_def chain_phase_def)
  obtain E where ex: "explains p E evs st" using ph by (auto simp: chain_phase_def)
  from exec_step_explains [OF ex len run [unfolded st]] obtain E' e where e: "explains p E' (evs @ [e]) st'" "mem_grows st st'"
    "loop_ctl st' = loop_ctl st" "(ev_pc e, ev_fp e) = (ms_pc st, ms_fp st)" "(ev_npc e, ev_nfp e) = (ms_pc st', ms_fp st')" by blast
  then have "chain_phase p x y (evs @ [e]) st'"
    using ph public_cells_grows [OF _ e(2)] by (auto simp: chain_phase_def path_snoc loop_ctl_def)
  then show ?thesis ..
qed

lemma cycle_step:
  assumes ph: "cycle_phase p x y evs st" and len: "length (p_prog p) < max_cells"
    and stay: "\<not> wants_switch p st" and run: "exec_step p (count_down st) = Inr st'"
  shows "\<exists>e. cycle_phase p x y (evs @ [e]) st'"
proof -
  obtain chain F "done" runs cur b f rows fl n k where h: "after_halt p x y chain F evs st" and evs: "evs = chain @ concat runs @ cur"
    and F: "F = done @ (b, f, rows) # ms_cycles st" and closed: "list_all2 (closed_cycle p) done runs"
    and prep: "all_prepared st F" "apart F" and known: "blocks_known p F"
    and left: "ms_left st = Some k" "k + length cur = rows" and n: "Suc n dvd rows" and cyc: "cycling p fl n b f cur st"
    using ph unfolding cycle_phase_def by blast
  have k: "k \<noteq> 0" using stay left by (simp add: wants_switch_def)
  let ?s = "st\<lparr>ms_left := Some (k - 1)\<rparr>"
  have s: "count_down st = ?s" using left by (simp add: count_down_def)
  obtain E where ex: "explains p E evs st" using h by (auto simp: after_halt_def)
  have "explains p E evs ?s" "cycling p fl n b f cur ?s" "all_prepared ?s F" "written (ms_mem ?s) 0"
    using ex cyc prep(1) h prepared_cong [of st _ _ ?s]
    by (fastforce simp: cycling_def all_prepared_def after_halt_def public_cells_def)+
  from cycling_step [OF this(1) len run [unfolded s] this(2,3) _ prep(2) this(4), of rows]
  obtain E' e where e: "explains p E' (evs @ [e]) st'" "mem_grows ?s st'" "loop_ctl st' = loop_ctl ?s"
    "cycling p fl n b f (cur @ [e]) st'" "all_prepared st' F" by (auto simp: F)
  have "mem_grows st st'" using e(2) by (simp add: mem_grows_def)
  then have "after_halt p x y chain F (evs @ [e]) st'"
    using h e(1,3) public_cells_grows by (auto simp: after_halt_def loop_ctl_def)
  then have "cycle_phase p x y (evs @ [e]) st'"
    unfolding cycle_phase_def
    using evs F closed e(3,4,5) prep(2) known left k n
    by (intro exI [of _ chain] exI [of _ F] exI [of _ "done"] exI [of _ runs] exI [of _ "cur @ [e]"] exI [of _ b] exI [of _ f]
        exI [of _ rows] exI [of _ fl] exI [of _ n] exI [of _ "k - 1"]) (simp add: loop_ctl_def)
  then show ?thesis ..
qed

lemma phase_alive: "chain_phase p x y evs st \<Longrightarrow> alive p st"
  by (auto simp: chain_phase_def alive_def explains_def)

lemma cycle_phase_alive: "cycle_phase p x y evs st \<Longrightarrow> alive p st"
  by (fastforce simp: cycle_phase_def alive_def explains_def after_halt_def all_prepared_def prepared_def)

text \<open>The whole loop.\<close>

theorem run_loop_finished:
  assumes "run_loop p steps st = Inr (st', n)" "length (p_prog p) < max_cells" "filler_ok p"
    and "length (m_cells (ms_mem st')) < 2 ^ 32" "chain_phase p x y evs st \<or> cycle_phase p x y evs st" "length evs = steps"
  shows "\<exists>evs. finished p x y evs st' \<and> length evs = n"
  using assms
proof (induction arbitrary: evs rule: run_loop_induct)
  case (fin steps st)
  have "mem_grows st st'" using loop_head_alive fin(1,6) phase_alive cycle_phase_alive by blast
  then have small: "length (m_cells (ms_mem st)) < 2 ^ 32" using fin(5) by (simp add: mem_grows_def)
  show ?case
  proof (intro exI [of _ evs] conjI)
    show "finished p x y evs st'" using chain_head [OF _ fin(4) small fin(1)] cycle_head [OF _ fin(1)] fin(6) by auto
    show "length evs = n" using fin(2,7) by simp
  qed
next
  case (step steps st s1 s2)
  have alive: "alive p st" using step(9) phase_alive cycle_phase_alive by blast
  have a1: "alive p s1 \<and> mem_grows st s1" using loop_head_alive alive step(1) by blast
  have a2: "alive p s2 \<and> mem_grows s1 s2"
    using alive_count_down a1 alive_exec_step [OF _ step(6,2)] mem_grows_trans by blast
  have "mem_grows st st'" using run_loop_alive [OF step(4)] a1 a2 step(6) mem_grows_trans by blast
  then have small: "length (m_cells (ms_mem st)) < 2 ^ 32" using step(8) by (simp add: mem_grows_def)
  have s1: "chain_phase p x y evs s1 \<or> (cycle_phase p x y evs s1 \<and> \<not> wants_switch p s1)"
    using chain_head [OF _ step(7) small step(1)] cycle_head [OF _ step(1)] step(9) by auto
  have "\<exists>e. chain_phase p x y (evs @ [e]) s2 \<or> cycle_phase p x y (evs @ [e]) s2"
    using s1
  proof
    assume "chain_phase p x y evs s1"
    from chain_step [OF this step(6,2)] show ?thesis by blast
  next
    assume "cycle_phase p x y evs s1 \<and> \<not> wants_switch p s1"
    then show ?thesis using cycle_step [OF _ step(6) _ step(2)] by blast
  qed
  then obtain e where "chain_phase p x y (evs @ [e]) s2 \<or> cycle_phase p x y (evs @ [e]) s2" ..
  from step(5) [OF step(6,7,8) this] step(10) show ?case by simp
qed

section \<open>The execution returned\<close>

text \<open>The final memory as a function; addresses past the image hold zero.\<close>

definition image_of :: "f192 list \<Rightarrow> u32 \<Rightarrow> f192" where
  "image_of cells c = (if unat c < length cells then cells ! unat c else f192_zero)"

definition trace_of :: "trace \<Rightarrow> _" where
  "trace_of t = (t_xor t, t_mul t, t_set t, t_deref t, t_jump t, t_blake2s t)"

lemma initial_mem_ok:
  "link_inv {} (initial_mem p)" "mem_cnt (initial_mem p) = fresh_counts" "m_program (initial_mem p) = p"
  by (auto simp: initial_mem_def Let_def link_inv_def link_graph_def mem_wf_def mem_st_def mem_get_def mem_cnt_def
      link_set_def fun_eq_iff)

lemma gp_new_good: "gp_new lim = Some g \<Longrightarrow> gp_ok g \<and> gp_covered g = max lim (2 ^ min_log_mem) + 1 \<and> lim < max_cells"
  using gp_new_ok [OF gp_new_range] gp_new_range by (fastforce simp: gp_covered_def)

lemma start_up_ok:
  assumes "start_up p pub = Inr st"
  shows "chain_phase p (pub ! 0) (pub ! 1) [] st" "length (p_prog p) + 2 < max_cells" "hints_in_range p"
proof -
  obtain g s1 where g: "gp_new (length (p_prog p) + 2) = Some g"
    and s1: "st_put 0 (pub ! 0) (mach_init p g (initial_mem p)) = Inr s1" and s2: "st_put 1 (pub ! 1) s1 = Inr st"
    and h: "hints_in_range p" using assms by (auto simp: start_up_def res_bind_eq_Inr split: if_splits)
  show "length (p_prog p) + 2 < max_cells" "hints_in_range p" using gp_new_good [OF g] h by simp_all
  let ?s0 = "mach_init p g (initial_mem p)"
  have ok: "mach_ok p {} ?s0"
    using gp_new_good [OF g] initial_mem_ok [of p] by (simp add: mach_ok_def mach_init_def)
  note q1 = keepsD [OF keeps_put s1 ok]
  note k2 = keepsD [OF keeps_put s2 quietD(1) [OF q1]]
  note q2 = quiet_trans [OF q1 k2]
  note p1 = st_put_seen [OF ok s1] and p2 = st_put_seen [OF quietD(1) [OF q1] s2]
  have "public_cells (pub ! 0) (pub ! 1) st" using p1 p2 grows_seen [OF quietD(2) [OF k2] p1(1)] by (simp add: public_cells_def)
  moreover have "explains p {} [] ?s0"
    using ok initial_mem_ok(2) [of p]
    by (simp add: explains_def counts_ok_def traces_def rows_of_def in_table_def mach_init_def max_cells_def)
  then have "explains p {} [] st" using explains_cong quiet_prefix [OF q2] by blast
  ultimately show "chain_phase p (pub ! 0) (pub ! 1) [] st"
    using quietD(3) [OF q2] by (auto simp: chain_phase_def control_iff mach_init_def)
qed

lemma finish_ok:
  assumes "finish st n = Inr ex" "mach_ok p E st"
  shows "image_of (ex_mem ex) = mem_get (ms_mem st)" "ex_cycles ex = n" "ex_mem_used ex = length (m_cells (ms_mem st))"
    "ms_base_counts st = Some (ex_base_counts ex)" "trace_of (ex_trace ex) = traces st"
    "\<And>c. unat c < length (ex_mem ex) \<Longrightarrow> t_mem_count (ex_trace ex) ! unat c = mem_cnt (ms_mem st) c"
    "t_bytecode_count (ex_trace ex) = ms_bytecode_count st"
    "length (m_cells (ms_mem st)) \<le> length (ex_mem ex)" "length (t_mem_count (ex_trace ex)) = length (ex_mem ex)"
    "is_power_of_two (length (ex_mem ex))" "length (ex_mem ex) \<le> 2 ^ max_log_mem"
proof -
  let ?used = "length (m_cells (ms_mem st))"
  let ?cells = "max (next_power_of_two ?used) (2 ^ min_log_mem)"
  have le: "?used \<le> ?cells" using next_power_of_two_ge [of ?used] by simp
  obtain base where ex: "ex = \<lparr>ex_mem = resize ?cells f192_zero (m_cells (ms_mem st)), ex_cycles = n, ex_mem_used = ?used,
      ex_base_counts = base, ex_unconstrained_reads = ms_unconstrained_reads st,
      ex_trace = \<lparr>t_xor = ms_xor st, t_mul = ms_mul st, t_set = ms_set st, t_deref = ms_deref st, t_jump = ms_jump st,
        t_blake2s = ms_blake2s st, t_mem_count = resize ?cells (F64 1) (m_count (ms_mem st)),
        t_bytecode_count = ms_bytecode_count st\<rparr>\<rparr>" and base: "ms_base_counts st = Some base" and lim: "?cells \<le> 2 ^ max_log_mem"
    using assms(1) by (auto simp: finish_def Let_def res_bind_eq_Inr split: if_splits)
  have len: "length (m_count (ms_mem st)) = ?used" using mem_wfD(2) [OF mach_okD(2) [OF assms(2)]] .
  show "image_of (ex_mem ex) = mem_get (ms_mem st)"
    using le by (auto simp: fun_eq_iff image_of_def mem_get_def ex nth_resize)
  show "t_mem_count (ex_trace ex) ! unat c = mem_cnt (ms_mem st) c" if "unat c < length (ex_mem ex)" for c
    using that le len by (auto simp: ex mem_cnt_def nth_resize)
  have "is_power_of_two ?cells" using next_power_of_two_power [of ?used] by (auto simp: max_def is_power_of_two_iff)
  then show "is_power_of_two (length (ex_mem ex))" "length (ex_mem ex) \<le> 2 ^ max_log_mem"
    using lim by (simp_all add: ex)
  show "length (m_cells (ms_mem st)) \<le> length (ex_mem ex)" using le by (simp add: ex)
qed (use assms(1) in \<open>auto simp: finish_def Let_def res_bind_eq_Inr traces_def trace_of_def split: if_splits\<close>)

text \<open>The events of a run and what they prove, in one place.\<close>

definition explained_by :: "program \<Rightarrow> f192 list \<Rightarrow> execution \<Rightarrow> event list \<Rightarrow> (u32 \<times> u32 \<times> nat) list \<Rightarrow> event list list \<Rightarrow> bool" where
  "explained_by p pub ex chain F runs \<longleftrightarrow>
    (let M = image_of (ex_mem ex); evs = chain @ concat runs
     in path (0, 0) chain (ending_pc p, 0) \<and> list_all2 (closed_cycle p) F runs \<and> cycles_planned p (table_counts chain) F \<and>
        (\<forall>e\<in>set evs. is_instr (p_prog p) M e) \<and> M 0 = pub ! 0 \<and> M 1 = pub ! 1 \<and>
        trace_of (ex_trace ex) = rows_of evs \<and> ex_base_counts ex = table_counts chain \<and> length evs = ex_cycles ex \<and>
        (\<forall>c. unat c < length (ex_mem ex) \<longrightarrow> t_mem_count (ex_trace ex) ! unat c = cnt_after (touched_cells evs) fresh_counts c) \<and>
        concat (map ev_counts evs) = cnt_reads (touched_cells evs) fresh_counts \<and>
        map ev_bread evs = cnt_reads (map ev_pc evs) fresh_counts \<and>
        length (t_bytecode_count (ex_trace ex)) = length (p_prog p) \<and>
        (\<forall>pc. unat pc < length (p_prog p) \<longrightarrow> t_bytecode_count (ex_trace ex) ! unat pc = cnt_after (map ev_pc evs) fresh_counts pc) \<and>
        (\<forall>e\<in>set evs. length (ev_counts e) = length (ev_cells e) \<and> unat (ev_fp e) < max_cells \<and> unat (ev_nfp e) < max_cells \<and>
           (\<forall>c\<in>set (ev_cells e). unat c < length (ex_mem ex))))"

theorem execute_explained:
  assumes run: "execute p pub = Inr ex" and fo: "filler_ok p" and small: "ex_mem_used ex < 2 ^ 32"
  shows "\<exists>chain F runs. explained_by p pub ex chain F runs"
proof -
  obtain s0 s1 n where s0: "start_up p pub = Inr s0" and s1: "run_loop p 0 s0 = Inr (s1, n)" and fin: "finish s1 n = Inr ex"
    using run by (auto simp: execute_def res_bind_eq_Inr)
  note up = start_up_ok [OF s0]
  have len: "length (p_prog p) < max_cells" using up(2) by simp
  obtain E1 where "mach_ok p E1 s1" using run_loop_alive [OF s1 phase_alive [OF up(1)] len] by (auto simp: alive_def)
  from finish_ok(3) [OF fin this] small have small': "length (m_cells (ms_mem s1)) < 2 ^ 32" by simp
  from run_loop_finished [OF s1 len fo small' disjI1 [OF up(1)]]
  obtain evs where f: "finished p (pub ! 0) (pub ! 1) evs s1" "length evs = n" by auto
  then obtain chain F runs E where evs: "evs = chain @ concat runs" and h: "after_halt p (pub ! 0) (pub ! 1) chain F evs s1"
    and closed: "list_all2 (closed_cycle p) F runs" and ex: "explains p E evs s1"
    unfolding finished_def after_halt_def by blast
  note fo = finish_ok [OF fin explainsD(1) [OF ex]]
  have instr: "\<forall>e\<in>set evs. is_instr (p_prog p) (image_of (ex_mem ex)) e"
    using explainsD(5) [OF ex compat_self [OF mach_okD(1) [OF explainsD(1) [OF ex]]]] fo(1) by simp
  have "event_ok s1 e" if "e \<in> set evs" for e using explainsD(6) [OF ex that] .
  then have ev: "\<forall>e\<in>set evs. length (ev_counts e) = length (ev_cells e) \<and> unat (ev_fp e) < max_cells \<and>
      unat (ev_nfp e) < max_cells \<and> (\<forall>c\<in>set (ev_cells e). unat c < length (ex_mem ex))"
    using fo(8) by (fastforce simp: event_ok_def)
  have cnt: "counts_ok p evs s1" and tr: "traces s1 = rows_of evs" using explainsD(3,4) [OF ex] .
  have "explained_by p pub ex chain F runs"
    unfolding explained_by_def Let_def evs [symmetric]
    using h closed instr ev tr fo f(2) cnt by (simp add: after_halt_def public_cells_def counts_ok_def)
  then show ?thesis by blast
qed

end
