(* ===== verification/Demo.thy ===== *)
theory Demo
  imports Execution
begin

text \<open>
  A concrete run, at which the properties of runs are instantiated.
  A program of three instructions and the halt sentinel, with one hint: it stores a
  pointer to the second public cell, adds, and copies the cell the pointer names.
  The index tables it runs on have two to the sixteen entries and are never unfolded.
\<close>

definition demo :: program where
  "demo = \<lparr>p_prog = [OpSet 2 (F192 2 0 0), OpXor 0 2 3, OpDeref 2 0 4 ModeCell, OpXor 0 0 0], p_bytecode_hash = [],
     p_hints = [(1, [HFieldLimbs 0 5 1])], p_main_frame = 6, p_witness = [], p_filler = [], p_fn_ranges = [], p_src_lines = [],
     p_min_log_committed = 0\<rparr>"

definition demo_public :: "f192 list" where "demo_public = [F192 5 0 0, F192 7 0 0]"

lemma demo_facts [simp]:
  "filler_ok demo" "length (p_prog demo) = 4" "p_filler demo = []"
  "p_hints demo = [(1, [HFieldLimbs 0 5 1])]" "p_main_frame demo = 6"
  "p_prog demo ! 0 = OpSet 2 (F192 2 0 0)" "p_prog demo ! Suc 0 = OpXor 0 2 3" "p_prog demo ! 2 = OpDeref 2 0 4 ModeCell"
  by (simp_all add: filler_ok_def demo_def)

lemmas mem_ops = st_put_def mem_put_def mem_store_def ensure_def Let_def replicate_numeral st_read_def st_bump_def mem_read_def
  bump_access_count_def written_def set_dbg_hint_def

lemmas demo_mem = mem_ops mem_get_def

lemmas demo_loop = loop_head_def wants_switch_def ending_pc_def count_down_def max_steps_def exec_step_def cover_step_def
  fetch_count_def

lemma demo_run:
  obtains ex where "execute demo demo_public = Inr ex" "ex_mem_used ex = 6" "ex_cycles ex = 3"
    "ex_base_counts ex = [1, 0, 1, 1, 0, 0]"
proof -
  obtain g where g: "gp_new 6 = Some g" "gp_covered g = 2 ^ 16 + 1"
    using gp_new_ok [of 6] by (auto simp: min_log_mem_def max_cells_def)
  have "gp_ok g" using gp_new_good [OF g(1)] by blast
  moreover have "F64 2 = f64_g ^ 1" by (simp add: f64_g_def)
  ultimately obtain g2 where g2: "gp_log (F64 2) g = Some (g2, Some 1)" "gp_covered g2 = 2 ^ 16 + 1"
    using gi.log_power [of g 1] g(2) by auto
  have cov: "\<not> gp_covered g \<le> k" "\<not> gp_covered g2 \<le> k" if "k < 100" for k using that g(2) g2(2) by simp_all
  have pow: "next_power_of_two (Suc (Suc (Suc (Suc (Suc (Suc 0)))))) \<le> 2 ^ 32"
    by (rule next_power_of_two_least) simp
  have "\<exists>ex. execute demo demo_public = Inr ex \<and> ex_mem_used ex = 6 \<and> ex_cycles ex = 3 \<and>
    ex_base_counts ex = [1, 0, 1, 1, 0, 0]"
    apply (simp add: execute_def start_up_def g or_panic_def mach_init_def initial_mem_def Let_def hints_in_range_def demo_public_def)
    apply (simp add: demo_mem)
    apply (subst run_loop.simps)
    apply (simp add: demo_loop cov step_set_def demo_mem)
    apply (subst run_loop.simps)
    apply (simp add: demo_loop cov step_arith_def demo_mem h_field_limbs_def limbs_def)
    apply (subst run_loop.simps)
    apply (simp add: demo_loop cov step_deref_def demo_mem deref_base_def as_addr_def st_log_def or_panic_def
        some_or_fail_def g2 deref_effect_def)
    apply (subst run_loop.simps)
    using pow
    apply (simp add: demo_loop halt_and_plan_def Let_def next_cycle_def finish_def state_row_counts_def or_panic_def
        min_log_mem_def max_log_mem_def)
    done
  then show ?thesis using that by blast
qed

end
