(* ===== verification/RunProps.thy ===== *)
theory RunProps
  imports Demo
begin

text \<open>
  The properties of a run as \<^verbatim>\<open>execute\<close> returns it: what the trace, the final memory and
  the access counts mean, and how a run stops.
\<close>

section \<open>Counting accesses\<close>

lemma cnt_after_count: "cnt_after cs f c = f64_g ^ count_list cs c * f c"
  by (induction cs arbitrary: f) (simp_all add: mul_by_g_times algebra_simps)

lemma cnt_reads_count: "i < length cs \<Longrightarrow> cnt_reads cs f ! i = f64_g ^ count_list (take i cs) (cs ! i) * f (cs ! i)"
proof (induction cs arbitrary: f i)
  case (Cons c cs)
  show ?case
  proof (cases i)
    case (Suc j)
    then show ?thesis using Cons by (simp add: mul_by_g_times algebra_simps)
  qed simp
qed simp

lemma cnt_fresh:
  "cnt_after cs fresh_counts c = g_pow (count_list cs c)"
  "i < length cs \<Longrightarrow> cnt_reads cs fresh_counts ! i = g_pow (count_list (take i cs) (cs ! i))"
  by (simp_all add: cnt_after_count cnt_reads_count g_pow_power flip: one_f64_def)


lemma explained_intro:
  assumes "execute p pub = Inr ex" "filler_ok p" "ex_mem_used ex < 2 ^ 32"
  obtains chain F runs where "explained_by p pub ex chain F runs"
  using execute_explained [OF assms] by blast

lemma closed_runs: "list_all2 (closed_cycle p) F runs \<Longrightarrow> es \<in> set runs \<Longrightarrow> \<exists>s. path s es s"
  by (induction F runs rule: list_all2_induct) (auto simp: closed_cycle_def)

lemma sum_table_counts: "sum_list (table_counts evs) = length evs"
proof (induction evs)
  case (Cons e evs)
  have "table_counts (e # evs) = map2 (+) (map (\<lambda>t. if ev_table e = t then 1 else 0) tables) (table_counts evs)"
    by (simp add: table_counts_def in_table_def tables_def)
  moreover have "sum_list (map (\<lambda>t. if ev_table e = t then 1 else 0 :: nat) tables) = 1"
  proof (cases "ev_table e")
    case (Arith x)
    then show ?thesis by (cases x) (simp_all add: tables_def)
  qed (simp_all add: tables_def)
  ultimately show ?case using Cons by (simp add: table_counts_def tables_def)
qed (simp add: table_counts_def in_table_def tables_def)

section \<open>Properties\<close>




lemma run_loop_steps: "run_loop p steps st = Inr (st', n) \<Longrightarrow> steps \<le> max_steps \<Longrightarrow> steps \<le> n \<and> n \<le> max_steps"
  by (induction rule: run_loop_induct) auto

lemma execute_parts:
  assumes "execute p pub = Inr ex"
  obtains s0 s1 E where "start_up p pub = Inr s0" "run_loop p 0 s0 = Inr (s1, ex_cycles ex)" "finish s1 (ex_cycles ex) = Inr ex"
    "mach_ok p E s1" "length (p_prog p) + 2 < max_cells"
proof -
  obtain s0 s1 n where s: "start_up p pub = Inr s0" "run_loop p 0 s0 = Inr (s1, n)" "finish s1 n = Inr ex"
    using assms by (auto simp: execute_def res_bind_eq_Inr)
  note up = start_up_ok [OF s(1)]
  have "alive p s1" using run_loop_alive [OF s(2) phase_alive [OF up(1)]] up(2) by simp
  then obtain E where "mach_ok p E s1" by (auto simp: alive_def)
  moreover have "ex_cycles ex = n" using finish_ok(2) [OF s(3) \<open>mach_ok p E s1\<close>] .
  ultimately show thesis using that s up(2) by simp
qed

lemma execution_bounds_size: "execute p pub = Inr ex \<Longrightarrow> ex_mem_used ex \<le> length (ex_mem ex)"
  using execute_parts [of p pub ex] finish_ok(3,8) by metis

lemma execution_steps: "execute p pub = Inr ex \<Longrightarrow> ex_cycles ex \<le> max_steps"
  by (erule execute_parts) (use run_loop_steps in fastforce)

lemma explained_counts:
  assumes "explained_by p pub ex chain F runs"
  shows "row_counts (ex_trace ex) = table_counts (chain @ concat runs)" "ex_base_counts ex = table_counts chain"
    "length (chain @ concat runs) = ex_cycles ex" "sum_list (ex_base_counts ex) \<le> ex_cycles ex"
proof -
  have tr: "trace_of (ex_trace ex) = rows_of (chain @ concat runs)" "length (chain @ concat runs) = ex_cycles ex"
    "ex_base_counts ex = table_counts chain" using assms by (simp_all add: explained_by_def Let_def)
  then show "row_counts (ex_trace ex) = table_counts (chain @ concat runs)"
    by (simp add: trace_of_def rows_of_def row_counts_def table_counts_def tables_def)
  show "sum_list (ex_base_counts ex) \<le> ex_cycles ex" using tr(2,3) by (simp add: sum_table_counts)
qed (use assms in \<open>simp_all add: explained_by_def Let_def\<close>)

text \<open>C6: a run that returns took at most the step limit, its trace tables together hold one row per step, and its
  memory image is a power of two cells between the minimum and the maximum size that covers every cell used, with one
  access count per cell and per instruction.\<close>
theorem execution_bounds:
  assumes "execute p pub = Inr ex" "filler_ok p" "ex_mem_used ex < 2 ^ 32"
  shows "ex_cycles ex \<le> max_steps \<and> sum_list (row_counts (ex_trace ex)) = ex_cycles ex \<and>
    sum_list (ex_base_counts ex) \<le> ex_cycles ex \<and>
    (\<exists>k\<in>{min_log_mem..max_log_mem}. length (ex_mem ex) = 2 ^ k) \<and> ex_mem_used ex \<le> length (ex_mem ex) \<and>
    length (t_mem_count (ex_trace ex)) = length (ex_mem ex) \<and> length (t_bytecode_count (ex_trace ex)) = length (p_prog p)"
proof (intro conjI)
  obtain s0 s1 E where s: "run_loop p 0 s0 = Inr (s1, ex_cycles ex)" "finish s1 (ex_cycles ex) = Inr ex" "mach_ok p E s1"
    using execute_parts [OF assms(1)] by metis
  show "ex_cycles ex \<le> max_steps" by (rule execution_steps [OF assms(1)])
  obtain chain F runs where e: "explained_by p pub ex chain F runs" using explained_intro [OF assms] .
  then show "length (t_bytecode_count (ex_trace ex)) = length (p_prog p)" by (simp add: explained_by_def Let_def)
  note c = explained_counts [OF e]
  show "sum_list (row_counts (ex_trace ex)) = ex_cycles ex" using c(1,3) sum_table_counts by metis
  show "sum_list (ex_base_counts ex) \<le> ex_cycles ex" by (rule c(4))
  note f = finish_ok [OF s(2,3)]
  show "ex_mem_used ex \<le> length (ex_mem ex)" "length (t_mem_count (ex_trace ex)) = length (ex_mem ex)"
    using f(3,8,9) by simp_all
  obtain k where k: "length (ex_mem ex) = 2 ^ k" using f(10) by (auto simp: is_power_of_two_iff)
  have "2 ^ min_log_mem \<le> length (ex_mem ex)" using s(2)
    by (auto simp: finish_def Let_def res_bind_eq_Inr dest: arg_cong [of _ ex "\<lambda>e. length (ex_mem e)"] split: if_splits)
  then have "k \<in> {min_log_mem..max_log_mem}" using f(11) unfolding k by simp
  then show "\<exists>k\<in>{min_log_mem..max_log_mem}. length (ex_mem ex) = 2 ^ k" using k by blast
qed

theorem execution_bounds_witness:
  "\<exists>ex. execute demo demo_public = Inr ex \<and> sum_list (row_counts (ex_trace ex)) = 3 \<and> ex_mem_used ex \<le> length (ex_mem ex)"
proof -
  obtain ex where ex: "execute demo demo_public = Inr ex" "ex_mem_used ex = 6" "ex_cycles ex = 3" using demo_run by blast
  then have "ex_mem_used ex < 2 ^ 32" by simp
  from execution_bounds [OF ex(1) _ this] show ?thesis using ex by auto
qed

text \<open>C4: the access counts of a run are exact: at the end the count of every memory cell and of every instruction
  is the generator raised to the number of accesses the rows of the trace make to it, and every count a row carries is
  the generator raised to the number of accesses before it.\<close>
theorem access_counts_exact:
  assumes "execute p pub = Inr ex" "filler_ok p" "ex_mem_used ex < 2 ^ 32"
  shows "\<exists>evs. trace_of (ex_trace ex) = rows_of evs \<and> (\<forall>e\<in>set evs. is_instr (p_prog p) (image_of (ex_mem ex)) e) \<and>
    (\<forall>c. unat c < length (ex_mem ex) \<longrightarrow> t_mem_count (ex_trace ex) ! unat c = g_pow (count_list (touched_cells evs) c)) \<and>
    (\<forall>pc. unat pc < length (p_prog p) \<longrightarrow> t_bytecode_count (ex_trace ex) ! unat pc = g_pow (count_list (map ev_pc evs) pc)) \<and>
    (\<forall>i<length (touched_cells evs). concat (map ev_counts evs) ! i =
       g_pow (count_list (take i (touched_cells evs)) (touched_cells evs ! i))) \<and>
    (\<forall>i<length evs. ev_bread (evs ! i) = g_pow (count_list (map ev_pc (take i evs)) (ev_pc (evs ! i))))"
proof -
  obtain chain F runs where e: "explained_by p pub ex chain F runs" using explained_intro [OF assms] .
  then obtain evs where c: "trace_of (ex_trace ex) = rows_of evs" "\<forall>e\<in>set evs. is_instr (p_prog p) (image_of (ex_mem ex)) e"
    "\<forall>c. unat c < length (ex_mem ex) \<longrightarrow> t_mem_count (ex_trace ex) ! unat c = cnt_after (touched_cells evs) fresh_counts c"
    "concat (map ev_counts evs) = cnt_reads (touched_cells evs) fresh_counts"
    "map ev_bread evs = cnt_reads (map ev_pc evs) fresh_counts"
    "\<forall>pc. unat pc < length (p_prog p) \<longrightarrow> t_bytecode_count (ex_trace ex) ! unat pc = cnt_after (map ev_pc evs) fresh_counts pc"
    unfolding explained_by_def Let_def by blast
  have "ev_bread (evs ! i) = g_pow (count_list (map ev_pc (take i evs)) (ev_pc (evs ! i)))" if "i < length evs" for i
    using that arg_cong [OF c(5), of "\<lambda>xs. xs ! i"] by (simp add: cnt_fresh take_map)
  then show ?thesis using c(1-4,6) by (intro exI [of _ evs] conjI) (simp_all add: cnt_fresh)
qed

theorem access_counts_exact_witness:
  "\<exists>ex evs. execute demo demo_public = Inr ex \<and> trace_of (ex_trace ex) = rows_of evs \<and>
     t_mem_count (ex_trace ex) ! 1 = g_pow (count_list (touched_cells evs) 1)"
proof -
  obtain ex where ex: "execute demo demo_public = Inr ex" "ex_mem_used ex = 6" using demo_run by blast
  then have small: "ex_mem_used ex < 2 ^ 32" by simp
  have "unat (1 :: u32) < length (ex_mem ex)" using execution_bounds_size [OF ex(1)] ex(2) by simp
  then show ?thesis using access_counts_exact [OF ex(1) _ small] ex(1) by (metis demo_facts(1) unsigned_1)
qed

section \<open>What the cycles add to the tables\<close>

definition cycle_share :: "nat \<Rightarrow> nat \<times> nat \<times> nat \<Rightarrow> nat" where
  "cycle_share t e = (case e of (t', k, n) \<Rightarrow> (if t' = t then n * sizes ! k else 0) + (if t = jump_table then n else 0))"

lemma sum_enumerate_row:
  assumes "length row = length sizes"
  shows "(\<Sum>(k, n)\<leftarrow>enumerate 0 row. n * sizes ! k) = sum_list (map2 (*) row sizes)"
    "(\<Sum>(k, n)\<leftarrow>enumerate 0 row. n) = sum_list row"
proof -
  show r: "(\<Sum>(k, n)\<leftarrow>enumerate 0 row. n) = sum_list row"
    using arg_cong [OF map_snd_enumerate [of 0 row], of sum_list] by (simp add: case_prod_unfold)
  have "(\<Sum>(k, n)\<leftarrow>xs. n * (f k + 1)) = (\<Sum>(k, n)\<leftarrow>xs. n * f k) + (\<Sum>(k, n)\<leftarrow>xs. n)" for xs and f :: "nat \<Rightarrow> nat"
    by (induction xs) auto
  from this [of "\<lambda>k. sizes ! k" "enumerate 0 row"] show "(\<Sum>(k, n)\<leftarrow>enumerate 0 row. n * sizes ! k) = sum_list (map2 (*) row sizes)"
    using sum_entries_row [OF assms, of 0] r by simp
qed

lemma sum_row_shares:
  assumes "length row = length sizes"
  shows "(\<Sum>e\<leftarrow>map (\<lambda>(k, n). (i, k, n)) (enumerate 0 row). cycle_share t e) =
    (if i = t then sum_list (map2 (*) row sizes) else 0) + (if t = jump_table then sum_list row else 0)"
proof -
  have "(\<Sum>e\<leftarrow>map (\<lambda>(k, n). (i, k, n)) xs. cycle_share t e) =
    (if i = t then (\<Sum>(k, n)\<leftarrow>xs. n * sizes ! k) else 0) + (if t = jump_table then (\<Sum>(k, n)\<leftarrow>xs. n) else 0)" for xs
    by (induction xs) (auto simp: cycle_share_def)
  then show ?thesis using sum_enumerate_row [OF assms] by presburger
qed

lemma sum_shares:
  assumes "\<forall>row\<in>set plan. length row = length sizes" "t < length plan"
  shows "(\<Sum>e\<leftarrow>plan_entries plan. cycle_share t e) = delivered plan ! t + (if t = jump_table then traversals plan else 0)"
proof -
  have "(\<Sum>e\<leftarrow>concat (map (\<lambda>(t, row). map (\<lambda>(k, n). (t, k, n)) (enumerate 0 row)) (enumerate i plan)). cycle_share t e) =
      (if i \<le> t \<and> t < i + length plan then delivered plan ! (t - i) else 0) + (if t = jump_table then traversals plan else 0)" for i
    using assms(1)
  proof (induction plan arbitrary: i)
    case (Cons row plan)
    have del: "delivered (row # plan) = sum_list (map2 (*) row sizes) # delivered plan" by (simp add: delivered_def)
    have tr: "traversals (row # plan) = sum_list row + traversals plan" by (simp add: traversals_def)
    have step: "i \<noteq> t \<Longrightarrow> i \<le> t \<Longrightarrow> t - i = Suc (t - Suc i)" by simp
    let ?L = "\<lambda>i plan. \<Sum>e\<leftarrow>concat (map (\<lambda>(t, row). map (\<lambda>(k, n). (t, k, n)) (enumerate 0 row)) (enumerate i plan)). cycle_share t e"
    have split: "?L i (row # plan) = (\<Sum>e\<leftarrow>map (\<lambda>(k, n). (i, k, n)) (enumerate 0 row). cycle_share t e) + ?L (Suc i) plan"
      by simp
    have ih: "?L (Suc i) plan = (if Suc i \<le> t \<and> t < Suc i + length plan then delivered plan ! (t - Suc i) else 0) +
        (if t = jump_table then traversals plan else 0)"
      by (rule Cons.IH) (use Cons.prems in simp)
    have row: "length row = length sizes" using Cons.prems by simp
    show ?case
      unfolding split ih sum_row_shares [OF row] using step by (auto simp: del tr nth_Cons' Suc_le_eq)
  qed (simp add: delivered_def traversals_def)
  from this [of 0] show ?thesis using assms(2) by (simp add: plan_entries_def)
qed

lemma sum_shares_pos: "(\<Sum>e\<leftarrow>filter (\<lambda>(t, k, n). 0 < n) es. cycle_share t e) = (\<Sum>e\<leftarrow>es. cycle_share t e)"
  by (induction es) (auto simp: cycle_share_def)

text \<open>A block is recognised by its address.\<close>

lemma block_at_unique:
  assumes "block_at p fl b n" "block_at p fl' b n'"
  shows "n = n'" "0 < n \<Longrightarrow> fl = fl'"
proof -
  have code: "i \<le> n \<Longrightarrow> i \<le> n' \<Longrightarrow> filler_block_code fl n ! i = filler_block_code fl' n' ! i" for i
    using assms unfolding block_at_def by metis
  have at: "i \<le> k \<Longrightarrow> filler_block_code f k ! i = (if i < k then filler_dummy f else closing_jump)" for f k i
    by (simp add: filler_block_code_def nth_append)
  have other: "filler_dummy f \<noteq> closing_jump" for f by (cases f) (simp_all add: closing_jump_def fr_offsets)
  show n: "n = n'"
  proof (rule linorder_cases)
    assume "n < n'"
    then show ?thesis using code [of n] other [of fl'] at [of n n fl] at [of n n' fl'] by simp
  next
    assume "n' < n"
    then show ?thesis using code [of n'] other [of fl] at [of n' n fl] at [of n' n' fl'] by simp
  qed simp
  assume "0 < n"
  then have "filler_dummy fl = filler_dummy fl'" using code [of 0] at [of 0] n by simp
  then show "fl = fl'" by (cases fl; cases fl') simp_all
qed

lemma filler_table_index: "(t, fl) \<in> set filler_tables \<Longrightarrow> tables ! unat t = table_of_filler fl \<and> unat t < n_tables"
  by (auto simp: filler_tables_def tables_def n_tables_def)

lemma tables_distinct: "i < n_tables \<Longrightarrow> j < n_tables \<Longrightarrow> tables ! i = tables ! j \<longleftrightarrow> i = j"
  by (auto simp: tables_def n_tables_def less_Suc_eq numeral_eq_Suc)

lemma jump_table_nth: "tables ! jump_table = JumpTable" "jump_table < n_tables"
  by (simp_all add: tables_def jump_table_def n_tables_def)

lemma closed_cycle_share:
  assumes closed: "closed_cycle p (b, f, n * (unat (blk_size fb) + 1)) es" and ok: "filler_ok p" and fb: "fb \<in> set (p_filler p)"
    and b: "blk_pc fb = b" "unat (blk_table fb) = t'" "blk_size fb = of_nat (sizes ! k)" and k: "k < length sizes"
    and t: "t < n_tables"
  shows "length (in_table (tables ! t) es) = cycle_share t (t', k, n)"
proof -
  let ?s = "unat (blk_size fb)"
  have "sizes ! k \<in> set sizes" using k by simp
  then have s: "?s = sizes ! k" "0 < ?s" unfolding b(3) by (auto simp: sizes_def unat_of_nat)
  obtain fl where fl: "(blk_table fb, fl) \<in> set filler_tables" "block_at p fl b ?s"
    using ok fb b(1) by (auto simp: filler_ok_def)
  obtain fl' m where m: "block_at p fl' b m" "\<And>t. length (in_table t es) = cycle_rows fl' m (n * (?s + 1)) t"
    using closed unfolding closed_cycle_def prod.case by blast
  have "m = ?s" "fl' = fl" using block_at_unique [OF fl(2) m(1)] s(2) by simp_all
  moreover have "n * Suc ?s mod Suc ?s = 0" by (rule mod_mult_self2_is_0)
  ultimately have "length (in_table u es) = (if u = table_of_filler fl then n * ?s else 0) + (if u = JumpTable then n else 0)" for u
    by (simp add: m(2) cycle_rows_def del: mult_Suc_right)
  moreover have "tables ! t = table_of_filler fl \<longleftrightarrow> t' = t"
    using filler_table_index [OF fl(1)] tables_distinct [OF t, of t'] b(2) by auto
  moreover have "tables ! t = JumpTable \<longleftrightarrow> t = jump_table"
    using tables_distinct [OF t jump_table_nth(2)] jump_table_nth(1) by simp
  ultimately show ?thesis using s(1) by (simp add: cycle_share_def)
qed

lemma cycles_fill:
  assumes ok: "filler_ok p" and cs: "cycles (p_filler p) plan = Some cs"
    and rows: "list_all2 (\<lambda>(b, size', n) (b', f, rows). b' = b \<and> rows = n * (unat size' + 1)) cs F"
    and closed: "list_all2 (closed_cycle p) F runs"
    and plan: "length plan = n_tables" "\<forall>row\<in>set plan. length row = length sizes" and t: "t < n_tables"
  shows "length (in_table (tables ! t) (concat runs)) = delivered plan ! t + (if t = jump_table then traversals plan else 0)"
proof -
  let ?es = "filter (\<lambda>(t, k, n). 0 < n) (plan_entries plan)"
  have spec: "list_all2 (\<lambda>(pc, size', n) (t, k, m). n = m \<and> size' = of_nat (sizes ! k) \<and>
      (\<exists>b\<in>set (p_filler p). unat (blk_table b) = t \<and> blk_size b = size' \<and> blk_pc b = pc)) cs ?es"
    using cycles_of_spec [of "p_filler p" "plan_entries plan" cs] cs by (simp add: cycles_def)
  have lens: "length ?es = length runs" "length cs = length runs" "length F = length runs"
    using list_all2_lengthD [OF spec] list_all2_lengthD [OF rows] list_all2_lengthD [OF closed] by simp_all
  have "length (in_table (tables ! t) (runs ! i)) = cycle_share t (?es ! i)" if i: "i < length runs" for i
  proof -
    obtain b size' n where c: "cs ! i = (b, size', n)" by (rule prod_cases3)
    obtain t' k m where e: "?es ! i = (t', k, m)" by (rule prod_cases3)
    have ics: "i < length cs" using i lens by simp
    have at: "n = m \<and> size' = of_nat (sizes ! k) \<and>
        (\<exists>fb\<in>set (p_filler p). unat (blk_table fb) = t' \<and> blk_size fb = size' \<and> blk_pc fb = b)"
      using list_all2_nthD [OF spec ics, unfolded c e prod.case] .
    then obtain fb where fb: "fb \<in> set (p_filler p)" "unat (blk_table fb) = t'" "blk_size fb = size'" "blk_pc fb = b" by blast
    obtain f where f: "F ! i = (b, f, n * (unat size' + 1))"
      using list_all2_nthD [OF rows, of i] i lens c by (cases "F ! i") simp
    have "?es ! i \<in> set ?es" using i lens nth_mem by metis
    then have "(t', k, m) \<in> set (plan_entries plan)" unfolding e by simp
    then have k: "k < length sizes" using plan_entries_in plan nth_mem by metis
    have cl: "closed_cycle p (b, f, n * (unat (blk_size fb) + 1)) (runs ! i)"
      using list_all2_nthD2 [OF closed i] f fb(3) by simp
    show ?thesis using closed_cycle_share [OF cl ok fb(1,4,2) _ k t] at fb(3) e by simp
  qed
  then have "map (\<lambda>es. length (in_table (tables ! t) es)) runs = map (cycle_share t) ?es"
    by (intro nth_equalityI) (simp_all add: lens del: length_filter_conv_card)
  moreover have "length (in_table u (concat rs)) = sum_list (map (\<lambda>es. length (in_table u es)) rs)" for u rs
    by (induction rs) simp_all
  ultimately show ?thesis using sum_shares_pos [of t "plan_entries plan"] sum_shares [OF plan(2)] plan(1) t by simp
qed

end
