(* ===== verification/FillRuns.thy ===== *)
theory FillRuns
  imports RunProps
begin

section \<open>Exact effects\<close>

text \<open>
  A state reached by touching the cells \<^verbatim>\<open>T\<close> and storing the words \<^verbatim>\<open>ws\<close>, within a memory of \<^verbatim>\<open>n\<close> cells.
\<close>

definition stored :: "(u32 \<times> f192) list \<Rightarrow> (u32 \<Rightarrow> f192) \<Rightarrow> u32 \<Rightarrow> f192" where
  "stored ws f = fold (\<lambda>(c, v) f. f(c := v)) ws f"

lemma stored_simps [simp]: "stored [] f = f" "stored ((c, v) # ws) f = stored ws (f(c := v))"
    "stored (ws @ vs) f = stored vs (stored ws f)"
  by (simp_all add: stored_def)

lemma stored_other: "c \<notin> fst ` set ws \<Longrightarrow> stored ws f c = f c"
  by (induction ws arbitrary: f) auto

definition goes :: "program \<Rightarrow> (u32 \<times> u32) set \<Rightarrow> nat \<Rightarrow> u32 set \<Rightarrow> (u32 \<times> f192) list \<Rightarrow> mach \<Rightarrow> mach \<Rightarrow> bool" where
  "goes p E n T ws st s \<longleftrightarrow> mach_ok p E s \<and> gp_covered (ms_g st) \<le> gp_covered (ms_g s) \<and>
    (length (m_cells (ms_mem st)) \<le> n \<longrightarrow> length (m_cells (ms_mem s)) \<le> n) \<and>
    mem_st (ms_mem s) = (\<lambda>c. if c \<in> T then Written else mem_st (ms_mem st) c) \<and>
    mem_get (ms_mem s) = stored ws (mem_get (ms_mem st)) \<and> ms_pc s = ms_pc st \<and> ms_fp s = ms_fp st"

lemma goes_refl: "mach_ok p E st \<Longrightarrow> goes p E n {} [] st st"
  by (simp add: goes_def)

lemma goes_trans: "goes p E n T ws a b \<Longrightarrow> goes p E n T' ws' b c \<Longrightarrow> goes p E n (T \<union> T') (ws @ ws') a c"
  unfolding goes_def by (auto intro!: ext)

lemma goesD:
  assumes "goes p E n T ws st s"
  shows "mach_ok p E s" "mem_get (ms_mem s) = stored ws (mem_get (ms_mem st))" "ms_pc s = ms_pc st" "ms_fp s = ms_fp st"
    "c \<in> T \<Longrightarrow> mem_st (ms_mem s) c = Written" "c \<notin> T \<Longrightarrow> mem_st (ms_mem s) c = mem_st (ms_mem st) c"
    "gp_covered (ms_g st) \<le> gp_covered (ms_g s)"
  using assms by (auto simp: goes_def)

lemma goes_read:
  assumes ok: "mach_ok p E st" and rd: "st_read c st = (s, v)" and c: "unat c < n"
  shows "goes p E n {c} [] st s" "v = mem_get (ms_mem st) c" "ms_g s = ms_g st"
proof -
  obtain m where m: "mem_read c (ms_mem st) = (m, v)" and s: "s = st\<lparr>ms_mem := m\<rparr>"
    using rd by (auto simp: st_read_def split: prod.splits)
  note w = mem_read_views [OF mach_okD(2) [OF ok] m]
  show "goes p E n {c} [] st s" "v = mem_get (ms_mem st) c" "ms_g s = ms_g st"
    using st_read_ok(1) [OF ok rd] w(1,2,3,8) c by (auto simp: goes_def s fun_eq_iff)
qed

lemma goes_bump:
  assumes ok: "mach_ok p E st" and b: "st_bump c st = (s, r)" and c: "unat c < n"
  shows "goes p E n {} [] st s" "ms_g s = ms_g st"
proof -
  obtain m where m: "bump_access_count c (ms_mem st) = (m, r)" and s: "s = st\<lparr>ms_mem := m\<rparr>"
    using b by (auto simp: st_bump_def split: prod.splits)
  note w = bump_views [OF mach_okD(2) [OF ok] m]
  show "goes p E n {} [] st s" "ms_g s = ms_g st"
    using st_bump_ok(1) [OF ok b] w(3,4,8) c by (auto simp: goes_def s fun_eq_iff)
qed

lemma goes_bumps:
  "\<lbrakk>mach_ok p E st; st_bumps cs st = (s, rs); \<forall>c\<in>set cs. unat c < n\<rbrakk> \<Longrightarrow> goes p E n {} [] st s \<and> ms_g s = ms_g st"
proof (induction cs arbitrary: st s rs)
  case (Cons c cs)
  obtain s1 r rs' where b: "st_bump c st = (s1, r)" and bs: "st_bumps cs s1 = (s, rs')"
    using Cons.prems(2) by (auto simp: st_bumps.simps split: prod.splits)
  note 1 = goes_bump [OF Cons.prems(1) b, of n]
  have g1: "goes p E n {} [] st s1" "ms_g s1 = ms_g st" using 1 Cons.prems(3) by simp_all
  have ih: "goes p E n {} [] s1 s \<and> ms_g s = ms_g s1" using Cons.IH [OF goesD(1) [OF g1(1)] bs] Cons.prems(3) by simp
  show ?case using goes_trans [OF g1(1) conjunct1 [OF ih]] ih g1(2) by simp
qed (simp add: st_bumps.simps goes_refl)

lemma goes_reads:
  "\<lbrakk>mach_ok p E st; st_reads cs st = (s, vs); \<forall>c\<in>set cs. unat c < n\<rbrakk> \<Longrightarrow>
    goes p E n (set cs) [] st s \<and> vs = map (mem_get (ms_mem st)) cs \<and> ms_g s = ms_g st"
proof (induction cs arbitrary: st s vs)
  case (Cons c cs)
  obtain s1 v vs' where b: "st_read c st = (s1, v)" and bs: "st_reads cs s1 = (s, vs')" and vs: "vs = v # vs'"
    using Cons.prems(2) by (auto simp: st_reads.simps split: prod.splits)
  have g1: "goes p E n {c} [] st s1" "v = mem_get (ms_mem st) c" "ms_g s1 = ms_g st"
    using goes_read [OF Cons.prems(1) b, of n] Cons.prems(3) by simp_all
  have ih: "goes p E n (set cs) [] s1 s \<and> vs' = map (mem_get (ms_mem s1)) cs \<and> ms_g s = ms_g s1"
    using Cons.IH [OF goesD(1) [OF g1(1)] bs] Cons.prems(3) by simp
  show ?case using goes_trans [OF g1(1) conjunct1 [OF ih]] ih g1(2,3) goesD(2) [OF g1(1)] vs by simp
qed (simp add: st_reads.simps goes_refl)

text \<open>A store to an unlinked cell that holds nothing else.\<close>

definition can_put :: "mach \<Rightarrow> u32 \<Rightarrow> f192 \<Rightarrow> bool" where
  "can_put st c v \<longleftrightarrow> mem_st (ms_mem st) c \<noteq> Linked \<and> (mem_st (ms_mem st) c = Written \<longrightarrow> mem_get (ms_mem st) c = v)"

lemma goes_put:
  assumes ok: "mach_ok p E st" and can: "can_put st c v" and c: "unat c < n"
  obtains s where "st_put c v st = Inr s" "goes p E n {c} [(c, v)] st s" "ms_g s = ms_g st"
proof -
  have wf: "mem_wf (ms_mem st)" using mach_okD(2) [OF ok] .
  obtain m where m: "mem_put c v (ms_mem st) = Inr m"
    using mem_put_unlinked [OF wf, of c v] can by (auto simp: can_put_def written_st)
  then obtain m1 l where s: "mem_store c v (ms_mem st) = Inr (m1, l)" and l: "(if l then mem_spread c v m1 else Inr m1) = Inr m"
    by (auto simp: mem_put_def split: sum.splits)
  note w = mem_store_views [OF wf s]
  have "m1 = m" using l w(1) can by (simp add: can_put_def)
  moreover have put: "st_put c v st = Inr (st\<lparr>ms_mem := m\<rparr>)" using m by (simp add: st_put_iff)
  moreover have "mach_ok p E (st\<lparr>ms_mem := m\<rparr>)" using keepsD [OF keeps_put put ok] quietD(1) by blast
  ultimately show thesis using that [of "st\<lparr>ms_mem := m\<rparr>"] w(3,4,9) c by (auto simp: goes_def fun_eq_iff)
qed

text \<open>The index only grows.\<close>

lemma goes_index: "mach_ok p E st \<Longrightarrow> gp_ok g \<Longrightarrow> gp_covered (ms_g st) \<le> gp_covered g \<Longrightarrow> goes p E n {} [] st (st\<lparr>ms_g := g\<rparr>)"
  by (simp add: goes_def mach_ok_def)

lemma goes_log:
  assumes ok: "mach_ok p E st" and k: "k < gp_covered (ms_g st)"
  obtains s where "st_log (f64_g ^ k) st = Inr (s, Some k)" "goes p E n {} [] st s"
proof -
  obtain g where g: "gp_log (f64_g ^ k) (ms_g st) = Some (g, Some k)" "gp_ok g" "gp_covered g = gp_covered (ms_g st)"
    using gi.log_power [OF mach_okD(3) [OF ok] k] by blast
  then show thesis using that [of "st\<lparr>ms_g := g\<rparr>"] goes_index [OF ok g(2)] by (simp add: st_log_def or_panic_def)
qed

lemma goes_grow:
  assumes ok: "mach_ok p E st" and k: "k < max_cells"
  obtains s where "st_grow k st = Inr s" "goes p E n {} [] st s" "k < gp_covered (ms_g s)"
proof -
  obtain g where g: "gp_grow_to k (ms_g st) = Some g" "gp_ok g" "gp_covered g = max (gp_covered (ms_g st)) (k + 1)"
    using gi.grow_total [OF mach_okD(3) [OF ok] k] by blast
  then show thesis using that [of "st\<lparr>ms_g := g\<rparr>"] goes_index [OF ok g(2)] by (simp add: st_grow_def or_panic_def)
qed

lemma goes_note:
  assumes ok: "mach_ok p E st" and k: "k < gp_covered (ms_g st)"
  obtains s where "st_note k st = Inr s" "goes p E n {} [] st s" "gp_covered (ms_g s) = gp_covered (ms_g st)"
proof -
  obtain g where g: "gp_note k (ms_g st) = Some g" "gp_ok g" "gp_covered g = gp_covered (ms_g st)"
    using gi.note_total [OF mach_okD(3) [OF ok] k] by blast
  then show thesis using that [of "st\<lparr>ms_g := g\<rparr>"] goes_index [OF ok g(2)] by (simp add: st_note_def or_panic_def)
qed

lemma st_pow_total: "mach_ok p E st \<Longrightarrow> k < gp_covered (ms_g st) \<Longrightarrow> st_pow k st = Inr (f64_g ^ k)"
  using gp_pow_nth [of "ms_g st" k]
  by (auto simp: st_pow_def gp_pow_at_def gp_covered_def or_panic_def mach_ok_def gp_ok_def gp_inv_def)

lemma goes_ensure:
  assumes ok: "mach_ok p E st" and i: "i < n"
  shows "goes p E n {} [] st (st_ensure i st)"
proof -
  note q = keepsD [OF keeps_ensure refl ok, of i]
  have "length (m_cells (ensure i (ms_mem st))) = max (length (m_cells (ms_mem st))) (i + 1)"
    by (simp add: ensure_def)
  then show ?thesis using quietD(1) [OF q] ensure_views(1,2) [OF mach_okD(2) [OF ok], of i] i by (simp add: goes_def st_ensure_def)
qed

section \<open>A dummy never fails\<close>

definition dummy_digest :: "f64 list" where
  "dummy_digest = digest (concat (map words_of (replicate 4 (F64 0))),
     concat (map words_of (replicate 4 (F64 0))) @ concat (map words_of (replicate 4 (F64 0))), 0, 0, 0)"

lemma compress_zeros: "blake2s_compress (replicate 4 (F64 0)) (replicate 4 (F64 0)) (replicate 4 (F64 0)) f192_zero = Some dummy_digest"
  by (simp add: blake2s_compress_def compression_def unpack_metadata_def f192_zero_def dummy_digest_def)

text \<open>What a dummy stores, and the cells it needs to be zero; \<^verbatim>\<open>x\<close> is the first public cell.\<close>

fun dummy_writes :: "filler_op \<Rightarrow> f192 \<Rightarrow> (u32 \<times> f192) list" where
  "dummy_writes FillDeref x = [(fr_scratch, x)]"
| "dummy_writes FillJump x = []"
| "dummy_writes FillBlake2s x = [(fr_digest, F192 (raw64 (dummy_digest ! 0)) (raw64 (dummy_digest ! 1)) 0),
     (fr_digest + 1, F192 (raw64 (dummy_digest ! 2)) (raw64 (dummy_digest ! 3)) 0)]"
| "dummy_writes _ x = [(fr_scratch, f192_zero)]"

fun zero_cells :: "filler_op \<Rightarrow> u32 list" where
  "zero_cells FillBlake2s = [fr_scratch, fr_scratch + 1, fr_digest + 2, fr_digest + 3, fr_digest + 4, fr_digest + 5]"
| "zero_cells FillXor = [fr_scratch]"
| "zero_cells FillMul = [fr_scratch]"
| "zero_cells _ = []"

definition ready :: "filler_op \<Rightarrow> f192 \<Rightarrow> u32 \<Rightarrow> mach \<Rightarrow> bool" where
  "ready fl x f st \<longleftrightarrow> (\<forall>(i, v)\<in>set (dummy_writes fl x). can_put st (f + i) v) \<and>
    (\<forall>i\<in>set (zero_cells fl). mem_get (ms_mem st) (f + i) = f192_zero)"

definition frame_cells :: "u32 \<Rightarrow> u32 set" where
  "frame_cells f = {c. unat f \<le> unat c \<and> unat c < unat f + 12}"

lemma in_frame: "unat f < max_cells \<Longrightarrow> unat i < 12 \<Longrightarrow> f + i \<in> frame_cells f"
  using unat_frame_add [of f i] by (simp add: frame_cells_def)

text \<open>The outcome of a step: what it touched and stored, its program counter aside.\<close>

definition went :: "program \<Rightarrow> (u32 \<times> u32) set \<Rightarrow> nat \<Rightarrow> u32 set \<Rightarrow> (u32 \<times> f192) list \<Rightarrow> mach \<Rightarrow> mach \<Rightarrow> bool" where
  "went p E n T ws st st' \<longleftrightarrow> (\<exists>s T'. T' \<subseteq> T \<and> goes p E n T' ws st s \<and> ms_mem st' = ms_mem s \<and> ms_g st' = ms_g s)"

lemma wentI: "goes p E n T' ws' st s \<Longrightarrow> ws' = ws \<Longrightarrow> T' \<subseteq> T \<Longrightarrow> ms_mem st' = ms_mem s \<Longrightarrow> ms_g st' = ms_g s \<Longrightarrow> went p E n T ws st st'"
  unfolding went_def by blast

lemma zero_arith: "f192_add f192_zero f192_zero = f192_zero" "f192_mul f192_zero f192_zero = f192_zero"
  by (simp_all flip: zero_f192_def plus_f192_def times_f192_def)

lemma arith_goes:
  assumes ok: "mach_ok p E st" and rd: "mem_get (ms_mem st) a = f192_zero" "can_put st a f192_zero"
    and a: "a = ms_fp st + fr_scratch" "unat a < n"
  shows "\<exists>st'. step_arith p isx fr_scratch fr_scratch fr_scratch br st = Inr st' \<and> went p E n {a} [(a, f192_zero)] st st'"
proof -
  have bs: "back_solve p a a a st = Inr st" by (simp add: back_solve_def Let_def)
  obtain s1 va where s1: "st_read a st = (s1, va)" by fastforce
  note g1 = goes_read [OF ok s1 a(2)]
  obtain s2 vb where s2: "st_read a s1 = (s2, vb)" by fastforce
  note g2 = goes_read [OF goesD(1) [OF g1(1)] s2 a(2)]
  note g12 = goes_trans [OF g1(1) g2(1)]
  have v: "va = f192_zero" "vb = f192_zero" using g1(2) g2(2) goesD(2) [OF g1(1)] rd(1) by simp_all
  have "can_put s2 a f192_zero" using goesD(2,5) [OF g12] rd(1) by (simp add: can_put_def)
  then obtain s3 where s3: "st_put a f192_zero s2 = Inr s3" and g3: "goes p E n {a} [(a, f192_zero)] s2 s3"
    using goes_put [OF goesD(1) [OF g12] _ a(2)] by blast
  obtain s4 ra where s4: "st_bump a s3 = (s4, ra)" by fastforce
  obtain s5 rb where s5: "st_bump a s4 = (s5, rb)" by fastforce
  obtain s6 rc where s6: "st_bump a s5 = (s6, rc)" by fastforce
  have g6: "goes p E n {} [] s3 s6"
    using goes_bumps [OF goesD(1) [OF g3] st_bumps3 [OF s4 s5 s6]] a(2) by simp
  have sum: "(if isx then f192_add va vb else f192_mul va vb) = f192_zero" unfolding v using zero_arith by simp
  obtain st' where st': "step_arith p isx fr_scratch fr_scratch fr_scratch br st = Inr st'" "ms_mem st' = ms_mem s6" "ms_g st' = ms_g s6"
    unfolding step_arith_def Let_def a(1) [symmetric] bs s1 s2 prod.case sum if_cancel res_bind_Inr s3 s4 s5 s6 by simp
  have "went p E n {a} [(a, f192_zero)] st st'"
    by (rule wentI [OF goes_trans [OF goes_trans [OF g12 g3] g6]]) (use st' in auto)
  then show ?thesis using st'(1) by blast
qed

lemma set_goes:
  assumes ok: "mach_ok p E st" and can: "can_put st a k" and a: "a = ms_fp st + fr_scratch" "unat a < n"
  shows "\<exists>st'. step_set fr_scratch k br st = Inr st' \<and> went p E n {a} [(a, k)] st st'"
proof -
  obtain s where s: "st_put a k st = Inr s" and g: "goes p E n {a} [(a, k)] st s" using goes_put [OF ok can a(2)] .
  obtain s' r where s': "st_bump a s = (s', r)" by fastforce
  note g' = goes_bump [OF goesD(1) [OF g] s' a(2)]
  obtain st' where st': "step_set fr_scratch k br st = Inr st'" "ms_mem st' = ms_mem s'" "ms_g st' = ms_g s'"
    unfolding step_set_def Let_def a(1) [symmetric] s res_bind_Inr s' prod.case by simp
  have "went p E n {a} [(a, k)] st st'" by (rule wentI [OF goes_trans [OF g g'(1)]]) (use st' in auto)
  then show ?thesis using st'(1) by blast
qed

lemma deref_goes:
  assumes ok: "mach_ok p E st" and ptr: "mem_get (ms_mem st) (ms_fp st + fr_ptr) = f192_one"
    and zero: "mem_st (ms_mem st) 0 = Written" and can: "can_put st a (mem_get (ms_mem st) 0)" and cov: "0 < gp_covered (ms_g st)"
    and a: "a = ms_fp st + fr_scratch" "unat a < n" "unat (ms_fp st + fr_ptr) < n" "ms_fp st + fr_ptr \<noteq> a"
  shows "\<exists>st'. step_deref p fr_ptr 0 fr_scratch ModeCell br st = Inr st' \<and>
    went p E n {ms_fp st + fr_ptr, a} [(a, mem_get (ms_mem st) 0)] st st'"
proof -
  let ?a1 = "ms_fp st + fr_ptr" and ?x = "mem_get (ms_mem st) 0"
  obtain s1 v where s1: "st_read ?a1 st = (s1, v)" by fastforce
  note g1 = goes_read [OF ok s1 a(3)]
  obtain s2 where s2: "st_log (f64_g ^ 0) s1 = Inr (s2, Some 0)" and g2: "goes p E n {} [] s1 s2"
    using goes_log [OF goesD(1) [OF g1(1)], of 0 n] cov g1(3) by auto
  note g12 = goes_trans [OF g1(1) g2]
  have one: "v = f192_from (f64_g ^ 0)" using g1(2) ptr by (simp add: f192_one_def f192_from_def one_f64_def)
  have base: "deref_base p v s1 = Inr (s2, 0)" unfolding deref_base_def one as_addr_from some_or_fail_def by (simp add: s2 [simplified])
  have w0: "written (ms_mem s2) 0" using goesD(5,6) [OF g12, of 0] zero by (cases "0 = ?a1") (auto simp: written_st)
  have "unat (0 :: u32) < length (m_cells (ms_mem s2))"
    using w0 mem_wfD(1) [OF mach_okD(2) [OF goesD(1) [OF g12]]] by (simp add: written_def)
  then have "m_cells (ms_mem s2) ! 0 = mem_get (ms_mem s2) 0" by (simp add: mem_get_def)
  then have x: "m_cells (ms_mem s2) ! 0 = ?x" using goesD(2) [OF g12] by simp
  have "can_put s2 a ?x" using can goesD(2,6) [OF g12] a(4) by (simp add: can_put_def)
  then obtain s3 where s3: "st_put a ?x s2 = Inr s3" and g3: "goes p E n {a} [(a, ?x)] s2 s3"
    using goes_put [OF goesD(1) [OF g12] _ a(2)] by blast
  have eff: "deref_effect ModeCell 0 a s2 = Inr s3" using w0 x s3 by (simp add: deref_effect_def)
  obtain s4 ra where s4: "st_bump ?a1 s3 = (s4, ra)" by fastforce
  obtain s5 rb where s5: "st_bump 0 s4 = (s5, rb)" by fastforce
  obtain s6 rc where s6: "st_bump a s5 = (s6, rc)" by fastforce
  have g6: "goes p E n {} [] s3 s6"
    using goes_bumps [OF goesD(1) [OF g3] st_bumps3 [OF s4 s5 s6]] a by simp
  have fp: "ms_fp s2 + fr_scratch = a" using goesD(4) [OF g12] a(1) by simp
  obtain st' where st': "step_deref p fr_ptr 0 fr_scratch ModeCell br st = Inr st'" "ms_mem st' = ms_mem s6" "ms_g st' = ms_g s6"
    unfolding step_deref_def Let_def s1 prod.case base res_bind_Inr fp by (simp add: eff s4 s5 s6)
  have "went p E n {?a1, a} [(a, ?x)] st st'"
    by (rule wentI [OF goes_trans [OF goes_trans [OF g12 g3] g6]]) (use st' in auto)
  then show ?thesis using st'(1) by blast
qed

lemma jump_goes:
  assumes ok: "mach_ok p E st" and zero: "mem_get (ms_mem st) a = f192_zero" and a: "a = ms_fp st + fr_zero" "unat a < n"
  shows "\<exists>st'. step_jump p fr_zero fr_zero fr_zero br st = Inr st' \<and> went p E n {a} [] st st'"
proof -
  obtain s1 wc where s1: "st_read a st = (s1, wc)" by fastforce
  note g1 = goes_read [OF ok s1 a(2)]
  obtain s2 wd where s2: "st_read a s1 = (s2, wd)" by fastforce
  note g2 = goes_read [OF goesD(1) [OF g1(1)] s2 a(2)]
  note g12 = goes_trans [OF g1(1) g2(1)]
  obtain s3 wf where s3: "st_read a s2 = (s3, wf)" by fastforce
  note g3 = goes_read [OF goesD(1) [OF g12] s3 a(2)]
  note g13 = goes_trans [OF g12 g3(1)]
  have w: "wc = f192_from (F64 0)" "wd = f192_from (F64 0)" "wf = f192_from (F64 0)"
    using g1(2) g2(2) g3(2) goesD(2) [OF g1(1)] goesD(2) [OF g12] zero by (simp_all add: f192_from_zero)
  have k: "in_k what (f192_from x) = Inr x" for what x by (simp add: in_k_Inr)
  obtain s4 ra where s4: "st_bump a s3 = (s4, ra)" by fastforce
  obtain s5 rb where s5: "st_bump a s4 = (s5, rb)" by fastforce
  obtain s6 rc where s6: "st_bump a s5 = (s6, rc)" by fastforce
  have g6: "goes p E n {} [] s3 s6"
    using goes_bumps [OF goesD(1) [OF g13] st_bumps3 [OF s4 s5 s6]] a(2) by simp
  obtain st' where st': "step_jump p fr_zero fr_zero fr_zero br st = Inr st'" "ms_mem st' = ms_mem s6" "ms_g st' = ms_g s6"
    unfolding step_jump_def Let_def a(1) [symmetric] s1 prod.case w k
    by (simp add: or_fail_def s2 w k s3 s4 s5 s6 f64_is_zero_def)
  have "went p E n {a} [] st st'"
    by (rule wentI [OF goes_trans [OF g13 g6]]) (use st' in auto)
  then show ?thesis using st'(1) by blast
qed

text \<open>A jump taken, its condition and its target in one cell.\<close>

lemma taken_goes:
  assumes ok: "mach_ok p E st" and fp: "ms_fp st = f" and dest: "mem_get (ms_mem st) (f + oc) = f192_from (f64_g ^ b)"
    and nfp: "mem_get (ms_mem st) (f + of') = f192_from (f64_g ^ k)"
    and cov: "b < gp_covered (ms_g st)" "k < gp_covered (ms_g st)" "b < length (p_prog p)"
    and n: "unat (f + oc) < n" "unat (f + of') < n"
  shows "\<exists>st'. step_jump p oc oc of' br st = Inr st' \<and> went p E n {f + oc, f + of'} [] st st'"
proof -
  let ?a = "f + oc" and ?c = "f + of'"
  obtain s1 wc where s1: "st_read ?a st = (s1, wc)" by fastforce
  note g1 = goes_read [OF ok s1 n(1)]
  obtain s2 wd where s2: "st_read ?a s1 = (s2, wd)" by fastforce
  note g2 = goes_read [OF goesD(1) [OF g1(1)] s2 n(1)]
  note g12 = goes_trans [OF g1(1) g2(1)]
  obtain s3 wf where s3: "st_read ?c s2 = (s3, wf)" by fastforce
  note g3 = goes_read [OF goesD(1) [OF g12] s3 n(2)]
  note g13 = goes_trans [OF g12 g3(1)]
  have w: "wc = f192_from (f64_g ^ b)" "wd = f192_from (f64_g ^ b)" "wf = f192_from (f64_g ^ k)"
    using g1(2) g2(2) g3(2) goesD(2) [OF g1(1)] goesD(2) [OF g12] dest nfp by simp_all
  have k: "in_k what (f192_from x) = Inr x" for what x by (simp add: in_k_Inr)
  have nz: "\<not> f64_is_zero (f64_g ^ b)" using f64_g_pow_nonzero [of b] by (cases "f64_g ^ b") (simp add: f64_is_zero_def)
  obtain s4 ra where s4: "st_bump ?a s3 = (s4, ra)" by fastforce
  obtain s5 rb where s5: "st_bump ?a s4 = (s5, rb)" by fastforce
  obtain s6 rc where s6: "st_bump ?c s5 = (s6, rc)" by fastforce
  have g6: "goes p E n {} [] s3 s6"
    using goes_bumps [OF goesD(1) [OF g13] st_bumps3 [OF s4 s5 s6]] n by simp
  note g16 = goes_trans [OF g13 g6]
  let ?row = "\<lparr>j_pc = ms_pc s6, j_fp = ms_fp s6, j_rc = ra, j_rd = rb, j_rf = rc, j_bytecode_read = br\<rparr>"
  let ?s = "s6\<lparr>ms_jump := ms_jump s6 @ [?row]\<rparr>"
  have g7: "goes p E n {} [] s6 ?s" using goesD(1) [OF g16] by (simp add: goes_def mach_ok_def)
  note g17 = goes_trans [OF g16 g7]
  have cov': "b < gp_covered (ms_g ?s)" using goesD(7) [OF g17] cov by simp
  obtain s8 where s8: "st_log (f64_g ^ b) ?s = Inr (s8, Some b)" and g8: "goes p E n {} [] ?s s8"
    using goes_log [OF goesD(1) [OF g17] cov'] .
  note g18 = goes_trans [OF g17 g8]
  have "k < gp_covered (ms_g s8)" using goesD(7) [OF g18] cov by simp
  then obtain s9 where s9: "st_log (f64_g ^ k) s8 = Inr (s9, Some k)" and g9: "goes p E n {} [] s8 s9"
    using goes_log [OF goesD(1) [OF g18]] by blast
  obtain st' where st': "step_jump p oc oc of' br st = Inr st'" "ms_mem st' = ms_mem s9" "ms_g st' = ms_g s9"
    unfolding step_jump_def Let_def fp s1 prod.case w k
    using nz cov(3) by (simp add: or_fail_def s2 w k s3 s4 s5 s6 s8 s9 some_or_fail_def)
  have "went p E n {?a, ?c} [] st st'"
    by (rule wentI [OF goes_trans [OF g18 g9]]) (use st' in auto)
  then show ?thesis using st'(1) by blast
qed

lemma lane_zero: "lane_pair f192_zero @ lane_pair f192_zero = replicate 4 (F64 0)" "coeff2 f192_zero = 0"
  by (simp_all add: lane_pair_def f192_zero_def numeral_eq_Suc)

lemma digest_length: "blake2s_compress va vb vcv md = Some vc \<Longrightarrow> length vc = 4"
  using blake2s_compress_length [of va vb vcv md vc] by auto

lemma blake2s_goes:
  assumes ok: "mach_ok p E st" and fp: "ms_fp st = f" and f: "unat f < max_cells" "unat f + 12 \<le> n"
    and zero: "\<forall>i\<in>set (zero_cells FillBlake2s). mem_get (ms_mem st) (f + i) = f192_zero" "mem_get (ms_mem st) (f + fr_zero) = f192_zero"
    and can: "\<forall>(i, v)\<in>set (dummy_writes FillBlake2s x). can_put st (f + i) v"
  shows "\<exists>st'. step_op p (filler_dummy FillBlake2s) br st = Inr st' \<and>
    went p E n (frame_cells f) (map (\<lambda>(i, v). (f + i, v)) (dummy_writes FillBlake2s x)) st st'"
proof -
  let ?ins = "[f + (fr_digest + 2), f + (fr_digest + 3), f + (fr_digest + 4), f + (fr_digest + 5), f + fr_scratch,
    f + fr_scratch + 1, f + fr_zero]"
  let ?ac = "f + fr_digest"
  let ?v0 = "F192 (raw64 (dummy_digest ! 0)) (raw64 (dummy_digest ! 1)) 0"
  let ?v1 = "F192 (raw64 (dummy_digest ! 2)) (raw64 (dummy_digest ! 3)) 0"
  have inf: "f + i \<in> frame_cells f" if "unat i < 12" for i using in_frame [OF f(1) that] .
  have less: "unat (f + i) < n" if "unat i < 12" for i using inf [OF that] f(2) by (simp add: frame_cells_def)
  have ins: "set ?ins \<subseteq> frame_cells f" using inf by (auto simp: fr_offsets add.assoc)
  have ins_n: "\<forall>c\<in>set ?ins. unat c < n" using ins f(2) by (auto simp: frame_cells_def)
  obtain s1 words where s1: "st_reads ?ins st = (s1, words)" by fastforce
  have g1: "goes p E n (set ?ins) [] st s1" and words: "words = map (mem_get (ms_mem st)) ?ins"
    using goes_reads [OF ok s1 ins_n] by blast+
  have w0: "words = replicate 7 f192_zero"
    using zero unfolding words by (simp add: fr_offsets add.assoc numeral_eq_Suc)
  have none: "find (\<lambda>(i, w). coeff2 w \<noteq> 0) (enumerate 0 words) = None"
    unfolding w0 by (auto simp: find_None_iff in_set_enumerate_eq lane_zero(2))
  have vc: "blake2s_compress (lane_pair (words ! 0) @ lane_pair (words ! 1)) (lane_pair (words ! 2) @ lane_pair (words ! 3))
      (lane_pair (words ! 4) @ lane_pair (words ! 5)) (words ! 6) = Some dummy_digest"
    unfolding w0 using compress_zeros by (simp add: lane_zero(1))
  have out: "?ac \<notin> set ?ins" "?ac + 1 \<notin> set ?ins" by (simp_all add: fr_offsets add.assoc)
  have can: "can_put st ?ac ?v0" "can_put st (?ac + 1) ?v1" using can by (simp_all add: add.assoc)
  have "can_put s1 ?ac ?v0" using can(1) out(1) goesD(2,6) [OF g1] by (simp add: can_put_def)
  then obtain s2 where s2: "st_put ?ac ?v0 s1 = Inr s2" and g2: "goes p E n {?ac} [(?ac, ?v0)] s1 s2"
    using goes_put [OF goesD(1) [OF g1], of ?ac ?v0 n] less [of fr_digest] by (auto simp: fr_digest_def)
  note g12 = goes_trans [OF g1 g2]
  have ne: "?ac + 1 \<noteq> ?ac" by simp
  have "can_put s2 (?ac + 1) ?v1" using can(2) out(2) ne goesD(2) [OF g12] goesD(6) [OF g12, of "?ac + 1"]
    by (simp add: can_put_def)
  then obtain s3 where s3: "st_put (?ac + 1) ?v1 s2 = Inr s3" and g3: "goes p E n {?ac + 1} [(?ac + 1, ?v1)] s2 s3"
    using goes_put [OF goesD(1) [OF g12], of "?ac + 1" ?v1 n] less [of "fr_digest + 1"] by (auto simp: fr_digest_def add.assoc)
  note g13 = goes_trans [OF g12 g3]
  obtain t1 ra where t1: "st_bumps [f + (fr_digest + 2), f + (fr_digest + 3)] s3 = (t1, ra)" by fastforce
  obtain t2 rb where t2: "st_bumps [f + (fr_digest + 4), f + (fr_digest + 5)] t1 = (t2, rb)" by fastforce
  obtain t3 rcv where t3: "st_bumps [f + fr_scratch, f + fr_scratch + 1] t2 = (t3, rcv)" by fastforce
  obtain t4 rc where t4: "st_bumps [?ac, ?ac + 1] t3 = (t4, rc)" by fastforce
  obtain t5 rmd where t5: "st_bump (f + fr_zero) t4 = (t5, rmd)" by fastforce
  have "st_bumps [f + fr_zero] t4 = (t5, [rmd])" using t5 by (simp add: st_bumps.simps)
  note b = st_bumps_append [OF t1 st_bumps_append [OF t2 st_bumps_append [OF t3 st_bumps_append [OF t4 this]]]]
  have g5: "goes p E n {} [] s3 t5"
    using goes_bumps [OF goesD(1) [OF g13] b, of n] ins_n less [of fr_digest] less [of "fr_digest + 1"]
    by (simp add: fr_offsets add.assoc)
  obtain st' where st': "step_op p (filler_dummy FillBlake2s) br st = Inr st'" "ms_mem st' = ms_mem t5" "ms_g st' = ms_g t5"
    unfolding filler_dummy.simps step_op.simps step_blake2s_def Let_def fp s1 prod.case none option.case vc or_panic_def
      res_bind_Inr s2 s3 t1 t2 t3 t4 t5
    by simp
  have "went p E n (frame_cells f) [(?ac, ?v0), (?ac + 1, ?v1)] st st'"
    by (rule wentI [OF goes_trans [OF g13 g5]])
      (use st' ins inf [of fr_digest] inf [of "fr_digest + 1"] in \<open>auto simp: fr_digest_def add.assoc\<close>)
  then show ?thesis using st'(1) by (simp add: add.assoc)
qed

text \<open>All dummies.\<close>

definition frame_fixed :: "u32 \<Rightarrow> u32 \<Rightarrow> mach \<Rightarrow> bool" where
  "frame_fixed b f st \<longleftrightarrow> mem_get (ms_mem st) (f + fr_dest) = f192_from (f64_g ^ unat b) \<and>
    mem_get (ms_mem st) (f + fr_next_fp) = f192_from (f64_g ^ unat f) \<and> mem_get (ms_mem st) (f + fr_ptr) = f192_one \<and>
    mem_get (ms_mem st) (f + fr_zero) = f192_zero"

lemma went_mono: "went p E n T ws st st' \<Longrightarrow> T \<subseteq> T' \<Longrightarrow> went p E n T' ws st st'"
  unfolding went_def by blast

lemma dummy_goes:
  assumes ok: "mach_ok p E st" and fp: "ms_fp st = f" and f: "unat f < max_cells" "unat f + 12 \<le> n"
    and fix': "frame_fixed b f st" and rdy: "ready fl (mem_get (ms_mem st) 0) f st"
    and zero: "mem_st (ms_mem st) 0 = Written" and cov: "0 < gp_covered (ms_g st)"
  shows "\<exists>st'. step_op p (filler_dummy fl) br st = Inr st' \<and>
    went p E n (frame_cells f) (map (\<lambda>(i, v). (f + i, v)) (dummy_writes fl (mem_get (ms_mem st) 0))) st st'"
proof -
  have inf: "f + i \<in> frame_cells f" if "unat i < 12" for i using in_frame [OF f(1) that] .
  have less: "unat (f + i) < n" if "unat i < 12" for i using inf [OF that] f(2) by (simp add: frame_cells_def)
  have cell: "f + fr_scratch \<in> frame_cells f" "f + fr_ptr \<in> frame_cells f" "f + fr_zero \<in> frame_cells f"
    "unat (f + fr_scratch) < n" "unat (f + fr_ptr) < n" "unat (f + fr_zero) < n"
    using inf less by (simp_all add: fr_offsets)
  have sc: "f + fr_scratch = ms_fp st + fr_scratch" "f + fr_zero = ms_fp st + fr_zero" using fp by simp_all
  have ptr: "ms_fp st + fr_ptr \<noteq> f + fr_scratch" using fp by (simp add: fr_offsets)
  show ?thesis
  proof (cases fl)
    case FillXor
    then show ?thesis
      using arith_goes [OF ok _ _ sc(1) cell(4), of True br] rdy went_mono [of p E n "{f + fr_scratch}" _ st _ "frame_cells f"] cell(1)
      by (fastforce simp: ready_def)
  next
    case FillMul
    then show ?thesis
      using arith_goes [OF ok _ _ sc(1) cell(4), of False br] rdy went_mono [of p E n "{f + fr_scratch}" _ st _ "frame_cells f"] cell(1)
      by (fastforce simp: ready_def)
  next
    case FillSet
    then show ?thesis
      using set_goes [OF ok _ sc(1) cell(4), of f192_zero br] rdy went_mono [of p E n "{f + fr_scratch}" _ st _ "frame_cells f"] cell(1)
      by (fastforce simp: ready_def)
  next
    case FillDeref
    then show ?thesis
      using deref_goes [OF ok _ zero _ cov sc(1) cell(4) _ ptr, of br] rdy fix' cell fp
        went_mono [of p E n "{f + fr_ptr, f + fr_scratch}" _ st _ "frame_cells f"]
      by (fastforce simp: ready_def frame_fixed_def)
  next
    case FillJump
    then show ?thesis
      using jump_goes [OF ok _ sc(2) cell(6), of br] fix' went_mono [of p E n "{f + fr_zero}" _ st _ "frame_cells f"] cell(3)
      by (fastforce simp: frame_fixed_def)
  next
    case FillBlake2s
    then show ?thesis
      using blake2s_goes [OF ok fp f] rdy fix' unfolding ready_def frame_fixed_def by blast
  qed
qed

text \<open>What comes before the instruction of a step changes no cell.\<close>

lemma exec_prefix:
  assumes ok: "mach_ok p E st" and f: "unat (ms_fp st) < max_cells" and len: "length (p_prog p) + 2 < max_cells"
    and pc: "unat (ms_pc st) < length (p_prog p)" and hints: "map_of (p_hints p) (ms_pc st) = None"
  obtains br s where "exec_step p st = step_op p (p_prog p ! unat (ms_pc st)) br s" "goes p E n {} [] st s"
proof -
  let ?d = "st\<lparr>ms_mem := (ms_mem st)\<lparr>m_dbg_pc := ms_pc st\<rparr>\<rparr>"
  have g0: "goes p E n {} [] st ?d"
    using quietD(1) [OF quiet_dbg_pc [OF ok]] by (simp add: goes_def mem_st_def mem_get_def fun_eq_iff)
  have "max (unat (ms_pc ?d) + 2) (unat (ms_fp ?d)) < max_cells" using pc len f by simp
  then obtain s1 where s1: "cover_step ?d = Inr s1" and g1: "goes p E n {} [] ?d s1"
    using goes_grow [OF goesD(1) [OF g0]] goes_refl [OF goesD(1) [OF g0]] unfolding cover_step_def Let_def by metis
  let ?c = "counted s1"
  have g2: "goes p E n {} [] s1 ?c" using goesD(1) [OF g1] by (simp add: counted_def goes_def mach_ok_def)
  note g = goes_trans [OF goes_trans [OF g0 g1] g2]
  have c: "fetch_count s1 = (?c, ms_bytecode_count s1 ! unat (ms_pc s1))" by (simp add: fetch_count_def counted_def Let_def)
  have "ms_pc ?c = ms_pc st" using goesD(3) [OF g] .
  then have "exec_step p st = step_op p (p_prog p ! unat (ms_pc st)) (ms_bytecode_count s1 ! unat (ms_pc s1)) ?c"
    using pc hints s1 by (simp add: exec_step_def Let_def c)
  then show thesis using that g by simp
qed

lemma goes_went: "goes p E n {} [] st s \<Longrightarrow> went p E n T ws s st' \<Longrightarrow> went p E n T ws st st'"
proof -
  assume g: "goes p E n {} [] st s" and "went p E n T ws s st'"
  then obtain u T' where u: "T' \<subseteq> T" "goes p E n T' ws s u" "ms_mem st' = ms_mem u" "ms_g st' = ms_g u" unfolding went_def by blast
  have "goes p E n T' ws st u" using goes_trans [OF g u(2)] by simp
  then show "went p E n T ws st st'" using u unfolding went_def by blast
qed

text \<open>A step inside a block, dummy or closing jump.\<close>

lemma block_goes:
  assumes ok: "mach_ok p E st" and fp: "ms_fp st = f" and f: "unat f < max_cells" "unat f + 12 \<le> n"
    and fix': "frame_fixed b f st" and rdy: "ready fl (mem_get (ms_mem st) 0) f st"
    and zero: "mem_st (ms_mem st) 0 = Written" and cov: "unat b < gp_covered (ms_g st)" "unat f < gp_covered (ms_g st)"
    and len: "unat b < length (p_prog p)" "length (p_prog p) + 2 < max_cells" and pc: "unat (ms_pc st) < length (p_prog p)"
    and hints: "map_of (p_hints p) (ms_pc st) = None"
    and op: "p_prog p ! unat (ms_pc st) = filler_dummy fl \<or> p_prog p ! unat (ms_pc st) = closing_jump"
  shows "\<exists>st'. exec_step p st = Inr st' \<and>
    (p_prog p ! unat (ms_pc st) = filler_dummy fl \<and>
       went p E n (frame_cells f) (map (\<lambda>(i, v). (f + i, v)) (dummy_writes fl (mem_get (ms_mem st) 0))) st st' \<or>
     p_prog p ! unat (ms_pc st) = closing_jump \<and> went p E n {f + fr_dest, f + fr_next_fp} [] st st')"
proof -
  obtain br s where step: "exec_step p st = step_op p (p_prog p ! unat (ms_pc st)) br s" and g: "goes p E n {} [] st s"
    using exec_prefix [OF ok _ len(2) pc hints] f(1) fp by blast
  have same: "mem_get (ms_mem s) = mem_get (ms_mem st)" "mem_st (ms_mem s) = mem_st (ms_mem st)"
    "ms_fp s = f" "gp_covered (ms_g st) \<le> gp_covered (ms_g s)"
    using goesD(2,4,7) [OF g] goesD(6) [OF g] fp by (auto simp: fun_eq_iff)
  have fix2: "frame_fixed b f s" and rdy2: "ready fl (mem_get (ms_mem s) 0) f s"
    using fix' rdy by (simp_all add: frame_fixed_def ready_def can_put_def same(1,2))
  note went = goes_went [OF g]
  from op show ?thesis
  proof
    assume dummy: "p_prog p ! unat (ms_pc st) = filler_dummy fl"
    have "\<exists>st'. step_op p (filler_dummy fl) br s = Inr st' \<and>
        went p E n (frame_cells f) (map (\<lambda>(i, v). (f + i, v)) (dummy_writes fl (mem_get (ms_mem s) 0))) s st'"
      by (rule dummy_goes [OF goesD(1) [OF g] same(3) f fix2 rdy2]) (use zero same cov in auto)
    then show ?thesis unfolding step dummy same(1) using went by blast
  next
    assume closing: "p_prog p ! unat (ms_pc st) = closing_jump"
    have c: "f + fr_dest \<in> frame_cells f" "f + fr_next_fp \<in> frame_cells f" using in_frame [OF f(1), of fr_dest] in_frame [OF f(1), of fr_next_fp] by (simp_all add: fr_offsets)
    then have n: "unat (f + fr_dest) < n" "unat (f + fr_next_fp) < n" using f(2) by (simp_all add: frame_cells_def)
    have "\<exists>st'. step_jump p fr_dest fr_dest fr_next_fp br s = Inr st' \<and>
        went p E n {f + fr_dest, f + fr_next_fp} [] s st'"
      by (rule taken_goes [OF goesD(1) [OF g] same(3) _ _ _ _ len(1) n, where k = "unat f"])
        (use fix2 cov same(4) in \<open>auto simp: frame_fixed_def\<close>)
    then show ?thesis unfolding step closing closing_jump_def step_op.simps using went by blast
  qed
qed

section \<open>The cycles never fail\<close>

text \<open>What every cycle still to run, and the current one, needs of the memory and the index.\<close>

definition supplied :: "program \<Rightarrow> nat \<Rightarrow> f192 \<Rightarrow> (u32 \<times> u32 \<times> nat) list \<Rightarrow> mach \<Rightarrow> bool" where
  "supplied p n x F st \<longleftrightarrow> (\<forall>(b, f, rows)\<in>set F. 0 < unat f \<and> unat f < max_cells \<and> unat f + 12 \<le> n \<and> unat f < gp_covered (ms_g st) \<and>
     frame_fixed b f st \<and> (\<forall>fl m. block_at p fl b m \<longrightarrow> ready fl x f st))"

lemma suppliedD:
  assumes "supplied p n x F st" "(b, f, rows) \<in> set F"
  shows "0 < unat f" "unat f < max_cells" "unat f + 12 \<le> n" "unat f < gp_covered (ms_g st)" "frame_fixed b f st"
    "block_at p fl b m \<Longrightarrow> ready fl x f st"
  using assms by (fastforce simp: supplied_def)+

definition spaced :: "(u32 \<times> u32 \<times> nat) list \<Rightarrow> bool" where
  "spaced F \<longleftrightarrow> (\<forall>(b, f, rows)\<in>set F. \<forall>(b', f', rows')\<in>set F. (f' = f \<longrightarrow> b' = b) \<and> (f' \<noteq> f \<longrightarrow> frame_cells f' \<inter> frame_cells f = {}))"

lemma spacedD:
  assumes "spaced F" "(b, f, rows) \<in> set F" "(b', f', rows') \<in> set F"
  shows "f' = f \<Longrightarrow> b' = b" "f' \<noteq> f \<Longrightarrow> c \<in> frame_cells f' \<Longrightarrow> c \<notin> frame_cells f"
  using assms unfolding spaced_def by fastforce+

text \<open>Offsets a filler depends on lie in its frame.\<close>

lemma filler_offsets:
  "(i, v) \<in> set (dummy_writes fl x) \<Longrightarrow> unat i < 12" "i \<in> set (zero_cells fl) \<Longrightarrow> unat i < 12"
  by (cases fl; auto simp: fr_offsets)+

lemma writes_values: "(i, v) \<in> set (dummy_writes fl x) \<Longrightarrow> stored (map (\<lambda>(i, v). (f + i, v)) (dummy_writes fl x)) M (f + i) = v"
  by (cases fl) (auto simp: fr_offsets add.assoc)

lemma writes_cells: "fst ` set (map (\<lambda>(i, v). (f + i, v)) (dummy_writes fl x)) \<subseteq> {f + fr_scratch, f + fr_digest, f + fr_digest + 1}"
  by (cases fl) (auto simp: fr_offsets add.assoc)

lemma writes_zero:
  assumes "i \<in> set (zero_cells fl)" "M (f + i) = f192_zero"
  shows "stored (map (\<lambda>(i, v). (f + i, v)) (dummy_writes fl x)) M (f + i) = f192_zero"
  using assms by (cases fl) (auto simp: fr_offsets add.assoc)

lemma wentD:
  assumes "went p E n T ws st st'"
  shows "mach_ok p E st'" "mem_get (ms_mem st') = stored ws (mem_get (ms_mem st))"
    "c \<notin> T \<Longrightarrow> mem_st (ms_mem st') c = mem_st (ms_mem st) c"
    "mem_st (ms_mem st') c = Linked \<Longrightarrow> mem_st (ms_mem st) c = Linked"
    "mem_st (ms_mem st) c = Written \<Longrightarrow> mem_st (ms_mem st') c = Written"
    "gp_covered (ms_g st) \<le> gp_covered (ms_g st')"
    "length (m_cells (ms_mem st)) \<le> n \<Longrightarrow> length (m_cells (ms_mem st')) \<le> n"
proof -
  obtain s T' where s: "T' \<subseteq> T" "goes p E n T' ws st s" "ms_mem st' = ms_mem s" "ms_g st' = ms_g s"
    using assms unfolding went_def by blast
  have st: "mem_st (ms_mem st') = (\<lambda>c. if c \<in> T' then Written else mem_st (ms_mem st) c)" using s by (simp add: goes_def)
  show "mach_ok p E st'" "mem_get (ms_mem st') = stored ws (mem_get (ms_mem st))"
    "gp_covered (ms_g st) \<le> gp_covered (ms_g st')" "length (m_cells (ms_mem st)) \<le> n \<Longrightarrow> length (m_cells (ms_mem st')) \<le> n"
    using s by (simp_all add: goes_def mach_ok_def)
  show "c \<notin> T \<Longrightarrow> mem_st (ms_mem st') c = mem_st (ms_mem st) c" "mem_st (ms_mem st') c = Linked \<Longrightarrow> mem_st (ms_mem st) c = Linked"
    "mem_st (ms_mem st) c = Written \<Longrightarrow> mem_st (ms_mem st') c = Written"
    using s(1) by (auto simp: st split: if_splits)
qed

text \<open>A step in one frame leaves the others supplied, and its own.\<close>

lemma ready_other:
  assumes w: "went p E n T ws st st'" and out: "\<And>c. c \<in> frame_cells f \<Longrightarrow> c \<notin> T \<and> c \<notin> fst ` set ws" and f: "unat f < max_cells"
    and r: "ready fl x f st"
  shows "ready fl x f st'"
proof -
  have "mem_st (ms_mem st') (f + i) = mem_st (ms_mem st) (f + i) \<and> mem_get (ms_mem st') (f + i) = mem_get (ms_mem st) (f + i)"
    if "unat i < 12" for i
    using wentD(2,3) [OF w] out [OF in_frame [OF f that]] by (simp add: stored_other)
  then show ?thesis using r filler_offsets by (fastforce simp: ready_def can_put_def)
qed

lemma ready_own:
  assumes w: "went p E n T (map (\<lambda>(i, v). (f + i, v)) (dummy_writes fl x)) st st'" and r: "ready fl x f st"
  shows "ready fl x f st'"
proof -
  have "can_put st' (f + i) v" if "(i, v) \<in> set (dummy_writes fl x)" for i v
    using r that writes_values [OF that, of f] wentD(2,4) [OF w] by (fastforce simp: ready_def can_put_def)
  moreover have "mem_get (ms_mem st') (f + i) = f192_zero" if "i \<in> set (zero_cells fl)" for i
    using r that writes_zero [OF that] wentD(2) [OF w] by (simp add: ready_def)
  ultimately show ?thesis unfolding ready_def by blast
qed

lemma ready_closing:
  assumes w: "went p E n {f + fr_dest, f + fr_next_fp} [] st st'" and r: "ready fl x f st"
  shows "ready fl x f st'"
proof -
  have "i \<noteq> fr_dest \<and> i \<noteq> fr_next_fp" if "(i, v) \<in> set (dummy_writes fl x)" for i v
    using that by (cases fl) (auto simp: fr_offsets)
  then have "mem_st (ms_mem st') (f + i) = mem_st (ms_mem st) (f + i)" if "(i, v) \<in> set (dummy_writes fl x)" for i v
    using wentD(3) [OF w, of "f + i"] that by auto
  then show ?thesis using r wentD(2) [OF w] by (fastforce simp: ready_def can_put_def)
qed

lemma fixed_keeps:
  assumes "frame_fixed b f st" "mem_get (ms_mem st') = stored ws (mem_get (ms_mem st))"
    "\<And>i. i \<in> {fr_dest, fr_next_fp, fr_ptr, fr_zero} \<Longrightarrow> f + i \<notin> fst ` set ws"
  shows "frame_fixed b f st'"
  using assms by (simp add: frame_fixed_def stored_other)

lemma supplied_went:
  assumes sup: "supplied p n x F st" and sp: "spaced F" and F: "(b, f, rows) \<in> set F"
    and w: "went p E n T ws st st'" and T: "T \<subseteq> frame_cells f" and ws: "fst ` set ws \<subseteq> {f + fr_scratch, f + fr_digest, f + fr_digest + 1}"
    and own: "\<And>fl m. block_at p fl b m \<Longrightarrow> ready fl x f st'"
  shows "supplied p n x F st'"
  unfolding supplied_def
proof (intro ballI)
  fix r assume r: "r \<in> set F"
  obtain b' f' rows' where eq: "r = (b', f', rows')" by (rule prod_cases3)
  then have F': "(b', f', rows') \<in> set F" using r by simp
  note D = suppliedD [OF sup F']
  have cov: "unat f' < gp_covered (ms_g st')" using D(4) wentD(6) [OF w] by simp
  have f: "unat f < max_cells" using suppliedD(2) [OF sup F] .
  have ws': "fst ` set ws \<subseteq> frame_cells f"
    using ws in_frame [OF f, of fr_scratch] in_frame [OF f, of fr_digest] in_frame [OF f, of "fr_digest + 1"]
    by (auto simp: fr_offsets add.assoc)
  have out: "c \<notin> T \<and> c \<notin> fst ` set ws" if "f' \<noteq> f" "c \<in> frame_cells f'" for c
    using spacedD(2) [OF sp F F' that] T ws' by blast
  have fixed: "frame_fixed b' f' st'"
  proof (rule fixed_keeps [OF D(5) wentD(2) [OF w]])
    fix i assume i: "i \<in> {fr_dest, fr_next_fp, fr_ptr, fr_zero}"
    then have "f' + i \<in> frame_cells f'" by (intro in_frame [OF D(2)]) (auto simp: fr_offsets)
    moreover have "f + i \<notin> fst ` set ws" using i ws by (auto simp: fr_offsets add.assoc)
    ultimately show "f' + i \<notin> fst ` set ws" using out by (cases "f' = f") auto
  qed
  have "ready fl x f' st'" if blk: "block_at p fl b' m" for fl m
  proof (cases "f' = f")
    case True
    then show ?thesis using own blk spacedD(1) [OF sp F F'] by simp
  next
    case False
    show ?thesis by (rule ready_other [OF w out [OF False] D(2) D(6) [OF blk]])
  qed
  then show "case r of (b, f, rows) \<Rightarrow> 0 < unat f \<and> unat f < max_cells \<and> unat f + 12 \<le> n \<and> unat f < gp_covered (ms_g st') \<and>
      frame_fixed b f st' \<and> (\<forall>fl m. block_at p fl b m \<longrightarrow> ready fl x f st')"
    using D(1-3) cov fixed unfolding eq prod.case by blast
qed

text \<open>One step of a cycle.\<close>

definition cycle_inv :: "program \<Rightarrow> nat \<Rightarrow> f192 \<Rightarrow> (u32 \<times> u32 \<times> nat) list \<Rightarrow> mach \<Rightarrow> bool" where
  "cycle_inv p n x F st \<longleftrightarrow> (\<exists>E b f rows fl m j. mach_ok p E st \<and> (b, f, rows) \<in> set F \<and> ms_fp st = f \<and> ms_pc st = b + of_nat j \<and> j \<le> m \<and>
     block_at p fl b m) \<and> supplied p n x F st \<and> mem_st (ms_mem st) 0 = Written \<and> mem_get (ms_mem st) 0 = x \<and>
     length (p_prog p) \<le> gp_covered (ms_g st) \<and> length (m_cells (ms_mem st)) \<le> n"

lemma block_offset:
  assumes "block_at p fl b m" "j \<le> m" "length (p_prog p) < max_cells"
  shows "unat (b + of_nat j) = unat b + j" "unat b + j < length (p_prog p)"
    "p_prog p ! unat (b + of_nat j) = (if j < m then filler_dummy fl else closing_jump)" "map_of (p_hints p) (b + of_nat j) = None"
proof -
  have len: "unat b + m < length (p_prog p)" using assms(1) by (simp add: block_at_def)
  then show "unat b + j < length (p_prog p)" using assms(2) by simp
  then have less: "unat b + j < 2 ^ 32" using assms(3) max_cells_order(1) by linarith
  then have "unat (of_nat j :: u32) = j" by (simp add: unat_of_nat)
  then show u: "unat (b + of_nat j) = unat b + j" using less by (simp add: unat_word_ariths)
  have "filler_block_code fl m ! j = (if j < m then filler_dummy fl else closing_jump)"
    using assms(2) by (simp add: filler_block_code_def nth_append)
  then show "p_prog p ! unat (b + of_nat j) = (if j < m then filler_dummy fl else closing_jump)" "map_of (p_hints p) (b + of_nat j) = None"
    using assms(1,2) by (simp_all add: block_at_def u)
qed

lemma dummy_not_closing: "filler_dummy fl \<noteq> closing_jump"
  by (cases fl) (simp_all add: closing_jump_def fr_offsets)

lemma cycle_inv_step:
  assumes inv: "cycle_inv p n x F st" and sp: "spaced F" and len: "length (p_prog p) + 2 < max_cells"
  shows "\<exists>st'. exec_step p st = Inr st' \<and> cycle_inv p n x F st' \<and> loop_ctl st' = loop_ctl st"
proof -
  obtain E b f rows fl m j where ok: "mach_ok p E st" and F: "(b, f, rows) \<in> set F" and fp: "ms_fp st = f"
    and pc: "ms_pc st = b + of_nat j" and j: "j \<le> m" and blk: "block_at p fl b m"
    and sup: "supplied p n x F st" and zero: "mem_st (ms_mem st) 0 = Written" "mem_get (ms_mem st) 0 = x"
    and cov: "length (p_prog p) \<le> gp_covered (ms_g st)" and cells: "length (m_cells (ms_mem st)) \<le> n"
    using inv unfolding cycle_inv_def by blast
  have len': "length (p_prog p) < max_cells" using len by simp
  note D = suppliedD [OF sup F] and off = block_offset [OF blk j len', folded pc]
  have b: "unat b < length (p_prog p)" using off(2) by simp
  have op: "p_prog p ! unat (ms_pc st) = filler_dummy fl \<or> p_prog p ! unat (ms_pc st) = closing_jump" using off(3) by simp
  have pcl: "unat (ms_pc st) < length (p_prog p)" using off(1,2) by simp
  have "ready fl (mem_get (ms_mem st) 0) f st" using D(6) [OF blk] zero(2) by simp
  from block_goes [OF ok fp D(2,3,5) this zero(1) _ D(4) b len pcl off(4) op] b cov zero(2)
  obtain st' where run: "exec_step p st = Inr st'"
    and w: "p_prog p ! unat (ms_pc st) = filler_dummy fl \<and>
        went p E n (frame_cells f) (map (\<lambda>(i, v). (f + i, v)) (dummy_writes fl x)) st st' \<or>
      p_prog p ! unat (ms_pc st) = closing_jump \<and> went p E n {f + fr_dest, f + fr_next_fp} [] st st'" by auto
  obtain T ws where wt: "went p E n T ws st st'" and T: "T \<subseteq> frame_cells f"
    and ws: "fst ` set ws \<subseteq> {f + fr_scratch, f + fr_digest, f + fr_digest + 1}"
    using w writes_cells [of f fl x] in_frame [OF D(2), of fr_dest] in_frame [OF D(2), of fr_next_fp]
    by (auto simp: fr_offsets)
  have own: "ready fl' x f st'" if blk': "block_at p fl' b m'" for fl' m'
    using w
  proof (elim disjE conjE)
    assume d: "p_prog p ! unat (ms_pc st) = filler_dummy fl"
      and w: "went p E n (frame_cells f) (map (\<lambda>(i, v). (f + i, v)) (dummy_writes fl x)) st st'"
    then have "0 < m" using off(3) dummy_not_closing [of fl] j by (cases "j < m") auto
    then show ?thesis using ready_own [OF w] D(6) [OF blk'] block_at_unique(2) [OF blk blk'] by simp
  next
    assume "went p E n {f + fr_dest, f + fr_next_fp} [] st st'"
    then show ?thesis using ready_closing D(6) [OF blk'] by blast
  qed
  have sup': "supplied p n x F st'" by (rule supplied_went [OF sup sp F wt T ws own])
  have out0: "0 \<notin> fst ` set ws"
  proof -
    have "0 \<notin> frame_cells f" using D(1) by (simp add: frame_cells_def)
    moreover have "f + fr_scratch \<in> frame_cells f" "f + fr_digest \<in> frame_cells f" "f + fr_digest + 1 \<in> frame_cells f"
      using in_frame [OF D(2), of fr_scratch] in_frame [OF D(2), of fr_digest] in_frame [OF D(2), of "fr_digest + 1"]
      by (simp_all add: fr_offsets add.assoc)
    ultimately show ?thesis using ws by auto
  qed
  have mem0: "mem_st (ms_mem st') 0 = Written" "mem_get (ms_mem st') 0 = x"
    using wentD(2,5) [OF wt] zero stored_other [OF out0] by simp_all
  have fpm: "unat (ms_fp st) < max_cells" using D(2) fp by simp
  obtain E' t cells where s: "stepped p E E' t cells st st'" using exec_step_stepped [OF ok fpm len' run] by blast
  then have ctl: "loop_ctl st' = loop_ctl st"
    by (simp add: stepped_def did_def frame_ctl_def counted_def loop_ctl_def)
  define e where "e = \<lparr>ev_table = t, ev_pc = ms_pc st, ev_fp = f, ev_cells = cells, ev_counts = [], ev_bread = F64 0,
    ev_npc = ms_pc st', ev_nfp = ms_fp st'\<rparr>"
  have ok'': "mach_ok p E' st'" using s by (simp add: stepped_def did_def)
  have e: "is_instr (p_prog p) (mem_get (ms_mem st')) e"
    using s compat_self [OF mach_okD(1) [OF ok'']] fp
    by (simp add: stepped_def did_def is_instr_def e_def counted_def)
  have fix': "frame_fixed b f st'" using suppliedD(5) [OF sup' F] .
  have next_pc: "\<exists>j'\<le>m. ms_pc st' = b + of_nat j' \<and> ms_fp st' = f"
  proof (cases "j < m")
    case True
    then have "ms_pc st' = ms_pc st + 1 \<and> ms_fp st' = f"
      using dummy_event [OF e, of fl] off(3) fix' by (simp add: e_def frame_fixed_def)
    then show ?thesis using pc True by (intro exI [of _ "Suc j"]) simp
  next
    case False
    then have "ms_pc st' = b \<and> ms_fp st' = f"
      using closing_event [OF e, of b f] off(3) fix' by (simp add: e_def frame_fixed_def)
    then show ?thesis by (intro exI [of _ 0]) simp
  qed
  have "cycle_inv p n x F st'"
    unfolding cycle_inv_def using wentD(1,6,7) [OF wt] F next_pc blk sup' mem0 cov cells by fastforce
  then show ?thesis using run ctl by blast
qed

section \<open>The loop over the cycles\<close>

definition row_total :: "(u32 \<times> u32 \<times> nat) list \<Rightarrow> nat" where
  "row_total F = (\<Sum>(b, f, rows)\<leftarrow>F. rows)"

lemma row_total_simps [simp]: "row_total [] = 0" "row_total ((b, f, rows) # F) = rows + row_total F"
  by (simp_all add: row_total_def)

lemma cycle_inv_upd [simp]:
  "cycle_inv p n x F (st\<lparr>ms_left := l\<rparr>) = cycle_inv p n x F st"
  by (simp add: cycle_inv_def supplied_def frame_fixed_def ready_def can_put_def mach_ok_def)

lemma run_loop_stay:
  assumes "ms_left st = Some k" "0 < k" "steps < max_steps" "exec_step p (st\<lparr>ms_left := Some (k - 1)\<rparr>) = Inr st'"
  shows "run_loop p steps st = run_loop p (steps + 1) st'"
  using assms by (subst run_loop.simps) (simp add: loop_head_def wants_switch_def count_down_def Let_def)

lemma run_loop_switch:
  assumes "ms_left st = Some 0" "ms_cycles st = (b, f, rows) # rest" "0 < rows"
  shows "run_loop p steps st = run_loop p steps (st\<lparr>ms_pc := b, ms_fp := f, ms_left := Some rows, ms_cycles := rest\<rparr>)"
proof -
  let ?s = "st\<lparr>ms_pc := b, ms_fp := f, ms_left := Some rows, ms_cycles := rest\<rparr>"
  have "loop_head p st = Inr (?s, False)" "loop_head p ?s = Inr (?s, False)"
    using assms by (simp_all add: loop_head_def wants_switch_def next_cycle_def)
  then show ?thesis by (simp add: run_loop.simps [of p steps st] run_loop.simps [of p steps ?s])
qed

lemma run_loop_last: "ms_left st = Some 0 \<Longrightarrow> ms_cycles st = [] \<Longrightarrow> run_loop p steps st = Inr (st, steps)"
  by (subst run_loop.simps) (simp add: loop_head_def wants_switch_def next_cycle_def)

text \<open>A state between two cycles.\<close>

definition cycle_wait :: "program \<Rightarrow> nat \<Rightarrow> f192 \<Rightarrow> (u32 \<times> u32 \<times> nat) list \<Rightarrow> mach \<Rightarrow> bool" where
  "cycle_wait p n x F st \<longleftrightarrow> (\<exists>E. mach_ok p E st) \<and> supplied p n x F st \<and> mem_st (ms_mem st) 0 = Written \<and>
    mem_get (ms_mem st) 0 = x \<and> length (p_prog p) \<le> gp_covered (ms_g st) \<and> length (m_cells (ms_mem st)) \<le> n"

lemma cycle_inv_wait: "cycle_inv p n x F st \<Longrightarrow> cycle_wait p n x F st"
  unfolding cycle_inv_def cycle_wait_def by blast

lemma cycle_wait_enter:
  assumes "cycle_wait p n x F st" "(b, f, rows) \<in> set F" "block_at p fl b m"
  shows "cycle_inv p n x F (st\<lparr>ms_pc := b, ms_fp := f, ms_left := Some rows, ms_cycles := rest\<rparr>)"
proof -
  obtain E where "mach_ok p E st" using assms(1) by (auto simp: cycle_wait_def)
  then have "\<exists>E b' f' rows' fl m j. mach_ok p E (st\<lparr>ms_pc := b, ms_fp := f, ms_left := Some rows, ms_cycles := rest\<rparr>) \<and>
      (b', f', rows') \<in> set F \<and> f = f' \<and> b = b' + of_nat j \<and> j \<le> m \<and> block_at p fl b' m"
    using assms(2,3) by (intro exI [of _ E] exI [of _ b] exI [of _ f] exI [of _ rows] exI [of _ fl] exI [of _ m] exI [of _ 0])
      (simp add: mach_ok_def)
  then show ?thesis
    using assms(1) by (simp add: cycle_inv_def cycle_wait_def supplied_def frame_fixed_def ready_def can_put_def)
qed

lemma cycles_complete:
  assumes wait: "cycle_wait p n x F st" and inv: "0 < k \<Longrightarrow> cycle_inv p n x F st" and left: "ms_left st = Some k"
    and sub: "set (ms_cycles st) \<subseteq> set F" and known: "blocks_known p F" and sp: "spaced F"
    and len: "length (p_prog p) + 2 < max_cells" and budget: "steps + k + row_total (ms_cycles st) \<le> max_steps"
  shows "\<exists>st'. run_loop p steps st = Inr (st', steps + k + row_total (ms_cycles st)) \<and> cycle_wait p n x F st' \<and>
    ms_base_counts st' = ms_base_counts st"
  using wait inv left sub budget
proof (induction "k + row_total (ms_cycles st)" arbitrary: steps k st)
  case 0
  have k: "k = 0" "row_total (ms_cycles st) = 0" using "0.hyps" by simp_all
  have "ms_cycles st = []"
  proof (rule ccontr)
    assume "ms_cycles st \<noteq> []"
    then obtain b f rows rest where c: "ms_cycles st = (b, f, rows) # rest" by (cases "ms_cycles st") auto
    then have "0 < rows" using known "0.prems"(4) unfolding blocks_known_def by fastforce
    then show False using k(2) c by simp
  qed
  then show ?case using run_loop_last [of st p steps] "0.prems" k by simp
next
  case (Suc total)
  obtain s j where s: "run_loop p steps st = run_loop p steps s" "cycle_inv p n x F s" "ms_left s = Some (Suc j)"
    "set (ms_cycles s) \<subseteq> set F" "Suc j + row_total (ms_cycles s) = k + row_total (ms_cycles st)" "ms_base_counts s = ms_base_counts st"
  proof (cases k)
    case (Suc j)
    then show ?thesis using Suc.prems by (intro that [of st j]) simp_all
  next
    case 0
    then obtain b f rows rest where c: "ms_cycles st = (b, f, rows) # rest" using Suc.hyps(2) by (cases "ms_cycles st") auto
    then have F: "(b, f, rows) \<in> set F" using Suc.prems(4) by simp
    then obtain fl m where rows: "0 < rows" "block_at p fl b m" using known unfolding blocks_known_def by fastforce
    then obtain j where j: "rows = Suc j" by (cases rows) simp_all
    let ?s = "st\<lparr>ms_pc := b, ms_fp := f, ms_left := Some rows, ms_cycles := rest\<rparr>"
    show ?thesis
      using run_loop_switch [OF _ c rows(1), of p steps] cycle_wait_enter [OF Suc.prems(1) F rows(2)] Suc.prems(3,4) 0 c j
      by (intro that [of ?s j]) simp_all
  qed
  let ?s = "s\<lparr>ms_left := Some j\<rparr>"
  obtain s' where s': "exec_step p ?s = Inr s'" "cycle_inv p n x F s'" "loop_ctl s' = loop_ctl ?s"
    using cycle_inv_step [of p n x F ?s] s(2) sp len by auto
  then have ctl: "ms_left s' = Some j" "ms_cycles s' = ms_cycles s" "ms_base_counts s' = ms_base_counts st"
    using s(6) by (simp_all add: loop_ctl_def)
  have more: "steps < max_steps" using Suc.prems(5) Suc.hyps(2) by simp
  have run: "run_loop p steps st = run_loop p (steps + 1) s'"
    unfolding s(1) using run_loop_stay [OF s(3) _ more, of p s'] s'(1) by simp
  have total: "total = j + row_total (ms_cycles s')" using Suc.hyps(2) s(5) ctl(2) by simp
  have sum: "steps + 1 + j + row_total (ms_cycles s') = steps + k + row_total (ms_cycles st)" using s(5) ctl(2) by simp
  have sub': "set (ms_cycles s') \<subseteq> set F" using s(4) ctl(2) by simp
  from Suc.hyps(1) [OF total cycle_inv_wait [OF s'(2)] _ ctl(1) sub', of "steps + 1"] s'(2) sum Suc.prems(5)
  show ?case unfolding run sum using ctl(3) by auto
qed

section \<open>The halt never fails\<close>

definition pristine :: "nat \<Rightarrow> mach \<Rightarrow> bool" where
  "pristine a st \<longleftrightarrow> (\<forall>c. a \<le> unat c \<longrightarrow> mem_st (ms_mem st) c = Unwritten \<and> mem_get (ms_mem st) c = f192_zero)"

lemma pristine_past_end: "mach_ok p E st \<Longrightarrow> pristine (length (m_cells (ms_mem st))) st"
  using mem_wfD(1) [OF mach_okD(2)] by (simp add: pristine_def mem_st_def mem_get_def)

lemma pristine_goes: "pristine a st \<Longrightarrow> goes p E n T ws st s \<Longrightarrow> a \<le> a' \<Longrightarrow> T \<union> fst ` set ws \<subseteq> {c. unat c < a'} \<Longrightarrow> pristine a' s"
proof -
  assume pr: "pristine a st" and g: "goes p E n T ws st s" and a: "a \<le> a'" and sub: "T \<union> fst ` set ws \<subseteq> {c. unat c < a'}"
  have "mem_st (ms_mem s) c = Unwritten \<and> mem_get (ms_mem s) c = f192_zero" if c: "a' \<le> unat c" for c
  proof -
    have "c \<notin> T" "c \<notin> fst ` set ws" using sub c by auto
    then show ?thesis using pr goesD(2,6) [OF g] a c by (simp add: stored_other pristine_def)
  qed
  then show "pristine a' s" by (simp add: pristine_def)
qed

text \<open>One frame.\<close>

lemma prepare_frame:
  assumes ok: "mach_ok p E st" and pr: "pristine (unat f) st" and n: "unat f + 12 \<le> n" "n \<le> max_cells" and b: "unat b < gp_covered (ms_g st)"
  obtains s1 s2 s3 s4 s5 where "st_grow (unat f) st = Inr s1" "st_note (unat f) s1 = Inr s2"
    "st_pow (unat b) (st_ensure (unat (f + fr_cells - 1)) s2) = Inr (f64_g ^ unat b)"
    "st_put (f + fr_dest) (f192_from (f64_g ^ unat b)) (st_ensure (unat (f + fr_cells - 1)) s2) = Inr s3"
    "st_pow (unat f) s3 = Inr (f64_g ^ unat f)" "st_put (f + fr_next_fp) (f192_from (f64_g ^ unat f)) s3 = Inr s4"
    "st_put (f + fr_ptr) f192_one s4 = Inr s5" "unat f < gp_covered (ms_g s5)"
    "goes p E n {f + fr_dest, f + fr_next_fp, f + fr_ptr}
      [(f + fr_dest, f192_from (f64_g ^ unat b)), (f + fr_next_fp, f192_from (f64_g ^ unat f)), (f + fr_ptr, f192_one)] st s5"
proof -
  have f: "unat f < max_cells" using n by simp
  have addr: "unat (f + i) = unat f + unat i" if "unat i < 16" for i using unat_frame_add [OF f that] .
  have less: "unat (f + fr_dest) < n" "unat (f + fr_next_fp) < n" "unat (f + fr_ptr) < n"
    using addr [of fr_dest] addr [of fr_next_fp] addr [of fr_ptr] n by (simp_all add: fr_offsets)
  have "f + fr_cells - 1 = f + 11" by (simp add: fr_cells_def)
  then have "unat (f + fr_cells - 1) = unat f + 11" using addr [of 11] by (simp only:) simp
  then have top: "unat (f + fr_cells - 1) < n" using n by simp
  have blank: "mem_st (ms_mem st) (f + i) = Unwritten" if "unat i < 16" for i
    using pr addr [OF that] by (simp add: pristine_def)
  obtain s1 where s1: "st_grow (unat f) st = Inr s1" and g1: "goes p E n {} [] st s1" and c1: "unat f < gp_covered (ms_g s1)"
    using goes_grow [OF ok f] by blast
  obtain s2 where s2: "st_note (unat f) s1 = Inr s2" and g2: "goes p E n {} [] s1 s2" using goes_note [OF goesD(1) [OF g1] c1] by blast
  let ?s = "st_ensure (unat (f + fr_cells - 1)) s2"
  note g3 = goes_trans [OF goes_trans [OF g1 g2] goes_ensure [OF goesD(1) [OF g2] top]]
  have cov: "unat b < gp_covered (ms_g ?s)" "unat f < gp_covered (ms_g ?s)"
    using b c1 goesD(7) [OF g3] goesD(7) [OF g2] by (simp_all add: st_ensure_def)
  have can: "can_put s c v" if "goes p E n T ws st s" "c \<notin> T" "mem_st (ms_mem st) c = Unwritten" for s c v T ws
    using goesD(6) [OF that(1,2)] that(3) by (simp add: can_put_def)
  obtain s3 where s3: "st_put (f + fr_dest) (f192_from (f64_g ^ unat b)) ?s = Inr s3"
    and h3: "goes p E n {f + fr_dest} [(f + fr_dest, f192_from (f64_g ^ unat b))] ?s s3"
    using goes_put [OF goesD(1) [OF g3] can [OF g3 _ blank] less(1)] by (auto simp: fr_offsets)
  note g4 = goes_trans [OF g3 h3]
  obtain s4 where s4: "st_put (f + fr_next_fp) (f192_from (f64_g ^ unat f)) s3 = Inr s4"
    and h4: "goes p E n {f + fr_next_fp} [(f + fr_next_fp, f192_from (f64_g ^ unat f))] s3 s4"
    using goes_put [OF goesD(1) [OF g4] can [OF g4 _ blank] less(2)] by (auto simp: fr_offsets)
  note g5 = goes_trans [OF g4 h4]
  obtain s5 where s5: "st_put (f + fr_ptr) f192_one s4 = Inr s5" and h5: "goes p E n {f + fr_ptr} [(f + fr_ptr, f192_one)] s4 s5"
    using goes_put [OF goesD(1) [OF g5] can [OF g5 _ blank] less(3)] by (auto simp: fr_offsets)
  note g6 = goes_trans [OF g5 h5]
  have "st_pow (unat b) ?s = Inr (f64_g ^ unat b)" "st_pow (unat f) s3 = Inr (f64_g ^ unat f)"
    using st_pow_total [OF goesD(1) [OF g3] cov(1)] st_pow_total [OF goesD(1) [OF g4], of "unat f"] cov(2) goesD(7) [OF h3] by simp_all
  moreover have "unat f < gp_covered (ms_g s5)" using cov(2) goesD(7) [OF h3] goesD(7) [OF h4] goesD(7) [OF h5] by simp
  moreover have "goes p E n {f + fr_dest, f + fr_next_fp, f + fr_ptr}
      [(f + fr_dest, f192_from (f64_g ^ unat b)), (f + fr_next_fp, f192_from (f64_g ^ unat f)), (f + fr_ptr, f192_one)] st s5"
    using g6 by (simp add: insert_commute)
  ultimately show thesis using that s1 s2 s3 s4 s5 by blast
qed

text \<open>A frame as prepared, for any filler.\<close>

definition stocked :: "u32 \<Rightarrow> u32 \<Rightarrow> mach \<Rightarrow> bool" where
  "stocked b f st \<longleftrightarrow> frame_fixed b f st \<and> (\<forall>i. 3 \<le> unat i \<longrightarrow> unat i < 12 \<longrightarrow>
     mem_st (ms_mem st) (f + i) = Unwritten \<and> mem_get (ms_mem st) (f + i) = f192_zero)"

lemma stocked_ready: "stocked b f st \<Longrightarrow> ready fl x f st"
proof -
  assume st: "stocked b f st"
  have "3 \<le> unat i \<and> unat i < 12" if "(i, v) \<in> set (dummy_writes fl x) \<or> i \<in> set (zero_cells fl)" for i v
    using that by (cases fl) (auto simp: fr_offsets)
  then show ?thesis using st unfolding ready_def stocked_def can_put_def by fastforce
qed

lemma stocked_goes:
  assumes "stocked b f s" "goes p E n T ws s s'" "T \<union> fst ` set ws \<subseteq> {c. unat f + 12 \<le> unat c}" "unat f < max_cells"
  shows "stocked b f s'"
proof -
  have "mem_st (ms_mem s') (f + i) = mem_st (ms_mem s) (f + i) \<and> mem_get (ms_mem s') (f + i) = mem_get (ms_mem s) (f + i)"
    if "unat i < 12" for i
  proof -
    have "f + i \<notin> T \<union> fst ` set ws" using assms(3) unat_frame_add [OF assms(4), of i] that by auto
    then show ?thesis using goesD(2,6) [OF assms(2)] by (simp add: stored_other)
  qed
  note same = this
  then have "frame_fixed b f s'" using assms(1) same [of fr_dest] same [of fr_next_fp] same [of fr_ptr] same [of fr_zero]
    by (simp add: stocked_def frame_fixed_def fr_offsets)
  then show ?thesis using assms(1) same by (simp add: stocked_def)
qed

lemma prepare_goes:
  assumes "mach_ok p E st" "pristine (unat frame) st" "unat frame + 12 * length cs \<le> n" "n \<le> max_cells"
    and "\<forall>(b, size', m)\<in>set cs. unat b < gp_covered (ms_g st)"
  shows "\<exists>st' F T ws. prepare_cycles cs frame st = Inr (st', F) \<and> goes p E n T ws st st' \<and>
    T \<union> fst ` set ws \<subseteq> {c. unat frame \<le> unat c} \<and> frames_from (unat frame) F \<and> length F = length cs \<and>
    (\<forall>(b, f, rows)\<in>set F. unat frame \<le> unat f \<and> unat f + 12 \<le> n \<and> unat f < gp_covered (ms_g st') \<and> stocked b f st')"
  using assms
proof (induction cs arbitrary: frame st)
  case Nil
  then show ?case using goes_refl [of p E st n] by (fastforce simp: frames_from_def)
next
  case (Cons c cs)
  obtain b size' m where c: "c = (b, size', m)" by (rule prod_cases3)
  have n: "unat frame + 12 \<le> n" "unat b < gp_covered (ms_g st)" using Cons.prems(3,5) c by auto
  then have f: "unat frame < max_cells" using Cons.prems(4) by simp
  have addr: "unat (frame + i) = unat frame + unat i" if "unat i < 16" for i using unat_frame_add [OF f that] .
  let ?ws = "[(frame + fr_dest, f192_from (f64_g ^ unat b)), (frame + fr_next_fp, f192_from (f64_g ^ unat frame)), (frame + fr_ptr, f192_one)]"
  let ?T = "{frame + fr_dest, frame + fr_next_fp, frame + fr_ptr}"
  obtain s1 s2 s3 s4 s5 where run: "st_grow (unat frame) st = Inr s1" "st_note (unat frame) s1 = Inr s2"
    "st_pow (unat b) (st_ensure (unat (frame + fr_cells - 1)) s2) = Inr (f64_g ^ unat b)"
    "st_put (frame + fr_dest) (f192_from (f64_g ^ unat b)) (st_ensure (unat (frame + fr_cells - 1)) s2) = Inr s3"
    "st_pow (unat frame) s3 = Inr (f64_g ^ unat frame)" "st_put (frame + fr_next_fp) (f192_from (f64_g ^ unat frame)) s3 = Inr s4"
    "st_put (frame + fr_ptr) f192_one s4 = Inr s5" and cov: "unat frame < gp_covered (ms_g s5)" and g: "goes p E n ?T ?ws st s5"
    using prepare_frame [OF Cons.prems(1,2) n(1) Cons.prems(4) n(2)] .
  have next': "unat (frame + fr_cells) = unat frame + 12" using addr [of fr_cells] by (simp add: fr_cells_def)
  have cells: "?T \<union> fst ` set ?ws \<subseteq> {c. unat frame \<le> unat c \<and> unat c < unat frame + 12}"
    using addr [of fr_dest] addr [of fr_next_fp] addr [of fr_ptr] by (auto simp: fr_offsets)
  have pr: "pristine (unat (frame + fr_cells)) s5"
    by (rule pristine_goes [OF Cons.prems(2) g]) (use cells next' in auto)
  have "stocked b frame s5"
  proof -
    have "mem_st (ms_mem s5) (frame + i) = Unwritten \<and> mem_get (ms_mem s5) (frame + i) = f192_zero" if "3 \<le> unat i" "unat i < 12" for i
    proof -
      have "unat i \<noteq> 0" "unat i \<noteq> 1" "unat i \<noteq> 2" using that(1) by simp_all
      then have "i \<noteq> fr_dest" "i \<noteq> fr_next_fp" "i \<noteq> fr_ptr" by (auto simp: fr_offsets)
      then have "frame + i \<notin> ?T" by simp
      then show ?thesis using goesD(2) [OF g] goesD(6) [OF g, of "frame + i"] Cons.prems(2) addr [of i] that
        by (simp add: pristine_def)
    qed
    moreover from this [of fr_zero] have "mem_get (ms_mem s5) (frame + fr_zero) = f192_zero" by (simp add: fr_zero_def)
    ultimately show ?thesis
      using goesD(2) [OF g] unfolding stocked_def frame_fixed_def by (simp add: fr_offsets)
  qed
  note st = this
  have ih: "\<exists>st' F T ws. prepare_cycles cs (frame + fr_cells) s5 = Inr (st', F) \<and> goes p E n T ws s5 st' \<and>
    T \<union> fst ` set ws \<subseteq> {c. unat frame + 12 \<le> unat c} \<and> frames_from (unat frame + 12) F \<and> length F = length cs \<and>
    (\<forall>(b, f, rows)\<in>set F. unat frame + 12 \<le> unat f \<and> unat f + 12 \<le> n \<and> unat f < gp_covered (ms_g st') \<and> stocked b f st')"
    using Cons.IH [OF goesD(1) [OF g] pr] Cons.prems(3-5) goesD(7) [OF g] unfolding next' by fastforce
  then obtain st' F T ws where rest: "prepare_cycles cs (frame + fr_cells) s5 = Inr (st', F)" and h: "goes p E n T ws s5 st'"
    and T: "T \<union> fst ` set ws \<subseteq> {c. unat frame + 12 \<le> unat c}" and F: "frames_from (unat frame + 12) F" "length F = length cs"
    and all: "\<forall>(b, f, rows)\<in>set F. unat frame + 12 \<le> unat f \<and> unat f + 12 \<le> n \<and> unat f < gp_covered (ms_g st') \<and> stocked b f st'"
    by blast
  have "prepare_cycles (c # cs) frame st = Inr (st', (b, frame, m * (unat size' + 1)) # F)"
    unfolding prepare_cycles.simps c prod.case run(1,2) res_bind_Inr Let_def run(3-7) rest by simp
  moreover have "stocked b frame st'" using stocked_goes [OF st h T f] .
  moreover have "unat frame < gp_covered (ms_g st')" using cov goesD(7) [OF h] by simp
  moreover have "frames_from (unat frame) ((b, frame, m * (unat size' + 1)) # F)"
    using F(1) by (auto simp: frames_from_def nth_Cons split: nat.splits)
  moreover have "(?T \<union> T) \<union> fst ` set (?ws @ ws) \<subseteq> {c. unat frame \<le> unat c}" using cells T by auto
  ultimately show ?case
    using goes_trans [OF g h] F(2) all n(1)
    by (intro exI [of _ st'] exI [of _ "(b, frame, m * (unat size' + 1)) # F"] exI [of _ "?T \<union> T"] exI [of _ "?ws @ ws"]) auto
qed

lemma frames_spaced: "frames_from a F \<Longrightarrow> spaced F"
  unfolding spaced_def
proof (intro ballI, clarify)
  fix b f rows b' f' rows' assume F: "frames_from a F" and in1: "(b, f, rows) \<in> set F" and in2: "(b', f', rows') \<in> set F"
  obtain i where i: "i < length F" "F ! i = (b, f, rows)" using in1 by (auto simp: in_set_conv_nth)
  obtain j where j: "j < length F" "F ! j = (b', f', rows')" using in2 by (auto simp: in_set_conv_nth)
  have f: "unat f = a + 12 * i" "unat f' = a + 12 * j" using F i j by (auto simp: frames_from_def)
  show "(f' = f \<longrightarrow> b' = b) \<and> (f' \<noteq> f \<longrightarrow> frame_cells f' \<inter> frame_cells f = {})"
  proof (cases "i = j")
    case True
    then show ?thesis using i j by auto
  next
    case False
    then show ?thesis using f by (auto simp: frame_cells_def)
  qed
qed

section \<open>From the halt to the end\<close>

text \<open>The rows the cycles of a plan run.\<close>

definition planned_rows :: "(u32 \<times> u32 \<times> nat) list \<Rightarrow> nat" where
  "planned_rows cs = (\<Sum>(b, size', n)\<leftarrow>cs. n * (unat size' + 1))"

lemma planned_row_total:
  "list_all2 (\<lambda>(b, size', n) (b', f, rows). b' = b \<and> rows = n * (unat size' + 1)) cs F \<Longrightarrow> row_total F = planned_rows cs"
  by (induction rule: list_all2_induct) (auto simp: planned_rows_def)

lemma planned_blocks:
  assumes "filler_ok p" "cycles (p_filler p) plan = Some cs" "(b, size', n) \<in> set cs"
  shows "unat b < length (p_prog p)"
proof -
  have spec: "list_all2 (\<lambda>(pc, size', n) (t, k, m). n = m \<and> size' = of_nat (sizes ! k) \<and>
      (\<exists>b\<in>set (p_filler p). unat (blk_table b) = t \<and> blk_size b = size' \<and> blk_pc b = pc))
    cs (filter (\<lambda>(t, k, n). 0 < n) (plan_entries plan))"
    using cycles_of_spec [of "p_filler p" "plan_entries plan" cs] assms(2) by (simp add: cycles_def)
  obtain i where i: "i < length cs" "cs ! i = (b, size', n)" using assms(3) by (auto simp: in_set_conv_nth)
  obtain blk where "blk \<in> set (p_filler p)" "blk_pc blk = b"
    using list_all2_nthD [OF spec i(1)] i(2) by (auto split: prod.splits)
  then show ?thesis using assms(1) by (auto simp: filler_ok_def block_at_def)
qed

text \<open>A machine at the halt, ready to fill.\<close>

definition at_halt :: "program \<Rightarrow> mach \<Rightarrow> bool" where
  "at_halt p st \<longleftrightarrow> (\<exists>E. mach_ok p E st) \<and> ms_left st = None \<and> ms_cycles st = [] \<and> ms_pc st = ending_pc p \<and> ms_fp st = 0 \<and>
    written (ms_mem st) 0 \<and> length (p_prog p) \<le> gp_covered (ms_g st)"

lemma halt_completes:
  assumes halt: "at_halt p st" and fo: "filler_ok p" and some: "p_filler p \<noteq> []"
    and lb: "log2_strict (length (p_prog p)) = Some lb"
    and plan: "fill_plan (state_row_counts st) (p_min_log_committed p)
      (plan_committed_log (state_row_counts st) (length (m_cells (ms_mem st))) lb) = Some plan"
    and cs: "cycles (p_filler p) plan = Some cs" and room: "length (m_cells (ms_mem st)) + 12 * length cs \<le> max_cells"
    and len: "length (p_prog p) + 2 < max_cells" and budget: "steps + planned_rows cs \<le> max_steps"
  shows "\<exists>st' E. run_loop p steps st = Inr (st', steps + planned_rows cs) \<and> mach_ok p E st' \<and>
    length (m_cells (ms_mem st')) \<le> length (m_cells (ms_mem st)) + 12 * length cs \<and>
    ms_base_counts st' = Some (state_row_counts st)"
proof -
  let ?counts = "state_row_counts st" and ?start = "length (m_cells (ms_mem st))"
  let ?n = "?start + 12 * length cs"
  obtain E where ok: "mach_ok p E st" using halt by (auto simp: at_halt_def)
  let ?pre = "st\<lparr>ms_base_counts := Some ?counts, ms_unconstrained_reads := m_unwritten_reads (ms_mem st),
      ms_mem := (ms_mem st)\<lparr>m_unwritten_reads := []\<rparr>\<rparr>"
  have ok0: "mach_ok p E ?pre"
    using ok link_inv_cong [OF mach_okD(1) [OF ok], of "(ms_mem st)\<lparr>m_unwritten_reads := []\<rparr>"] mach_okD(2) [OF ok]
    by (simp add: mach_ok_def)
  have start: "unat (of_nat ?start :: u32) = ?start" using room max_cells_order(1) by (simp add: unat_of_nat)
  have pr: "pristine (unat (of_nat ?start :: u32)) ?pre" using pristine_past_end [OF ok0] start by simp
  have cov: "\<forall>(b, size', m)\<in>set cs. unat b < gp_covered (ms_g ?pre)"
    using planned_blocks [OF fo cs] halt by (fastforce simp: at_halt_def)
  have room': "unat (of_nat ?start :: u32) + 12 * length cs \<le> ?n" using start by simp
  obtain s F T ws where prep: "prepare_cycles cs (of_nat ?start) ?pre = Inr (s, F)" and g: "goes p E ?n T ws ?pre s"
    and Tw: "T \<union> fst ` set ws \<subseteq> {c. ?start \<le> unat c}" and F: "frames_from ?start F" "length F = length cs"
    and frames: "\<forall>(b, f, rows)\<in>set F. ?start \<le> unat f \<and> unat f + 12 \<le> ?n \<and> unat f < gp_covered (ms_g s) \<and> stocked b f s"
    using prepare_goes [OF ok0 pr room' room cov] unfolding start by blast
  let ?s = "s\<lparr>ms_cycles := F\<rparr>"
  have h: "halt_and_plan p st = Inr ?s"
    using halt some lb plan cs prep by (simp add: halt_and_plan_def at_halt_def Let_def or_panic_def)
  note rows = prepare_cycles_rows [OF prep]
  have planned: "cycles_planned p ?counts F"
    unfolding cycles_planned_def using some lb plan cs rows by auto
  have known: "blocks_known p F" by (rule planned_blocks_known [OF fo planned])
  have q: "control s = control ?pre" using prepare_cycles_quiet [OF ok0 prep] by (simp add: quiet_def)
  have "written (ms_mem st) 0" using halt by (simp add: at_halt_def)
  then have w0: "mem_st (ms_mem st) 0 = Written" "0 < ?start"
    using mem_wfD(1) [OF mach_okD(2) [OF ok]] by (simp add: written_st, simp add: written_def)
  have same: "mem_st (ms_mem ?pre) = mem_st (ms_mem st)" "mem_get (ms_mem ?pre) = mem_get (ms_mem st)"
    by (simp_all add: mem_st_def mem_get_def fun_eq_iff)
  have out: "0 \<notin> T \<union> fst ` set ws" using Tw w0(2) by auto
  have wait: "cycle_wait p ?n (mem_get (ms_mem st) 0) F ?s"
  proof -
    have "supplied p ?n (mem_get (ms_mem st) 0) F s"
      unfolding supplied_def
    proof clarify
      fix b f rows assume "(b, f, rows) \<in> set F"
      then have "?start \<le> unat f" "unat f + 12 \<le> ?n" "unat f < gp_covered (ms_g s)" "stocked b f s" using frames by auto
      moreover from this have "0 < unat f" "unat f < max_cells" "frame_fixed b f s"
        using less_le_trans [OF w0(2)] room by (simp, simp, simp add: stocked_def)
      ultimately show "0 < unat f \<and> unat f < max_cells \<and> unat f + 12 \<le> ?n \<and> unat f < gp_covered (ms_g s) \<and> frame_fixed b f s \<and>
          (\<forall>fl m. block_at p fl b m \<longrightarrow> ready fl (mem_get (ms_mem st) 0) f s)"
        using stocked_ready by blast
    qed
    moreover have "mem_st (ms_mem s) 0 = Written" "mem_get (ms_mem s) 0 = mem_get (ms_mem st) 0"
      using goesD(2,6) [OF g, unfolded same] out w0(1) by (simp_all add: stored_other)
    moreover have "length (p_prog p) \<le> gp_covered (ms_g s)" using goesD(7) [OF g] halt by (simp add: at_halt_def)
    moreover have "length (m_cells (ms_mem s)) \<le> ?n" using g by (simp add: goes_def)
    moreover have "mach_ok p E ?s" using goesD(1) [OF g] by (simp add: mach_ok_def)
    ultimately show ?thesis
      unfolding cycle_wait_def by (auto simp: supplied_def frame_fixed_def ready_def can_put_def)
  qed
  have left: "ms_left ?s = None" "ms_base_counts ?s = Some ?counts" using q halt by (simp_all add: control_iff at_halt_def)
  have head: "loop_head p st = (case next_cycle ?s of None \<Rightarrow> Inr (?s, True) | Some st \<Rightarrow> Inr (st, False))"
    using halt h by (simp add: loop_head_def wants_switch_def at_halt_def)
  have total: "row_total F = planned_rows cs" by (rule planned_row_total [OF rows])
  show ?thesis
  proof (cases F)
    case Nil
    then have "run_loop p steps st = Inr (?s, steps)" using head by (subst run_loop.simps) (simp add: next_cycle_def)
    moreover have "mach_ok p E ?s" "length (m_cells (ms_mem ?s)) \<le> ?n" using goesD(1) [OF g] g by (simp_all add: mach_ok_def goes_def)
    ultimately show ?thesis using left(2) total Nil by (intro exI [of _ ?s] exI [of _ E]) simp
  next
    case (Cons r rest)
    obtain b f rows where r: "r = (b, f, rows)" by (rule prod_cases3)
    let ?z = "?s\<lparr>ms_left := Some 0\<rparr>"
    have "loop_head p st = loop_head p ?z"
      unfolding head using Cons r by (simp add: loop_head_def wants_switch_def next_cycle_def)
    then have run: "run_loop p steps st = run_loop p steps ?z"
      by (simp add: run_loop.simps [of p steps st] run_loop.simps [of p steps ?z])
    have wait': "cycle_wait p ?n (mem_get (ms_mem st) 0) F ?z"
      using wait unfolding cycle_wait_def by (simp add: supplied_def frame_fixed_def ready_def can_put_def mach_ok_def)
    from cycles_complete [OF wait' _ _ _ known frames_spaced [OF F(1)] len, of 0 steps] budget total
    obtain st' where st': "run_loop p steps ?z = Inr (st', steps + planned_rows cs)"
      "cycle_wait p ?n (mem_get (ms_mem st) 0) F st'" "ms_base_counts st' = ms_base_counts ?z" by auto
    then show ?thesis using run left(2) unfolding cycle_wait_def by auto
  qed
qed

text \<open>The chain of instructions before the halt.\<close>

inductive chain_runs :: "program \<Rightarrow> mach \<Rightarrow> nat \<Rightarrow> mach \<Rightarrow> bool" for p where
  chain_nil: "chain_runs p st 0 st"
| chain_cons: "\<lbrakk>ms_pc st \<noteq> ending_pc p; exec_step p st = Inr st'; chain_runs p st' n st''\<rbrakk> \<Longrightarrow> chain_runs p st (Suc n) st''"

lemma run_loop_chain:
  assumes "chain_runs p st n st'" "chain_phase p x y evs st" "length (p_prog p) < max_cells" "steps + n \<le> max_steps"
  shows "run_loop p steps st = run_loop p (steps + n) st' \<and> (\<exists>evs. chain_phase p x y evs st') \<and> mem_grows st st'"
  using assms
proof (induction arbitrary: evs steps rule: chain_runs.induct)
  case (chain_cons st st' n st'')
  have left: "ms_left st = None" using chain_cons(5) by (simp add: chain_phase_def)
  then have cd: "count_down st = st" by (simp add: count_down_def)
  obtain e where ph: "chain_phase p x y (evs @ [e]) st'" using chain_step [OF chain_cons(5,6)] chain_cons(2) cd by auto
  have "run_loop p steps st = run_loop p (steps + 1) st'"
    using left chain_cons(1,2,7) by (subst run_loop.simps) (simp add: loop_head_def wants_switch_def count_down_def Let_def)
  moreover have "mem_grows st st'"
    using alive_exec_step [OF phase_alive [OF chain_cons(5)] chain_cons(6,2)] by simp
  ultimately show ?case using chain_cons.IH [OF ph chain_cons(6), of "steps + 1"] chain_cons(7) mem_grows_trans by auto
qed auto

lemma start_up_covers: "start_up p pub = Inr st \<Longrightarrow> length (p_prog p) \<le> gp_covered (ms_g st)"
  by (auto simp: start_up_def res_bind_eq_Inr st_put_iff mach_init_def dest!: gp_new_good split: if_splits)

lemma finish_total:
  assumes "ms_base_counts st = Some base" "length (m_cells (ms_mem st)) \<le> max_cells"
  shows "\<exists>ex. finish st n = Inr ex"
proof -
  have "next_power_of_two (length (m_cells (ms_mem st))) \<le> 2 ^ max_log_mem"
    using assms(2) by (intro next_power_of_two_least) (simp add: max_log_mem_def max_cells_def)
  then show ?thesis using assms(1) by (simp add: finish_def Let_def or_panic_def min_log_mem_def max_log_mem_def)
qed

end
