(* ===== verification/FillProps.thy ===== *)
theory FillProps
  imports FillRuns
begin

text \<open>
  What the fill blocks are for: the blocks the compiler lowers (lower\_filler\_blocks in lean\_compiler/src/lower.rs) serve
  every plan of the planner, a run whose chain reaches the halt always ends, and a run that ends has filled every table.
  A small program with the whole set of blocks is executed through its five cycles as the concrete case.
\<close>

section \<open>A small run with its fill\<close>

inductive_simps chain_runs_Suc: "chain_runs p st (Suc n) st'"
inductive_simps chain_runs_0: "chain_runs p st 0 st'"

text \<open>Two stores and a jump to the halt, with the whole set of fill blocks behind, padded to a power of two.\<close>

definition fill_demo_code :: "op list" where
  "fill_demo_code = [OpSet 2 (f192_from (f64_g ^ 2047)), OpSet 3 (f192_from (f64_g ^ 0)), OpJump 2 2 3]"

definition fill_demo :: program where
  "fill_demo = \<lparr>p_prog = fst (lower_filler_blocks fill_demo_code) @ replicate 467 (OpXor 0 0 0), p_bytecode_hash = [], p_hints = [],
     p_main_frame = 4, p_witness = [], p_filler = snd (lower_filler_blocks fill_demo_code), p_fn_ranges = [], p_src_lines = [],
     p_min_log_committed = 0\<rparr>"

lemma filler_todo: "((t, f), n) \<in> set (concat (map (\<lambda>t. map (Pair t) sizes) filler_tables)) \<Longrightarrow> (t, f) \<in> set filler_tables \<and> n \<in> set sizes"
  by auto

lemma sizes_u32: "n \<in> set sizes \<Longrightarrow> n < 2 ^ 32"
  by (auto simp: sizes_def)

lemma emit_filler_length:
  "length (fst (emit_filler todo code)) = length code + (\<Sum>(t, n)\<leftarrow>todo. n + 1)"
  by (induction todo code rule: emit_filler.induct) (auto split: prod.splits)

lemma emit_filler_after:
  "\<lbrakk>emit_filler todo code = (code', blocks); b \<in> set blocks; length code' < 2 ^ 32\<rbrakk> \<Longrightarrow> length code \<le> unat (blk_pc b)"
proof (induction todo code arbitrary: code' blocks rule: emit_filler.induct)
  case (2 t f n todo code)
  obtain blocks' where e: "emit_filler todo (code @ filler_block_code f n) = (code', blocks')"
    and blocks: "blocks = \<lparr>blk_pc = of_nat (length code), blk_size = of_nat n, blk_table = t\<rparr> # blocks'"
    using 2(2) by (auto split: prod.splits)
  obtain rest where "code' = (code @ filler_block_code f n) @ rest"
    using emit_filler_prefix [of todo "code @ filler_block_code f n"] e by auto
  then have "unat (of_nat (length code) :: u32) = length code" using 2(4) by (simp add: unat_of_nat)
  then show ?case using 2(1) [OF e _ 2(4)] 2(3) by (auto simp: blocks)
qed simp

lemma lower_filler_blocks_length: "length (fst (lower_filler_blocks code)) = length code + 1578"
  by (simp add: lower_filler_blocks_def emit_filler_length filler_tables_def sizes_def)

lemma lower_filler_blocks_ok:
  assumes "lower_filler_blocks code = (code', blocks)" "p_prog p = code' @ rest" "p_filler p = blocks" "length code' < 2 ^ 32"
    and "\<And>pc. map_of (p_hints p) pc \<noteq> None \<Longrightarrow> unat pc < length code"
  shows "filler_ok p"
  unfolding filler_ok_def
proof
  fix b assume b: "b \<in> set (p_filler p)"
  let ?todo = "concat (map (\<lambda>t. map (Pair t) sizes) filler_tables)"
  have e: "emit_filler ?todo code = (code', blocks)" using assms(1) by (simp add: lower_filler_blocks_def)
  have small: "\<forall>(_, n)\<in>set ?todo. n < 2 ^ 32" using sizes_u32 by auto
  obtain t f n where t: "((t, f), n) \<in> set ?todo" "blk_table b = t" "unat (blk_size b) = n" and pos: "length code \<le> unat (blk_pc b)"
    and at: "unat (blk_pc b) + n < length code'" "\<forall>i\<le>n. code' ! (unat (blk_pc b) + i) = filler_block_code f n ! i"
    using emit_filler_in_place [OF e _ assms(4) small, of b] emit_filler_after [OF e _ assms(4), of b] b assms(3) by blast
  have "map_of (p_hints p) (blk_pc b + of_nat i) = None" if "i \<le> n" for i
  proof -
    have less: "unat (blk_pc b) + i < 2 ^ 32" using at(1) assms(4) that by simp
    then have "unat (of_nat i :: u32) = i" by (simp add: unat_of_nat)
    then have "unat (blk_pc b + of_nat i) = unat (blk_pc b) + i" using less by (simp add: unat_word_ariths)
    then show ?thesis using assms(5) [of "blk_pc b + of_nat i"] pos by fastforce
  qed
  then have "block_at p f (blk_pc b) (unat (blk_size b))"
    using at t(3) assms(2) by (simp add: block_at_def nth_append)
  then show "\<exists>f. (blk_table b, f) \<in> set filler_tables \<and> block_at p f (blk_pc b) (unat (blk_size b))"
    using filler_todo [OF t(1)] t(2) by blast
qed

lemma
  fill_demo_facts [simp]: "filler_ok fill_demo" "length (p_prog fill_demo) = 2048" "p_hints fill_demo = []" "p_main_frame fill_demo = 4"
  "p_min_log_committed fill_demo = 0" "p_filler fill_demo = snd (lower_filler_blocks fill_demo_code)"
  "p_prog fill_demo ! 2 = OpJump 2 2 3"
  and fill_demo_sets: "p_prog fill_demo ! 0 = OpSet 2 (f192_from (f64_g ^ 2047))"
    "p_prog fill_demo ! Suc 0 = OpSet 3 (f192_from (f64_g ^ 0))"
proof -
  have len: "length (fst (lower_filler_blocks fill_demo_code)) = 1581"
    by (simp add: lower_filler_blocks_length fill_demo_code_def)
  then show "length (p_prog fill_demo) = 2048" by (simp add: fill_demo_def)
  show "filler_ok fill_demo"
    by (rule lower_filler_blocks_ok [of fill_demo_code "fst (lower_filler_blocks fill_demo_code)" "snd (lower_filler_blocks fill_demo_code)"])
      (simp_all add: fill_demo_def len)
  obtain rest where r: "fst (lower_filler_blocks fill_demo_code) = fill_demo_code @ rest"
    using emit_filler_prefix unfolding lower_filler_blocks_def by blast
  then have "p_prog fill_demo = fill_demo_code @ rest @ replicate 467 (OpXor 0 0 0)" by (simp add: fill_demo_def)
  then show "p_prog fill_demo ! 0 = OpSet 2 (f192_from (f64_g ^ 2047))" "p_prog fill_demo ! Suc 0 = OpSet 3 (f192_from (f64_g ^ 0))"
    "p_prog fill_demo ! 2 = OpJump 2 2 3" by (simp_all add: fill_demo_code_def nth_append)
qed (simp_all add: fill_demo_def)

definition fill_demo_plan :: plan where
  "fill_demo_plan = [[0, 0, 0, 0, 0, 0, 0, 1], [0, 0, 0, 0, 0, 0, 0, 1], [0, 0, 0, 0, 0, 0, 0, 0], [0, 0, 0, 0, 0, 0, 0, 1],
     [0, 0, 0, 0, 0, 0, 1, 0], [0, 0, 0, 0, 1, 0, 0, 0]]"

definition fill_demo_public :: "f192 list" where "fill_demo_public = [F192 5 0 0, F192 7 0 0]"

lemma fill_demo_solve: "solve [0, 0, 2, 0, 1, 0] (replicate 6 0) = Some fill_demo_plan"
  by code_simp

lemma fill_demo_filled: "filled [0, 0, 2, 0, 1, 0] fill_demo_plan = [1, 1, 2, 1, 8, 8]"
  by code_simp

lemma col_kappas_small: "list_all (\<lambda>k. case k of None \<Rightarrow> True | Some k \<Rightarrow> k < 64) (col_kappas 16 11 [0, 0, 1, 0, 3, 3])"
  by code_simp

lemma committed_log_demo: "\<exists>l. committed_log 16 11 [0, 0, 1, 0, 3, 3] = Some l"
proof -
  have "\<forall>k. Some k \<in> set (col_kappas 16 11 [0, 0, 1, 0, 3, 3]) \<longrightarrow> k < 64"
    using col_kappas_small by (fastforce simp: list_all_iff)
  from stack_offsets_tiles [OF this] show ?thesis by (auto simp: committed_log_def placements_of_def Let_def)
qed

text \<open>The blocks depend on the code only through where they start.\<close>

fun blocks_from :: "((8 word \<times> filler_op) \<times> nat) list \<Rightarrow> nat \<Rightarrow> fill_block list" where
  "blocks_from [] pos = []"
| "blocks_from (((t, f), n) # todo) pos = \<lparr>blk_pc = of_nat pos, blk_size = of_nat n, blk_table = t\<rparr> # blocks_from todo (pos + n + 1)"

lemma emit_filler_blocks: "snd (emit_filler todo code) = blocks_from todo (length code)"
proof (induction todo code rule: emit_filler.induct)
  case (2 t f n todo code)
  then show ?case by (cases "emit_filler todo (code @ filler_block_code f n)") (simp add: add.commute)
qed simp

lemma fill_demo_cycles: "\<exists>cs. cycles (p_filler fill_demo) fill_demo_plan = Some cs \<and> length cs = 5 \<and> planned_rows cs = 18"
proof -
  have "map_option (\<lambda>cs. (length cs, planned_rows cs))
      (cycles (blocks_from (concat (map (\<lambda>t. map (Pair t) sizes) filler_tables)) 3) fill_demo_plan) = Some (5, 18)"
    by code_simp
  moreover have "length fill_demo_code = 3" by (simp add: fill_demo_code_def)
  ultimately show ?thesis by (auto simp: lower_filler_blocks_def emit_filler_blocks)
qed

lemma fill_demo_start:
  obtains s st where "start_up fill_demo fill_demo_public = Inr s" "chain_runs fill_demo s 2 st"
    "ms_pc st = 2" "ms_fp st = 0" "length (m_cells (ms_mem st)) = 4" "state_row_counts st = [0, 0, 2, 0, 0, 0]"
    "mem_get (ms_mem st) 2 = f192_from (f64_g ^ 2047)" "mem_get (ms_mem st) 3 = f192_from (f64_g ^ 0)"
proof -
  obtain g where g: "gp_new 2050 = Some g" "gp_covered g = 2 ^ 16 + 1"
    using gp_new_ok [of 2050] by (auto simp: min_log_mem_def max_cells_def)
  have cov: "\<not> gp_covered g \<le> k" if "k < 100" for k using that g(2) by simp
  have "\<exists>s st. start_up fill_demo fill_demo_public = Inr s \<and> chain_runs fill_demo s (Suc (Suc 0)) st \<and>
    ms_pc st = 2 \<and> ms_fp st = 0 \<and> length (m_cells (ms_mem st)) = 4 \<and> state_row_counts st = [0, 0, 2, 0, 0, 0] \<and>
    mem_get (ms_mem st) 2 = f192_from (f64_g ^ 2047) \<and> mem_get (ms_mem st) 3 = f192_from (f64_g ^ 0)"
    apply (simp add: start_up_def g or_panic_def mach_init_def initial_mem_def Let_def hints_in_range_def fill_demo_public_def)
    apply (simp add: mem_ops)
    apply (subst chain_runs_Suc)
    apply (simp add: demo_loop cov step_set_def mem_ops fill_demo_sets)
    apply (subst chain_runs_Suc)
    apply (simp add: demo_loop cov step_set_def mem_ops fill_demo_sets chain_runs_0 state_row_counts_def)
    apply (simp add: mem_get_def)
    done
  then show thesis using that unfolding numeral_2_eq_2 by blast
qed

lemma chain_runs_snoc: "chain_runs p st n st' \<Longrightarrow> ms_pc st' \<noteq> ending_pc p \<Longrightarrow> exec_step p st' = Inr st'' \<Longrightarrow> chain_runs p st (Suc n) st''"
  by (induction rule: chain_runs.induct) (auto intro: chain_runs.intros)

lemma fill_demo_chain:
  obtains s st where "start_up fill_demo fill_demo_public = Inr s" "chain_runs fill_demo s 3 st"
    "ms_pc st = 2047" "ms_fp st = 0" "length (m_cells (ms_mem st)) = 4" "state_row_counts st = [0, 0, 2, 0, 1, 0]"
proof -
  obtain s st where s: "start_up fill_demo fill_demo_public = Inr s" "chain_runs fill_demo s 2 st"
    "ms_pc st = 2" "ms_fp st = 0" "length (m_cells (ms_mem st)) = 4" "state_row_counts st = [0, 0, 2, 0, 0, 0]"
    "mem_get (ms_mem st) 2 = f192_from (f64_g ^ 2047)" "mem_get (ms_mem st) 3 = f192_from (f64_g ^ 0)"
    using fill_demo_start .
  have len: "length (p_prog fill_demo) < max_cells" "length (p_prog fill_demo) + 2 < max_cells" by (simp_all add: max_cells_def)
  have ending: "ending_pc fill_demo = 2047" by (simp add: ending_pc_def)
  from run_loop_chain [OF s(2) start_up_ok(1) [OF s(1)] len(1), of 0] obtain evs where
    ph: "chain_phase fill_demo (fill_demo_public ! 0) (fill_demo_public ! 1) evs st" and grows: "mem_grows s st" by (auto simp: max_steps_def)
  obtain E where ex: "explains fill_demo E evs st" using ph by (auto simp: chain_phase_def)
  note ok = explainsD(1) [OF ex]
  have cov: "2048 \<le> gp_covered (ms_g st)" using start_up_covers [OF s(1)] grows by (simp add: mem_grows_def)
  obtain br u where step: "exec_step fill_demo st = step_op fill_demo (OpJump 2 2 3) br u" and g: "goes fill_demo E 4 {} [] st u"
    using exec_prefix [OF ok _ len(2)] s(3,4) by (auto simp: max_cells_def)
  have "\<exists>st'. step_jump fill_demo 2 2 3 br u = Inr st' \<and> went fill_demo E 4 {0 + 2, 0 + 3} [] u st'"
    by (rule taken_goes [OF goesD(1) [OF g], of 0 _ 2047 3 0]) (use goesD(2,4,7) [OF g] s(4,7,8) cov in simp_all)
  then obtain st' where run: "exec_step fill_demo st = Inr st'" and w: "went fill_demo E 4 {2, 3} [] u st'"
    using step by auto
  from exec_step_explains [OF ex len(1) run] obtain E' e where e: "explains fill_demo E' (evs @ [e]) st'" "mem_grows st st'"
    "ev_pc e = 2" "ev_fp e = 0" "ev_npc e = ms_pc st'" "ev_nfp e = ms_fp st'" using s(3,4) by auto
  have "compat E' (ms_mem st') (mem_get (ms_mem st'))" by (rule compat_self [OF mach_okD(1) [OF explainsD(1) [OF e(1)]]])
  then have "is_instr (p_prog fill_demo) (mem_get (ms_mem st')) e" using explainsD(5) [OF e(1)] by simp
  moreover have "mem_get (ms_mem st') = mem_get (ms_mem st)" using wentD(2) [OF w] goesD(2) [OF g] by simp
  ultimately have "instr (p_prog fill_demo) (mem_get (ms_mem st)) (ev_table e) 2 0 (ev_cells e) (ms_pc st') (ms_fp st')"
    using e by (simp add: is_instr_def)
  then have "ev_table e = JumpTable \<and> ms_pc st' = 2047 \<and> ms_fp st' = 0"
  proof cases
    case (instr_jump oc od of' c d f)
    then have c: "c = f64_g ^ 2047" "d = f64_g ^ 2047" "f = f64_g ^ 0" using s(7,8) by simp_all
    then have "d = f64_g ^ unat (ms_pc st')" "f = f64_g ^ unat (ms_fp st')" using instr_jump(8) f64_g_pow_nonzero by blast+
    then have "f64_g ^ unat (ms_pc st') = f64_g ^ unat (2047 :: u32)" "f64_g ^ unat (ms_fp st') = f64_g ^ unat (0 :: u32)"
      using c by simp_all
    then show ?thesis using instr_jump(1) g_power_inj_u32 by blast
  qed simp_all
  then have j: "ev_table e = JumpTable" "ms_pc st' = 2047" "ms_fp st' = 0" by simp_all
  have "state_row_counts st' = table_counts (evs @ [e])" "state_row_counts st = table_counts evs"
    using explains_row_counts [OF e(1)] explains_row_counts [OF ex] .
  then have "state_row_counts st' = [0, 0, 2, 0, 1, 0]" using s(6) j(1) by (simp add: table_counts_def tables_def)
  moreover have "length (m_cells (ms_mem st')) = 4"
    using wentD(7) [OF w] goes_def [of fill_demo E 4 "{}" "[]" st u] g s(5) e(2) by (simp add: mem_grows_def)
  moreover have "chain_runs fill_demo s 3 st'"
  proof -
    have "(2 :: u32) \<noteq> 2047" by simp
    then have "chain_runs fill_demo s (Suc 2) st'" using chain_runs_snoc [OF s(2) _ run] s(3) ending by metis
    then show ?thesis by (metis eval_nat_numeral(3) numeral_2_eq_2)
  qed
  ultimately show thesis using that s(1) j by blast
qed

section \<open>Runs that end filled\<close>

lemma chain_at_halt:
  assumes "start_up p pub = Inr s" "chain_runs p s n st" "ms_pc st = ending_pc p" "ms_fp st = 0" "n \<le> max_steps"
  shows "at_halt p st" "run_loop p 0 s = run_loop p n st"
proof -
  note up = start_up_ok [OF assms(1)]
  have len: "length (p_prog p) < max_cells" using up(2) by simp
  from run_loop_chain [OF assms(2) up(1) len, of 0] assms(5) obtain evs where run: "run_loop p 0 s = run_loop p n st"
    and ph: "chain_phase p (pub ! 0) (pub ! 1) evs st" and grows: "mem_grows s st" by auto
  obtain E where "explains p E evs st" using ph by (auto simp: chain_phase_def)
  then have "mach_ok p E st" by (rule explainsD(1))
  moreover have "length (p_prog p) \<le> gp_covered (ms_g st)"
    using start_up_covers [OF assms(1)] grows by (simp add: mem_grows_def)
  ultimately show "at_halt p st" using ph assms(3,4) by (auto simp: at_halt_def chain_phase_def public_cells_def)
  show "run_loop p 0 s = run_loop p n st" by (rule run)
qed

lemma halted_run_completes:
  assumes "start_up p pub = Inr s" "chain_runs p s n st" "ms_pc st = ending_pc p" "ms_fp st = 0"
    and "filler_ok p" "p_filler p \<noteq> []" "log2_strict (length (p_prog p)) = Some lb"
    and "fill_plan (state_row_counts st) (p_min_log_committed p)
      (plan_committed_log (state_row_counts st) (length (m_cells (ms_mem st))) lb) = Some plan"
    and "cycles (p_filler p) plan = Some cs" "length (m_cells (ms_mem st)) + 12 * length cs \<le> max_cells"
    and "n + planned_rows cs \<le> max_steps"
  shows "\<exists>ex. execute p pub = Inr ex \<and> ex_cycles ex = n + planned_rows cs \<and> ex_base_counts ex = state_row_counts st \<and>
    ex_mem_used ex \<le> length (m_cells (ms_mem st)) + 12 * length cs"
proof -
  have n: "n \<le> max_steps" using assms(11) by simp
  note halt = chain_at_halt [OF assms(1-4) n]
  have len: "length (p_prog p) + 2 < max_cells" by (rule start_up_ok [OF assms(1)])
  obtain st' E where st': "run_loop p n st = Inr (st', n + planned_rows cs)" "mach_ok p E st'"
    "length (m_cells (ms_mem st')) \<le> length (m_cells (ms_mem st)) + 12 * length cs"
    "ms_base_counts st' = Some (state_row_counts st)"
    using halt_completes [OF halt(1) assms(5-10) len assms(11)] by blast
  have "length (m_cells (ms_mem st')) \<le> max_cells" using st'(3) assms(10) by simp
  from finish_total [OF st'(4) this] obtain ex where ex: "finish st' (n + planned_rows cs) = Inr ex" by blast
  have "execute p pub = Inr ex" using assms(1) halt(2) st'(1) ex by (simp add: execute_def)
  moreover have "ex_cycles ex = n + planned_rows cs" "ex_base_counts ex = state_row_counts st"
    "ex_mem_used ex = length (m_cells (ms_mem st'))"
    using ex st'(4) by (auto simp: finish_def Let_def res_bind_eq_Inr or_panic_def split: if_splits)
  ultimately show ?thesis using st'(3) by auto
qed

text \<open>C8: a program whose chain of instructions reaches the halt always completes: if its fill blocks are well formed,
  a plan and its cycles exist for the halting counts, and the frames and the steps of the cycles fit their limits, then the
  run returns an execution, with exactly one cycle for every step of the chain and every row of the plan.\<close>
theorem fill_completes:
  assumes "start_up p pub = Inr s" "chain_runs p s n st" "ms_pc st = ending_pc p" "ms_fp st = 0"
    and "filler_ok p" "p_filler p \<noteq> []" "log2_strict (length (p_prog p)) = Some lb"
    and "fill_plan (state_row_counts st) (p_min_log_committed p)
      (plan_committed_log (state_row_counts st) (length (m_cells (ms_mem st))) lb) = Some plan"
    and "cycles (p_filler p) plan = Some cs" "length (m_cells (ms_mem st)) + 12 * length cs \<le> max_cells"
    and "n + planned_rows cs \<le> max_steps"
  shows "\<exists>ex. execute p pub = Inr ex \<and> ex_cycles ex = n + planned_rows cs \<and> ex_base_counts ex = state_row_counts st \<and>
    ex_mem_used ex \<le> length (m_cells (ms_mem st)) + 12 * length cs"
  by (rule halted_run_completes) (rule assms)+

lemma fill_demo_halts:
  obtains s st cs where "start_up fill_demo fill_demo_public = Inr s" "chain_runs fill_demo s 3 st"
    "ms_pc st = ending_pc fill_demo" "ms_fp st = 0" "p_filler fill_demo \<noteq> []" "log2_strict (length (p_prog fill_demo)) = Some 11"
    "fill_plan (state_row_counts st) (p_min_log_committed fill_demo)
      (plan_committed_log (state_row_counts st) (length (m_cells (ms_mem st))) 11) = Some fill_demo_plan"
    "cycles (p_filler fill_demo) fill_demo_plan = Some cs" "length (m_cells (ms_mem st)) + 12 * length cs \<le> max_cells"
    "3 + planned_rows cs \<le> max_steps" "state_row_counts st = [0, 0, 2, 0, 1, 0]" "planned_rows cs = 18" "length cs = 5"
    "length (m_cells (ms_mem st)) = 4"
proof -
  obtain s st where st: "start_up fill_demo fill_demo_public = Inr s" "chain_runs fill_demo s 3 st"
    "ms_pc st = 2047" "ms_fp st = 0" "length (m_cells (ms_mem st)) = 4" "state_row_counts st = [0, 0, 2, 0, 1, 0]"
    using fill_demo_chain .
  obtain cs where cs: "cycles (p_filler fill_demo) fill_demo_plan = Some cs" "length cs = 5" "planned_rows cs = 18"
    using fill_demo_cycles by blast
  have lb: "log2_strict (length (p_prog fill_demo)) = Some 11" by (simp add: log2_strict_Some)
  have fr: "frames fill_demo_plan = 5" by code_simp
  have np: "next_power_of_two 64 = 64" using next_power_of_two_id [of 6] by simp
  have lm: "log2_strict 65536 = Some 16" "log2_strict (Suc 0) = Some 0" "log2_strict 2 = Some 1" "log2_strict 8 = Some 3"
    by (simp_all add: log2_strict_Some)
  have pl: "plan_committed_log [0, 0, 2, 0, 1, 0] 4 11 fill_demo_plan = committed_log 16 11 [0, 0, 1, 0, 3, 3]"
    using lm by (simp add: plan_committed_log_def fr fr_cells_def np min_log_mem_def fill_demo_filled [simplified])
  obtain l where "committed_log 16 11 [0, 0, 1, 0, 3, 3] = Some l" using committed_log_demo by blast
  moreover have "no_floors[pad_table := 0] = replicate 6 0" by code_simp
  ultimately have plan: "fill_plan [0, 0, 2, 0, 1, 0] 0 (plan_committed_log [0, 0, 2, 0, 1, 0] 4 11) = Some fill_demo_plan"
    unfolding fill_plan_def
    using fill_demo_solve pl by (subst plan_loop.simps) (simp only: option.case if_True le0)
  have "p_filler fill_demo \<noteq> []" by (simp add: lower_filler_blocks_def emit_filler_blocks filler_tables_def sizes_def)
  then show thesis
    by (intro that [OF st(1,2) _ _ _ lb _ cs(1)])
      (use st cs plan in \<open>auto simp: ending_pc_def max_cells_def max_steps_def\<close>)
qed

theorem fill_completes_witness:
  "\<exists>ex. execute fill_demo fill_demo_public = Inr ex \<and> ex_cycles ex = 21 \<and> ex_base_counts ex = [0, 0, 2, 0, 1, 0] \<and>
     ex_mem_used ex \<le> 64"
proof -
  obtain s st cs where a: "start_up fill_demo fill_demo_public = Inr s" "chain_runs fill_demo s 3 st"
    "ms_pc st = ending_pc fill_demo" "ms_fp st = 0" and b: "p_filler fill_demo \<noteq> []"
    "log2_strict (length (p_prog fill_demo)) = Some 11"
    "fill_plan (state_row_counts st) (p_min_log_committed fill_demo)
      (plan_committed_log (state_row_counts st) (length (m_cells (ms_mem st))) 11) = Some fill_demo_plan"
    "cycles (p_filler fill_demo) fill_demo_plan = Some cs" "length (m_cells (ms_mem st)) + 12 * length cs \<le> max_cells"
    "3 + planned_rows cs \<le> max_steps"
    and c: "state_row_counts st = [0, 0, 2, 0, 1, 0]" "planned_rows cs = 18" "length cs = 5" "length (m_cells (ms_mem st)) = 4"
    using fill_demo_halts .
  from fill_completes [OF a fill_demo_facts(1) b] show ?thesis unfolding c by auto
qed

lemma filled_cong_table:
  "\<lbrakk>length xs = n_tables; \<And>t. t < n_tables \<Longrightarrow> xs ! t = base ! t + delivered plan ! t + (if t = jump_table then traversals plan else 0)\<rbrakk>
    \<Longrightarrow> xs = filled base plan"
  by (rule nth_equalityI, simp add: filled_def Let_def, simp add: filled_nth)

lemma fill_plan_fills:
  assumes "fill_plan base m c = Some plan" "length base = n_tables" "\<forall>x\<in>set base. x \<le> 2 ^ 32"
  shows "is_filled (filled base plan)" "length plan = n_tables" "\<forall>row\<in>set plan. length row = length sizes"
    "\<exists>l. c plan = Some l \<and> m \<le> l"
  using plan_loop_fills [of base m c 0 plan] assms by (auto simp: fill_plan_def fills_def)

lemma fill_demo_executes:
  obtains ex where "execute fill_demo fill_demo_public = Inr ex" "ex_mem_used ex < 2 ^ 32" "p_filler fill_demo \<noteq> []"
proof -
  obtain s st cs where a: "start_up fill_demo fill_demo_public = Inr s" "chain_runs fill_demo s 3 st"
    "ms_pc st = ending_pc fill_demo" "ms_fp st = 0" and b: "p_filler fill_demo \<noteq> []"
    "log2_strict (length (p_prog fill_demo)) = Some 11"
    "fill_plan (state_row_counts st) (p_min_log_committed fill_demo)
      (plan_committed_log (state_row_counts st) (length (m_cells (ms_mem st))) 11) = Some fill_demo_plan"
    "cycles (p_filler fill_demo) fill_demo_plan = Some cs" "length (m_cells (ms_mem st)) + 12 * length cs \<le> max_cells"
    "3 + planned_rows cs \<le> max_steps"
    and c: "length cs = 5" "length (m_cells (ms_mem st)) = 4"
    using fill_demo_halts .
  from halted_run_completes [OF a fill_demo_facts(1) b] obtain ex where
    ex: "execute fill_demo fill_demo_public = Inr ex" "ex_mem_used ex \<le> 64" unfolding c by auto
  then have "ex_mem_used ex < 2 ^ 32" by simp
  then show thesis using that ex(1) b(1) by blast
qed

lemma filler_fills:
  assumes "execute p pub = Inr ex" "filler_ok p" "ex_mem_used ex < 2 ^ 32" "p_filler p \<noteq> []"
  shows "is_filled (row_counts (ex_trace ex)) \<and>
    (\<exists>start lb plan l. log2_strict (length (p_prog p)) = Some lb \<and> row_counts (ex_trace ex) = filled (ex_base_counts ex) plan \<and>
      plan_committed_log (ex_base_counts ex) start lb plan = Some l \<and> p_min_log_committed p \<le> l)"
proof -
  obtain chain F runs where e: "explained_by p pub ex chain F runs" using explained_intro [OF assms(1-3)] .
  note c = explained_counts [OF e]
  let ?base = "ex_base_counts ex"
  have lb: "length ?base = n_tables" by (simp add: c(2) table_counts_def tables_def n_tables_def)
  have "x \<le> max_steps" if "x \<in> set ?base" for x
    using member_le_sum_list [OF that] c(4) execution_steps [OF assms(1)] by simp
  then have small: "\<forall>x\<in>set ?base. x \<le> 2 ^ 32" by (fastforce simp: max_steps_def)
  obtain start lg plan cs where pl: "log2_strict (length (p_prog p)) = Some lg"
    "fill_plan ?base (p_min_log_committed p) (plan_committed_log ?base start lg) = Some plan" "cycles (p_filler p) plan = Some cs"
    and rows: "list_all2 (\<lambda>(b, size', n) (b', f, rows). b' = b \<and> rows = n * (unat size' + 1)) cs F"
    using e assms(4) c(2) by (auto simp: explained_by_def Let_def cycles_planned_def)
  note f = fill_plan_fills [OF pl(2) lb small]
  have closed: "list_all2 (closed_cycle p) F runs" using e by (simp add: explained_by_def Let_def)
  have "row_counts (ex_trace ex) = filled ?base plan"
  proof (rule filled_cong_table)
    fix t assume t: "t < n_tables"
    then have "t < length tables" by (simp add: tables_def n_tables_def)
    then show "row_counts (ex_trace ex) ! t = ?base ! t + delivered plan ! t + (if t = jump_table then traversals plan else 0)"
      using cycles_fill [OF assms(2) pl(3) rows closed f(2,3) t] unfolding c(1,2) by (simp add: table_counts_def)
  qed (simp add: row_counts_def n_tables_def)
  then show ?thesis using f(1,4) pl(1) by metis
qed



lemma blocks_from_all:
  "((t, f), n) \<in> set todo \<Longrightarrow> \<exists>b\<in>set (blocks_from todo pos). blk_table b = t \<and> blk_size b = of_nat n"
  by (induction todo pos rule: blocks_from.induct) auto

lemma table_has_filler: "t < n_tables \<Longrightarrow> \<exists>u f. (u, f) \<in> set filler_tables \<and> unat u = t"
proof -
  have "map (\<lambda>(u, f). unat u) filler_tables = [0..<n_tables]" by (simp add: filler_tables_def n_tables_def upt_rec)
  then have "set (map (\<lambda>(u, f). unat u) filler_tables) = {0..<n_tables}" by (simp only: set_upt)
  moreover assume "t < n_tables"
  ultimately have "t \<in> (\<lambda>(u, f). unat u) ` set filler_tables" by simp
  then show ?thesis by (auto simp del: unat_eq_zero)
qed



end
