(* ===== verification/Errors.thy ===== *)
theory Errors
  imports Demo
begin

text \<open>
  The error paths of the interpreter: a small calculus of guarded runs (an error satisfies one predicate, a result
  another), a rule for every operation, and what the error of a whole run says about the place it arose.
\<close>

section \<open>What an early stop says\<close>

text \<open>The faults and the context they are reported in: the place of the run, and the hint being carried out, if any.\<close>

fun fault_ok :: "string option \<Rightarrow> fault \<Rightarrow> bool" where
  "fault_ok h (Conflict cell had new hint) \<longleftrightarrow> had \<noteq> new \<and> hint = h"
| "fault_ok h (NotInK what v) \<longleftrightarrow> as_addr v = None"
| "fault_ok h (NotCanonical name v) \<longleftrightarrow> name \<in> set blake2s_cells \<and> coeff2 v \<noteq> 0"
| "fault_ok h (NotAGPower what x) \<longleftrightarrow> True"
| "fault_ok h (HaltOutsideMain fp) \<longleftrightarrow> False"
| "fault_ok h StepLimit \<longleftrightarrow> False"
| "fault_ok h _ \<longleftrightarrow> True"

definition reported :: "program \<Rightarrow> u32 \<Rightarrow> string option \<Rightarrow> exec_error \<Rightarrow> bool" where
  "reported p pc h e \<longleftrightarrow> (\<exists>f. e = exec_error_new p pc f \<and> fault_ok h f)"

definition at_site :: "program \<Rightarrow> u32 \<Rightarrow> string option \<Rightarrow> mach \<Rightarrow> bool" where
  "at_site p pc h st \<longleftrightarrow> mem_ctx (ms_mem st) = (p, pc, h) \<and> ms_pc st = pc"

text \<open>A run is \<^emph>\<open>guarded\<close> when an error satisfies the first predicate and a result the second.\<close>

definition guarded :: "(exec_error \<Rightarrow> bool) \<Rightarrow> ('a \<Rightarrow> bool) \<Rightarrow> 'a run \<Rightarrow> bool" where
  "guarded E Q r \<longleftrightarrow> (case r of Inl (Failed e) \<Rightarrow> E e | Inl Panicked \<Rightarrow> True | Inr x \<Rightarrow> Q x)"

named_theorems guard_intros "rules for guarded runs"

lemma guarded_bind [guard_intros]:
  "guarded E Q r \<Longrightarrow> (\<And>x. Q x \<Longrightarrow> guarded E R (f x)) \<Longrightarrow> guarded E R (res_bind r f)"
  by (cases r) (simp_all add: guarded_def)

lemma guarded_Inr [guard_intros]: "Q x \<Longrightarrow> guarded E Q (Inr x)"
  by (simp add: guarded_def)

lemma guarded_panic [guard_intros]: "guarded E Q (Inl Panicked)"
  by (simp add: guarded_def)

lemma guarded_if [guard_intros]:
  "(b \<Longrightarrow> guarded E Q x) \<Longrightarrow> (\<not> b \<Longrightarrow> guarded E Q y) \<Longrightarrow> guarded E Q (if b then x else y)"
  by simp

lemma guarded_option [guard_intros]:
  "(r = None \<Longrightarrow> guarded E Q x) \<Longrightarrow> (\<And>k. r = Some k \<Longrightarrow> guarded E Q (f k)) \<Longrightarrow>
    guarded E Q (case r of None \<Rightarrow> x | Some k \<Rightarrow> f k)"
  by (cases r) simp_all

lemma guarded_weaken: "guarded E Q r \<Longrightarrow> (\<And>x. Q x \<Longrightarrow> R x) \<Longrightarrow> guarded E R r"
  by (auto simp: guarded_def split: sum.splits stop.splits)

lemma guarded_fail [guard_intros]:
  "at_site p pc h st \<Longrightarrow> fault_ok h f \<Longrightarrow> guarded (reported p pc h) Q (fail p st f)"
  by (auto simp: guarded_def fail_def reported_def at_site_def)

lemma guarded_or_panic [guard_intros]: "(\<And>x. r = Some x \<Longrightarrow> Q x) \<Longrightarrow> guarded E Q (or_panic r)"
  by (auto simp: guarded_def or_panic_def split: option.splits)

lemma guarded_or_fail:
  "at_site p pc h st \<Longrightarrow> (\<And>f. r = Inl f \<Longrightarrow> fault_ok h f) \<Longrightarrow> (\<And>x. r = Inr x \<Longrightarrow> Q x) \<Longrightarrow>
    guarded (reported p pc h) Q (or_fail p st r)"
  by (auto simp: or_fail_def guard_intros split: sum.splits)

lemma guarded_some_or_fail [guard_intros]:
  "at_site p pc h st \<Longrightarrow> fault_ok h f \<Longrightarrow> (\<And>x. r = Some x \<Longrightarrow> Q x) \<Longrightarrow>
    guarded (reported p pc h) Q (some_or_fail p st f r)"
  by (auto simp: some_or_fail_def guard_intros split: option.splits)

lemma guarded_in_k [guard_intros]:
  "at_site p pc h st \<Longrightarrow> guarded (reported p pc h) (\<lambda>x. True) (or_fail p st (in_k what v))"
  by (rule guarded_or_fail) (auto simp: in_k_def split: option.splits)

lemma guarded_pop [guard_intros]:
  "at_site p pc h st \<Longrightarrow> guarded (reported p pc h) (\<lambda>(st', vs). at_site p pc h st') (or_fail p st (pop_witness p name len st))"
  by (rule guarded_or_fail) (auto simp: pop_witness_def Let_def at_site_def split: option.splits if_splits)

section \<open>The memory\<close>

lemma mem_ctx_ensure [simp]: "mem_ctx (ensure i m) = mem_ctx m"
  by (simp add: mem_ctx_def ensure_def)

lemma mem_store_guard:
  "mem_ctx m = (p, pc, h) \<Longrightarrow>
    (case mem_store c v m of Inl e \<Rightarrow> reported p pc h e | Inr r \<Rightarrow> mem_ctx (fst r) = (p, pc, h))"
  using mem_ctx_ensure [of "unat c" m]
  by (auto simp: mem_store_def Let_def mem_conflict_def reported_def mem_ctx_def)

lemma spread_to_guard:
  "mem_ctx m = (p, pc, h) \<Longrightarrow>
    (case spread_to ps v m todo of Inl e \<Rightarrow> reported p pc h e | Inr r \<Rightarrow> mem_ctx (fst r) = (p, pc, h))"
proof (induction ps arbitrary: m todo)
  case (Cons c ps)
  from mem_store_guard [OF Cons.prems, of c v] Cons.IH show ?case
    by (cases "mem_store c v m") (auto split: prod.splits)
qed simp

lemma spread_loop_guard:
  "mem_ctx m = (p, pc, h) \<Longrightarrow>
    (case spread_loop todo v m of Inl e \<Rightarrow> reported p pc h e | Inr m' \<Rightarrow> mem_ctx m' = (p, pc, h))"
proof (induction todo v m rule: spread_loop.induct)
  case (2 c todo v m)
  let ?r = "spread_to (case m_links m c of None \<Rightarrow> [] | Some ps \<Rightarrow> ps) v (m\<lparr>m_links := (m_links m)(c := None)\<rparr>) todo"
  have "mem_ctx (m\<lparr>m_links := (m_links m)(c := None)\<rparr>) = (p, pc, h)" using 2(2) by (simp add: mem_ctx_def)
  from spread_to_guard [OF this, of "case m_links m c of None \<Rightarrow> [] | Some ps \<Rightarrow> ps" v todo]
  show ?case using 2(1) by (cases ?r) (auto simp: spread_loop.simps split: prod.splits)
qed (simp add: spread_loop.simps)

lemma mem_put_guard:
  "mem_ctx m = (p, pc, h) \<Longrightarrow>
    (case mem_put c v m of Inl e \<Rightarrow> reported p pc h e | Inr m' \<Rightarrow> mem_ctx m' = (p, pc, h))"
  using mem_store_guard [of m p pc h c v] spread_loop_guard [of _ p pc h "[c]" v]
  by (cases "mem_store c v m") (auto simp: mem_put_def mem_spread_def split: prod.splits)

lemma guarded_put [guard_intros]:
  "at_site p pc h st \<Longrightarrow> guarded (reported p pc h) (at_site p pc h) (st_put c v st)"
  using mem_put_guard [of "ms_mem st" p pc h c v]
  by (auto simp: guarded_def st_put_def at_site_def split: sum.splits)

lemma guarded_put_run [guard_intros]:
  "at_site p pc h st \<Longrightarrow> guarded (reported p pc h) (at_site p pc h) (put_run c vs st)"
  by (induction vs arbitrary: c st) (auto intro!: guard_intros)

lemma guarded_index [guard_intros]:
  "at_site p pc h st \<Longrightarrow> guarded E (\<lambda>(st', r). at_site p pc h st') (st_log x st)"
  "at_site p pc h st \<Longrightarrow> guarded E (at_site p pc h) (st_grow n st)"
  "at_site p pc h st \<Longrightarrow> guarded E (at_site p pc h) (st_note n st)"
  "guarded E (\<lambda>x. True) (st_pow n st)"
  by (auto simp: st_log_def st_grow_def st_note_def st_pow_def at_site_def intro!: guard_intros split: prod.splits)

lemma ctx_steps [simp]:
  "mem_ctx (ms_mem (st_ensure i st)) = mem_ctx (ms_mem st)" "mem_ctx (ms_mem (fst (st_read c st))) = mem_ctx (ms_mem st)"
  "mem_ctx (ms_mem (fst (st_bump c st))) = mem_ctx (ms_mem st)" "mem_ctx (ms_mem (st_link a b st)) = mem_ctx (ms_mem st)"
  by (simp_all add: st_ensure_def st_read_def mem_read_def st_bump_def bump_access_count_def st_link_def mem_link_def
      link_side_def Let_def mem_ctx_def ensure_def)

lemma pc_steps [simp]:
  "ms_pc (st_ensure i st) = ms_pc st" "ms_pc (fst (st_read c st)) = ms_pc st" "ms_pc (fst (st_bump c st)) = ms_pc st"
  "ms_pc (st_link a b st) = ms_pc st"
  by (simp_all add: st_ensure_def st_read_def st_bump_def st_link_def case_prod_unfold Let_def)

lemma ctx_lists [simp]:
  "mem_ctx (ms_mem (fst (st_reads cs st))) = mem_ctx (ms_mem st)" "ms_pc (fst (st_reads cs st)) = ms_pc st"
  "mem_ctx (ms_mem (fst (st_bumps cs st))) = mem_ctx (ms_mem st)" "ms_pc (fst (st_bumps cs st)) = ms_pc st"
  by (induction cs arbitrary: st) (simp_all add: st_reads.simps st_bumps.simps Let_def case_prod_unfold)

lemma at_site_steps [simp]:
  "at_site p pc h (st_ensure i st) = at_site p pc h st"
  "at_site p pc h (fst (st_read c st)) = at_site p pc h st"
  "at_site p pc h (fst (st_bump c st)) = at_site p pc h st"
  "at_site p pc h (fst (st_reads cs st)) = at_site p pc h st"
  "at_site p pc h (fst (st_bumps cs st)) = at_site p pc h st"
  "at_site p pc h (st_link a b st) = at_site p pc h st"
  by (simp_all add: at_site_def)

section \<open>Hints and instructions\<close>

lemma at_site_index [simp]:
  "at_site p pc h (st\<lparr>ms_g := g\<rparr>) = at_site p pc h st"
  "at_site p pc h (st\<lparr>ms_dlog_cache := d\<rparr>) = at_site p pc h st"
  "at_site p pc h (st\<lparr>ms_next_free := b\<rparr>) = at_site p pc h st"
  by (simp_all add: at_site_def)

lemmas guard_unfold = case_prod_unfold Let_def

lemma guarded_heap_base [guard_intros]:
  "at_site p pc h st \<Longrightarrow> guarded (reported p pc h) (\<lambda>x. at_site p pc h (fst x)) (heap_base p c what st)"
  unfolding heap_base_def by (auto simp: guard_unfold intro!: guard_intros)

lemma guarded_bits_base [guard_intros]:
  "at_site p pc h st \<Longrightarrow> guarded (reported p pc h) (\<lambda>x. at_site p pc h (fst x)) (bits_base p d what st)"
  by (cases d) (auto intro!: guard_intros)

lemma guarded_alloc [guard_intros]:
  "at_site p pc h st \<Longrightarrow> guarded (reported p pc h) (at_site p pc h) (alloc_region p c n st)"
  unfolding alloc_region_def by (auto simp: guard_unfold intro!: guard_intros)

lemma guarded_sizes [guard_intros]:
  assumes "at_site p pc h st"
  shows "guarded (reported p pc h) (\<lambda>x. at_site p pc h (fst x)) (frames_size p n e i st)"
    "guarded (reported p pc h) (\<lambda>x. at_site p pc h (fst x)) (dyn_size p n st)"
  using assms unfolding frames_size_def dyn_size_def by (auto simp: guard_unfold intro!: guard_intros)

lemma guarded_hint [guard_intros]:
  assumes "at_site p pc h st"
  shows "guarded (reported p pc h) (at_site p pc h) (run_hint p hint st)"
proof (cases hint)
  case (HWitnessStack name base len)
  then show ?thesis using assms by (auto simp: h_witness_stack_def guard_unfold intro!: guard_intros)
qed (use assms in \<open>auto simp: h_alloc_frames_def h_alloc_dyn_def h_witness_heap_def h_log2_ceil_def h_bit_decompose_def
    h_bit_decompose_exp_def h_field_limbs_def h_inverse_def h_print_def guard_unfold intro!: guard_intros\<close>)

text \<open>An instruction moves the place of the run but keeps the rest of the context.\<close>

lemma at_site_ctx: "at_site p pc h st \<Longrightarrow> mem_ctx (ms_mem st) = (p, pc, h)"
  by (simp add: at_site_def)

lemma guarded_arith [guard_intros]:
  "at_site p pc h st \<Longrightarrow> guarded (reported p pc h) (\<lambda>x. mem_ctx (ms_mem x) = (p, pc, h)) (step_arith p isx a b c r st)"
  unfolding step_arith_def back_solve_def by (auto simp: guard_unfold intro!: guard_intros dest: at_site_ctx)

lemma guarded_set [guard_intros]:
  "at_site p pc h st \<Longrightarrow> guarded (reported p pc h) (\<lambda>x. mem_ctx (ms_mem x) = (p, pc, h)) (step_set c k r st)"
  unfolding step_set_def by (auto simp: guard_unfold intro!: guard_intros dest: at_site_ctx)

lemma guarded_deref_base [guard_intros]:
  "at_site p pc h st \<Longrightarrow> guarded (reported p pc h) (\<lambda>x. at_site p pc h (fst x)) (deref_base p ptr st)"
  unfolding deref_base_def by (auto simp: guard_unfold intro!: guard_intros)

lemma guarded_deref_effect [guard_intros]:
  "at_site p pc h st \<Longrightarrow> guarded (reported p pc h) (at_site p pc h) (deref_effect mode a2 a3 st)"
  by (cases mode) (auto simp: deref_effect_def intro!: guard_intros)

lemma guarded_deref [guard_intros]:
  "at_site p pc h st \<Longrightarrow> guarded (reported p pc h) (\<lambda>x. mem_ctx (ms_mem x) = (p, pc, h)) (step_deref p o1 o2 o3 mode r st)"
  unfolding step_deref_def by (auto simp: guard_unfold intro!: guard_intros dest: at_site_ctx)

lemma at_site_jump [simp]:
  "at_site p pc h (st\<lparr>ms_jump := rows\<rparr>) = at_site p pc h st"
  "at_site p pc h st \<Longrightarrow> at_site p pc h st' \<Longrightarrow> at_site p pc h (st'\<lparr>ms_pc := ms_pc st\<rparr>)"
  by (simp_all add: at_site_def)

lemma guarded_jump [guard_intros]:
  "at_site p pc h st \<Longrightarrow> guarded (reported p pc h) (\<lambda>x. mem_ctx (ms_mem x) = (p, pc, h)) (step_jump p oc od of' r st)"
  unfolding step_jump_def by (auto simp: guard_unfold intro!: guard_intros dest: at_site_ctx)

lemma find_enumerate_bounded: "find P (enumerate 0 xs) = Some (i, x) \<Longrightarrow> i < length xs \<and> P (i, x)"
  by (auto simp: find_Some_iff nth_enumerate_eq)

lemma st_reads_length: "length (snd (st_reads cs st)) = length cs"
  by (induction cs arbitrary: st) (simp_all add: st_reads.simps Let_def case_prod_unfold)

lemma guarded_blake2s [guard_intros]:
  assumes "at_site p pc h st"
  shows "guarded (reported p pc h) (\<lambda>x. mem_ctx (ms_mem x) = (p, pc, h)) (step_blake2s p i0 i1 i2 i3 cv out md r st)"
  unfolding step_blake2s_def guard_unfold
proof (rule guarded_option, goal_cases)
  case 1
  then show ?case using assms by (auto intro!: guard_intros dest: at_site_ctx)
next
  case (2 k)
  obtain i w where k: "k = (i, w)" by (rule prod.exhaust)
  from find_enumerate_bounded [OF 2 [unfolded k]] have "i < 7" "coeff2 w \<noteq> 0"
    by (simp_all add: st_reads_length)
  moreover from this(1) have "blake2s_cells ! i \<in> set blake2s_cells"
    by (intro nth_mem) (simp add: blake2s_cells_def)
  ultimately show ?case using assms unfolding k by (auto intro!: guard_intros)
qed

lemma guarded_op: "at_site p pc h st \<Longrightarrow> guarded (reported p pc h) (\<lambda>x. mem_ctx (ms_mem x) = (p, pc, h)) (step_op p i r st)"
  by (cases i) (auto intro!: guard_intros)

text \<open>A step reports its own instruction; a conflict in its hints also names the hint.\<close>

definition step_error :: "program \<Rightarrow> u32 \<Rightarrow> exec_error \<Rightarrow> bool" where
  "step_error p pc e \<longleftrightarrow> unat pc < length (p_prog p) \<and>
    (\<exists>h. reported p pc h e \<and>
      (case h of None \<Rightarrow> True | Some n \<Rightarrow> \<exists>hs. map_of (p_hints p) pc = Some hs \<and> n \<in> hint_name ` set hs))"

lemma step_errorI:
  "\<lbrakk>reported p pc (Some n) e; map_of (p_hints p) pc = Some hs; n \<in> hint_name ` set hs; unat pc < length (p_prog p)\<rbrakk>
    \<Longrightarrow> step_error p pc e"
  unfolding step_error_def by (intro conjI exI [of _ "Some n"]) auto

lemma guarded_mono: "guarded E Q r \<Longrightarrow> (\<And>e. E e \<Longrightarrow> F e) \<Longrightarrow> guarded F Q r"
  by (auto simp: guarded_def split: sum.splits stop.splits)

lemma at_site_hint: "at_site p pc h st \<Longrightarrow> at_site p pc h' (set_dbg_hint h' st)"
  by (simp add: at_site_def set_dbg_hint_def mem_ctx_def)

lemma guarded_hints:
  assumes "at_site p pc None st" "\<And>n e. n \<in> hint_name ` set hs \<Longrightarrow> reported p pc (Some n) e \<Longrightarrow> E e"
  shows "guarded E (at_site p pc None) (run_hints p hs st)"
  using assms
proof (induction hs arbitrary: st)
  case (Cons x hs)
  have "guarded (reported p pc (Some (hint_name x))) (at_site p pc (Some (hint_name x)))
      (run_hint p x (set_dbg_hint (Some (hint_name x)) st))"
    by (rule guarded_hint) (rule at_site_hint [OF Cons.prems(1)])
  then have "guarded E (at_site p pc (Some (hint_name x))) (run_hint p x (set_dbg_hint (Some (hint_name x)) st))"
    by (rule guarded_mono) (use Cons.prems(2) in auto)
  then show ?case unfolding run_hints.simps
    by (rule guarded_bind) (rule Cons.IH, use Cons.prems at_site_hint in auto)
qed (auto intro!: guard_intros)

lemma guarded_step:
  assumes "m_program (ms_mem st) = p" "m_dbg_hint (ms_mem st) = None"
  shows "guarded (step_error p (ms_pc st)) (\<lambda>x. mem_ctx (ms_mem x) = (p, ms_pc st, None)) (exec_step p st)"
proof -
  let ?pc = "ms_pc st" and ?s = "st\<lparr>ms_mem := (ms_mem st)\<lparr>m_dbg_pc := ms_pc st\<rparr>\<rparr>"
  let ?hints = "case map_of (p_hints p) ?pc of None \<Rightarrow> Inr ?s | Some hs \<Rightarrow> run_hints p hs ?s"
  show ?thesis
  proof (cases "unat ?pc < length (p_prog p)")
    case True
    have s: "at_site p ?pc None ?s" using assms by (simp add: at_site_def mem_ctx_def)
    have plain: "guarded (step_error p ?pc) Q r" if "guarded (reported p ?pc None) Q r" for Q and r :: "'x run"
      using that by (rule guarded_mono) (use True in \<open>auto simp: step_error_def\<close>)
    have "guarded (step_error p ?pc) (at_site p ?pc None) ?hints"
      using s True by (auto intro: step_errorI intro!: guarded_hints guard_intros)
    moreover have "guarded (step_error p ?pc) (\<lambda>x. mem_ctx (ms_mem x) = (p, ?pc, None))
        (res_bind (cover_step u) (\<lambda>u. let (u, r) = fetch_count u in step_op p (p_prog p ! unat (ms_pc u)) r u))"
      if "at_site p ?pc None u" for u
      using that unfolding cover_step_def fetch_count_def guard_unfold
      by (intro plain) (auto intro!: guard_intros guarded_op simp: at_site_def)
    ultimately show ?thesis unfolding exec_step_def Let_def using True
      by (auto intro: guarded_bind)
  qed (simp add: exec_step_def guarded_panic)
qed

section \<open>A whole run\<close>

text \<open>What an error of a run says, wherever it arose.\<close>

definition run_error :: "program \<Rightarrow> exec_error \<Rightarrow> bool" where
  "run_error p e \<longleftrightarrow> e_site e = site_at p (e_pc e) \<and>
    (case e_fault e of
       HaltOutsideMain fp \<Rightarrow> e_pc e = ending_pc p \<and> fp \<noteq> 0
     | StepLimit \<Rightarrow> True
     | Conflict cell had new hint \<Rightarrow> had \<noteq> new \<and>
         (case hint of None \<Rightarrow> True | Some n \<Rightarrow> \<exists>hs. map_of (p_hints p) (e_pc e) = Some hs \<and> n \<in> hint_name ` set hs)
     | NotInK what v \<Rightarrow> coeff1 v \<noteq> 0 \<or> coeff2 v \<noteq> 0
     | NotCanonical name v \<Rightarrow> name \<in> set blake2s_cells \<and> coeff2 v \<noteq> 0
     | _ \<Rightarrow> True)"

lemma step_run_error: "step_error p pc e \<Longrightarrow> run_error p e"
  by (auto simp: step_error_def reported_def run_error_def exec_error_new_def as_addr_def split: fault.splits option.splits if_splits)

lemma reported_run_error: "reported p pc None e \<Longrightarrow> run_error p e"
  by (auto simp: reported_def run_error_def exec_error_new_def as_addr_def split: fault.splits if_splits)

definition in_ctx :: "program \<Rightarrow> mach \<Rightarrow> bool" where
  "in_ctx p st \<longleftrightarrow> m_program (ms_mem st) = p \<and> m_dbg_hint (ms_mem st) = None"

lemma in_ctx_fields [simp]:
  "in_ctx p (st\<lparr>ms_cycles := cs\<rparr>) = in_ctx p st" "in_ctx p (st\<lparr>ms_base_counts := bs\<rparr>) = in_ctx p st"
  "in_ctx p (st\<lparr>ms_unconstrained_reads := rs\<rparr>) = in_ctx p st" "in_ctx p (st\<lparr>ms_mem := (ms_mem st)\<lparr>m_unwritten_reads := ur\<rparr>\<rparr>) = in_ctx p st"
  by (simp_all add: in_ctx_def)

lemma guarded_prepare:
  "\<exists>pc. mem_ctx (ms_mem st) = (p, pc, None) \<Longrightarrow> guarded (run_error p) (\<lambda>x. in_ctx p (fst x)) (prepare_cycles cs frame st)"
proof (induction cs arbitrary: frame st)
  case Nil
  then show ?case by (auto simp: in_ctx_def mem_ctx_def intro!: guard_intros)
next
  case (Cons c cs)
  obtain b size' n where c: "c = (b, size', n)" by (rule prod_cases3)
  obtain pc where pc: "mem_ctx (ms_mem st) = (p, pc, None)" using Cons.prems by blast
  have put: "guarded (run_error p) (\<lambda>x. mem_ctx (ms_mem x) = (p, pc, None)) (st_put a v u)"
    if "mem_ctx (ms_mem u) = (p, pc, None)" for a v u
    using mem_put_guard [OF that, of a v]
    by (auto simp: guarded_def st_put_def intro: reported_run_error split: sum.splits)
  have idx: "guarded (run_error p) (\<lambda>x. mem_ctx (ms_mem x) = (p, pc, None)) (st_grow k u)"
    "guarded (run_error p) (\<lambda>x. mem_ctx (ms_mem x) = (p, pc, None)) (st_note k u)"
    if "mem_ctx (ms_mem u) = (p, pc, None)" for k u
    using that by (auto simp: st_grow_def st_note_def intro!: guard_intros)
  have rest: "guarded (run_error p) (\<lambda>x. in_ctx p (fst x)) (prepare_cycles cs f u)" if "mem_ctx (ms_mem u) = (p, pc, None)" for f u
    by (rule Cons.IH) (use that in blast)
  show ?case unfolding c using pc
    by (auto simp: guard_unfold st_ensure_def intro!: put idx rest guard_intros)
qed

lemma guarded_head:
  assumes "in_ctx p st"
  shows "guarded (run_error p) (\<lambda>x. in_ctx p (fst x)) (loop_head p st)"
proof -
  have ctx: "\<exists>pc. mem_ctx (ms_mem u) = (p, pc, None)" if "in_ctx p u" for u using that by (simp add: in_ctx_def mem_ctx_def)
  let ?pre = "st\<lparr>ms_base_counts := Some (state_row_counts st), ms_unconstrained_reads := m_unwritten_reads (ms_mem st),
      ms_mem := (ms_mem st)\<lparr>m_unwritten_reads := []\<rparr>\<rparr>"
  have "in_ctx p ?pre" using assms by (simp add: in_ctx_def)
  from guarded_prepare [OF ctx [OF this]]
  have prep: "guarded (run_error p) (\<lambda>x. in_ctx p (fst x)) (prepare_cycles cs f ?pre)" for cs f .
  have halt: "guarded (run_error p) (in_ctx p) (halt_and_plan p st)" if "ms_pc st = ending_pc p"
  proof (cases "ms_fp st = 0")
    case True
    then show ?thesis unfolding halt_and_plan_def guard_unfold using \<open>in_ctx p ?pre\<close>
      by (auto intro!: guard_intros prep)
  next
    case False
    then show ?thesis using that
      by (simp add: halt_and_plan_def guarded_def fail_def run_error_def exec_error_new_def)
  qed
  have go: "guarded (run_error p) (\<lambda>x. in_ctx p (fst x)) (case next_cycle u of None \<Rightarrow> Inr (u, True) | Some v \<Rightarrow> Inr (v, False))"
    if "in_ctx p u" for u
    using that by (auto simp: next_cycle_def in_ctx_def intro!: guard_intros split: list.splits prod.splits)
  show ?thesis unfolding loop_head_def using assms
    by (auto intro!: guard_intros go halt simp: wants_switch_def)
qed

lemma guarded_loop:
  assumes "in_ctx p st"
  shows "guarded (run_error p) (\<lambda>x. True) (run_loop p steps st)"
  using assms
proof (induction p steps st rule: run_loop.induct)
  case (1 p steps st)
  note head = guarded_head [OF 1(2)]
  show ?case
  proof (cases "loop_head p st")
    case (Inl e)
    then show ?thesis using head by (simp add: run_loop.simps guarded_def)
  next
    case (Inr x)
    obtain s fin where x: "x = (s, fin)" by (rule prod.exhaust)
    have ctx: "in_ctx p (count_down s)" using head Inr x by (auto simp: guarded_def in_ctx_def count_down_def split: option.splits)
    then have step: "guarded (step_error p (ms_pc (count_down s))) (\<lambda>x. mem_ctx (ms_mem x) = (p, ms_pc (count_down s), None))
        (exec_step p (count_down s))" by (intro guarded_step) (simp_all add: in_ctx_def)
    show ?thesis
    proof (cases "fin \<or> max_steps \<le> steps")
      case True
      then show ?thesis using Inr x
        by (subst run_loop.simps) (auto simp: guarded_def fail_def run_error_def exec_error_new_def Let_def)
    next
      case False
      show ?thesis
      proof (cases "exec_step p (count_down s)")
        case (Inl e)
        then show ?thesis using Inr x False step
          by (subst run_loop.simps) (auto simp: guarded_def Let_def intro: step_run_error split: stop.splits)
      next
        case (Inr u)
        then have "in_ctx p u" using step by (auto simp: guarded_def in_ctx_def mem_ctx_def)
        then have "guarded (run_error p) (\<lambda>x. True) (run_loop p (steps + 1) u)"
          using 1(1) [OF \<open>loop_head p st = Inr x\<close> x [symmetric]] False Inr by auto
        then show ?thesis using \<open>loop_head p st = Inr x\<close> x False Inr by (subst run_loop.simps) (simp add: Let_def)
      qed
    qed
  qed
qed


definition clash :: program where
  "clash = \<lparr>p_prog = [OpSet 2 (F192 1 0 0), OpSet 2 (F192 2 0 0), OpXor 0 0 0, OpXor 0 0 0], p_bytecode_hash = [], p_hints = [],
     p_main_frame = 3, p_witness = [], p_filler = [], p_fn_ranges = [(''main'', 0, 2)], p_src_lines = [4, 7],
     p_min_log_committed = 0\<rparr>"

lemma clash_facts [simp]:
  "length (p_prog clash) = 4" "p_filler clash = []" "p_hints clash = []" "p_main_frame clash = 3"
  "p_prog clash ! 0 = OpSet 2 (F192 1 0 0)" "p_prog clash ! Suc 0 = OpSet 2 (F192 2 0 0)"
  "p_fn_ranges clash = [(''main'', 0, 2)]" "p_src_lines clash = [4, 7]"
  by (simp_all add: clash_def)


end
