(* ===== verification/Fill.thy ===== *)
theory Fill
  imports Machine "HOL-Library.Monad_Syntax"
begin

text \<open>
  The columns a table's rows become: \<^verbatim>\<open>lean_vm/src/tables.rs\<close>, the fill context, the fill of every
  table with its write mask, the batched inversion of the jump conditions, the jump identities; and the stage
  of \<^verbatim>\<open>Program::build\<close> in \<^verbatim>\<open>cpu/layout.rs\<close> that fills every window of the witness.
\<close>

section \<open>Filling the columns\<close>

text \<open>
  The inputs of a fill, and the windows it writes with the mask of those written. A panic is \<open>None\<close>: an index outside the
  memory image, the powers or the program, a window or a row count of the wrong length, a row whose instruction is not
  its table's.
\<close>

record fill_ctx =
  fx_trace :: trace
  fx_mem :: "f192 list"
  fx_gpow :: "f64 list"
  fx_prog :: "op list"
  fx_rows :: nat

record fill_out =
  fo_cols :: "f64 list list"
  fo_written :: "64 word"

definition at_index :: "'a list \<Rightarrow> u32 \<Rightarrow> 'a option" where
  "at_index xs i = (if unat i < length xs then Some (xs ! unat i) else None)"

definition g_at :: "fill_ctx \<Rightarrow> u32 \<Rightarrow> f64 option" where "g_at ctx i = at_index (fx_gpow ctx) i"

definition word_lanes :: "f192 \<Rightarrow> f64 list" where
  "word_lanes w = [F64 (coeff0 w), F64 (coeff1 w), F64 (coeff2 w)]"

definition limbs_at :: "fill_ctx \<Rightarrow> u32 \<Rightarrow> f64 list option" where
  "limbs_at ctx a = map_option word_lanes (at_index (fx_mem ctx) a)"

definition cols_at :: "fill_ctx \<Rightarrow> nat \<Rightarrow> nat \<Rightarrow> nat \<Rightarrow> (nat \<Rightarrow> f64 list option) \<Rightarrow> fill_out \<Rightarrow> fill_out option" where
  "cols_at ctx n at k f out =
    (if list_all (\<lambda>i. at + i < length (fo_cols out) \<and> length (fo_cols out ! (at + i)) = fx_rows ctx) [0..<k] \<and> n = fx_rows ctx
     then
       map_option (\<lambda>vs. \<lparr>fo_cols = fold (\<lambda>i cols. cols[at + i := map (\<lambda>v. v ! i) vs]) [0..<k] (fo_cols out),
         fo_written = fold (\<lambda>i w. w OR push_bit (at + i) 1) [0..<k] (fo_written out)\<rparr>) (traverse_opt f [0..<n])
     else None)"

definition cols_from :: "fill_ctx \<Rightarrow> 'r list \<Rightarrow> nat \<Rightarrow> nat \<Rightarrow> ('r \<Rightarrow> f64 list option) \<Rightarrow> fill_out \<Rightarrow> fill_out option" where
  "cols_from ctx rows at k f = cols_at ctx (length rows) at k (\<lambda>i. f (rows ! i))"

definition col_from :: "fill_ctx \<Rightarrow> 'r list \<Rightarrow> nat \<Rightarrow> ('r \<Rightarrow> f64 option) \<Rightarrow> fill_out \<Rightarrow> fill_out option" where
  "col_from ctx rows at f = cols_from ctx rows at 1 (\<lambda>r. map_option (\<lambda>v. [v]) (f r))"

definition each :: "'a option list \<Rightarrow> 'a list option" where "each xs = traverse_opt id xs"

text \<open>\<^verbatim>\<open>XOR\<close> and \<^verbatim>\<open>MUL\<close>.\<close>

fun ternary :: "op \<Rightarrow> (u32 \<times> u32 \<times> u32) option" where
  "ternary (OpXor a b c) = Some (a, b, c)"
| "ternary (OpMul a b c) = Some (a, b, c)"
| "ternary _ = None"

definition ternary_operands :: "fill_ctx \<Rightarrow> u32 \<Rightarrow> (u32 \<times> u32 \<times> u32) option" where
  "ternary_operands ctx pc = Option.bind (at_index (fx_prog ctx) pc) ternary"

definition arith_fill :: "bool \<Rightarrow> fill_ctx \<Rightarrow> fill_out \<Rightarrow> fill_out option" where
  "arith_fill x ctx out =
    (let rows = (if x then t_xor (fx_trace ctx) else t_mul (fx_trace ctx)) in do {
       out \<leftarrow> col_from ctx rows arith_pc (\<lambda>r. g_at ctx (x_pc r)) out;
       out \<leftarrow> col_from ctx rows arith_fp (\<lambda>r. g_at ctx (x_fp r)) out;
       out \<leftarrow> cols_from ctx rows arith_oa 9 (\<lambda>r. do {
         (a, b, c) \<leftarrow> ternary_operands ctx (x_pc r);
         va \<leftarrow> limbs_at ctx (x_fp r + a);
         vb \<leftarrow> limbs_at ctx (x_fp r + b);
         os \<leftarrow> each [g_at ctx a, g_at ctx b, g_at ctx c];
         Some (os @ va @ vb) }) out;
       out \<leftarrow> cols_from ctx rows arith_ra 3 (\<lambda>r. Some [x_ra r, x_rb r, x_rc r]) out;
       col_from ctx rows arith_rbc (\<lambda>r. Some (x_bytecode_read r)) out })"

text \<open>\<^verbatim>\<open>SET\<close>.\<close>

fun set_imm :: "op \<Rightarrow> (u32 \<times> f192) option" where
  "set_imm (OpSet d k) = Some (d, k)"
| "set_imm _ = None"

definition set_fill :: "fill_ctx \<Rightarrow> fill_out \<Rightarrow> fill_out option" where
  "set_fill ctx out =
    (let rows = t_set (fx_trace ctx); imm = (\<lambda>r. Option.bind (at_index (fx_prog ctx) (s_pc r)) set_imm) in do {
       out \<leftarrow> col_from ctx rows set_pc (\<lambda>r. g_at ctx (s_pc r)) out;
       out \<leftarrow> col_from ctx rows set_fp (\<lambda>r. g_at ctx (s_fp r)) out;
       out \<leftarrow> col_from ctx rows set_o (\<lambda>r. do { (d, k) \<leftarrow> imm r; g_at ctx d }) out;
       out \<leftarrow> cols_from ctx rows (set_k ! 0) 3 (\<lambda>r. do { (d, k) \<leftarrow> imm r; Some (word_lanes k) }) out;
       out \<leftarrow> col_from ctx rows set_r (\<lambda>r. Some (s_r r)) out;
       col_from ctx rows set_rbc (\<lambda>r. Some (s_bytecode_read r)) out })"

text \<open>\<^verbatim>\<open>DEREF\<close>.\<close>

fun deref_ins :: "op \<Rightarrow> (u32 \<times> u32 \<times> u32 \<times> deref_mode) option" where
  "deref_ins (OpDeref o1 o2 o3 mode) = Some (o1, o2, o3, mode)"
| "deref_ins _ = None"

definition deref_fill :: "fill_ctx \<Rightarrow> fill_out \<Rightarrow> fill_out option" where
  "deref_fill ctx out =
    (let rows = t_deref (fx_trace ctx); ins = (\<lambda>r. Option.bind (at_index (fx_prog ctx) (d_pc r)) deref_ins) in do {
       out \<leftarrow> col_from ctx rows deref_pc (\<lambda>r. g_at ctx (d_pc r)) out;
       out \<leftarrow> col_from ctx rows deref_fp (\<lambda>r. g_at ctx (d_fp r)) out;
       out \<leftarrow> cols_from ctx rows deref_o1 9 (\<lambda>r. do {
         (o1, o2, o3, mode) \<leftarrow> ins r;
         v3 \<leftarrow> limbs_at ctx (d_fp r + o3);
         p \<leftarrow> at_index (fx_mem ctx) (d_fp r + o1);
         os \<leftarrow> each [g_at ctx o1, g_at ctx o2, g_at ctx o3];
         Some (os @ [mode_f_pc mode, mode_f_fp mode, F64 (coeff0 p)] @ v3) }) out;
       out \<leftarrow> cols_from ctx rows deref_r1 3 (\<lambda>r. Some [d_r1 r, d_r2 r, d_r3 r]) out;
       col_from ctx rows deref_rbc (\<lambda>r. Some (d_bytecode_read r)) out })"

text \<open>\<^verbatim>\<open>JUMP\<close>: one inversion serves every row. A first pass keeps the product of the nonzero conditions before each row, a second
  one from the end peels one factor at a time off the inverse of the whole product.\<close>

fun batch_prefix :: "f192 list \<Rightarrow> f192 \<Rightarrow> f192 list \<times> f192" where
  "batch_prefix [] acc = ([], acc)"
| "batch_prefix (c # cs) acc =
    (let (ps, whole) = batch_prefix cs (if f192_is_zero c then acc else f192_mul acc c) in (acc # ps, whole))"

fun batch_back :: "(f192 \<times> f192) list \<Rightarrow> f192 \<Rightarrow> f192 list" where
  "batch_back [] iv = []"
| "batch_back ((c, p) # rest) iv =
    (if f192_is_zero c then f192_zero # batch_back rest iv else f192_mul iv p # batch_back rest (f192_mul iv c))"

definition batch_inverse :: "f192 list \<Rightarrow> f192 list" where
  "batch_inverse cs =
    (let (prefix, acc) = batch_prefix cs f192_one in rev (batch_back (rev (zip cs prefix)) (f192_inv acc)))"

fun jump_ins :: "op \<Rightarrow> (u32 \<times> u32 \<times> u32) option" where
  "jump_ins (OpJump oc od of') = Some (oc, od, of')"
| "jump_ins _ = None"

definition jump_fill :: "fill_ctx \<Rightarrow> fill_out \<Rightarrow> fill_out option" where
  "jump_fill ctx out =
    (let rows = t_jump (fx_trace ctx);
         ins = (\<lambda>r. Option.bind (at_index (fx_prog ctx) (j_pc r)) jump_ins);
         cell = (\<lambda>r o'. at_index (fx_mem ctx) (j_fp r + o')) in do {
       out \<leftarrow> col_from ctx rows jump_pc (\<lambda>r. g_at ctx (j_pc r)) out;
       out \<leftarrow> col_from ctx rows jump_fp (\<lambda>r. g_at ctx (j_fp r)) out;
       out \<leftarrow> cols_from ctx rows jump_oc 6 (\<lambda>r. do {
         (oc, od, of') \<leftarrow> ins r;
         os \<leftarrow> each [g_at ctx oc, g_at ctx od, g_at ctx of'];
         vs \<leftarrow> each [cell r oc, cell r od, cell r of'];
         Some (os @ map (\<lambda>v. F64 (coeff0 v)) vs) }) out;
       conds \<leftarrow> traverse_opt (\<lambda>r. do { (oc, od, of') \<leftarrow> ins r; cell r oc }) rows;
       out \<leftarrow> (let w = batch_inverse conds; b = map (\<lambda>c. if f192_is_zero c then F64 0 else F64 1) conds
         in cols_at ctx (length rows) jump_w 2 (\<lambda>i. Some [F64 (coeff0 (w ! i)), b ! i]) out);
       out \<leftarrow> cols_from ctx rows jump_rc 3 (\<lambda>r. Some [j_rc r, j_rd r, j_rf r]) out;
       col_from ctx rows jump_rbc (\<lambda>r. Some (j_bytecode_read r)) out })"

text \<open>\<^verbatim>\<open>BLAKE2s\<close>.\<close>

fun blake2s_bases :: "u32 \<Rightarrow> op \<Rightarrow> u32 list option" where
  "blake2s_bases fp (OpBlake2s i0 i1 i2 i3 cv out md) =
    Some [fp + i0, fp + i1, fp + i2, fp + i3, fp + cv, fp + out, fp + md]"
| "blake2s_bases fp _ = None"

definition blake2s_addresses :: "op list \<Rightarrow> brow \<Rightarrow> u32 list option" where
  "blake2s_addresses prog r = Option.bind (at_index prog (b_pc r)) (blake2s_bases (b_fp r))"

definition word_pair :: "fill_ctx \<Rightarrow> u32 \<Rightarrow> u32 \<Rightarrow> f64 list option" where
  "word_pair ctx c0 c1 = do { w0 \<leftarrow> at_index (fx_mem ctx) c0; w1 \<leftarrow> at_index (fx_mem ctx) c1; Some (lane_pair w0 @ lane_pair w1) }"

definition blake2s_fill :: "fill_ctx \<Rightarrow> fill_out \<Rightarrow> fill_out option" where
  "blake2s_fill ctx out =
    (let rows = t_blake2s (fx_trace ctx); ad = blake2s_addresses (fx_prog ctx) in do {
       out \<leftarrow> col_from ctx rows bl_pc (\<lambda>r. g_at ctx (b_pc r)) out;
       out \<leftarrow> col_from ctx rows bl_fp (\<lambda>r. g_at ctx (b_fp r)) out;
       out \<leftarrow> cols_from ctx rows bl_o_m0 7 (\<lambda>r. do { a \<leftarrow> ad r; each (map (\<lambda>x. g_at ctx (x - b_fp r)) a) }) out;
       out \<leftarrow> cols_from ctx rows bl_v_m0 4 (\<lambda>r. do { a \<leftarrow> ad r; word_pair ctx (a ! 0) (a ! 1) }) out;
       out \<leftarrow> cols_from ctx rows bl_v_m2 4 (\<lambda>r. do { a \<leftarrow> ad r; word_pair ctx (a ! 2) (a ! 3) }) out;
       out \<leftarrow> cols_from ctx rows bl_v_out0 4 (\<lambda>r. do { a \<leftarrow> ad r; word_pair ctx (a ! 5) (a ! 5 + 1) }) out;
       out \<leftarrow> cols_from ctx rows bl_v_cv0 4 (\<lambda>r. do { a \<leftarrow> ad r; word_pair ctx (a ! 4) (a ! 4 + 1) }) out;
       out \<leftarrow> cols_from ctx rows bl_md0 2 (\<lambda>r. do { a \<leftarrow> ad r; md \<leftarrow> at_index (fx_mem ctx) (a ! 6); Some (lane_pair md) }) out;
       out \<leftarrow> cols_from ctx rows bl_r_m0 9 (\<lambda>r. Some [b_ra r ! 0, b_ra r ! 1, b_rb r ! 0, b_rb r ! 1, b_rcv r ! 0, b_rcv r ! 1,
         b_rc r ! 0, b_rc r ! 1, b_rmd r]) out;
       col_from ctx rows bl_rbc (\<lambda>r. Some (b_bytecode_read r)) out })"

text \<open>The dispatch, and the check that every window was written.\<close>

primrec table_fill :: "table \<Rightarrow> fill_ctx \<Rightarrow> fill_out \<Rightarrow> fill_out option" where
  "table_fill (Arith x) = arith_fill x"
| "table_fill SetTable = set_fill"
| "table_fill DerefTable = deref_fill"
| "table_fill JumpTable = jump_fill"
| "table_fill Blake2sTable = blake2s_fill"

definition fill_table :: "table \<Rightarrow> fill_ctx \<Rightarrow> f64 list list \<Rightarrow> f64 list list option" where
  "fill_table t ctx windows = do {
     out \<leftarrow> table_fill t ctx \<lparr>fo_cols = windows, fo_written = 0\<rparr>;
     (let n = n_committed_columns t; full = (if n = 64 then - 1 else push_bit n 1 - 1)
      in if n \<le> 64 \<and> fo_written out = full then Some (fo_cols out) else None) }"

text \<open>The fill of every table's windows and of the shared columns, in the order of the stage.\<close>

fun fill_tables :: "program \<Rightarrow> execution \<Rightarrow> f64 list \<Rightarrow> nat list \<Rightarrow> (nat \<times> table) list \<Rightarrow> f64 list list \<Rightarrow> f64 list list option" where
  "fill_tables p ex gpow taus [] windows = Some windows"
| "fill_tables p ex gpow taus ((t, table) # ts) windows =
    (let base = sch_base the_schema ! t; n = n_committed_columns table;
         ctx = \<lparr>fx_trace = ex_trace ex, fx_mem = ex_mem ex, fx_gpow = gpow, fx_prog = p_prog p, fx_rows = 2 ^ (taus ! t)\<rparr>
     in Option.bind (fill_table table ctx (take n (drop base windows)))
          (\<lambda>cols. fill_tables p ex gpow taus ts (take base windows @ cols @ drop (base + n) windows)))"

definition fill_shared :: "nat \<Rightarrow> f64 list \<Rightarrow> f64 list list \<Rightarrow> f64 list list option" where
  "fill_shared c vals windows =
    (let n = length (windows ! c) in if n \<le> length vals then Some (windows[c := take n vals]) else None)"

definition fill_columns :: "program \<Rightarrow> execution \<Rightarrow> nat list \<Rightarrow> f64 list list \<Rightarrow> f64 list list option" where
  "fill_columns p ex taus windows =
    (let span = max (length (ex_mem ex)) (length (p_prog p)); gpow = g_powers span
     in do {
       ws \<leftarrow> fill_tables p ex gpow taus (enumerate 0 tables) windows;
       ws \<leftarrow> fill_shared col_mem_lo (map (\<lambda>w. F64 (coeff0 w)) (ex_mem ex)) ws;
       ws \<leftarrow> fill_shared col_mem_hi (map (\<lambda>w. F64 (coeff1 w)) (ex_mem ex)) ws;
       ws \<leftarrow> fill_shared col_mem_top (map (\<lambda>w. F64 (coeff2 w)) (ex_mem ex)) ws;
       ws \<leftarrow> fill_shared col_mfcnt (t_mem_count (ex_trace ex)) ws;
       fill_shared col_bfcnt (t_bytecode_count (ex_trace ex)) ws })"

section \<open>The identities of \<^verbatim>\<open>JUMP\<close>\<close>

primrec n_constraints :: "table \<Rightarrow> nat" where
  "n_constraints (Arith x) = 0"
| "n_constraints SetTable = 0"
| "n_constraints DerefTable = 0"
| "n_constraints JumpTable = 2"
| "n_constraints Blake2sTable = 0"

text \<open>The two identities over base-field columns, weighted by the powers; with \<open>quadratic\<close> only the terms of degree two.\<close>

definition jump_identity :: "f192 list \<Rightarrow> f64 list \<Rightarrow> bool \<Rightarrow> f192" where
  "jump_identity pows cols quadratic =
    (let (b, b1) = (if quadratic then (F64 0, cols ! jump_b) else (cols ! jump_b, f64_add (cols ! jump_b) (F64 1)));
         vals = [f64_add b (f64_mul (cols ! jump_v_cond) (cols ! jump_w)), f64_mul (cols ! jump_v_cond) b1]
     in f192u_reduce (fold (\<lambda>(w, v) acc. f192u_bitxor acc (mul_base_unreduced w v)) (zip pows vals) f192u_zero))"

section \<open>One inversion for all rows\<close>

lemma f192_is_zero_iff: "f192_is_zero c \<longleftrightarrow> c = 0"
  by (cases c) (simp add: f192_is_zero_def zero_f192_def f192_zero_def)

lemma f64_is_zero_iff: "f64_is_zero c \<longleftrightarrow> c = 0"
  by (cases c) (simp add: f64_is_zero_def zero_f64_def)

lemma batch_prefix_length: "length (fst (batch_prefix cs acc)) = length cs"
  by (induction cs arbitrary: acc) (simp_all add: case_prod_unfold Let_def)

lemma batch_back_inverse:
  assumes "batch_prefix cs acc = (ps, whole)" "acc \<noteq> 0"
  shows "whole \<noteq> 0 \<and> batch_back (rev (zip cs ps) @ rest) (inverse whole) = map inverse (rev cs) @ batch_back rest (inverse acc)"
  using assms
proof (induction cs acc arbitrary: ps rest rule: batch_prefix.induct)
  case (2 c cs acc)
  let ?acc = "if f192_is_zero c then acc else f192_mul acc c"
  obtain ps' where ps': "batch_prefix cs ?acc = (ps', whole)" "ps = acc # ps'"
    using 2(2) by (auto split: prod.splits)
  have nz: "?acc \<noteq> 0" using 2(3) by (simp add: f192_is_zero_iff f192_mul_times)
  from 2(1) [OF ps'(1) nz, of "(c, acc) # rest"] show ?case
    using 2(3) by (auto simp: ps'(2) f192_is_zero_iff f192_mul_times zero_f192_def [symmetric] field_simps)
qed auto

lemma batch_inverse_map: "batch_inverse cs = map inverse cs"
proof -
  obtain ps whole where b: "batch_prefix cs f192_one = (ps, whole)" by (rule prod.exhaust)
  have "f192_one \<noteq> 0" by (simp flip: one_f192_def)
  from batch_back_inverse [OF b this, of "[]"] show ?thesis
    by (simp add: batch_inverse_def b inverse_f192_def rev_map)
qed

text \<open>C27: the inverse witnesses of the \<^verbatim>\<open>JUMP\<close> table, computed with a single inversion for the whole column, are exactly
  the inverse of each condition taken alone, zero for zero.\<close>
theorem batch_inversion_is_pointwise:
  "batch_inverse cs = map (\<lambda>c. if f192_is_zero c then f192_zero else f192_inv c) cs"
  by (simp add: batch_inverse_map f192_is_zero_iff inverse_f192_def f192_inv_zero flip: zero_f192_def)

section \<open>The indicator of a taken jump\<close>

lemma jump_identity_form:
  "jump_identity [p, q] cols False =
    p * f192_from (cols ! jump_b + cols ! jump_v_cond * cols ! jump_w) + q * f192_from (cols ! jump_v_cond * (cols ! jump_b + 1))"
  by (simp add: jump_identity_def form_fold f192u_reduce_zero f64_mul_times one_f64_def flip: plus_f64_def)

lemma f192_from_zero_iff: "f192_from a = 0 \<longleftrightarrow> a = 0"
  by (cases a) (simp add: f192_from_def zero_f192_def f192_zero_def zero_f64_def)

text \<open>C28: the two \<^verbatim>\<open>JUMP\<close> identities vanish for every pair of weights exactly when the indicator column says whether the
  condition is nonzero and, if it is, the witness is its inverse.\<close>
theorem jump_identities_bind_indicator:
  "(\<forall>p q. jump_identity [p, q] cols False = f192_zero) \<longleftrightarrow>
    (if f64_is_zero (cols ! jump_v_cond) then cols ! jump_b = F64 0
     else cols ! jump_b = F64 1 \<and> cols ! jump_w = f64_inv (cols ! jump_v_cond))"
  (is "?vanish \<longleftrightarrow> ?bound")
proof -
  let ?b = "cols ! jump_b" and ?c = "cols ! jump_v_cond" and ?w = "cols ! jump_w"
  have "?vanish \<longleftrightarrow> ?b + ?c * ?w = 0 \<and> ?c * (?b + 1) = 0"
  proof
    assume v: ?vanish
    have "jump_identity [1, 0] cols False = 0" "jump_identity [0, 1] cols False = 0"
      using v by (simp_all add: zero_f192_def)
    then show "?b + ?c * ?w = 0 \<and> ?c * (?b + 1) = 0" unfolding jump_identity_form by (simp add: f192_from_zero_iff)
  next
    assume "?b + ?c * ?w = 0 \<and> ?c * (?b + 1) = 0"
    then show ?vanish
      unfolding jump_identity_form zero_f192_def [symmetric] by (simp only: f192_from_hom(4) mult_zero_right add_0_left simp_thms)
  qed
  also have "\<dots> \<longleftrightarrow> ?b = (if ?c = 0 then 0 else 1) \<and> (?c \<noteq> 0 \<longrightarrow> ?w = inverse ?c)"
  proof (cases "?c = 0")
    case False
    have "?b + 1 = 0 \<longleftrightarrow> ?b = 1" by (metis f64_char2 add_cancel_right_left f64_add_cancel_left)
    moreover have "1 + ?c * ?w = 0 \<longleftrightarrow> ?w = inverse ?c"
      using False by (metis f64_char2 f64_add_cancel_left add_0_right mult.commute inverse_unique right_inverse)
    ultimately show ?thesis using False by auto
  qed simp
  also have "\<dots> \<longleftrightarrow> ?bound" by (simp add: f64_is_zero_iff inverse_f64_def zero_f64_def one_f64_def)
  finally show ?thesis .
qed

end
