(* ===== verification/FillColumns.thy ===== *)
theory FillColumns
  imports Fill FillProps
begin

text \<open>
  What the column stage writes: every window of a table holds, row by row, what the executed instruction
  determines, and the shared windows hold the memory image and the final counts.
\<close>

section \<open>What a fill writes\<close>

text \<open>A computation of the fill that succeeds with a result of a given kind.\<close>

definition yields :: "('a \<Rightarrow> bool) \<Rightarrow> 'a option \<Rightarrow> bool" where
  "yields Q r \<longleftrightarrow> (\<exists>x. r = Some x \<and> Q x)"

lemma yields_bind: "yields Q r \<Longrightarrow> (\<And>x. Q x \<Longrightarrow> yields R (f x)) \<Longrightarrow> yields R (Option.bind r f)"
  by (auto simp: yields_def)

lemma yields_Some: "Q x \<Longrightarrow> yields Q (Some x)"
  by (simp add: yields_def)

text \<open>The windows hold the wanted columns on a set of indices, which is the set the mask records.\<close>

definition wrote :: "fill_ctx \<Rightarrow> (nat \<Rightarrow> f64 list) \<Rightarrow> nat \<Rightarrow> nat set \<Rightarrow> fill_out \<Rightarrow> bool" where
  "wrote ctx V n S out \<longleftrightarrow> S \<subseteq> {..<n} \<and> length (fo_cols out) = n \<and> (\<forall>c<n. length (fo_cols out ! c) = fx_rows ctx) \<and>
    (\<forall>c\<in>S. fo_cols out ! c = V c) \<and> (\<forall>i<64. bit (fo_written out) i \<longleftrightarrow> i \<in> S)"

lemma fold_columns:
  "length (fold (\<lambda>i cols. cols[at + i := W i]) [0..<k] cols) = length cols"
  "at + k \<le> length cols \<Longrightarrow> c < length cols \<Longrightarrow> fold (\<lambda>i cols. cols[at + i := W i]) [0..<k] cols ! c =
    (if at \<le> c \<and> c < at + k then W (c - at) else cols ! c)"
proof -
  show len: "length (fold (\<lambda>i cols. cols[at + i := W i]) [0..<k] cols) = length cols" for k by (induction k) simp_all
  show "at + k \<le> length cols \<Longrightarrow> c < length cols \<Longrightarrow> fold (\<lambda>i cols. cols[at + i := W i]) [0..<k] cols ! c =
      (if at \<le> c \<and> c < at + k then W (c - at) else cols ! c)"
    by (induction k) (auto simp: nth_list_update len less_Suc_eq)
qed

lemma fold_mask:
  "i < 64 \<Longrightarrow> bit (fold (\<lambda>i w. w OR push_bit (at + i) (1 :: 64 word)) [0..<k] w) i \<longleftrightarrow> bit w i \<or> (at \<le> i \<and> i < at + k)"
  by (induction k) (auto simp: bit_simps bit_1_iff)

lemma yields_cols_at:
  assumes "wrote ctx V n S out" "rows = fx_rows ctx" "at + k \<le> n" "\<And>c. c < n \<Longrightarrow> length (V c) = fx_rows ctx"
    and "\<And>i. i < fx_rows ctx \<Longrightarrow> f i = Some (map (\<lambda>j. V (at + j) ! i) [0..<k])"
  shows "yields (wrote ctx V n (S \<union> {at..<at + k})) (cols_at ctx rows at k f out)"
proof -
  let ?vs = "map (\<lambda>i. map (\<lambda>j. V (at + j) ! i) [0..<k]) [0..<fx_rows ctx]"
  have t: "traverse_opt f [0..<rows] = Some ?vs" using assms(2,5) by (simp add: traverse_opt_Some)
  have w: "length (fo_cols out) = n" "\<forall>c<n. length (fo_cols out ! c) = fx_rows ctx" "\<forall>c\<in>S. fo_cols out ! c = V c"
    "\<forall>i<64. bit (fo_written out) i \<longleftrightarrow> i \<in> S" using assms(1) by (simp_all add: wrote_def)
  let ?cols = "fold (\<lambda>i cols. cols[at + i := map (\<lambda>v. v ! i) ?vs]) [0..<k] (fo_cols out)"
  have col: "map (\<lambda>v. v ! j) ?vs = V (at + j)" if "j < k" for j
    using that assms(3) assms(4) [of "at + j"] by (intro nth_equalityI) simp_all
  have at: "?cols ! c = (if at \<le> c \<and> c < at + k then V c else fo_cols out ! c)" if "c < n" for c
    using fold_columns(2) [of at k "fo_cols out" c "\<lambda>i. map (\<lambda>v. v ! i) ?vs"] assms(3) that w(1) col [of "c - at"] by auto
  have ok: "list_all (\<lambda>i. at + i < length (fo_cols out) \<and> length (fo_cols out ! (at + i)) = fx_rows ctx) [0..<k]"
    using w(1,2) assms(3) by (simp add: list_all_iff)
  have S: "S \<subseteq> {..<n}" using assms(1) by (simp add: wrote_def)
  have "wrote ctx V n (S \<union> {at..<at + k}) \<lparr>fo_cols = ?cols,
      fo_written = fold (\<lambda>i w. w OR push_bit (at + i) 1) [0..<k] (fo_written out)\<rparr>"
    unfolding wrote_def fill_out.simps
  proof (intro conjI allI impI ballI)
    show "length ?cols = n" using w(1) by (simp add: fold_columns(1))
    show "length (?cols ! c) = fx_rows ctx" if "c < n" for c using at [OF that] that w(2) assms(4) by simp
    show "S \<union> {at..<at + k} \<subseteq> {..<n}" using S assms(3) by auto
    show "?cols ! c = V c" if c: "c \<in> S \<union> {at..<at + k}" for c
    proof -
      have "c < n" using c S assms(3) by auto
      then show ?thesis using at c w(3) by auto
    qed
    show "bit (fold (\<lambda>i w. w OR push_bit (at + i) 1) [0..<k] (fo_written out)) i \<longleftrightarrow> i \<in> S \<union> {at..<at + k}" if "i < 64" for i
      using fold_mask [OF that, of at k] w(4) that by auto
  qed
  then show ?thesis unfolding yields_def cols_at_def using ok assms(2) t by simp
qed

section \<open>The row of an instruction\<close>

text \<open>The columns of a row, from the instruction it executed, the final memory and the counts it recorded.\<close>

definition ind :: "bool \<Rightarrow> f64" where "ind b = (if b then 1 else 0)"

fun op_row :: "op \<Rightarrow> (u32 \<Rightarrow> f192) \<Rightarrow> u32 \<Rightarrow> u32 \<Rightarrow> f64 list \<Rightarrow> f64 \<Rightarrow> f64 list" where
  "op_row (OpXor a b c) M pc fp r n = [f64_g ^ unat pc, f64_g ^ unat fp, f64_g ^ unat a, f64_g ^ unat b, f64_g ^ unat c] @
     word_lanes (M (fp + a)) @ word_lanes (M (fp + b)) @ [r ! 0, r ! 1, r ! 2, n]"
| "op_row (OpMul a b c) M pc fp r n = [f64_g ^ unat pc, f64_g ^ unat fp, f64_g ^ unat a, f64_g ^ unat b, f64_g ^ unat c] @
     word_lanes (M (fp + a)) @ word_lanes (M (fp + b)) @ [r ! 0, r ! 1, r ! 2, n]"
| "op_row (OpSet d k) M pc fp r n = [f64_g ^ unat pc, f64_g ^ unat fp, f64_g ^ unat d] @ word_lanes k @ [r ! 0, n]"
| "op_row (OpDeref o1 o2 o3 mode) M pc fp r n =
     [f64_g ^ unat pc, f64_g ^ unat fp, f64_g ^ unat o1, f64_g ^ unat o2, f64_g ^ unat o3, mode_f_pc mode, mode_f_fp mode,
      F64 (coeff0 (M (fp + o1)))] @ word_lanes (M (fp + o3)) @ [r ! 0, r ! 1, r ! 2, n]"
| "op_row (OpJump oc od of') M pc fp r n =
     [f64_g ^ unat pc, f64_g ^ unat fp, f64_g ^ unat oc, f64_g ^ unat od, f64_g ^ unat of', F64 (coeff0 (M (fp + oc))),
      F64 (coeff0 (M (fp + od))), F64 (coeff0 (M (fp + of'))), r ! 0, r ! 1, r ! 2, n,
      F64 (coeff0 (inverse (M (fp + oc)))), ind (M (fp + oc) \<noteq> 0)]"
| "op_row (OpBlake2s i0 i1 i2 i3 cv out md) M pc fp r n =
     [f64_g ^ unat pc, f64_g ^ unat fp, f64_g ^ unat i0, f64_g ^ unat i1, f64_g ^ unat i2, f64_g ^ unat i3, f64_g ^ unat cv,
      f64_g ^ unat out, f64_g ^ unat md] @ lane_pair (M (fp + i0)) @ lane_pair (M (fp + i1)) @ lane_pair (M (fp + i2)) @
     lane_pair (M (fp + i3)) @ lane_pair (M (fp + out)) @ lane_pair (M (fp + out + 1)) @ lane_pair (M (fp + cv)) @
     lane_pair (M (fp + cv + 1)) @ lane_pair (M (fp + md)) @
     [r ! 0, r ! 1, r ! 2, r ! 3, r ! 4, r ! 5, r ! 6, r ! 7, r ! 8, n]"

definition event_row :: "op list \<Rightarrow> (u32 \<Rightarrow> f192) \<Rightarrow> event \<Rightarrow> f64 list" where
  "event_row prog M e = op_row (prog ! unat (ev_pc e)) M (ev_pc e) (ev_fp e) (ev_counts e) (ev_bread e)"

lemma op_row_length:
  "instr prog M t pc fp cells npc nfp \<Longrightarrow> length (op_row (prog ! unat pc) M pc fp r n) = n_committed_columns t"
  by (cases rule: instr.cases)
    (auto simp: word_lanes_def lane_pair_def arith_n_def set_n_def deref_n_def jump_n_def bl_n_def)

fun op_offsets :: "op \<Rightarrow> u32 list" where
  "op_offsets (OpXor a b c) = [a, b, c]"
| "op_offsets (OpMul a b c) = [a, b, c]"
| "op_offsets (OpSet d k) = [d]"
| "op_offsets (OpDeref o1 o2 o3 mode) = [o1, o2, o3]"
| "op_offsets (OpJump oc od of') = [oc, od, of']"
| "op_offsets (OpBlake2s i0 i1 i2 i3 cv out md) = [i0, i1, i2, i3, cv, out, md]"

text \<open>The fill of a trace: the windows' heights, the powers and the memory image the rows index into.\<close>

definition fill_ready :: "table \<Rightarrow> fill_ctx \<Rightarrow> (u32 \<Rightarrow> f192) \<Rightarrow> event list \<Rightarrow> bool" where
  "fill_ready t ctx M evs \<longleftrightarrow>
    trace_of (fx_trace ctx) = rows_of evs \<and> M = image_of (fx_mem ctx) \<and> fx_gpow ctx = map ((^) f64_g) [0..<length (fx_gpow ctx)] \<and>
    fx_rows ctx = length (in_table t evs) \<and>
    (\<forall>e\<in>set (in_table t evs). is_instr (fx_prog ctx) M e \<and> unat (ev_pc e) < length (fx_gpow ctx) \<and>
       unat (ev_fp e) < length (fx_gpow ctx) \<and> (\<forall>d\<in>set (op_offsets (fx_prog ctx ! unat (ev_pc e))). unat d < length (fx_gpow ctx)) \<and>
       (\<forall>c\<in>set (ev_cells e). unat c < length (fx_mem ctx)))"

definition column_of :: "op list \<Rightarrow> (u32 \<Rightarrow> f192) \<Rightarrow> event list \<Rightarrow> nat \<Rightarrow> f64 list" where
  "column_of prog M es c = map (\<lambda>e. event_row prog M e ! c) es"

lemma g_at_power: "fx_gpow ctx = map ((^) f64_g) [0..<length (fx_gpow ctx)] \<Longrightarrow> unat i < length (fx_gpow ctx) \<Longrightarrow>
    g_at ctx i = Some (f64_g ^ unat i)"
  by (simp add: g_at_def at_index_def) (metis add_0 nth_map_upt diff_zero length_upt)

lemma at_image: "unat a < length (fx_mem ctx) \<Longrightarrow> at_index (fx_mem ctx) a = Some (image_of (fx_mem ctx) a)"
  by (simp add: at_index_def image_of_def)

lemma limbs_image: "unat a < length (fx_mem ctx) \<Longrightarrow> limbs_at ctx a = Some (word_lanes (image_of (fx_mem ctx) a))"
  by (simp add: limbs_at_def at_image)

lemma each_simps [simp]: "each [] = Some []" "each (Some x # xs) = map_option ((#) x) (each xs)"
  by (simp_all add: each_def)

lemma yields_cols:
  assumes "wrote ctx (column_of prog M es) n S out" "length rs = length es" "fx_rows ctx = length es" "at + k \<le> n"
    and "\<And>i. i < length es \<Longrightarrow> f (rs ! i) = Some (map (\<lambda>j. event_row prog M (es ! i) ! (at + j)) [0..<k])"
  shows "yields (wrote ctx (column_of prog M es) n (S \<union> {at..<at + k})) (cols_from ctx rs at k f out)"
  unfolding cols_from_def
  by (rule yields_cols_at [OF assms(1) _ assms(4)]) (use assms(2,3,5) in \<open>simp_all add: column_of_def\<close>)

lemma yields_col:
  assumes "wrote ctx (column_of prog M es) n S out" "length rs = length es" "fx_rows ctx = length es" "at + 1 \<le> n"
    and "\<And>i. i < length es \<Longrightarrow> f (rs ! i) = Some (event_row prog M (es ! i) ! at)"
  shows "yields (wrote ctx (column_of prog M es) n (S \<union> {at..<at + 1})) (col_from ctx rs at f out)"
  unfolding col_from_def by (rule yields_cols [OF assms(1-4)]) (simp add: assms(5))

lemma yields_weaken: "yields P r \<Longrightarrow> (\<And>x. P x \<Longrightarrow> Q x) \<Longrightarrow> yields Q r"
  by (auto simp: yields_def)

text \<open>One column group after another.\<close>

lemma yields_then:
  assumes "wrote ctx (column_of prog M es) n S out" "length rs = length es" "fx_rows ctx = length es"
  shows "at + 1 \<le> n \<Longrightarrow> (\<And>i. i < length es \<Longrightarrow> h (rs ! i) = Some (event_row prog M (es ! i) ! at)) \<Longrightarrow>
      (\<And>out. wrote ctx (column_of prog M es) n (S \<union> {at..<at + 1}) out \<Longrightarrow> yields Q (g out)) \<Longrightarrow>
      yields Q (Option.bind (col_from ctx rs at h out) g)"
    and "at + k \<le> n \<Longrightarrow> (\<And>i. i < length es \<Longrightarrow> f (rs ! i) = Some (map (\<lambda>j. event_row prog M (es ! i) ! (at + j)) [0..<k])) \<Longrightarrow>
      (\<And>out. wrote ctx (column_of prog M es) n (S \<union> {at..<at + k}) out \<Longrightarrow> yields Q (g out)) \<Longrightarrow>
      yields Q (Option.bind (cols_from ctx rs at k f out) g)"
    and "at + 1 \<le> n \<Longrightarrow> (\<And>i. i < length es \<Longrightarrow> h (rs ! i) = Some (event_row prog M (es ! i) ! at)) \<Longrightarrow>
      S \<union> {at..<at + 1} = {..<n} \<Longrightarrow> yields (wrote ctx (column_of prog M es) n {..<n}) (col_from ctx rs at h out)"
    and "length rs = R \<Longrightarrow> at + k \<le> n \<Longrightarrow> (\<And>i. i < length es \<Longrightarrow> F i = Some (map (\<lambda>j. event_row prog M (es ! i) ! (at + j)) [0..<k])) \<Longrightarrow>
      (\<And>out. wrote ctx (column_of prog M es) n (S \<union> {at..<at + k}) out \<Longrightarrow> yields Q (g out)) \<Longrightarrow>
      yields Q (Option.bind (cols_at ctx R at k F out) g)"
proof -
  show "yields Q (Option.bind (cols_at ctx R at k F out) g)"
    if "length rs = R" "at + k \<le> n" "\<And>i. i < length es \<Longrightarrow> F i = Some (map (\<lambda>j. event_row prog M (es ! i) ! (at + j)) [0..<k])"
      "\<And>out. wrote ctx (column_of prog M es) n (S \<union> {at..<at + k}) out \<Longrightarrow> yields Q (g out)"
    by (rule yields_bind [OF yields_cols_at [OF assms(1)]]) (use that assms(2,3) in \<open>simp_all add: column_of_def\<close>)
qed (use yields_col [OF assms, of at h] yields_cols [OF assms, of at k f] in \<open>auto intro: yields_bind\<close>)

lemmas upt_small = upt_rec [of _ "numeral _"] upt_rec [of _ "Suc _"]

text \<open>What a row may index.\<close>

lemma fill_readyD:
  assumes "fill_ready t ctx M evs"
  shows "trace_of (fx_trace ctx) = rows_of evs" "fx_rows ctx = length (in_table t evs)" "M = image_of (fx_mem ctx)"
  using assms by (simp_all add: fill_ready_def)

lemma fill_event:
  assumes r: "fill_ready t ctx M evs" and i: "i < length (in_table t evs)"
  defines "e \<equiv> in_table t evs ! i"
  shows "instr (fx_prog ctx) M t (ev_pc e) (ev_fp e) (ev_cells e) (ev_npc e) (ev_nfp e)"
    "at_index (fx_prog ctx) (ev_pc e) = Some (fx_prog ctx ! unat (ev_pc e))"
    "g_at ctx (ev_pc e) = Some (f64_g ^ unat (ev_pc e))" "g_at ctx (ev_fp e) = Some (f64_g ^ unat (ev_fp e))"
    "\<forall>d\<in>set (op_offsets (fx_prog ctx ! unat (ev_pc e))). g_at ctx d = Some (f64_g ^ unat d)"
    "\<forall>c\<in>set (ev_cells e). at_index (fx_mem ctx) c = Some (M c) \<and> limbs_at ctx c = Some (word_lanes (M c))"
proof -
  have gp: "fx_gpow ctx = map ((^) f64_g) [0..<length (fx_gpow ctx)]" and M: "M = image_of (fx_mem ctx)"
    using r by (simp_all add: fill_ready_def)
  have e: "e \<in> set (in_table t evs)" using i by (simp add: e_def)
  then have "ev_table e = t" by (simp add: in_table_def)
  then show inst: "instr (fx_prog ctx) M t (ev_pc e) (ev_fp e) (ev_cells e) (ev_npc e) (ev_nfp e)"
    using r e by (auto simp: fill_ready_def is_instr_def)
  then have "unat (ev_pc e) < length (fx_prog ctx)" by (cases rule: instr.cases) simp_all
  then show "at_index (fx_prog ctx) (ev_pc e) = Some (fx_prog ctx ! unat (ev_pc e))" by (simp add: at_index_def)
  have fit: "unat (ev_pc e) < length (fx_gpow ctx)" "unat (ev_fp e) < length (fx_gpow ctx)"
    "\<forall>d\<in>set (op_offsets (fx_prog ctx ! unat (ev_pc e))). unat d < length (fx_gpow ctx)"
    "\<forall>c\<in>set (ev_cells e). unat c < length (fx_mem ctx)" using r e by (simp_all add: fill_ready_def)
  then show "g_at ctx (ev_pc e) = Some (f64_g ^ unat (ev_pc e))" "g_at ctx (ev_fp e) = Some (f64_g ^ unat (ev_fp e))"
    "\<forall>d\<in>set (op_offsets (fx_prog ctx ! unat (ev_pc e))). g_at ctx d = Some (f64_g ^ unat d)"
    "\<forall>c\<in>set (ev_cells e). at_index (fx_mem ctx) c = Some (M c) \<and> limbs_at ctx c = Some (word_lanes (M c))"
    using g_at_power [OF gp] at_image [of _ ctx] limbs_image [of _ ctx] by (simp_all add: M)
qed

lemma trace_rows:
  assumes "trace_of t = rows_of evs"
  shows "t_xor t = map xrow_of (in_table (Arith True) evs)" "t_mul t = map xrow_of (in_table (Arith False) evs)"
    "t_set t = map srow_of (in_table SetTable evs)" "t_deref t = map drow_of (in_table DerefTable evs)"
    "t_jump t = map jrow_of (in_table JumpTable evs)" "t_blake2s t = map brow_of (in_table Blake2sTable evs)"
  using assms by (simp_all add: trace_of_def rows_of_def)

lemma arith_fill_yields:
  assumes r: "fill_ready (Arith x) ctx M evs" and w: "wrote ctx (column_of (fx_prog ctx) M (in_table (Arith x) evs)) arith_n {} out"
  shows "yields (wrote ctx (column_of (fx_prog ctx) M (in_table (Arith x) evs)) arith_n {..<arith_n}) (arith_fill x ctx out)"
proof -
  let ?es = "in_table (Arith x) evs"
  let ?rs = "if x then t_xor (fx_trace ctx) else t_mul (fx_trace ctx)"
  have rs: "?rs = map xrow_of ?es" using trace_rows [OF fill_readyD(1) [OF r]] by simp
  have len: "length ?rs = length ?es" "fx_rows ctx = length ?es" unfolding rs using fill_readyD(2) [OF r] by simp_all
  let ?V = "\<lambda>i c. event_row (fx_prog ctx) M (?es ! i) ! c"
  have row: "g_at ctx (x_pc (?rs ! i)) = Some (?V i arith_pc) \<and> g_at ctx (x_fp (?rs ! i)) = Some (?V i arith_fp) \<and>
      (do { (a, b, c) \<leftarrow> ternary_operands ctx (x_pc (?rs ! i)); va \<leftarrow> limbs_at ctx (x_fp (?rs ! i) + a);
         vb \<leftarrow> limbs_at ctx (x_fp (?rs ! i) + b); os \<leftarrow> each [g_at ctx a, g_at ctx b, g_at ctx c]; Some (os @ va @ vb) }) =
       Some (map (\<lambda>j. ?V i (arith_oa + j)) [0..<9]) \<and>
      Some [x_ra (?rs ! i), x_rb (?rs ! i), x_rc (?rs ! i)] = Some (map (\<lambda>j. ?V i (arith_ra + j)) [0..<3]) \<and>
      Some (x_bytecode_read (?rs ! i)) = Some (?V i arith_rbc)" if i: "i < length ?es" for i
    unfolding rs using fill_event(1) [OF r i]
    by (cases rule: instr.cases)
      (use fill_event [OF r i] i in \<open>simp_all add: xrow_of_def event_row_def arith_cols word_lanes_def ternary_operands_def upt_small\<close>)
  show ?thesis
    unfolding arith_fill_def Let_def
    by (rule yields_then(1,2) [OF w len], simp add: arith_cols, use row in blast)
      ((rule yields_then(1,2) [OF _ len], assumption, simp add: arith_cols, use row in blast)+,
       rule yields_then(3) [OF _ len], assumption, simp add: arith_cols, use row in blast, auto simp: arith_cols)
qed

lemma set_fill_yields:
  assumes r: "fill_ready SetTable ctx M evs" and w: "wrote ctx (column_of (fx_prog ctx) M (in_table SetTable evs)) set_n {} out"
  shows "yields (wrote ctx (column_of (fx_prog ctx) M (in_table SetTable evs)) set_n {..<set_n}) (set_fill ctx out)"
proof -
  let ?es = "in_table SetTable evs"
  let ?rs = "t_set (fx_trace ctx)"
  have rs: "?rs = map srow_of ?es" using trace_rows [OF fill_readyD(1) [OF r]] by simp
  have len: "length ?rs = length ?es" "fx_rows ctx = length ?es" unfolding rs using fill_readyD(2) [OF r] by simp_all
  let ?V = "\<lambda>i c. event_row (fx_prog ctx) M (?es ! i) ! c"
  let ?imm = "\<lambda>r. Option.bind (at_index (fx_prog ctx) (s_pc r)) set_imm"
  have row: "g_at ctx (s_pc (?rs ! i)) = Some (?V i set_pc) \<and> g_at ctx (s_fp (?rs ! i)) = Some (?V i set_fp) \<and>
      (do { (d, k) \<leftarrow> ?imm (?rs ! i); g_at ctx d }) = Some (?V i set_o) \<and>
      (do { (d, k) \<leftarrow> ?imm (?rs ! i); Some (word_lanes k) }) = Some (map (\<lambda>j. ?V i (set_k ! 0 + j)) [0..<3]) \<and>
      Some (s_r (?rs ! i)) = Some (?V i set_r) \<and> Some (s_bytecode_read (?rs ! i)) = Some (?V i set_rbc)" if i: "i < length ?es" for i
    unfolding rs using fill_event(1) [OF r i]
    by (cases rule: instr.cases)
      (use fill_event [OF r i] i in \<open>simp_all add: srow_of_def event_row_def set_cols word_lanes_def upt_small\<close>)
  show ?thesis
    unfolding set_fill_def Let_def
    by (rule yields_then(1,2) [OF w len], simp add: set_cols, use row in blast)
      ((rule yields_then(1,2) [OF _ len], assumption, simp add: set_cols, use row in blast)+,
       rule yields_then(3) [OF _ len], assumption, simp add: set_cols, use row in blast, auto simp: set_cols)
qed

lemma deref_fill_yields:
  assumes r: "fill_ready DerefTable ctx M evs" and w: "wrote ctx (column_of (fx_prog ctx) M (in_table DerefTable evs)) deref_n {} out"
  shows "yields (wrote ctx (column_of (fx_prog ctx) M (in_table DerefTable evs)) deref_n {..<deref_n}) (deref_fill ctx out)"
proof -
  let ?es = "in_table DerefTable evs"
  let ?rs = "t_deref (fx_trace ctx)"
  have rs: "?rs = map drow_of ?es" using trace_rows [OF fill_readyD(1) [OF r]] by simp
  have len: "length ?rs = length ?es" "fx_rows ctx = length ?es" unfolding rs using fill_readyD(2) [OF r] by simp_all
  let ?V = "\<lambda>i c. event_row (fx_prog ctx) M (?es ! i) ! c"
  let ?ins = "\<lambda>r. Option.bind (at_index (fx_prog ctx) (d_pc r)) deref_ins"
  have row: "g_at ctx (d_pc (?rs ! i)) = Some (?V i deref_pc) \<and> g_at ctx (d_fp (?rs ! i)) = Some (?V i deref_fp) \<and>
      (do { (o1, o2, o3, mode) \<leftarrow> ?ins (?rs ! i); v3 \<leftarrow> limbs_at ctx (d_fp (?rs ! i) + o3);
         p \<leftarrow> at_index (fx_mem ctx) (d_fp (?rs ! i) + o1); os \<leftarrow> each [g_at ctx o1, g_at ctx o2, g_at ctx o3];
         Some (os @ [mode_f_pc mode, mode_f_fp mode, F64 (coeff0 p)] @ v3) }) =
       Some (map (\<lambda>j. ?V i (deref_o1 + j)) [0..<9]) \<and>
      Some [d_r1 (?rs ! i), d_r2 (?rs ! i), d_r3 (?rs ! i)] = Some (map (\<lambda>j. ?V i (deref_r1 + j)) [0..<3]) \<and>
      Some (d_bytecode_read (?rs ! i)) = Some (?V i deref_rbc)" if i: "i < length ?es" for i
    unfolding rs using fill_event(1) [OF r i]
    by (cases rule: instr.cases)
      (use fill_event [OF r i] i in \<open>simp_all add: drow_of_def event_row_def deref_cols word_lanes_def upt_small\<close>)
  show ?thesis
    unfolding deref_fill_def Let_def
    by (rule yields_then(1,2) [OF w len], simp add: deref_cols, use row in blast)
      ((rule yields_then(1,2) [OF _ len], assumption, simp add: deref_cols, use row in blast)+,
       rule yields_then(3) [OF _ len], assumption, simp add: deref_cols, use row in blast, auto simp: deref_cols)
qed

lemma jump_fill_yields:
  assumes r: "fill_ready JumpTable ctx M evs" and w: "wrote ctx (column_of (fx_prog ctx) M (in_table JumpTable evs)) jump_n {} out"
  shows "yields (wrote ctx (column_of (fx_prog ctx) M (in_table JumpTable evs)) jump_n {..<jump_n}) (jump_fill ctx out)"
proof -
  let ?es = "in_table JumpTable evs"
  let ?rs = "t_jump (fx_trace ctx)"
  have rs: "?rs = map jrow_of ?es" using trace_rows [OF fill_readyD(1) [OF r]] by simp
  have len: "length ?rs = length ?es" "fx_rows ctx = length ?es" unfolding rs using fill_readyD(2) [OF r] by simp_all
  let ?V = "\<lambda>i c. event_row (fx_prog ctx) M (?es ! i) ! c"
  let ?ins = "\<lambda>r. Option.bind (at_index (fx_prog ctx) (j_pc r)) jump_ins"
  let ?cell = "\<lambda>r c. at_index (fx_mem ctx) (j_fp r + c)"
  let ?cond = "\<lambda>e. M (hd (ev_cells e))"
  let ?conds = "map ?cond ?es"
  have cond: "(do { (oc, od, of') \<leftarrow> ?ins (?rs ! i); ?cell (?rs ! i) oc }) = Some (?conds ! i)" if i: "i < length ?es" for i
    unfolding rs using fill_event(1) [OF r i]
    by (cases rule: instr.cases) (use fill_event [OF r i] i in \<open>simp_all add: jrow_of_def\<close>)
  have conds: "traverse_opt (\<lambda>r. do { (oc, od, of') \<leftarrow> ?ins r; ?cell r oc }) ?rs = Some ?conds"
    using cond len(1) by (simp add: traverse_opt_Some)
  have row: "g_at ctx (j_pc (?rs ! i)) = Some (?V i jump_pc) \<and> g_at ctx (j_fp (?rs ! i)) = Some (?V i jump_fp) \<and>
      (do { (oc, od, of') \<leftarrow> ?ins (?rs ! i); os \<leftarrow> each [g_at ctx oc, g_at ctx od, g_at ctx of'];
         vs \<leftarrow> each [?cell (?rs ! i) oc, ?cell (?rs ! i) od, ?cell (?rs ! i) of']; Some (os @ map (\<lambda>v. F64 (coeff0 v)) vs) }) =
       Some (map (\<lambda>j. ?V i (jump_oc + j)) [0..<6]) \<and>
      Some [F64 (coeff0 (batch_inverse ?conds ! i)), map (\<lambda>c. if f192_is_zero c then F64 0 else F64 1) ?conds ! i] =
       Some (map (\<lambda>j. ?V i (jump_w + j)) [0..<2]) \<and>
      Some [j_rc (?rs ! i), j_rd (?rs ! i), j_rf (?rs ! i)] = Some (map (\<lambda>j. ?V i (jump_rc + j)) [0..<3]) \<and>
      Some (j_bytecode_read (?rs ! i)) = Some (?V i jump_rbc)" if i: "i < length ?es" for i
    unfolding rs using fill_event(1) [OF r i]
    by (cases rule: instr.cases)
      (use fill_event [OF r i] i in \<open>simp_all add: jrow_of_def event_row_def jump_cols upt_small batch_inverse_map f192_is_zero_iff ind_def
        zero_f64_def one_f64_def\<close>)
  show ?thesis
    unfolding jump_fill_def Let_def conds Option.bind.simps
    by (rule yields_then(1,2) [OF w len], simp add: jump_cols, use row in blast)
      (rule yields_then(1,2) [OF _ len], assumption, simp add: jump_cols, use row in blast,
       rule yields_then(1,2) [OF _ len], assumption, simp add: jump_cols, use row in blast,
       rule yields_then(4) [OF _ len refl], assumption, simp add: jump_cols, use row in blast,
       rule yields_then(1,2) [OF _ len], assumption, simp add: jump_cols, use row in blast,
       rule yields_then(3) [OF _ len], assumption, simp add: jump_cols, use row in blast, auto simp: jump_cols)
qed

lemma blake2s_fill_yields:
  assumes r: "fill_ready Blake2sTable ctx M evs" and w: "wrote ctx (column_of (fx_prog ctx) M (in_table Blake2sTable evs)) bl_n {} out"
  shows "yields (wrote ctx (column_of (fx_prog ctx) M (in_table Blake2sTable evs)) bl_n {..<bl_n}) (blake2s_fill ctx out)"
proof -
  let ?es = "in_table Blake2sTable evs"
  let ?rs = "t_blake2s (fx_trace ctx)"
  have rs: "?rs = map brow_of ?es" using trace_rows [OF fill_readyD(1) [OF r]] by simp
  have len: "length ?rs = length ?es" "fx_rows ctx = length ?es" unfolding rs using fill_readyD(2) [OF r] by simp_all
  let ?V = "\<lambda>i c. event_row (fx_prog ctx) M (?es ! i) ! c"
  let ?ad = "blake2s_addresses (fx_prog ctx)"
  have row: "g_at ctx (b_pc (?rs ! i)) = Some (?V i bl_pc) \<and> g_at ctx (b_fp (?rs ! i)) = Some (?V i bl_fp) \<and>
      (do { a \<leftarrow> ?ad (?rs ! i); each (map (\<lambda>x. g_at ctx (x - b_fp (?rs ! i))) a) }) = Some (map (\<lambda>j. ?V i (bl_o_m0 + j)) [0..<7]) \<and>
      (do { a \<leftarrow> ?ad (?rs ! i); word_pair ctx (a ! 0) (a ! 1) }) = Some (map (\<lambda>j. ?V i (bl_v_m0 + j)) [0..<4]) \<and>
      (do { a \<leftarrow> ?ad (?rs ! i); word_pair ctx (a ! 2) (a ! 3) }) = Some (map (\<lambda>j. ?V i (bl_v_m2 + j)) [0..<4]) \<and>
      (do { a \<leftarrow> ?ad (?rs ! i); word_pair ctx (a ! 5) (a ! 5 + 1) }) = Some (map (\<lambda>j. ?V i (bl_v_out0 + j)) [0..<4]) \<and>
      (do { a \<leftarrow> ?ad (?rs ! i); word_pair ctx (a ! 4) (a ! 4 + 1) }) = Some (map (\<lambda>j. ?V i (bl_v_cv0 + j)) [0..<4]) \<and>
      (do { a \<leftarrow> ?ad (?rs ! i); md \<leftarrow> at_index (fx_mem ctx) (a ! 6); Some (lane_pair md) }) = Some (map (\<lambda>j. ?V i (bl_md0 + j)) [0..<2]) \<and>
      Some [b_ra (?rs ! i) ! 0, b_ra (?rs ! i) ! 1, b_rb (?rs ! i) ! 0, b_rb (?rs ! i) ! 1, b_rcv (?rs ! i) ! 0, b_rcv (?rs ! i) ! 1,
         b_rc (?rs ! i) ! 0, b_rc (?rs ! i) ! 1, b_rmd (?rs ! i)] = Some (map (\<lambda>j. ?V i (bl_r_m0 + j)) [0..<9]) \<and>
      Some (b_bytecode_read (?rs ! i)) = Some (?V i bl_rbc)" if i: "i < length ?es" for i
    unfolding rs using fill_event(1) [OF r i]
    by (cases rule: instr.cases)
      (use fill_event [OF r i] i in \<open>simp_all add: brow_of_def event_row_def bl_cols upt_small blake2s_addresses_def word_pair_def
        lane_pair_def\<close>)
  show ?thesis
    unfolding blake2s_fill_def Let_def
    by (rule yields_then(1,2) [OF w len], simp add: bl_cols, use row in blast)
      ((rule yields_then(1,2) [OF _ len], assumption, simp add: bl_cols, use row in blast)+,
       rule yields_then(3) [OF _ len], assumption, simp add: bl_cols, use row in blast, auto simp: bl_cols)
qed

lemma table_fill_yields:
  assumes r: "fill_ready t ctx M evs"
    and w: "wrote ctx (column_of (fx_prog ctx) M (in_table t evs)) (n_committed_columns t) {} out"
  shows "yields (wrote ctx (column_of (fx_prog ctx) M (in_table t evs)) (n_committed_columns t) {..<n_committed_columns t})
    (table_fill t ctx out)"
proof (cases t)
  case (Arith x)
  then show ?thesis using arith_fill_yields r w by simp
qed (use set_fill_yields deref_fill_yields jump_fill_yields blake2s_fill_yields r w in simp_all)

lemma full_mask:
  assumes "n \<le> 64" "\<forall>i<64. bit w i \<longleftrightarrow> i \<in> {..<n}"
  shows "w = (if n = 64 then - 1 else push_bit n 1 - 1 :: 64 word)"
proof -
  have "push_bit n 1 - 1 = (mask n :: 64 word)" by (simp add: mask_eq_exp_minus_1 push_bit_eq_mult)
  then have "(if n = 64 then - 1 else push_bit n 1 - 1 :: 64 word) = mask n" by (auto intro: bit_word_eqI simp: bit_simps)
  moreover have "w = mask n" using assms by (intro bit_word_eqI) (simp add: bit_simps)
  ultimately show ?thesis by simp
qed

lemma n_committed_columns_le: "n_committed_columns t \<le> 64"
  by (cases t) (simp_all add: arith_n_def set_n_def deref_n_def jump_n_def bl_n_def)

lemma wrote_all:
  "wrote ctx V n {..<n} out \<Longrightarrow> n \<le> 64 \<Longrightarrow> fo_written out = (if n = 64 then - 1 else push_bit n 1 - 1)"
  "wrote ctx V n {..<n} out \<Longrightarrow> fo_cols out = map V [0..<n]"
  by (rule full_mask, assumption, simp add: wrote_def)
    (auto simp: wrote_def intro: nth_equalityI)

lemma fill_table_columns:
  assumes "fill_ready t ctx M evs" "length windows = n_committed_columns t" "\<forall>w\<in>set windows. length w = fx_rows ctx"
  shows "fill_table t ctx windows =
    Some (map (column_of (fx_prog ctx) M (in_table t evs)) [0..<n_committed_columns t])"
proof -
  let ?V = "column_of (fx_prog ctx) M (in_table t evs)"
  have "wrote ctx ?V (n_committed_columns t) {} \<lparr>fo_cols = windows, fo_written = 0\<rparr>"
    using assms(2,3) by (simp add: wrote_def)
  from table_fill_yields [OF assms(1) this] obtain out where
    out: "table_fill t ctx \<lparr>fo_cols = windows, fo_written = 0\<rparr> = Some out"
      "wrote ctx ?V (n_committed_columns t) {..<n_committed_columns t} out" by (auto simp: yields_def)
  show ?thesis
    using wrote_all [OF out(2)] n_committed_columns_le [of t] by (simp add: fill_table_def out(1) Let_def)
qed

section \<open>The whole stage\<close>

definition operands_fit :: "op list \<Rightarrow> bool" where
  "operands_fit prog \<longleftrightarrow> (\<forall>op\<in>set prog. \<forall>d\<in>set (op_offsets op). unat d < 2 ^ 31)"

lemma unat_fp_add:
  "unat (fp :: u32) < max_cells \<Longrightarrow> unat d < 2 ^ 31 \<Longrightarrow> unat (fp + d) = unat fp + unat d"
  by (rule unat_plus_simple [THEN iffD1]) (simp add: max_cells_def word_le_nat_alt unat_word_ariths)

lemma explained_event:
  assumes e: "explained_by p pub ex chain F runs" and ev: "ev \<in> set (chain @ concat runs)"
  shows "is_instr (p_prog p) (image_of (ex_mem ex)) ev" "unat (ev_fp ev) < max_cells"
    "\<forall>c\<in>set (ev_cells ev). unat c < length (ex_mem ex)" "length (ev_counts ev) = length (ev_cells ev)"
  using e ev by (auto simp: explained_by_def Let_def)

text \<open>Where operands stay clear of the word size, a frame and an operand index the powers whenever their cell is in memory.\<close>

lemma event_indices:
  assumes e: "explained_by p pub ex chain F runs" and ev: "ev \<in> set (chain @ concat runs)" and fit: "operands_fit (p_prog p)"
  shows "unat (ev_pc ev) < length (p_prog p)" "unat (ev_fp ev) < length (ex_mem ex)"
    "\<forall>d\<in>set (op_offsets (p_prog p ! unat (ev_pc ev))). unat d < length (ex_mem ex)"
proof -
  note f = explained_event [OF e ev]
  show pc: "unat (ev_pc ev) < length (p_prog p)" using f(1) by (auto simp: is_instr_def elim: instr.cases)
  then have small: "unat d < 2 ^ 31" if "d \<in> set (op_offsets (p_prog p ! unat (ev_pc ev)))" for d
    using fit that by (auto simp: operands_fit_def)
  note add = unat_fp_add [OF f(2) small] 
  have "unat (ev_fp ev) < length (ex_mem ex) \<and> (\<forall>d\<in>set (op_offsets (p_prog p ! unat (ev_pc ev))). unat d < length (ex_mem ex))"
    using f(1) [unfolded is_instr_def] f(3) add
  proof (cases rule: instr.cases)
    case (instr_deref o1 o2 o3 mode base)
    then have "unat (of_nat base :: u32) < max_cells" by (simp add: unat_of_nat max_cells_def)
    from unat_fp_add [OF this small] have "unat (of_nat base + o2) = unat (of_nat base :: u32) + unat o2"
      using instr_deref by simp
    then show ?thesis using instr_deref f(3) add by force
  qed force+
  then show "unat (ev_fp ev) < length (ex_mem ex)"
    "\<forall>d\<in>set (op_offsets (p_prog p ! unat (ev_pc ev))). unat d < length (ex_mem ex)" by simp_all
qed

lemma explained_fill_ready:
  assumes e: "explained_by p pub ex chain F runs" and fit: "operands_fit (p_prog p)"
    and rows: "rows = length (in_table t (chain @ concat runs))"
  shows "fill_ready t \<lparr>fx_trace = ex_trace ex, fx_mem = ex_mem ex, fx_gpow = g_powers (max (length (ex_mem ex)) (length (p_prog p))),
      fx_prog = p_prog p, fx_rows = rows\<rparr> (image_of (ex_mem ex)) (chain @ concat runs)"
proof -
  have tr: "trace_of (ex_trace ex) = rows_of (chain @ concat runs)" using e by (simp add: explained_by_def Let_def)
  have "is_instr (p_prog p) (image_of (ex_mem ex)) ev \<and>
      unat (ev_pc ev) < max (length (ex_mem ex)) (length (p_prog p)) \<and> unat (ev_fp ev) < max (length (ex_mem ex)) (length (p_prog p)) \<and>
      (\<forall>d\<in>set (op_offsets (p_prog p ! unat (ev_pc ev))). unat d < max (length (ex_mem ex)) (length (p_prog p))) \<and>
      (\<forall>c\<in>set (ev_cells ev). unat c < length (ex_mem ex))" if "ev \<in> set (in_table t (chain @ concat runs))" for ev
  proof -
    have ev: "ev \<in> set (chain @ concat runs)" using that by (auto simp: in_table_def)
    show ?thesis using explained_event [OF e ev] event_indices [OF e ev fit] by (simp add: less_max_iff_disj)
  qed
  then show ?thesis using tr rows by (simp add: fill_ready_def g_powers_eq)
qed

text \<open>The windows of the schema.\<close>

lemma schema_bases: "sch_base the_schema = [6, 21, 36, 44, 59, 73]" "sch_n the_schema = 110"
  by code_simp+

definition windows_fit :: "program \<Rightarrow> execution \<Rightarrow> nat list \<Rightarrow> f64 list list \<Rightarrow> bool" where
  "windows_fit p ex taus ws \<longleftrightarrow> length ws = sch_n the_schema \<and> (\<forall>c<4. length (ws ! c) = length (ex_mem ex)) \<and>
    length (ws ! col_bfcnt) = length (p_prog p) \<and>
    (\<forall>t<n_tables. \<forall>c<n_committed_columns (tables ! t). length (ws ! (sch_base the_schema ! t + c)) = 2 ^ (taus ! t))"

lemma splice_nth:
  assumes "length cols = n" "b + n \<le> length ws" "i < length ws"
  shows "(take b ws @ cols @ drop (b + n) ws) ! i = (if b \<le> i \<and> i < b + n then cols ! (i - b) else ws ! i)"
  using assms by (auto simp: nth_append)

lemmas n_cols_simps = arith_n_def set_n_def deref_n_def jump_n_def bl_n_def

lemma n_committed_at:
  "map n_committed_columns tables = [15, 15, 8, 15, 14, 37]"
  by (simp add: tables_def n_cols_simps)

lemma bases_apart:
  assumes "t < n_tables"
  shows "6 \<le> sch_base the_schema ! t" "sch_base the_schema ! t + n_committed_columns (tables ! t) \<le> sch_n the_schema"
    and "t' < t \<Longrightarrow> sch_base the_schema ! t' + n_committed_columns (tables ! t') \<le> sch_base the_schema ! t"
  using assms by (auto simp: schema_bases tables_def n_cols_simps n_tables_def less_Suc_eq numeral_eq_Suc)

lemma block_disjoint:
  assumes "t < n_tables" "t' < n_tables" "c < n_committed_columns (tables ! t)" "t \<noteq> t'"
  shows "\<not> (sch_base the_schema ! t' \<le> sch_base the_schema ! t + c \<and>
    sch_base the_schema ! t + c < sch_base the_schema ! t' + n_committed_columns (tables ! t'))"
  using bases_apart(3) [OF assms(1), of t'] bases_apart(3) [OF assms(2), of t] assms(3,4) by (cases t t' rule: linorder_cases) auto

text \<open>After the first tables, their windows hold their columns and the rest are as they were.\<close>

definition filled_upto :: "(nat \<Rightarrow> nat \<Rightarrow> f64 list) \<Rightarrow> nat \<Rightarrow> f64 list list \<Rightarrow> f64 list list \<Rightarrow> bool" where
  "filled_upto V k ws0 ws \<longleftrightarrow> length ws = sch_n the_schema \<and> (\<forall>i<6. ws ! i = ws0 ! i) \<and>
    (\<forall>t<n_tables. \<forall>c<n_committed_columns (tables ! t). ws ! (sch_base the_schema ! t + c) =
       (if t < k then V t c else ws0 ! (sch_base the_schema ! t + c)))"

lemma filled_upto_step:
  assumes "filled_upto V t ws0 ws" "t < n_tables" "length cols = n_committed_columns (tables ! t)"
    and "\<And>c. c < n_committed_columns (tables ! t) \<Longrightarrow> cols ! c = V t c"
  shows "filled_upto V (Suc t) ws0 (take (sch_base the_schema ! t) ws @ cols @ drop (sch_base the_schema ! t + n_committed_columns (tables ! t)) ws)"
proof -
  let ?b = "sch_base the_schema ! t" and ?n = "n_committed_columns (tables ! t)"
  let ?ws = "take ?b ws @ cols @ drop (?b + ?n) ws"
  have len: "length ws = sch_n the_schema" using assms(1) by (simp add: filled_upto_def)
  have fit: "?b + ?n \<le> length ws" using bases_apart(2) [OF assms(2)] len by simp
  note nth = splice_nth [OF assms(3) fit]
  have "?ws ! i = ws0 ! i" if "i < 6" for i
    using nth [of i] bases_apart(1) [OF assms(2)] that fit assms(1) by (simp add: filled_upto_def)
  moreover have "?ws ! (sch_base the_schema ! t' + c) = (if t' < Suc t then V t' c else ws0 ! (sch_base the_schema ! t' + c))"
    if t': "t' < n_tables" "c < n_committed_columns (tables ! t')" for t' c
  proof (cases "t' = t")
    case True
    then show ?thesis using nth [of "?b + c"] that fit assms(4) by simp
  next
    case False
    have "sch_base the_schema ! t' + c < length ws" using bases_apart(2) [OF t'(1)] t'(2) len by simp
    then show ?thesis using nth block_disjoint [OF t'(1) assms(2) t'(2) False] t' False assms(1)
      by (auto simp: filled_upto_def less_Suc_eq)
  qed
  ultimately show ?thesis using len fit assms(3) by (simp add: filled_upto_def)
qed

lemma fill_tables_fills:
  assumes win: "windows_fit p ex taus ws0"
    and step: "\<And>t windows. t < n_tables \<Longrightarrow> length windows = n_committed_columns (tables ! t) \<Longrightarrow>
      (\<forall>w\<in>set windows. length w = 2 ^ (taus ! t)) \<Longrightarrow>
      fill_table (tables ! t) \<lparr>fx_trace = ex_trace ex, fx_mem = ex_mem ex, fx_gpow = gpow, fx_prog = p_prog p, fx_rows = 2 ^ (taus ! t)\<rparr>
        windows = Some (map (V t) [0..<n_committed_columns (tables ! t)])"
    and "k \<le> n_tables" "filled_upto V k ws0 ws"
  shows "\<exists>ws'. fill_tables p ex gpow taus (enumerate k (drop k tables)) ws = Some ws' \<and> filled_upto V n_tables ws0 ws'"
  using assms(3,4)
proof (induction "n_tables - k" arbitrary: k ws)
  case 0
  then have "k = n_tables" "drop k tables = []" by (simp_all add: tables_def n_tables_def)
  then show ?case using 0 by simp
next
  case (Suc m)
  then have k: "k < n_tables" by simp
  then have kl: "k < length tables" by (simp add: tables_def n_tables_def)
  let ?b = "sch_base the_schema ! k" and ?n = "n_committed_columns (tables ! k)"
  have len: "length ws = sch_n the_schema" using Suc.prems(2) by (simp add: filled_upto_def)
  have fit: "?b + ?n \<le> length ws" using bases_apart(2) [OF k] len by simp
  have "length w = 2 ^ (taus ! k)" if "w \<in> set (take ?n (drop ?b ws))" for w
  proof -
    from that obtain c where c: "c < ?n" "w = ws ! (?b + c)" using fit by (auto simp: in_set_conv_nth)
    then have "w = ws0 ! (?b + c)" using Suc.prems(2) k by (simp add: filled_upto_def)
    then show ?thesis using win k c(1) by (simp add: windows_fit_def)
  qed
  moreover have "length (take ?n (drop ?b ws)) = ?n" using fit by simp
  ultimately have ft: "fill_table (tables ! k) \<lparr>fx_trace = ex_trace ex, fx_mem = ex_mem ex, fx_gpow = gpow, fx_prog = p_prog p,
      fx_rows = 2 ^ (taus ! k)\<rparr> (take ?n (drop ?b ws)) = Some (map (V k) [0..<?n])" using step [OF k] by blast
  have up: "filled_upto V (Suc k) ws0 (take ?b ws @ map (V k) [0..<?n] @ drop (?b + ?n) ws)"
    by (rule filled_upto_step [OF Suc.prems(2) k]) simp_all
  have d: "enumerate k (drop k tables) = (k, tables ! k) # enumerate (Suc k) (drop (Suc k) tables)"
    using kl by (simp add: Cons_nth_drop_Suc [symmetric])
  have "m = n_tables - Suc k" "Suc k \<le> n_tables" using Suc.hyps(2) k by simp_all
  from Suc.hyps(1) [OF this up] show ?case by (simp add: d ft Let_def)
qed


text \<open>The column every window ends up with.\<close>

definition run_columns :: "program \<Rightarrow> execution \<Rightarrow> event list \<Rightarrow> f64 list list \<Rightarrow> bool" where
  "run_columns p ex evs ws \<longleftrightarrow> length ws = sch_n the_schema \<and>
    (\<forall>t<n_tables. \<forall>c<n_committed_columns (tables ! t).
       ws ! (sch_base the_schema ! t + c) = column_of (p_prog p) (image_of (ex_mem ex)) (in_table (tables ! t) evs) c) \<and>
    ws ! col_mem_lo = map (\<lambda>w. F64 (coeff0 w)) (ex_mem ex) \<and> ws ! col_mem_hi = map (\<lambda>w. F64 (coeff1 w)) (ex_mem ex) \<and>
    ws ! col_mem_top = map (\<lambda>w. F64 (coeff2 w)) (ex_mem ex) \<and> ws ! col_mfcnt = t_mem_count (ex_trace ex) \<and>
    ws ! col_bfcnt = t_bytecode_count (ex_trace ex)"

lemma explained_lengths:
  assumes "execute p pub = Inr ex" "explained_by p pub ex chain F runs"
  shows "length (t_mem_count (ex_trace ex)) = length (ex_mem ex)" "length (t_bytecode_count (ex_trace ex)) = length (p_prog p)"
  using execute_parts [OF assms(1)] finish_ok(9) assms(2) by (auto simp: explained_by_def Let_def, metis)

lemma fill_columns_run:
  assumes run: "execute p pub = Inr ex" and e: "explained_by p pub ex chain F runs" and fit: "operands_fit (p_prog p)"
    and taus: "row_counts (ex_trace ex) = map ((^) 2) taus" and win: "windows_fit p ex taus windows"
  shows "\<exists>ws. fill_columns p ex taus windows = Some ws \<and> run_columns p ex (chain @ concat runs) ws \<and> ws ! col_qflock = windows ! col_qflock"
proof -
  let ?evs = "chain @ concat runs" and ?M = "image_of (ex_mem ex)"
  let ?V = "\<lambda>t c. column_of (p_prog p) ?M (in_table (tables ! t) ?evs) c"
  let ?gpow = "g_powers (max (length (ex_mem ex)) (length (p_prog p)))"
  have "length (in_table (tables ! t) ?evs) = 2 ^ (taus ! t)" if t: "t < n_tables" for t
  proof -
    have l: "length tables = n_tables" "length taus = n_tables"
      using arg_cong [OF taus, of length] by (simp_all add: tables_def n_tables_def row_counts_def)
    have "table_counts ?evs ! t = 2 ^ (taus ! t)" using explained_counts(1) [OF e] taus that l by (metis nth_map)
    then show ?thesis using that l by (simp add: table_counts_def)
  qed
  then have rows: "2 ^ (taus ! t) = length (in_table (tables ! t) ?evs)" if "t < n_tables" for t using that by simp
  have "fill_table (tables ! t) \<lparr>fx_trace = ex_trace ex, fx_mem = ex_mem ex, fx_gpow = ?gpow, fx_prog = p_prog p,
      fx_rows = 2 ^ (taus ! t)\<rparr> ws = Some (map (?V t) [0..<n_committed_columns (tables ! t)])"
    if "t < n_tables" "length ws = n_committed_columns (tables ! t)" "\<forall>w\<in>set ws. length w = 2 ^ (taus ! t)" for t ws
    using fill_table_columns [OF explained_fill_ready [OF e fit rows [OF that(1)]], of ws] that(2,3) by simp
  note step = this
  have "filled_upto ?V 0 windows windows" using win by (simp add: filled_upto_def windows_fit_def)
  from fill_tables_fills [OF win step le0 this]
  obtain ws where ws: "fill_tables p ex ?gpow taus (enumerate 0 tables) windows = Some ws" "filled_upto ?V n_tables windows ws"
    unfolding drop0 by blast
  have len: "length ws = 110" and low: "\<forall>i<6. ws ! i = windows ! i" using ws(2) by (simp_all add: filled_upto_def schema_bases)
  have wl: "\<forall>c<4. length (windows ! c) = length (ex_mem ex)" "length (windows ! col_bfcnt) = length (p_prog p)"
    using win by (simp_all add: windows_fit_def)
  note cl = explained_lengths [OF run e]
  have w: "length (ws ! 0) = length (ex_mem ex)" "length (ws ! Suc 0) = length (ex_mem ex)" "length (ws ! 2) = length (ex_mem ex)"
    "length (ws ! 3) = length (ex_mem ex)" "length (ws ! 4) = length (p_prog p)"
    using low wl by (simp_all add: shared_cols)
  let ?ws = "ws[0 := map (\<lambda>w. F64 (coeff0 w)) (ex_mem ex), Suc 0 := map (\<lambda>w. F64 (coeff1 w)) (ex_mem ex),
    2 := map (\<lambda>w. F64 (coeff2 w)) (ex_mem ex), 3 := t_mem_count (ex_trace ex), 4 := t_bytecode_count (ex_trace ex)]"
  have "fill_columns p ex taus windows = Some ?ws"
    using w cl by (simp add: fill_columns_def ws(1) fill_shared_def Let_def shared_cols)
  moreover have "?ws ! (sch_base the_schema ! t + c) = ?V t c" if "t < n_tables" "c < n_committed_columns (tables ! t)" for t c
    using ws(2) that bases_apart(1) [OF that(1)] by (simp add: filled_upto_def)
  ultimately show ?thesis
    using len low by (intro exI [of _ ?ws]) (simp add: run_columns_def schema_bases(2) shared_cols)
qed

text \<open>C2: the column stage of the prover's witness builder always succeeds on a returned execution whose tables are filled
  to powers of two, and writes every window it was given: column by column and row by row the table windows hold what the
  executed instructions determine - operands as generator powers, the values of the cells touched, the recorded counts, the
  jump's inverse and indicator - and the shared windows hold the three limbs of the memory image and the final counts; the
  window of the packed hash witness is left alone.\<close>
theorem fill_columns_hold_the_run:
  assumes "execute p pub = Inr ex" "filler_ok p" "ex_mem_used ex < 2 ^ 32" "operands_fit (p_prog p)"
    and "row_counts (ex_trace ex) = map ((^) 2) taus" "windows_fit p ex taus windows"
  shows "\<exists>evs ws. (\<forall>e\<in>set evs. is_instr (p_prog p) (image_of (ex_mem ex)) e) \<and> trace_of (ex_trace ex) = rows_of evs \<and>
    fill_columns p ex taus windows = Some ws \<and> run_columns p ex evs ws \<and> ws ! col_qflock = windows ! col_qflock"
proof -
  obtain chain F runs where e: "explained_by p pub ex chain F runs" using explained_intro [OF assms(1-3)] .
  then have "\<forall>e\<in>set (chain @ concat runs). is_instr (p_prog p) (image_of (ex_mem ex)) e" "trace_of (ex_trace ex) = rows_of (chain @ concat runs)"
    by (simp_all add: explained_by_def Let_def)
  then show ?thesis using fill_columns_run [OF assms(1) e assms(4-6)] by blast
qed


text \<open>A run whose fill blocks brought every table to its height.\<close>

lemma emit_filler_set:
  "set (fst (emit_filler todo code)) \<subseteq> set code \<union> range filler_dummy \<union> {closing_jump}"
proof (induction todo code rule: emit_filler.induct)
  case (2 t f n todo code)
  have "set (filler_block_code f n) \<subseteq> range filler_dummy \<union> {closing_jump}" by (auto simp: filler_block_code_def)
  then show ?case using "2.IH" by (auto split: prod.splits)
qed auto

lemma fill_demo_operands: "operands_fit (p_prog fill_demo)"
proof -
  have "set (p_prog fill_demo) \<subseteq> set fill_demo_code \<union> range filler_dummy \<union> {closing_jump, OpXor 0 0 0}"
    using emit_filler_set [of "concat (map (\<lambda>t. map (Pair t) sizes) filler_tables)" fill_demo_code]
    by (auto simp: fill_demo_def lower_filler_blocks_def)
  moreover have "\<forall>d\<in>set (op_offsets (filler_dummy f)). unat d < 2 ^ 31" for f by (cases f) (simp_all add: fr_offsets)
  moreover have "\<forall>d\<in>set (op_offsets closing_jump). unat d < 2 ^ 31" by (simp add: closing_jump_def fr_offsets)
  moreover have "\<forall>op\<in>set fill_demo_code. \<forall>d\<in>set (op_offsets op). unat d < 2 ^ 31" by (simp add: fill_demo_code_def)
  moreover have "\<forall>d\<in>set (op_offsets (OpXor 0 0 0)). unat d < 2 ^ 31" by simp
  ultimately show ?thesis unfolding operands_fit_def by blast
qed

lemma windows_exist: "\<exists>ws. windows_fit p ex taus ws"
proof -
  let ?h = "\<lambda>i. if i < 4 then length (ex_mem ex) else if i = 4 then length (p_prog p) else if i < 6 then 0
    else if i < 21 then 2 ^ (taus ! 0) else if i < 36 then 2 ^ (taus ! 1) else if i < 44 then 2 ^ (taus ! 2)
    else if i < 59 then 2 ^ (taus ! 3) else if i < 73 then 2 ^ (taus ! 4) else 2 ^ (taus ! 5)"
  have "windows_fit p ex taus (map (\<lambda>i. replicate (?h i) (F64 0)) [0..<110])"
    unfolding windows_fit_def
  proof (intro conjI allI impI)
    fix t c assume t: "t < n_tables" and c: "c < n_committed_columns (tables ! t)"
    show "length (map (\<lambda>i. replicate (?h i) (F64 0)) [0..<110] ! (sch_base the_schema ! t + c)) = 2 ^ (taus ! t)"
    proof -
      from t consider "t = 0" | "t = 1" | "t = 2" | "t = 3" | "t = 4" | "t = 5" unfolding n_tables_def by linarith
      then show ?thesis using c by cases (simp_all add: schema_bases tables_def n_cols_simps)
    qed
  qed (simp_all add: schema_bases shared_cols)
  then show ?thesis by blast
qed

lemma filled_powers: "is_filled xs \<Longrightarrow> \<exists>taus. xs = map ((^) (2 :: nat)) taus"
proof -
  assume "is_filled xs"
  then have "\<forall>x\<in>set xs. \<exists>k. x = 2 ^ k"
    by (auto simp: is_filled_def list_all2_conv_all_nth in_set_conv_nth is_power_of_two_iff)
  then show ?thesis by (simp add: ex_map_conv)
qed

theorem fill_columns_hold_the_run_witness:
  "\<exists>ex taus windows ws. execute fill_demo fill_demo_public = Inr ex \<and> fill_columns fill_demo ex taus windows = Some ws \<and>
     ws ! col_mem_hi = map (\<lambda>w. F64 (coeff1 w)) (ex_mem ex) \<and> ws ! col_mfcnt = t_mem_count (ex_trace ex)"
proof -
  obtain ex where ex: "execute fill_demo fill_demo_public = Inr ex" "ex_mem_used ex < 2 ^ 32" "p_filler fill_demo \<noteq> []"
    using fill_demo_executes .
  obtain taus where taus: "row_counts (ex_trace ex) = map ((^) 2) taus"
    using filler_fills [OF ex(1) fill_demo_facts(1) ex(2,3)] filled_powers by blast
  obtain windows where "windows_fit fill_demo ex taus windows" using windows_exist by blast
  from fill_columns_hold_the_run [OF ex(1) fill_demo_facts(1) ex(2) fill_demo_operands taus this]
  show ?thesis using ex(1) by (auto simp: run_columns_def)
qed

end
