(* ===== verification/Leaf.thy ===== *)
theory Leaf
  imports Layout Multilinear "HOL-Library.Monad_Syntax"
begin

text \<open>
  The leaves of the bus: the fingerprint weights, the error budget of the argument, the placement of the blocks in a leaf
  vector and its rows, and the linear and quadratic forms a table contributes (\<^verbatim>\<open>lean_vm/src/leaf.rs\<close>).
\<close>

section \<open>Definitions\<close>

definition n_tuple_bits :: nat where "n_tuple_bits = 4"
definition security_bits :: nat where "security_bits = 128"

text \<open>The weights of a tuple's slots.\<close>

definition fingerprint_weights :: "f192 list \<Rightarrow> f192 list" where
  "fingerprint_weights alphas =
    fold (\<lambda>(k, a) w. map (\<lambda>(x, wx). wx * (if bit x k then a else a + f192_one)) (enumerate 0 w))
      (enumerate 0 alphas) (replicate (2 ^ n_tuple_bits) f192_one)"

text \<open>The error budget, in 128-bit arithmetic.\<close>

definition soundness_degree_bound :: "nat \<Rightarrow> 128 word option" where
  "soundness_degree_bound mu =
    (if mu < 128 then Some (of_nat (n_tuple_bits + 1) * push_bit mu 1 + 8 * (of_nat mu + 1) ^ 2) else None)"

definition leading_zeros :: "128 word \<Rightarrow> nat" where
  "leading_zeros d = length (takeWhile (\<lambda>k. \<not> bit d k) (rev [0..<128]))"

definition soundness_bits :: "nat \<Rightarrow> nat option" where
  "soundness_bits mu = map_option (\<lambda>d. 192 - (128 - leading_zeros d)) (soundness_degree_bound mu)"

text \<open>Placement of the blocks in the leaf vector.\<close>

record bus_layout =
  bus_mu :: nat
  bus_offsets :: "nat list"

definition bus_place :: "block list \<Rightarrow> bus_layout option" where
  "bus_place blocks = map_option (\<lambda>(offsets, placed). \<lparr>bus_mu = log2_ceil (max placed 1), bus_offsets = offsets\<rparr>)
     (stack_offsets (map (\<lambda>b. Some (bl_kappa b)) blocks))"

text \<open>A block's coordinates as weighted terms and a constant.\<close>

datatype leaf_term =
    TCol nat f192
  | TProd nat nat f192
  | TIndex f192
  | TPublic "f64 list" f192

fun push_terms :: "coord \<Rightarrow> f192 \<Rightarrow> leaf_term list \<times> f192 \<Rightarrow> leaf_term list \<times> f192" where
  "push_terms (CConst v) w (terms, k) = (terms, k + mul_base w v)"
| "push_terms (CCol i) w (terms, k) = (terms @ [TCol i w], k)"
| "push_terms (CGCol i n) w (terms, k) = (terms @ [TCol i (mul_base w (g_pow n))], k)"
| "push_terms (CProd i j n) w (terms, k) = (terms @ [TProd i j (mul_base w (g_pow n))], k)"
| "push_terms CIndex w (terms, k) = (terms @ [TIndex w], k)"
| "push_terms (CPublic vs) w (terms, k) = (terms @ [TPublic vs w], k)"
| "push_terms (CSum cs) w acc = fold (\<lambda>c. push_terms c w) cs acc"

fun term_product :: "f64 list list \<Rightarrow> f64 list \<Rightarrow> nat \<Rightarrow> leaf_term \<Rightarrow> f192u" where
  "term_product cols gpow z (TCol i c) = mul_base_unreduced c (cols ! i ! z)"
| "term_product cols gpow z (TProd i j c) = mul_base_unreduced c (cols ! i ! z * cols ! j ! z)"
| "term_product cols gpow z (TIndex c) = mul_base_unreduced c (gpow ! z)"
| "term_product cols gpow z (TPublic vs c) = mul_base_unreduced c (vs ! z)"

definition block_terms :: "block \<Rightarrow> f192 list \<Rightarrow> f192 \<Rightarrow> leaf_term list \<times> f192" where
  "block_terms b w beta = fold (\<lambda>(i, c). push_terms c (w ! i)) (enumerate 0 (bl_coords b)) ([], beta)"

definition leaf_row :: "f64 list list \<Rightarrow> f64 list \<Rightarrow> leaf_term list \<times> f192 \<Rightarrow> nat \<Rightarrow> f192" where
  "leaf_row cols gpow tk z =
    snd tk + f192u_reduce (fold (\<lambda>t acc. f192u_bitxor acc (term_product cols gpow z t)) (fst tk) f192u_zero)"

text \<open>
  The leaf vector. The buffer is left uninitialised when the blocks cover it, so its first contents are an argument;
  otherwise it starts at the identity.
\<close>

definition leaf_extent :: "block list \<Rightarrow> nat list \<Rightarrow> nat" where
  "leaf_extent blocks offsets =
    (if blocks = [] then 1 else Max (set (map2 (\<lambda>b off. off + 2 ^ bl_kappa b) blocks offsets)))"

definition build_leaves ::
  "f192 list \<Rightarrow> block list \<Rightarrow> bus_layout \<Rightarrow> f64 list list \<Rightarrow> f192 list \<Rightarrow> f192 \<Rightarrow> f64 list \<Rightarrow> f192 list" where
  "build_leaves garbage blocks lay cols w beta gpow =
    (let explicit = leaf_extent blocks (bus_offsets lay);
         covered = sum_list (map (\<lambda>b. 2 ^ bl_kappa b) blocks);
         start = (if covered = explicit then take explicit garbage else replicate explicit f192_one)
     in fold (\<lambda>(b, off) leaves.
          (let tk = block_terms b w beta
           in take off leaves @ map (leaf_row cols gpow tk) [0..<2 ^ bl_kappa b] @ drop (off + 2 ^ bl_kappa b) leaves))
          (zip blocks (bus_offsets lay)) start)"

section \<open>A table's share of the bus\<close>

record bus_form =
  bf_coeffs :: "f192 list"
  bf_prods :: "(nat \<times> nat \<times> f192) list"
  bf_constant :: f192

definition bf_new :: "nat \<Rightarrow> bus_form" where
  "bf_new n_cols = \<lparr>bf_coeffs = replicate n_cols f192_zero, bf_prods = [], bf_constant = f192_zero\<rparr>"

definition bf_scaled :: "f192 \<Rightarrow> bus_form \<Rightarrow> bus_form" where
  "bf_scaled w f = \<lparr>bf_coeffs = map (\<lambda>c. c * w) (bf_coeffs f), bf_prods = map (\<lambda>(a, b, c). (a, b, c * w)) (bf_prods f),
     bf_constant = bf_constant f * w\<rparr>"

fun add_prod :: "nat \<times> nat \<times> f192 \<Rightarrow> (nat \<times> nat \<times> f192) list \<Rightarrow> (nat \<times> nat \<times> f192) list" where
  "add_prod (a, b, c) [] = [(a, b, c)]"
| "add_prod (a, b, c) ((a', b', c') # ps) =
    (if (a', b') = (a, b) then (a', b', c' + c) # ps else (a', b', c') # add_prod (a, b, c) ps)"

definition bf_add :: "bus_form \<Rightarrow> bus_form \<Rightarrow> bus_form option" where
  "bf_add form out =
    (if length (bf_coeffs out) = length (bf_coeffs form)
     then Some \<lparr>bf_coeffs = map2 (+) (bf_coeffs out) (bf_coeffs form),
                bf_prods = fold add_prod (bf_prods form) (bf_prods out), bf_constant = bf_constant out + bf_constant form\<rparr>
     else None)"

fun bf_sum_loop :: "bus_form list \<Rightarrow> bus_form \<Rightarrow> bus_form option" where
  "bf_sum_loop [] out = Some out"
| "bf_sum_loop (f # fs) out = Option.bind (bf_add f out) (bf_sum_loop fs)"

fun bf_sum :: "bus_form list \<Rightarrow> bus_form option" where
  "bf_sum [] = None"
| "bf_sum (f # fs) =
    map_option (\<lambda>out. out\<lparr>bf_prods := filter (\<lambda>(a, b, c). c \<noteq> f192_zero) (bf_prods out)\<rparr>) (bf_sum_loop fs f)"

text \<open>Evaluation at base-field values, and at extension values.\<close>

definition dot_unreduced_k :: "f192 list \<Rightarrow> f64 list \<Rightarrow> f192u" where
  "dot_unreduced_k coeffs vals = fold (\<lambda>(w, v) acc. f192u_bitxor acc (mul_base_unreduced w v)) (zip coeffs vals) f192u_zero"

definition dot_unreduced_e :: "f192 list \<Rightarrow> f192 list \<Rightarrow> f192u" where
  "dot_unreduced_e coeffs vals = fold (\<lambda>(w, v) acc. f192u_bitxor acc (f192_mul_unreduced w v)) (zip coeffs vals) f192u_zero"

definition bf_eval_unreduced_k :: "bus_form \<Rightarrow> f64 list \<Rightarrow> bool \<Rightarrow> f192u" where
  "bf_eval_unreduced_k f evals quadratic =
    fold (\<lambda>(a, b, c) acc. f192u_bitxor acc (mul_base_unreduced c (evals ! a * evals ! b))) (bf_prods f)
      (if quadratic then f192u_from f192_zero else f192u_bitxor (dot_unreduced_k (bf_coeffs f) evals) (f192u_from (bf_constant f)))"

definition bf_eval_unreduced_e :: "bus_form \<Rightarrow> f192 list \<Rightarrow> bool \<Rightarrow> f192u" where
  "bf_eval_unreduced_e f evals quadratic =
    fold (\<lambda>(a, b, c) acc. f192u_bitxor acc (f192_mul_unreduced (evals ! a * evals ! b) c)) (bf_prods f)
      (if quadratic then f192u_from f192_zero else f192u_bitxor (dot_unreduced_e (bf_coeffs f) evals) (f192u_from (bf_constant f)))"

definition bf_eval_k :: "bus_form \<Rightarrow> f64 list \<Rightarrow> f192" where
  "bf_eval_k f evals = f192u_reduce (bf_eval_unreduced_k f evals False)"

definition bf_eval_e :: "bus_form \<Rightarrow> f192 list \<Rightarrow> f192" where
  "bf_eval_e f evals = f192u_reduce (bf_eval_unreduced_e f evals False)"

definition dot_e :: "f192 list \<Rightarrow> f192 list \<Rightarrow> f192 \<Rightarrow> f192" where
  "dot_e coeffs vals constant = f192u_reduce (f192u_bitxor (dot_unreduced_e coeffs vals) (f192u_from constant))"

text \<open>The sum over a table's rows, from the columns' evaluations and the pairs' sums.\<close>

definition bf_sum_at :: "bus_form \<Rightarrow> f192 list \<Rightarrow> (nat \<times> nat \<times> f192) list \<Rightarrow> f192 option" where
  "bf_sum_at f evals prod_sums =
    fold (\<lambda>(a, b, c) acc. do { acc \<leftarrow> acc; (_, _, s) \<leftarrow> find (\<lambda>p. (fst p, fst (snd p)) = (a, b)) prod_sums; Some (acc + c * s) })
      (bf_prods f) (Some (dot_e (bf_coeffs f) evals (bf_constant f)))"

text \<open>One coordinate of a table's block; a table carries no virtual coordinate, and its columns start at its base.\<close>

definition add_coeff :: "nat \<Rightarrow> f192 \<Rightarrow> bus_form \<Rightarrow> bus_form" where
  "add_coeff i w f = f\<lparr>bf_coeffs := (bf_coeffs f)[i := bf_coeffs f ! i + w]\<rparr>"

fun accumulate_form :: "coord \<Rightarrow> f192 \<Rightarrow> nat \<Rightarrow> bus_form \<Rightarrow> bus_form option" where
  "accumulate_form (CConst v) w base f = Some (f\<lparr>bf_constant := bf_constant f + mul_base w v\<rparr>)"
| "accumulate_form (CCol i) w base f =
    (if base \<le> i \<and> i - base < length (bf_coeffs f) then Some (add_coeff (i - base) w f) else None)"
| "accumulate_form (CGCol i k) w base f =
    (if base \<le> i \<and> i - base < length (bf_coeffs f) then Some (add_coeff (i - base) (mul_base w (g_pow k)) f) else None)"
| "accumulate_form (CProd i j k) w base f =
    (if base \<le> i \<and> base \<le> j
     then Some (f\<lparr>bf_prods := bf_prods f @ [(i - base, j - base, mul_base w (g_pow k))]\<rparr>) else None)"
| "accumulate_form (CSum cs) w base f = fold (\<lambda>c f. Option.bind f (accumulate_form c w base)) cs (Some f)"
| "accumulate_form CIndex w base f = None"
| "accumulate_form (CPublic vs) w base f = None"

section \<open>The blocks tile the leaves\<close>

lemma bus_place_tiles:
  assumes "bus_place blocks = Some lay" "\<forall>b\<in>set blocks. bl_kappa b < 64"
  shows "length (bus_offsets lay) = length blocks" "(\<Sum>b\<leftarrow>blocks. 2 ^ bl_kappa b) \<le> (2 :: nat) ^ bus_mu lay"
    and "\<And>i. i < length blocks \<Longrightarrow> 2 ^ bl_kappa (blocks ! i) dvd bus_offsets lay ! i"
    and "\<And>i. i < length blocks \<Longrightarrow> bus_offsets lay ! i + 2 ^ bl_kappa (blocks ! i) \<le> (\<Sum>b\<leftarrow>blocks. 2 ^ bl_kappa b)"
    and "\<And>i j. \<lbrakk>i < length blocks; j < length blocks; i \<noteq> j\<rbrakk> \<Longrightarrow>
      bus_offsets lay ! i + 2 ^ bl_kappa (blocks ! i) \<le> bus_offsets lay ! j \<or>
      bus_offsets lay ! j + 2 ^ bl_kappa (blocks ! j) \<le> bus_offsets lay ! i"
proof -
  let ?ks = "map (\<lambda>b. Some (bl_kappa b)) blocks"
  obtain offsets placed where so: "stack_offsets ?ks = Some (offsets, placed)"
    and lay: "lay = \<lparr>bus_mu = log2_ceil (max placed 1), bus_offsets = offsets\<rparr>"
    using assms(1) by (auto simp: bus_place_def)
  have t: "tiles ?ks offsets placed" using stack_offsets_tiles [of ?ks] assms(2) so by fastforce
  have p: "placed = (\<Sum>b\<leftarrow>blocks. 2 ^ bl_kappa b)" using t by (simp add: tiles_def comp_def)
  show "length (bus_offsets lay) = length blocks" using t by (simp add: tiles_def lay)
  show "(\<Sum>b\<leftarrow>blocks. 2 ^ bl_kappa b) \<le> (2 :: nat) ^ bus_mu lay" using log2_ceil_ge [of "max placed 1"] by (simp add: lay p)
  show "2 ^ bl_kappa (blocks ! i) dvd bus_offsets lay ! i"
    "bus_offsets lay ! i + 2 ^ bl_kappa (blocks ! i) \<le> (\<Sum>b\<leftarrow>blocks. 2 ^ bl_kappa b)" if "i < length blocks" for i
    using tilesD(1,2) [OF t, of i] that by (simp_all add: lay p)
  show "bus_offsets lay ! i + 2 ^ bl_kappa (blocks ! i) \<le> bus_offsets lay ! j \<or>
      bus_offsets lay ! j + 2 ^ bl_kappa (blocks ! j) \<le> bus_offsets lay ! i" if "i < length blocks" "j < length blocks" "i \<noteq> j" for i j
    using tilesD(3) [OF t, of i _ j] that by (simp add: lay)
qed

definition block_span :: "block list \<Rightarrow> bus_layout \<Rightarrow> nat \<Rightarrow> nat set" where
  "block_span blocks lay i = {bus_offsets lay ! i..<bus_offsets lay ! i + 2 ^ bl_kappa (blocks ! i)}"

lemma spans_cover:
  assumes "bus_place blocks = Some lay" "\<forall>b\<in>set blocks. bl_kappa b < 64"
  shows "(\<Union>i<length blocks. block_span blocks lay i) = {..<\<Sum>b\<leftarrow>blocks. 2 ^ bl_kappa b}"
    "\<And>i j. \<lbrakk>i < length blocks; j < length blocks; i \<noteq> j\<rbrakk> \<Longrightarrow> block_span blocks lay i \<inter> block_span blocks lay j = {}"
proof -
  note t = bus_place_tiles [OF assms]
  show d: "block_span blocks lay i \<inter> block_span blocks lay j = {}" if "i < length blocks" "j < length blocks" "i \<noteq> j" for i j
    using t(5) [OF that] by (auto simp: block_span_def)
  have "card (\<Union>i\<in>{..<length blocks}. block_span blocks lay i) = (\<Sum>i\<in>{..<length blocks}. card (block_span blocks lay i))"
    by (rule card_UN_disjoint) (use d in \<open>auto simp: block_span_def\<close>)
  also have "\<dots> = (\<Sum>i<length blocks. 2 ^ bl_kappa (blocks ! i))" by (simp add: block_span_def)
  also have "\<dots> = (\<Sum>b\<leftarrow>blocks. 2 ^ bl_kappa b)"
    by (simp add: sum_list_sum_nth atLeast0LessThan)
  finally have "card (\<Union>i<length blocks. block_span blocks lay i) = card {..<\<Sum>b\<leftarrow>blocks. 2 ^ bl_kappa b :: nat}" by simp
  moreover have "(\<Union>i<length blocks. block_span blocks lay i) \<subseteq> {..<\<Sum>b\<leftarrow>blocks. 2 ^ bl_kappa b}"
    using t(4) by (fastforce simp: block_span_def)
  ultimately show "(\<Union>i<length blocks. block_span blocks lay i) = {..<\<Sum>b\<leftarrow>blocks. 2 ^ bl_kappa b}"
    by (intro card_subset_eq) simp_all
qed

lemma leaf_extent_covered:
  assumes "bus_place blocks = Some lay" "\<forall>b\<in>set blocks. bl_kappa b < 64" "blocks \<noteq> []"
  shows "leaf_extent blocks (bus_offsets lay) = (\<Sum>b\<leftarrow>blocks. 2 ^ bl_kappa b)"
proof -
  note t = bus_place_tiles [OF assms(1,2)] and c = spans_cover [OF assms(1,2)]
  let ?N = "\<Sum>b\<leftarrow>blocks. 2 ^ bl_kappa b :: nat"
  let ?S = "set (map2 (\<lambda>b off. off + 2 ^ bl_kappa b) blocks (bus_offsets lay))"
  have S: "?S = {bus_offsets lay ! i + 2 ^ bl_kappa (blocks ! i) | i. i < length blocks}"
    using t(1) by (auto simp: set_zip image_iff)
  have "0 < ?N" using assms(3) by (cases blocks) simp_all
  then have "?N - 1 \<in> (\<Union>i<length blocks. block_span blocks lay i)" using c(1) by simp
  then obtain i where i: "i < length blocks" "?N - 1 < bus_offsets lay ! i + 2 ^ bl_kappa (blocks ! i)"
    by (auto simp: block_span_def)
  then have "bus_offsets lay ! i + 2 ^ bl_kappa (blocks ! i) = ?N" using t(4) [OF i(1)] by linarith
  then have "?N \<in> ?S" using i(1) unfolding S by force
  moreover have "x \<le> ?N" if "x \<in> ?S" for x using that t(4) unfolding S by blast
  ultimately have "Max ?S = ?N" by (intro Max_eqI) simp_all
  then show ?thesis using assms(3) by (simp add: leaf_extent_def)
qed

section \<open>Leaves\<close>

text \<open>The value of a coordinate at a row.\<close>

fun coord_at :: "f64 list list \<Rightarrow> nat \<Rightarrow> coord \<Rightarrow> f64" where
  "coord_at cols z (CConst v) = v"
| "coord_at cols z (CCol i) = cols ! i ! z"
| "coord_at cols z (CGCol i k) = f64_g ^ k * cols ! i ! z"
| "coord_at cols z (CProd i j k) = f64_g ^ k * (cols ! i ! z * cols ! j ! z)"
| "coord_at cols z CIndex = f64_g ^ z"
| "coord_at cols z (CPublic vs) = vs ! z"
| "coord_at cols z (CSum cs) = (\<Sum>c\<leftarrow>cs. coord_at cols z c)"

fun uses_index :: "coord \<Rightarrow> bool" where
  "uses_index CIndex = True"
| "uses_index (CSum cs) = list_ex uses_index cs"
| "uses_index _ = False"

definition fingerprint :: "f192 list \<Rightarrow> f192 \<Rightarrow> f64 list \<Rightarrow> f192" where
  "fingerprint w beta tuple = beta + sum_list (map2 (\<lambda>wi v. wi * f192_from v) w tuple)"

definition tuple_at :: "f64 list list \<Rightarrow> block \<Rightarrow> nat \<Rightarrow> f64 list" where
  "tuple_at cols b z = map (coord_at cols z) (bl_coords b)"

lemma leaf_row_fold:
  "f192u_reduce (fold (\<lambda>t acc. f192u_bitxor acc (term_product cols gpow z t)) ts acc) =
    f192u_reduce acc + (\<Sum>t\<leftarrow>ts. f192u_reduce (term_product cols gpow z t))"
  by (induction ts arbitrary: acc) (simp_all add: f192u_reduce_bitxor add.assoc)

lemma leaf_row_sum: "leaf_row cols gpow tk z = snd tk + (\<Sum>t\<leftarrow>fst tk. f192u_reduce (term_product cols gpow z t))"
  by (simp add: leaf_row_def leaf_row_fold f192u_reduce_zero)

lemma leaf_row_push:
  "(uses_index c \<Longrightarrow> gpow ! z = f64_g ^ z) \<Longrightarrow>
    leaf_row cols gpow (push_terms c w tk) z = leaf_row cols gpow tk z + w * f192_from (coord_at cols z c)"
proof (induction c w tk rule: push_terms.induct)
  case (7 cs w acc)
  have "leaf_row cols gpow (fold (\<lambda>c. push_terms c w) ds tk) z = leaf_row cols gpow tk z + w * f192_from (\<Sum>c\<leftarrow>ds. coord_at cols z c)"
    if "set ds \<subseteq> set cs" for ds tk
    using that
  proof (induction ds arbitrary: tk)
    case (Cons d ds)
    have "uses_index d \<Longrightarrow> gpow ! z = f64_g ^ z" using "7.prems" Cons.prems by (auto simp: list_ex_iff)
    then show ?case using Cons "7.IH" by (simp add: f192_from_hom distrib_left add.assoc)
  qed (simp add: f192_from_hom)
  then show ?case by simp
qed (simp_all add: leaf_row_sum mul_base_from mul_base_unreduced_value f192_from_hom g_pow_power ac_simps)

lemma enumerate_fold: "fold (\<lambda>(i, c). f i c) (enumerate n cs) a = fold (\<lambda>i. f (n + i) (cs ! i)) [0..<length cs] a"
proof (induction cs arbitrary: n a)
  case (Cons c cs)
  have "[0..<length (c # cs)] = 0 # map Suc [0..<length cs]" by (simp add: upt_conv_Cons map_Suc_upt del: upt_Suc)
  then show ?case using Cons by (simp add: fold_map comp_def del: upt_Suc)
qed simp

lemma leaf_row_block:
  assumes "length (bl_coords b) \<le> length w" "\<And>c. c \<in> set (bl_coords b) \<Longrightarrow> uses_index c \<Longrightarrow> gpow ! z = f64_g ^ z"
  shows "leaf_row cols gpow (block_terms b w beta) z = fingerprint w beta (tuple_at cols b z)"
proof -
  have "leaf_row cols gpow (fold (\<lambda>(i, c). push_terms c (ws ! i)) (enumerate 0 cs) tk) z =
      leaf_row cols gpow tk z + sum_list (map2 (\<lambda>wi v. wi * f192_from v) ws (map (coord_at cols z) cs))"
    if "length cs \<le> length ws" "set cs \<subseteq> set (bl_coords b)" for ws cs tk
    using that
  proof (induction cs arbitrary: ws tk)
    case (Cons c cs)
    then obtain v vs where ws: "ws = v # vs" by (cases ws) simp_all
    have "fold (\<lambda>(i, c). push_terms c (ws ! i)) (enumerate 0 (c # cs)) tk =
        fold (\<lambda>(i, c). push_terms c (vs ! i)) (enumerate 0 cs) (push_terms c v tk)"
      unfolding enumerate_fold [of "\<lambda>i c. push_terms c (ws ! i)"] enumerate_fold [of "\<lambda>i c. push_terms c (vs ! i)"]
      by (simp add: ws upt_conv_Cons fold_map comp_def flip: map_Suc_upt del: upt_Suc)
    moreover have "uses_index c \<Longrightarrow> gpow ! z = f64_g ^ z" using Cons.prems(2) assms(2) [of c] by simp
    ultimately show ?case using Cons.IH [of vs] Cons.prems by (simp add: leaf_row_push ws add.assoc)
  qed simp
  from this [OF assms(1) order_refl] show ?thesis
    by (simp add: block_terms_def fingerprint_def tuple_at_def leaf_row_sum)
qed

lemma build_leaves_writes:
  "build_leaves garbage blocks lay cols w beta gpow =
    fold (\<lambda>(w, col). write_window w col)
      (map2 (\<lambda>b off. ((off, (2 :: nat) ^ bl_kappa b), map (leaf_row cols gpow (block_terms b w beta)) [0..<2 ^ bl_kappa b])) blocks (bus_offsets lay))
      (if (\<Sum>b\<leftarrow>blocks. 2 ^ bl_kappa b) = leaf_extent blocks (bus_offsets lay) then take (leaf_extent blocks (bus_offsets lay)) garbage
       else replicate (leaf_extent blocks (bus_offsets lay)) f192_one)"
  by (simp add: build_leaves_def Let_def fold_map comp_def case_prod_unfold write_window_def [abs_def])

lemma write_columns_at:
  assumes "\<forall>(w, col)\<in>set wcs. fst w + snd w \<le> length q \<and> snd w \<le> length col"
    and "\<forall>a<length wcs. \<forall>b<length wcs. a \<noteq> b \<longrightarrow> \<not> (in_window i (fst (wcs ! a)) \<and> in_window i (fst (wcs ! b)))"
    and "i < length q"
  shows "length (fold (\<lambda>(w, col). write_window w col) wcs q) = length q"
    and "a < length wcs \<Longrightarrow> in_window i (fst (wcs ! a)) \<Longrightarrow>
      fold (\<lambda>(w, col). write_window w col) wcs q ! i = snd (wcs ! a) ! (i - fst (fst (wcs ! a)))"
  using write_columns_ok [of wcs q i] assms by simp_all

lemma build_leaves_at:
  fixes cols :: "f64 list list" and beta :: f192
  assumes place: "bus_place blocks = Some lay" and small: "\<forall>b\<in>set blocks. bl_kappa b < 64" and "blocks \<noteq> []"
    and width: "\<forall>b\<in>set blocks. length (bl_coords b) \<le> length w"
    and gpow: "\<forall>b\<in>set blocks. list_ex uses_index (bl_coords b) \<longrightarrow> (\<forall>z<2 ^ bl_kappa b. gpow ! z = f64_g ^ z)"
    and garbage: "(\<Sum>b\<leftarrow>blocks. 2 ^ bl_kappa b) \<le> length garbage"
  defines "leaves \<equiv> build_leaves garbage blocks lay cols w beta gpow"
  shows "length leaves = (\<Sum>b\<leftarrow>blocks. 2 ^ bl_kappa b)"
    and "\<And>i z. \<lbrakk>i < length blocks; z < 2 ^ bl_kappa (blocks ! i)\<rbrakk> \<Longrightarrow>
      leaves ! (bus_offsets lay ! i + z) = fingerprint w beta (tuple_at cols (blocks ! i) z)"
proof -
  note t = bus_place_tiles [OF place small]
  let ?N = "\<Sum>b\<leftarrow>blocks. 2 ^ bl_kappa b :: nat"
  let ?wcs = "map2 (\<lambda>b off. ((off, (2 :: nat) ^ bl_kappa b), map (leaf_row cols gpow (block_terms b w beta)) [0..<2 ^ bl_kappa b])) blocks (bus_offsets lay)"
  have leaves: "leaves = fold (\<lambda>(w, col). write_window w col) ?wcs (take ?N garbage)"
    unfolding leaves_def build_leaves_writes using leaf_extent_covered [OF place small \<open>blocks \<noteq> []\<close>] by simp
  have at: "?wcs ! i = ((bus_offsets lay ! i, 2 ^ bl_kappa (blocks ! i)),
      map (leaf_row cols gpow (block_terms (blocks ! i) w beta)) [0..<2 ^ bl_kappa (blocks ! i)])" if "i < length blocks" for i
    using that t(1) by simp
  have len: "length ?wcs = length blocks" using t(1) by simp
  have fit: "\<forall>(w, col)\<in>set ?wcs. fst w + snd w \<le> length (take ?N garbage) \<and> snd w \<le> length col"
    using t(1,4) garbage by (auto simp: set_zip)
  have apart: "\<forall>a<length ?wcs. \<forall>b<length ?wcs. a \<noteq> b \<longrightarrow> \<not> (in_window x (fst (?wcs ! a)) \<and> in_window x (fst (?wcs ! b)))" for x
    using spans_cover(2) [OF place small] len at by (fastforce simp: in_window_def block_span_def disjoint_iff)
  have "0 < ?N" using \<open>blocks \<noteq> []\<close> by (cases blocks) simp_all
  then show length_leaves: "length leaves = ?N"
    using write_columns_at(1) [OF fit apart, of 0] garbage by (simp add: leaves)
  show "leaves ! (bus_offsets lay ! i + z) = fingerprint w beta (tuple_at cols (blocks ! i) z)"
    if i: "i < length blocks" "z < 2 ^ bl_kappa (blocks ! i)" for i z
  proof -
    let ?x = "bus_offsets lay ! i + z"
    have x: "?x < length (take ?N garbage)" using t(4) [OF i(1)] i(2) garbage by simp
    have wi: "in_window ?x (fst (?wcs ! i))" unfolding at [OF i(1)] using i(2) by (simp add: in_window_def)
    have il: "i < length ?wcs" using i(1) len by simp
    have "leaves ! ?x = snd (?wcs ! i) ! (?x - fst (fst (?wcs ! i)))"
      unfolding leaves by (rule write_columns_at(2) [OF fit apart x il wi])
    also have "\<dots> = leaf_row cols gpow (block_terms (blocks ! i) w beta) z" unfolding at [OF i(1)] using i(2) by simp
    also have "\<dots> = fingerprint w beta (tuple_at cols (blocks ! i) z)"
      by (rule leaf_row_block) (use width gpow i in \<open>auto simp: list_ex_iff\<close>)
    finally show ?thesis .
  qed
qed

text \<open>C13: the leaf vector of a side is complete and exact: whatever the uninitialised buffer held, it has one entry for every
  row of every block and no other, and the entry of a row is the fingerprint of that row's tuple - the challenge plus the
  weighted sum of the tuple's coordinates - whichever terms the coordinates were flattened into.\<close>
theorem leaves_fingerprint_every_row:
  assumes "bus_place blocks = Some lay" "\<forall>b\<in>set blocks. bl_kappa b < 64" "blocks \<noteq> []"
    and "\<forall>b\<in>set blocks. length (bl_coords b) \<le> length w"
    and "\<forall>b\<in>set blocks. list_ex uses_index (bl_coords b) \<longrightarrow> (\<forall>z<2 ^ bl_kappa b. gpow ! z = f64_g ^ z)"
    and "(\<Sum>b\<leftarrow>blocks. 2 ^ bl_kappa b) \<le> length garbage"
  shows "length (build_leaves garbage blocks lay cols w beta gpow) = (\<Sum>b\<leftarrow>blocks. 2 ^ bl_kappa b) \<and>
    (\<forall>i<length blocks. \<forall>z<2 ^ bl_kappa (blocks ! i).
      build_leaves garbage blocks lay cols w beta gpow ! (bus_offsets lay ! i + z) = fingerprint w beta (tuple_at cols (blocks ! i) z)) \<and>
    (\<forall>x<(\<Sum>b\<leftarrow>blocks. 2 ^ bl_kappa b). \<exists>i<length blocks. \<exists>z<2 ^ bl_kappa (blocks ! i). x = bus_offsets lay ! i + z)"
proof -
  have "\<exists>i<length blocks. \<exists>z<2 ^ bl_kappa (blocks ! i). x = bus_offsets lay ! i + z" if "x < (\<Sum>b\<leftarrow>blocks. 2 ^ bl_kappa b)" for x
  proof -
    have "x \<in> (\<Union>i<length blocks. block_span blocks lay i)" using spans_cover(1) [OF assms(1,2)] that by simp
    then obtain i where "i < length blocks" "bus_offsets lay ! i \<le> x" "x < bus_offsets lay ! i + 2 ^ bl_kappa (blocks ! i)"
      by (auto simp: block_span_def)
    then show ?thesis by (intro exI [of _ i]) (auto intro!: exI [of _ "x - bus_offsets lay ! i"])
  qed
  then show ?thesis using build_leaves_at [OF assms] by blast
qed

theorem leaves_fingerprint_every_row_witness:
  "let blocks = [\<lparr>bl_kappa = 0, bl_coords = [CConst (F64 5)]\<rparr>, \<lparr>bl_kappa = 1, bl_coords = [CCol 0, CGCol 0 1]\<rparr>] in
   build_leaves [f192_y, f192_y, f192_y] blocks \<lparr>bus_mu = 2, bus_offsets = [2, 0]\<rparr> [[F64 3, F64 4]] [f192_y, f192_one] f192_one [] ! 2
     = fingerprint [f192_y, f192_one] f192_one [F64 5]"
proof -
  let ?blocks = "[\<lparr>bl_kappa = 0, bl_coords = [CConst (F64 5)]\<rparr>, \<lparr>bl_kappa = 1, bl_coords = [CCol 0, CGCol 0 1]\<rparr>]"
  have "bus_place ?blocks = Some \<lparr>bus_mu = 2, bus_offsets = [2, 0]\<rparr>" by code_simp
  from leaves_fingerprint_every_row [OF this, of "[f192_y, f192_one]" "[]" "[f192_y, f192_y, f192_y]" "[[F64 3, F64 4]]" f192_one]
  have "\<forall>i<length ?blocks. \<forall>z<2 ^ bl_kappa (?blocks ! i).
      build_leaves [f192_y, f192_y, f192_y] ?blocks \<lparr>bus_mu = 2, bus_offsets = [2, 0]\<rparr> [[F64 3, F64 4]] [f192_y, f192_one] f192_one [] !
        ([2, 0] ! i + z) = fingerprint [f192_y, f192_one] f192_one (tuple_at [[F64 3, F64 4]] (?blocks ! i) z)"
    by simp
  from this [rule_format, of 0 0] show ?thesis by (simp add: Let_def tuple_at_def)
qed

section \<open>The error budget\<close>

lemma leading_zeros_upto:
  fixes d :: "128 word"
  assumes "unat d < 2 ^ n"
  shows "length (takeWhile (\<lambda>k. \<not> bit d k) (rev [0..<n])) \<le> n \<and>
    unat d < 2 ^ (n - length (takeWhile (\<lambda>k. \<not> bit d k) (rev [0..<n]))) \<and>
    (0 < unat d \<longrightarrow> 2 ^ (n - length (takeWhile (\<lambda>k. \<not> bit d k) (rev [0..<n])) - 1) \<le> unat d \<and>
       length (takeWhile (\<lambda>k. \<not> bit d k) (rev [0..<n])) < n)"
  using assms
proof (induction n)
  case (Suc n)
  have "bit (unat d) n \<longleftrightarrow> bit d n" by (simp add: bit_unsigned_iff)
  then have b: "bit d n \<longleftrightarrow> odd (unat d div 2 ^ n)" using bit_iff_odd [of "unat d" n] by simp
  show ?case
  proof (cases "bit d n")
    case True
    then have "2 ^ n \<le> unat d" using b by (cases "unat d < 2 ^ n") simp_all
    then show ?thesis using True Suc.prems by simp
  next
    case False
    have "unat d div 2 ^ n < 2" using Suc.prems by (simp add: less_mult_imp_div_less mult.commute)
    moreover have "even (unat d div 2 ^ n)" using b False by simp
    ultimately have "unat d div 2 ^ n = 0" by (auto simp: less_2_cases_iff)
    then have "unat d < 2 ^ n" by (simp add: div_eq_0_iff)
    from Suc.IH [OF this] show ?thesis using False by (simp add: Suc_diff_le)
  qed
qed simp

lemma leading_zeros_bounds:
  "unat d < 2 ^ (128 - leading_zeros d)" "0 < unat d \<Longrightarrow> 2 ^ (128 - leading_zeros d - 1) \<le> unat d"
  "leading_zeros d \<le> 128"
proof -
  have "unat d < 2 ^ 128" by (rule order_less_le_trans [OF unsigned_less]) simp
  note b = leading_zeros_upto [OF this, folded leading_zeros_def]
  then show "unat d < 2 ^ (128 - leading_zeros d)" "0 < unat d \<Longrightarrow> 2 ^ (128 - leading_zeros d - 1) \<le> unat d"
    "leading_zeros d \<le> 128" by blast+
qed

lemma degree_bound_value:
  assumes "mu \<le> 120"
  obtains d where "soundness_degree_bound mu = Some d" "unat d = 5 * 2 ^ mu + 8 * (mu + 1) ^ 2"
proof -
  let ?n = "5 * 2 ^ mu + 8 * (mu + 1) ^ 2 :: nat"
  have "(2 :: nat) ^ mu \<le> 2 ^ 120" by (rule power_increasing) (use assms in simp_all)
  moreover have "(mu + 1) ^ 2 \<le> (121 :: nat) ^ 2" by (rule power_mono) (use assms in simp_all)
  ultimately have "?n < 2 ^ 128" by simp
  moreover have "of_nat (n_tuple_bits + 1) * push_bit mu 1 + 8 * (of_nat mu + 1) ^ 2 = (of_nat ?n :: 128 word)"
    by (simp add: n_tuple_bits_def push_bit_eq_mult add.commute)
  ultimately have "unat (of_nat (n_tuple_bits + 1) * push_bit mu 1 + 8 * (of_nat mu + 1) ^ 2 :: 128 word) = ?n"
    by (simp only: unat_of_nat) (simp add: take_bit_nat_eq_self_iff)
  then show thesis using that assms by (simp add: soundness_degree_bound_def)
qed

lemma depth_mono: "mu \<le> 61 \<Longrightarrow> 5 * 2 ^ mu + 8 * (mu + 1) ^ 2 < (2 :: nat) ^ 64"
proof -
  assume m: "mu \<le> 61"
  have "(2 :: nat) ^ mu \<le> 2 ^ 61" by (rule power_increasing) (use m in simp_all)
  moreover have "(mu + 1) ^ 2 \<le> (62 :: nat) ^ 2" by (rule power_mono) (use m in simp_all)
  ultimately show ?thesis by simp
qed

text \<open>C33: the budget the verifier asserts is sound and tight. For every bus depth the machine can reach the degree bound is
  computed without overflow, its bits are what the challenge field has left over it - the bound times two to the bits is at
  most the size of the field - and the bits reach the security target exactly up to depth 61.\<close>
theorem bus_budget_reaches_depth_61:
  assumes "mu \<le> 120"
  shows "\<exists>d b. soundness_degree_bound mu = Some d \<and> unat d = (n_tuple_bits + 1) * 2 ^ mu + 8 * (mu + 1) ^ 2 \<and>
    soundness_bits mu = Some b \<and> unat d * 2 ^ b \<le> 2 ^ 192 \<and> 2 ^ 192 \<le> unat d * 2 ^ Suc b \<and> (security_bits \<le> b \<longleftrightarrow> mu \<le> 61)"
proof -
  obtain d where d: "soundness_degree_bound mu = Some d" "unat d = 5 * 2 ^ mu + 8 * (mu + 1) ^ 2" using degree_bound_value [OF assms] .
  let ?l = "128 - leading_zeros d" and ?b = "192 - (128 - leading_zeros d)"
  note lz = leading_zeros_bounds [of d]
  have pos: "0 < unat d" by (simp add: d(2))
  have l: "1 \<le> ?l" using lz(1) pos by (cases "?l") simp_all
  have split: "(2 :: nat) ^ 192 = 2 ^ ?l * 2 ^ ?b" by (simp flip: power_add)
  have "2 ^ ?l = (2 :: nat) * 2 ^ (?l - 1)" using l by (simp flip: power_Suc)
  also have "\<dots> \<le> 2 * unat d" using lz(2) [OF pos] by simp
  finally have "2 ^ 192 \<le> unat d * 2 ^ Suc ?b" unfolding split by simp
  moreover have "unat d * 2 ^ ?b \<le> 2 ^ 192" unfolding split using lz(1) by simp
  moreover have "security_bits \<le> ?b \<longleftrightarrow> mu \<le> 61"
  proof
    assume "security_bits \<le> ?b"
    then have "?l \<le> 64" by (simp add: security_bits_def)
    then have "unat d < 2 ^ 64" using lz(1) power_increasing [of ?l 64 "2 :: nat"] by simp
    then have "5 * 2 ^ mu < (2 :: nat) ^ 64" by (simp add: d(2))
    then have "(2 :: nat) ^ mu < 2 ^ 62" by simp
    then have "mu < 62" by (rule power_less_imp_less_exp [rotated]) simp
    then show "mu \<le> 61" by simp
  next
    assume "mu \<le> 61"
    then have "unat d < 2 ^ 64" unfolding d(2) by (rule depth_mono)
    then have "(2 :: nat) ^ (?l - 1) < 2 ^ 64" using lz(2) [OF pos] by linarith
    then have "?l - 1 < 64" by (rule power_less_imp_less_exp [rotated]) simp
    then have "?l \<le> 64" by linarith
    then show "security_bits \<le> ?b" by (simp add: security_bits_def)
  qed
  ultimately show ?thesis using d by (simp add: soundness_bits_def n_tuple_bits_def)
qed

theorem bus_budget_reaches_depth_61_witness: "\<exists>b. soundness_bits 61 = Some b \<and> security_bits \<le> b"
  using bus_budget_reaches_depth_61 [of 61] by auto

section \<open>Forms over a table's columns\<close>

definition form_value :: "bus_form \<Rightarrow> f192 list \<Rightarrow> f192" where
  "form_value f vals = bf_constant f + sum_list (map2 (*) (bf_coeffs f) vals) + (\<Sum>(a, b, c)\<leftarrow>bf_prods f. c * (vals ! a * vals ! b))"

definition form_wf :: "nat \<Rightarrow> bus_form \<Rightarrow> bool" where
  "form_wf n f \<longleftrightarrow> length (bf_coeffs f) = n \<and> (\<forall>(a, b, c)\<in>set (bf_prods f). a < n \<and> b < n)"

lemma f192u_reduce_from: "f192u_reduce (f192u_from v) = v"
proof -
  have "reduce (join_wide (x, 0)) = x" for x
  proof -
    have "drop_bit 64 (join_wide (x, 0)) = 0"
      by (rule bit_word_eqI) (auto simp: join_wide_def bit_simps dest: bit_imp_le_length)
    moreover have "ucast (join_wide (x, 0)) = x"
      by (rule bit_word_eqI) (simp add: join_wide_def bit_simps)
    ultimately have "drop_bit 64 (join_wide (x, 0)) = 0" "ucast (join_wide (x, 0)) = x" .
    then show ?thesis by (simp add: reduce_def Let_def)
  qed
  then show ?thesis by (cases v) simp
qed

lemma mul_unreduced_value: "f192u_reduce (f192_mul_unreduced a b) = a * b"
  by (simp add: times_f192_def f192_mul_def)

lemma form_fold_e:
  "f192u_reduce (fold (\<lambda>(w, v) acc. f192u_bitxor acc (f192_mul_unreduced w v)) wvs acc) =
    f192u_reduce acc + (\<Sum>(w, v)\<leftarrow>wvs. w * v)"
  by (induction wvs arbitrary: acc) (auto simp: f192u_reduce_bitxor mul_unreduced_value add.assoc)

lemma prods_fold:
  "f192u_reduce (fold (\<lambda>(a, b, c) acc. f192u_bitxor acc (mul_base_unreduced c (evals ! a * evals ! b))) ps acc) =
    f192u_reduce acc + (\<Sum>(a, b, c)\<leftarrow>ps. c * f192_from (evals ! a * evals ! b))"
  "f192u_reduce (fold (\<lambda>(a, b, c) acc. f192u_bitxor acc (f192_mul_unreduced (vals ! a * vals ! b) c)) ps acc) =
    f192u_reduce acc + (\<Sum>(a, b, c)\<leftarrow>ps. c * (vals ! a * vals ! b))"
  by (induction ps arbitrary: acc)
    (auto simp: f192u_reduce_bitxor mul_base_unreduced_value mul_unreduced_value ac_simps)

lemma bf_eval_e_value: "bf_eval_e f vals = form_value f vals"
  by (simp add: bf_eval_e_def bf_eval_unreduced_e_def prods_fold f192u_reduce_bitxor dot_unreduced_e_def form_fold_e
      f192u_reduce_zero f192u_reduce_from form_value_def ac_simps)

lemma bf_eval_k_value: "form_wf n f \<Longrightarrow> length vals = n \<Longrightarrow> bf_eval_k f vals = form_value f (map f192_from vals)"
proof -
  assume wf: "form_wf n f" "length vals = n"
  have "(\<Sum>(a, b, c)\<leftarrow>bf_prods f. c * f192_from (vals ! a * vals ! b)) =
      (\<Sum>(a, b, c)\<leftarrow>bf_prods f. c * (map f192_from vals ! a * map f192_from vals ! b))"
    by (intro arg_cong [of _ _ sum_list] map_cong refl) (use wf in \<open>auto simp: form_wf_def f192_from_hom\<close>)
  moreover have "f192u_reduce (dot_unreduced_k cs vs) = sum_list (map2 (*) cs (map f192_from vs))" for cs vs
    unfolding dot_unreduced_k_def form_fold by (simp add: f192u_reduce_zero zip_map2 comp_def case_prod_unfold)
  ultimately show ?thesis
    unfolding bf_eval_k_def bf_eval_unreduced_k_def prods_fold if_False f192u_reduce_bitxor f192u_reduce_from form_value_def
    by (simp only: add.commute)
qed

lemma bf_scaled_value: "form_value (bf_scaled w f) vals = w * form_value f vals"
proof -
  have "sum_list (map2 (*) (map (\<lambda>c. c * w) cs) vs) = w * sum_list (map2 (*) cs vs)" for cs vs :: "f192 list"
    by (induction cs arbitrary: vs) (auto simp: zip_Cons1 distrib_left ac_simps split: list.splits)
  moreover have "(\<Sum>(a, b, c)\<leftarrow>map (\<lambda>(a, b, c). (a, b, c * w)) ps. c * (vals ! a * vals ! b)) =
      w * (\<Sum>(a, b, c)\<leftarrow>ps. c * (vals ! a * vals ! b))" for ps :: "(nat \<times> nat \<times> f192) list"
    by (induction ps) (auto simp: distrib_left ac_simps)
  ultimately show ?thesis by (simp add: form_value_def bf_scaled_def distrib_left ac_simps)
qed

lemma add_prod_value:
  "(\<Sum>(a, b, c)\<leftarrow>add_prod p ps. c * (vals ! a * vals ! b)) =
    (\<Sum>(a, b, c)\<leftarrow>ps. c * (vals ! a * vals ! b)) + (case p of (a, b, c) \<Rightarrow> c * (vals ! a * vals ! b))"
  by (induction p ps rule: add_prod.induct) (auto simp: distrib_right ac_simps)

lemma add_prods_value:
  "(\<Sum>(a, b, c)\<leftarrow>fold add_prod qs ps. c * (vals ! a * vals ! b)) =
    (\<Sum>(a, b, c)\<leftarrow>ps. c * (vals ! a * vals ! b)) + (\<Sum>(a, b, c)\<leftarrow>qs. c * (vals ! a * vals ! b))"
  by (induction qs arbitrary: ps) (simp_all add: add_prod_value add.assoc)

lemma dot_map2_add: "length cs = length ds \<Longrightarrow>
    sum_list (map2 (*) (map2 (+) cs ds) vs) = sum_list (map2 (*) cs vs) + sum_list (map2 (*) ds vs)" for cs :: "f192 list"
  by (induction cs ds arbitrary: vs rule: list_induct2) (auto simp: zip_Cons1 algebra_simps split: list.splits)

lemma bf_sum_loop_value:
  "\<forall>f\<in>set fs. length (bf_coeffs f) = length (bf_coeffs out) \<Longrightarrow>
    \<exists>out'. bf_sum_loop fs out = Some out' \<and> length (bf_coeffs out') = length (bf_coeffs out) \<and>
      (\<forall>vals. form_value out' vals = form_value out vals + (\<Sum>f\<leftarrow>fs. form_value f vals))"
proof (induction fs arbitrary: out)
  case (Cons f fs)
  then have l: "length (bf_coeffs out) = length (bf_coeffs f)" by simp
  then obtain o1 where o: "bf_add f out = Some o1" "length (bf_coeffs o1) = length (bf_coeffs out)"
    "\<And>vals. form_value o1 vals = form_value out vals + form_value f vals"
    by (simp add: bf_add_def form_value_def add_prods_value dot_map2_add ac_simps)
  then have "\<forall>f\<in>set fs. length (bf_coeffs f) = length (bf_coeffs o1)" using Cons.prems by simp
  from Cons.IH [OF this] show ?case using o by (auto simp: add.assoc)
qed simp

text \<open>C34: summing forms over the same columns succeeds and gives, at every point, the sum of their values, with no zero
  product kept; scaling a form scales its values; forms of different widths are refused.\<close>
theorem bus_forms_add_pointwise:
  "(if \<exists>n. fs \<noteq> [] \<and> list_all (\<lambda>f. length (bf_coeffs f) = n) fs
    then \<exists>out. bf_sum fs = Some out \<and> (\<forall>vals. bf_eval_e out vals = (\<Sum>f\<leftarrow>fs. bf_eval_e f vals)) \<and>
       list_all (\<lambda>(a, b, c). c \<noteq> f192_zero) (bf_prods out)
    else bf_sum fs = None) \<and>
   bf_eval_e (bf_scaled w f) vals = f192_mul w (bf_eval_e f vals)"
  unfolding list_all_iff
proof (intro conjI)
  show "bf_eval_e (bf_scaled w f) vals = f192_mul w (bf_eval_e f vals)"
    by (simp add: bf_eval_e_value bf_scaled_value f192_mul_times)
  have filter: "(\<Sum>(a, b, c)\<leftarrow>filter (\<lambda>(a, b, c). c \<noteq> 0) ps. c * (vals ! a * vals ! b)) = (\<Sum>(a, b, c)\<leftarrow>ps. c * (vals ! a * vals ! b))"
    for ps :: "(nat \<times> nat \<times> f192) list" and vals by (induction ps) auto
  show "if \<exists>n. fs \<noteq> [] \<and> (\<forall>f\<in>set fs. length (bf_coeffs f) = n)
    then \<exists>out. bf_sum fs = Some out \<and> (\<forall>vals. bf_eval_e out vals = (\<Sum>f\<leftarrow>fs. bf_eval_e f vals)) \<and>
       (\<forall>(a, b, c)\<in>set (bf_prods out). c \<noteq> f192_zero)
    else bf_sum fs = None"
  proof (cases fs)
    case (Cons g gs)
    show ?thesis
    proof (cases "\<forall>f\<in>set gs. length (bf_coeffs f) = length (bf_coeffs g)")
      case True
      from bf_sum_loop_value [OF this] obtain out where o: "bf_sum_loop gs g = Some out"
        "\<And>vals. form_value out vals = form_value g vals + (\<Sum>f\<leftarrow>gs. form_value f vals)" by blast
      have "\<exists>n. \<forall>f\<in>set fs. length (bf_coeffs f) = n" using True Cons by (intro exI [of _ "length (bf_coeffs g)"]) simp
      moreover have "form_value (out\<lparr>bf_prods := filter (\<lambda>(a, b, c). c \<noteq> f192_zero) (bf_prods out)\<rparr>) vals = form_value out vals" for vals
        using filter by (simp add: form_value_def flip: zero_f192_def)
      ultimately show ?thesis using o Cons by (auto simp: bf_eval_e_value)
    next
      case False
      have "bf_sum_loop hs out = None" if "\<exists>f\<in>set hs. length (bf_coeffs f) \<noteq> length (bf_coeffs out)" for hs out
        using that
      proof (induction hs arbitrary: out)
        case (Cons h hs)
        show ?case
        proof (cases "length (bf_coeffs out) = length (bf_coeffs h)")
          case True
          then obtain o1 where o: "bf_add h out = Some o1" "length (bf_coeffs o1) = length (bf_coeffs out)" by (simp add: bf_add_def)
          have "\<exists>f\<in>set hs. length (bf_coeffs f) \<noteq> length (bf_coeffs o1)" using Cons.prems True o(2) by auto
          then show ?thesis using Cons.IH o(1) by simp
        qed (simp add: bf_add_def)
      qed simp
      from this [of gs g] have "bf_sum fs = None" using False Cons by simp
      moreover have "\<nexists>n. \<forall>f\<in>set fs. length (bf_coeffs f) = n" using False Cons by auto
      ultimately show ?thesis by simp
    qed
  qed simp
qed

section \<open>A block as a form\<close>

text \<open>Coordinates of a table's block: no virtual column, and every column inside the table.\<close>

fun in_columns :: "nat \<Rightarrow> nat \<Rightarrow> coord \<Rightarrow> bool" where
  "in_columns base n (CConst v) = True"
| "in_columns base n (CCol i) = (base \<le> i \<and> i < base + n)"
| "in_columns base n (CGCol i k) = (base \<le> i \<and> i < base + n)"
| "in_columns base n (CProd i j k) = (base \<le> i \<and> i < base + n \<and> base \<le> j \<and> j < base + n)"
| "in_columns base n CIndex = False"
| "in_columns base n (CPublic vs) = False"
| "in_columns base n (CSum cs) = list_all (in_columns base n) cs"

definition row_of :: "f64 list list \<Rightarrow> nat \<Rightarrow> nat \<Rightarrow> nat \<Rightarrow> f64 list" where
  "row_of cols base n z = map (\<lambda>c. cols ! (base + c) ! z) [0..<n]"

lemma dot_update: "i < length cs \<Longrightarrow> length cs = length vs \<Longrightarrow>
    sum_list (map2 (*) (cs[i := cs ! i + w]) vs) = sum_list (map2 (*) cs vs) + w * (vs ! i :: f192)"
proof (induction cs vs arbitrary: i rule: list_induct2')
  case (4 c cs v vs)
  then show ?case by (cases i) (simp_all add: algebra_simps)
qed simp_all

lemma form_wfD: "form_wf n f \<Longrightarrow> length (bf_coeffs f) = n"
  by (simp add: form_wf_def)

lemma add_coeff_wf: "form_wf n f \<Longrightarrow> form_wf n (add_coeff l w f)"
  by (simp add: form_wf_def add_coeff_def)

lemma add_coeff_form:
  assumes "form_wf n f" "l < n" "length vals = n"
  shows "form_value (add_coeff l w f) vals = form_value f vals + w * vals ! l"
proof -
  have "sum_list (map2 (*) ((bf_coeffs f)[l := bf_coeffs f ! l + w]) vals) = sum_list (map2 (*) (bf_coeffs f) vals) + w * vals ! l"
    by (rule dot_update) (use assms in \<open>simp_all add: form_wf_def\<close>)
  then show "form_value (add_coeff l w f) vals = form_value f vals + w * vals ! l"
    by (simp add: form_value_def add_coeff_def add_ac)
qed

lemma row_of_length [simp]: "length (row_of cols base n z) = n"
  by (simp add: row_of_def)

lemma accumulate_form_value:
  "in_columns base n c \<Longrightarrow> form_wf n f \<Longrightarrow>
    \<exists>f'. accumulate_form c w base f = Some f' \<and> form_wf n f' \<and>
      (\<forall>cols z. form_value f' (map f192_from (row_of cols base n z)) =
        form_value f (map f192_from (row_of cols base n z)) + w * f192_from (coord_at cols z c))"
proof (induction c arbitrary: f)
  case (CSum cs)
  have "\<exists>f'. fold (\<lambda>c f. Option.bind f (accumulate_form c w base)) ds (Some f) = Some f' \<and> form_wf n f' \<and>
      (\<forall>cols z. form_value f' (map f192_from (row_of cols base n z)) =
        form_value f (map f192_from (row_of cols base n z)) + w * f192_from (\<Sum>c\<leftarrow>ds. coord_at cols z c))"
    if "set ds \<subseteq> set cs" "form_wf n f" for ds f
    using that
  proof (induction ds arbitrary: f)
    case (Cons d ds)
    then have "d \<in> set cs" "in_columns base n d" using CSum.prems(1) by (auto simp: list_all_iff)
    from CSum.IH [OF this Cons.prems(2)] obtain f1 where f1: "accumulate_form d w base f = Some f1" "form_wf n f1"
      "\<And>cols z. form_value f1 (map f192_from (row_of cols base n z)) =
        form_value f (map f192_from (row_of cols base n z)) + w * f192_from (coord_at cols z d)" by blast
    from Cons.IH [OF _ f1(2)] Cons.prems(1) show ?case using f1(1,3) by (auto simp: f192_from_hom distrib_left ac_simps)
  qed (simp add: f192_from_hom)
  from this [OF order_refl CSum.prems(2)] show ?case by simp
next
  case (CCol i)
  then obtain l where l: "i = base + l" "l < n" by (auto dest: le_Suc_ex)
  then show ?case using add_coeff_form [OF CCol.prems(2) l(2)] form_wfD [OF CCol.prems(2)] add_coeff_wf [OF CCol.prems(2)]
    by (simp add: row_of_def)
next
  case (CGCol i k)
  then obtain l where l: "i = base + l" "l < n" by (auto dest: le_Suc_ex)
  then show ?case
    using add_coeff_form [OF CGCol.prems(2) l(2)] form_wfD [OF CGCol.prems(2)] add_coeff_wf [OF CGCol.prems(2)]
    by (simp add: row_of_def mul_base_from g_pow_power f192_from_hom mult.assoc)
next
  case (CProd i j k)
  then obtain l m where "i = base + l" "l < n" "j = base + m" "m < n" by (auto dest!: le_Suc_ex)
  then show ?case using CProd.prems(2)
    by (simp add: form_wf_def form_value_def row_of_def mul_base_from g_pow_power f192_from_hom algebra_simps)
next
  case (CConst v)
  then show ?case by (simp add: form_wf_def form_value_def mul_base_from algebra_simps)
qed simp_all

text \<open>A whole block at a selector weight, as one step of the decomposition adds it.\<close>

definition add_block :: "block \<Rightarrow> f192 list \<Rightarrow> f192 \<Rightarrow> f192 \<Rightarrow> nat \<Rightarrow> bus_form \<Rightarrow> bus_form option" where
  "add_block b w beta eq_hi base f =
    fold (\<lambda>(i, c) f. Option.bind f (accumulate_form c (eq_hi * w ! i) base)) (enumerate 0 (bl_coords b))
      (Some (f\<lparr>bf_constant := bf_constant f + eq_hi * beta\<rparr>))"

lemma add_block_value:
  assumes "list_all (in_columns base n) (bl_coords b)" "form_wf n f" "length (bl_coords b) \<le> length w"
  shows "\<exists>f'. add_block b w beta eq_hi base f = Some f' \<and> form_wf n f' \<and>
    (\<forall>cols z. form_value f' (map f192_from (row_of cols base n z)) =
      form_value f (map f192_from (row_of cols base n z)) + eq_hi * fingerprint w beta (tuple_at cols b z))"
proof -
  have step: "\<exists>f'. fold (\<lambda>(i, c) f. Option.bind f (accumulate_form c (eq_hi * ws ! i) base)) (enumerate 0 cs) (Some f) = Some f' \<and>
      form_wf n f' \<and> (\<forall>cols z. form_value f' (map f192_from (row_of cols base n z)) = form_value f (map f192_from (row_of cols base n z)) +
        eq_hi * sum_list (map2 (\<lambda>wi v. wi * f192_from v) ws (map (coord_at cols z) cs)))"
    if "list_all (in_columns base n) cs" "form_wf n f" "length cs \<le> length ws" for cs ws f
    using that
  proof (induction cs arbitrary: ws f)
    case (Cons c cs)
    then obtain v vs where ws: "ws = v # vs" by (cases ws) simp_all
    from accumulate_form_value [of base n c f "eq_hi * v"] Cons.prems obtain f1 where
      f1: "accumulate_form c (eq_hi * v) base f = Some f1" "form_wf n f1"
      "\<And>cols z. form_value f1 (map f192_from (row_of cols base n z)) =
        form_value f (map f192_from (row_of cols base n z)) + eq_hi * v * f192_from (coord_at cols z c)" by auto
    have "fold (\<lambda>(i, c) f. Option.bind f (accumulate_form c (eq_hi * ws ! i) base)) (enumerate 0 (c # cs)) (Some f) =
        fold (\<lambda>(i, c) f. Option.bind f (accumulate_form c (eq_hi * vs ! i) base)) (enumerate 0 cs) (Some f1)"
      unfolding enumerate_fold [of "\<lambda>i c f. Option.bind f (accumulate_form c (eq_hi * ws ! i) base)"]
        enumerate_fold [of "\<lambda>i c f. Option.bind f (accumulate_form c (eq_hi * vs ! i) base)"]
      by (simp add: ws upt_conv_Cons fold_map comp_def f1(1) flip: map_Suc_upt del: upt_Suc)
    with Cons.IH [OF _ f1(2), of vs] Cons.prems f1(3) show ?case by (auto simp: ws distrib_left add.assoc mult.assoc)
  qed simp
  have "form_wf n (f\<lparr>bf_constant := bf_constant f + eq_hi * beta\<rparr>)" using assms(2) by (simp add: form_wf_def)
  from step [OF assms(1) this assms(3)] show ?thesis
    by (auto simp: add_block_def form_value_def fingerprint_def tuple_at_def distrib_left add_ac)
qed

end
