(* ===== verification/Decompose.thy ===== *)
theory Decompose
  imports Leaf "HOL-Library.Product_Lexorder"
begin

text \<open>
  A side of the bus at the point of its product tree: the walk over its blocks that opens the framework's columns and adds
  the tables' blocks to their forms, as the prover and the verifier run it, and the tables' sums.
\<close>

section \<open>Decomposing a side\<close>

datatype bus_error = Truncated | ZeroCount | GkrError

datatype bus_fail = BusPanic | BusFailed bus_error

record column_claim =
  cc_col :: nat
  cc_point :: "f192 list"
  cc_value :: f192

definition known_claim :: "column_claim list \<Rightarrow> nat \<Rightarrow> f192 list \<Rightarrow> f192 option" where
  "known_claim claims col point = map_option cc_value (find (\<lambda>c. cc_col c = col \<and> cc_point c = point) claims)"

text \<open>Evaluations of public columns, kept per column and number of variables: one point serves a whole cache.\<close>

type_synonym public_evals = "f64 list \<times> nat \<Rightarrow> f192 option"

definition public_eval :: "f64 list \<Rightarrow> f192 list \<Rightarrow> public_evals \<Rightarrow> f192 \<times> public_evals" where
  "public_eval vals point cache =
    (case cache (vals, length point) of
       Some v \<Rightarrow> (v, cache)
     | None \<Rightarrow> (let v = mle_eval_par vals point in (v, cache((vals, length point) \<mapsto> v))))"

record 's decomp =
  dc_forms :: "bus_form list"
  dc_claims :: "column_claim list"
  dc_public :: public_evals
  dc_stream :: 's

definition with_stream :: "'t \<Rightarrow> 's decomp \<Rightarrow> 't decomp" where
  "with_stream s st = \<lparr>dc_forms = dc_forms st, dc_claims = dc_claims st, dc_public = dc_public st, dc_stream = s\<rparr>"

type_synonym 's fresh = "nat \<Rightarrow> f192 list \<Rightarrow> 's \<Rightarrow> (bus_fail, f192 \<times> 's) result"

definition col_val :: "'s fresh \<Rightarrow> nat \<Rightarrow> f192 list \<Rightarrow> 's decomp \<Rightarrow> (bus_fail, f192 \<times> 's decomp) result" where
  "col_val fresh i zeta_lo st =
    (case known_claim (dc_claims st) i zeta_lo of
       Some v \<Rightarrow> Inr (v, st)
     | None \<Rightarrow> res_bind (fresh i zeta_lo (dc_stream st)) (\<lambda>(v, s).
         Inr (v, st\<lparr>dc_claims := dc_claims st @ [\<lparr>cc_col = i, cc_point = zeta_lo, cc_value = v\<rparr>], dc_stream := s\<rparr>)))"

fun coord_val :: "'s fresh \<Rightarrow> f192 list \<Rightarrow> coord \<Rightarrow> 's decomp \<Rightarrow> (bus_fail, f192 \<times> 's decomp) result" where
  "coord_val fresh zeta_lo (CConst v) st = Inr (f192_from v, st)"
| "coord_val fresh zeta_lo CIndex st = Inr (index_mle zeta_lo, st)"
| "coord_val fresh zeta_lo (CCol i) st = col_val fresh i zeta_lo st"
| "coord_val fresh zeta_lo (CGCol i k) st = res_bind (col_val fresh i zeta_lo st) (\<lambda>(v, st). Inr (mul_base v (g_pow k), st))"
| "coord_val fresh zeta_lo (CProd i j k) st = Inl BusPanic"
| "coord_val fresh zeta_lo (CSum cs) st = Inl BusPanic"
| "coord_val fresh zeta_lo (CPublic vs) st = (let (v, cache) = public_eval vs zeta_lo (dc_public st) in Inr (v, st\<lparr>dc_public := cache\<rparr>))"

fun inner_loop :: "'s fresh \<Rightarrow> f192 list \<Rightarrow> (f192 \<times> coord) list \<Rightarrow> f192 \<Rightarrow> 's decomp \<Rightarrow> (bus_fail, f192 \<times> 's decomp) result" where
  "inner_loop fresh zeta_lo [] inner st = Inr (inner, st)"
| "inner_loop fresh zeta_lo ((wi, c) # cs) inner st =
    res_bind (coord_val fresh zeta_lo c st) (\<lambda>(v, st). inner_loop fresh zeta_lo cs (inner + wi * v) st)"

definition selector :: "nat \<Rightarrow> nat \<Rightarrow> nat \<Rightarrow> f192 list" where
  "selector off kappa n = map (\<lambda>k. F192 (of_nat (drop_bit k (drop_bit kappa off) mod 2)) 0 0) [0..<n]"

text \<open>One block: a table's adds to its form, a framework block opens its columns.\<close>

definition decompose_block ::
  "'s fresh \<Rightarrow> f192 list \<Rightarrow> f192 list \<Rightarrow> f192 \<Rightarrow> nat \<Rightarrow> block \<times> nat \<times> (nat \<times> nat) option \<Rightarrow> f192 \<times> f192 \<times> 's decomp \<Rightarrow>
    (bus_fail, f192 \<times> f192 \<times> 's decomp) result" where
  "decompose_block fresh zeta w beta mu item acc =
    (let (b, off, owner) = item; (acc, sel_sum, st) = acc;
         kappa = bl_kappa b; zeta_lo = take kappa zeta; zeta_hi = drop kappa zeta;
         eq_hi = eq_eval (selector off kappa (mu - kappa)) zeta_hi;
         sel_sum = sel_sum + eq_hi
     in case owner of
          Some (t, base) \<Rightarrow>
            (case add_block b w beta eq_hi base (dc_forms st ! t) of
               None \<Rightarrow> Inl BusPanic
             | Some form \<Rightarrow> Inr (acc, sel_sum, st\<lparr>dc_forms := (dc_forms st)[t := form]\<rparr>))
        | None \<Rightarrow>
            res_bind (inner_loop fresh zeta_lo (zip w (bl_coords b)) f192_zero st) (\<lambda>(inner, st).
              Inr (acc + eq_hi * (beta + inner), sel_sum, st)))"

fun decompose_blocks ::
  "'s fresh \<Rightarrow> f192 list \<Rightarrow> f192 list \<Rightarrow> f192 \<Rightarrow> nat \<Rightarrow> (block \<times> nat \<times> (nat \<times> nat) option) list \<Rightarrow> f192 \<times> f192 \<times> 's decomp \<Rightarrow>
    (bus_fail, f192 \<times> f192 \<times> 's decomp) result" where
  "decompose_blocks fresh zeta w beta mu [] acc = Inr acc"
| "decompose_blocks fresh zeta w beta mu (item # items) acc =
    res_bind (decompose_block fresh zeta w beta mu item acc) (decompose_blocks fresh zeta w beta mu items)"

definition decompose_formula ::
  "'s fresh \<Rightarrow> block list \<Rightarrow> bus_layout \<Rightarrow> f192 list \<Rightarrow> f192 list \<Rightarrow> f192 \<Rightarrow> (nat \<times> nat) option list \<Rightarrow> 's decomp \<Rightarrow>
    (bus_fail, f192 \<times> 's decomp) result" where
  "decompose_formula fresh blocks lay zeta w beta owners st =
    (if length zeta = bus_mu lay
     then res_bind (decompose_blocks fresh zeta w beta (bus_mu lay) (zip blocks (zip (bus_offsets lay) owners)) (f192_zero, f192_zero, st))
       (\<lambda>(acc, sel_sum, st). Inr (acc + (f192_one + sel_sum), st))
     else Inl BusPanic)"

text \<open>The prover evaluates the fresh columns in a first pass and replays them in order, writing each on its stream.\<close>

fun coord_column :: "coord \<Rightarrow> nat option" where
  "coord_column (CCol i) = Some i"
| "coord_column (CGCol i k) = Some i"
| "coord_column _ = None"

definition add_job :: "column_claim list \<Rightarrow> f192 list \<Rightarrow> nat \<Rightarrow> coord \<Rightarrow> (nat \<times> nat) list \<Rightarrow> (nat \<times> nat) list" where
  "add_job claims zeta kappa c jobs =
    (case coord_column c of
       None \<Rightarrow> jobs
     | Some i \<Rightarrow>
         (if known_claim claims i (take kappa zeta) = None \<and> (i, kappa) \<notin> set jobs then jobs @ [(i, kappa)] else jobs))"

definition prove_jobs :: "column_claim list \<Rightarrow> f192 list \<Rightarrow> block list \<Rightarrow> (nat \<times> nat) option list \<Rightarrow> (nat \<times> nat) list" where
  "prove_jobs claims zeta blocks owners =
    fold (\<lambda>(b, owner) jobs. if owner \<noteq> None then jobs else fold (add_job claims zeta (bl_kappa b)) (bl_coords b) jobs)
      (zip blocks owners) []"

record prover_stream =
  ps_jobs :: "f192 list"
  ps_scalars :: "f192 list"

definition replay :: "prover_stream fresh" where
  "replay i zeta_lo ps =
    (case ps_jobs ps of
       [] \<Rightarrow> Inl BusPanic
     | v # vs \<Rightarrow> Inr (v, \<lparr>ps_jobs = vs, ps_scalars = ps_scalars ps @ [v]\<rparr>))"

definition decompose_prove ::
  "block list \<Rightarrow> bus_layout \<Rightarrow> f64 list list \<Rightarrow> f192 list \<Rightarrow> f192 list \<Rightarrow> f192 \<Rightarrow> (nat \<times> nat) option list \<Rightarrow> f192 list decomp \<Rightarrow>
    (bus_fail, f192 \<times> f192 list decomp) result" where
  "decompose_prove blocks lay cols zeta w beta owners st =
    (let jobs = prove_jobs (dc_claims st) zeta blocks owners;
         vals = map (\<lambda>(col, kappa). mle_eval (cols ! col) (take kappa zeta)) jobs;
         st' = with_stream \<lparr>ps_jobs = vals, ps_scalars = dc_stream st\<rparr> st
     in res_bind (decompose_formula replay blocks lay zeta w beta owners st') (\<lambda>(v, st).
          Inr (v, with_stream (ps_scalars (dc_stream st)) st)))"

text \<open>The verifier reads them.\<close>

definition next_scalar :: "f192 list fresh" where
  "next_scalar i zeta_lo stream = (case stream of [] \<Rightarrow> Inl (BusFailed Truncated) | v # vs \<Rightarrow> Inr (v, vs))"

definition decompose_verify ::
  "block list \<Rightarrow> bus_layout \<Rightarrow> f192 list \<Rightarrow> f192 list \<Rightarrow> f192 \<Rightarrow> (nat \<times> nat) option list \<Rightarrow> f192 list decomp \<Rightarrow>
    (bus_fail, f192 \<times> f192 list decomp) result" where
  "decompose_verify = decompose_formula next_scalar"

text \<open>The three sides in turn, each on its own forms, with the claims, the evaluations and the stream threaded through.\<close>

type_synonym side = "block list \<times> bus_layout \<times> f192 list \<times> f192"

definition bus_sides :: "block list list \<Rightarrow> bus_layout list \<Rightarrow> f192 list \<Rightarrow> f192 list \<Rightarrow> f192 \<Rightarrow> side list" where
  "bus_sides blocks lays w count_w beta =
    [(blocks ! 0, lays ! 0, w, beta), (blocks ! 1, lays ! 1, w, beta), (blocks ! 2, lays ! 2, count_w, f192_zero)]"

type_synonym 's decomposer =
  "block list \<Rightarrow> bus_layout \<Rightarrow> f192 list \<Rightarrow> f192 \<Rightarrow> (nat \<times> nat) option list \<Rightarrow> 's decomp \<Rightarrow> (bus_fail, f192 \<times> 's decomp) result"

fun decompose_sides ::
  "'s decomposer \<Rightarrow> (nat \<times> nat) list \<Rightarrow> (side \<times> (nat \<times> nat) option list) list \<Rightarrow> column_claim list \<Rightarrow> public_evals \<Rightarrow> 's \<Rightarrow>
    (bus_fail, (f192 \<times> bus_form list) list \<times> column_claim list \<times> 's) result" where
  "decompose_sides run tabs [] claims public stream = Inr ([], claims, stream)"
| "decompose_sides run tabs (((blocks, lay, w, beta), owners) # sides) claims public stream =
    res_bind (run blocks lay w beta owners
      \<lparr>dc_forms = map (\<lambda>(base, n). bf_new n) tabs, dc_claims = claims, dc_public = public, dc_stream = stream\<rparr>)
      (\<lambda>(framework, st). res_bind (decompose_sides run tabs sides (dc_claims st) (dc_public st) (dc_stream st))
        (\<lambda>(rest, claims, stream). Inr ((framework, dc_forms st) # rest, claims, stream)))"

text \<open>The tables' columns and products of columns at the point.\<close>

definition form_pairs :: "bus_form list \<Rightarrow> (nat \<times> nat) list" where
  "form_pairs forms = remdups (sort (concat (map (\<lambda>f. map (\<lambda>(a, b, c). (a, b)) (bf_prods f)) forms)))"

definition weighted_sum :: "f192 list \<Rightarrow> f64 list \<Rightarrow> f192" where
  "weighted_sum weights vals = f192u_reduce (dot_unreduced_k weights vals)"

definition table_sums :: "f64 list list \<Rightarrow> nat \<Rightarrow> nat \<Rightarrow> bus_form list \<Rightarrow> f192 list \<Rightarrow> (f192 list \<times> (nat \<times> nat \<times> f192) list) option" where
  "table_sums cols base n forms zeta =
    map_option (\<lambda>tau.
      let eq = eq_table (take tau zeta)
      in (map (\<lambda>c. weighted_sum eq (cols ! (base + c))) [0..<n],
          map (\<lambda>(a, b). (a, b, weighted_sum eq (map2 (*) (cols ! (base + a)) (cols ! (base + b))))) (form_pairs forms)))
      (log2_strict (length (cols ! base)))"

definition tables_and_prods_at ::
  "f64 list list \<Rightarrow> (nat \<times> nat) list \<Rightarrow> bus_form list list \<Rightarrow> f192 list \<Rightarrow> (f192 list \<times> (nat \<times> nat \<times> f192) list) list option" where
  "tables_and_prods_at cols tabs forms zeta =
    those (map (\<lambda>(t, base, n). table_sums cols base n (map (\<lambda>side. side ! t) forms) zeta) (enumerate 0 tabs))"

definition bus_sigmas :: "bus_form list \<Rightarrow> (f192 list \<times> (nat \<times> nat \<times> f192) list) list \<Rightarrow> f192 list option" where
  "bus_sigmas forms sums = those (map2 (\<lambda>f (evals, prods). bf_sum_at f evals prods) forms sums)"

section \<open>Equality weights over blocks\<close>

lemma sum_eq_weights: "sum_list (eq_weights p) = 1"
proof (induction p)
  case (Cons z zs)
  have "sum_list (concat (map (\<lambda>w. [(1 + z) * w, z * w]) ws)) = sum_list ws" for ws :: "f192 list"
    by (induction ws) (simp_all add: algebra_simps)
  then show ?case using Cons by simp
qed simp

lemma concat_uniform_nth:
  "\<lbrakk>\<forall>r\<in>set rows. length r = n; s < length rows; z < n\<rbrakk> \<Longrightarrow> concat rows ! (n * s + z) = rows ! s ! z"
proof (induction rows arbitrary: s)
  case (Cons r rows)
  then show ?case by (cases s) (simp_all add: nth_append)
qed simp

lemma eq_weights_block:
  assumes "z < 2 ^ length xs" "s < 2 ^ length ys"
  shows "eq_weights (xs @ ys) ! (2 ^ length xs * s + z) = eq_weights xs ! z * eq_weights ys ! s"
proof -
  have "concat (map (\<lambda>w. map ((*) w) (eq_weights xs)) (eq_weights ys)) ! (2 ^ length xs * s + z) =
      map (\<lambda>w. map ((*) w) (eq_weights xs)) (eq_weights ys) ! s ! z"
    by (rule concat_uniform_nth) (use assms in \<open>auto simp: length_eq_weights\<close>)
  then show ?thesis using assms by (simp add: eq_weights_append length_eq_weights mult.commute)
qed

lemma eq_eval_commute: "eq_eval r x = eq_eval x r"
proof -
  have "(\<Prod>(ri, xi)\<leftarrow>zip r x. 1 + ri + xi) = (\<Prod>(ri, xi)\<leftarrow>zip x r. 1 + ri + xi :: f192)"
    by (induction r x rule: list_induct2') (simp_all add: add_ac)
  then show ?thesis by (simp add: eq_eval_prod)
qed

lemma selector_corner: "selector off kappa n = corner n (off div 2 ^ kappa)"
proof -
  have "F192 (of_nat (m mod 2)) 0 0 = (if odd m then 1 else 0)" for m :: nat
    by (cases "even m") (simp_all add: one_f192_def f192_one_def zero_f192_def f192_zero_def odd_iff_mod_2_eq_one)
  then show ?thesis
    by (simp add: selector_def corner_def bit_iff_odd drop_bit_eq_div flip: drop_bit_drop_bit)
qed

lemma selector_weight:
  assumes "off div 2 ^ kappa < 2 ^ n" "length zeta_hi = n"
  shows "eq_eval (selector off kappa n) zeta_hi = eq_weights zeta_hi ! (off div 2 ^ kappa)"
  using assms eq_weights_nth [of "off div 2 ^ kappa" zeta_hi] by (simp add: selector_corner eq_eval_commute)

lemma mle_sum: "length vals = 2 ^ length p \<Longrightarrow> mle vals p = (\<Sum>x<2 ^ length p. eq_weights p ! x * vals ! x)"
  unfolding mle_def by (subst sum_list_nth) (simp_all add: length_eq_weights interv_sum_list_conv_sum_set_nat atLeast0LessThan)

lemma eq_weights_total: "(\<Sum>x<2 ^ length p. eq_weights p ! x) = 1"
  using sum_eq_weights [of p] by (simp add: sum_list_sum_nth length_eq_weights atLeast0LessThan)

text \<open>The leaf vector, padded with ones to the full depth, at a point.\<close>

lemma mle_of_blocks:
  assumes place: "bus_place blocks = Some lay" and small: "\<forall>b\<in>set blocks. bl_kappa b < 64"
    and zeta: "length zeta = mu" and mu: "bus_mu lay \<le> mu" and N: "length leaves = (\<Sum>b\<leftarrow>blocks. 2 ^ bl_kappa b)"
    and at: "\<And>i z. \<lbrakk>i < length blocks; z < 2 ^ bl_kappa (blocks ! i)\<rbrakk> \<Longrightarrow> leaves ! (bus_offsets lay ! i + z) = L i z"
  defines "sel \<equiv> \<lambda>i. eq_eval (selector (bus_offsets lay ! i) (bl_kappa (blocks ! i)) (mu - bl_kappa (blocks ! i)))
    (drop (bl_kappa (blocks ! i)) zeta)"
  shows "mle (leaves @ replicate (2 ^ mu - length leaves) 1) zeta =
    (\<Sum>i<length blocks. sel i * (\<Sum>z<2 ^ bl_kappa (blocks ! i). eq_weights (take (bl_kappa (blocks ! i)) zeta) ! z * L i z)) +
    (1 + (\<Sum>i<length blocks. sel i))"
proof -
  note t = bus_place_tiles [OF place small] and c = spans_cover [OF place small]
  have t2: "(\<Sum>b\<leftarrow>blocks. 2 ^ bl_kappa b) \<le> (2 :: nat) ^ mu"
    using t(2) power_increasing [OF mu, of "2 :: nat"] by (meson le_trans one_le_numeral)
  let ?E = "\<lambda>x. eq_weights zeta ! x" and ?n = "length leaves"
  let ?P = "leaves @ replicate (2 ^ mu - ?n) 1"
  have le: "?n \<le> 2 ^ mu" using t2 N by simp
  have kap: "bl_kappa (blocks ! i) \<le> mu" if "i < length blocks" for i
  proof -
    have "2 ^ bl_kappa (blocks ! i) \<le> (2 :: nat) ^ mu" using t2 t(4) [OF that] by linarith
    then show ?thesis by simp
  qed
  have E: "?E (bus_offsets lay ! i + z) = sel i * eq_weights (take (bl_kappa (blocks ! i)) zeta) ! z"
    if i: "i < length blocks" "z < 2 ^ bl_kappa (blocks ! i)" for i z
  proof -
    let ?k = "bl_kappa (blocks ! i)" and ?off = "bus_offsets lay ! i"
    have k: "?k \<le> length zeta" using kap [OF i(1)] zeta by simp
    have off: "?off = 2 ^ ?k * (?off div 2 ^ ?k)" using t(3) [OF i(1)] by simp
    have "?off < 2 ^ mu" using t(4) [OF i(1)] t2 by (meson le_trans less_le_trans less_add_same_cancel1 zero_less_numeral zero_less_power)
    then have "?off < 2 ^ (mu - ?k) * 2 ^ ?k" using kap [OF i(1)] by (simp flip: power_add)
    then have s: "?off div 2 ^ ?k < 2 ^ (mu - ?k)" by (rule less_mult_imp_div_less)
    have "?E (?off + z) = eq_weights (take ?k zeta @ drop ?k zeta) ! (2 ^ length (take ?k zeta) * (?off div 2 ^ ?k) + z)"
      using off k by simp
    also have "\<dots> = eq_weights (take ?k zeta) ! z * eq_weights (drop ?k zeta) ! (?off div 2 ^ ?k)"
      by (rule eq_weights_block) (use i(2) k s zeta in simp_all)
    finally show ?thesis unfolding sel_def using selector_weight [OF s, of "drop ?k zeta"] zeta by simp
  qed
  have span: "(\<Sum>x\<in>block_span blocks lay i. f x) = (\<Sum>z<2 ^ bl_kappa (blocks ! i). f (bus_offsets lay ! i + z))"
    for i and f :: "nat \<Rightarrow> f192"
  proof -
    have "block_span blocks lay i = (+) (bus_offsets lay ! i) ` {..<2 ^ bl_kappa (blocks ! i)}"
      by (auto simp: block_span_def image_iff le_iff_add)
    then show ?thesis by (simp add: sum.reindex)
  qed
  have cover: "(\<Sum>x<?n. f x) = (\<Sum>i<length blocks. \<Sum>z<2 ^ bl_kappa (blocks ! i). f (bus_offsets lay ! i + z))" for f :: "nat \<Rightarrow> f192"
  proof -
    have "(\<Sum>x<?n. f x) = (\<Sum>x\<in>(\<Union>i<length blocks. block_span blocks lay i). f x)" by (simp add: N flip: c(1))
    also have "\<dots> = (\<Sum>i<length blocks. \<Sum>x\<in>block_span blocks lay i. f x)"
      by (rule sum.UNION_disjoint) (use c(2) in \<open>auto simp: block_span_def\<close>)
    finally show ?thesis by (simp add: span)
  qed
  have in_n: "bus_offsets lay ! i + z < ?n" if "i < length blocks" "z < 2 ^ bl_kappa (blocks ! i)" for i z
    using t(4) [OF that(1)] that(2) N by simp
  have split: "{..<2 ^ mu} = {..<?n} \<union> {?n..<2 ^ mu}" using le by auto
  have two: "(\<Sum>x<2 ^ mu. f x) = (\<Sum>x<?n. f x) + (\<Sum>x\<in>{?n..<2 ^ mu}. f x)" for f :: "nat \<Rightarrow> f192"
    unfolding split by (rule sum.union_disjoint) auto
  have "mle ?P zeta = (\<Sum>x<?n. ?E x * ?P ! x) + (\<Sum>x\<in>{?n..<2 ^ mu}. ?E x * ?P ! x)"
    using mle_sum [of ?P zeta] le zeta two by simp
  also have "(\<Sum>x\<in>{?n..<2 ^ mu}. ?E x * ?P ! x) = (\<Sum>x\<in>{?n..<2 ^ mu}. ?E x)"
    by (intro sum.cong) (auto simp: nth_append)
  also have "\<dots> = 1 + (\<Sum>x<?n. ?E x)"
    using eq_weights_total [of zeta] two [of ?E] zeta by (metis add.commute add.right_neutral add.assoc f192_char2)
  also have "(\<Sum>x<?n. ?E x) = (\<Sum>i<length blocks. sel i)"
  proof -
    have "(\<Sum>z<2 ^ bl_kappa (blocks ! i). ?E (bus_offsets lay ! i + z)) = sel i" if "i < length blocks" for i
      using eq_weights_total [of "take (bl_kappa (blocks ! i)) zeta"] kap [OF that] zeta E [OF that]
      by (simp add: min_absorb2 flip: sum_distrib_left)
    then show ?thesis by (simp add: cover)
  qed
  also have "(\<Sum>x<?n. ?E x * ?P ! x) =
      (\<Sum>i<length blocks. sel i * (\<Sum>z<2 ^ bl_kappa (blocks ! i). eq_weights (take (bl_kappa (blocks ! i)) zeta) ! z * L i z))"
    unfolding cover by (intro sum.cong refl) (simp add: sum_distrib_left E at in_n nth_append mult.assoc)
  finally show ?thesis by simp
qed

section \<open>Framework blocks\<close>

text \<open>The coordinates a framework block may carry, with columns of its own height.\<close>

fun frame_coord :: "f64 list list \<Rightarrow> nat \<Rightarrow> coord \<Rightarrow> bool" where
  "frame_coord cols kappa (CConst v) = True"
| "frame_coord cols kappa CIndex = True"
| "frame_coord cols kappa (CCol i) = (length (cols ! i) = 2 ^ kappa)"
| "frame_coord cols kappa (CGCol i k) = (length (cols ! i) = 2 ^ kappa)"
| "frame_coord cols kappa (CPublic vs) = (length vs = 2 ^ kappa)"
| "frame_coord cols kappa _ = False"

definition claims_ok :: "f64 list list \<Rightarrow> column_claim list \<Rightarrow> bool" where
  "claims_ok cols claims \<longleftrightarrow> (\<forall>c\<in>set claims. cc_value c = mle_eval (cols ! cc_col c) (cc_point c))"

definition cache_ok :: "f192 list \<Rightarrow> public_evals \<Rightarrow> bool" where
  "cache_ok zeta cache \<longleftrightarrow> (\<forall>vs n v. cache (vs, n) = Some v \<longrightarrow> v = mle_eval_par vs (take n zeta))"

lemma known_claim_ok: "claims_ok cols claims \<Longrightarrow> known_claim claims i p = Some v \<Longrightarrow> v = mle_eval (cols ! i) p"
  using nth_mem by (fastforce simp: claims_ok_def known_claim_def find_Some_iff)

lemma public_eval_ok:
  assumes "cache_ok zeta cache" "k \<le> length zeta" "public_eval vs (take k zeta) cache = (v, cache')"
  shows "v = mle_eval_par vs (take k zeta)" "cache_ok zeta cache'"
  using assms by (auto simp: public_eval_def cache_ok_def Let_def min_absorb2 split: option.splits if_splits)

text \<open>The weighted value of a coordinate over its block.\<close>

definition coord_sum :: "f64 list list \<Rightarrow> f192 list \<Rightarrow> coord \<Rightarrow> f192" where
  "coord_sum cols p c = (\<Sum>z<2 ^ length p. eq_weights p ! z * f192_from (coord_at cols z c))"

lemma mle_eval_sum: "length vs = 2 ^ length p \<Longrightarrow> mle_eval vs p = (\<Sum>z<2 ^ length p. eq_weights p ! z * f192_from (vs ! z))"
  by (simp add: mle_eval_mle mle_sum)

lemma coord_sum_value:
  "coord_sum cols p (CConst v) = f192_from v" "coord_sum cols p CIndex = index_mle p"
  "length (cols ! i) = 2 ^ length p \<Longrightarrow> coord_sum cols p (CCol i) = mle_eval (cols ! i) p"
  "length (cols ! i) = 2 ^ length p \<Longrightarrow> coord_sum cols p (CGCol i k) = mul_base (mle_eval (cols ! i) p) (g_pow k)"
  "length vs = 2 ^ length p \<Longrightarrow> coord_sum cols p (CPublic vs) = mle_eval_par vs p"
proof -
  show "coord_sum cols p (CConst v) = f192_from v"
    using eq_weights_total [of p] by (simp add: coord_sum_def flip: sum_distrib_right)
  show "coord_sum cols p CIndex = index_mle p"
    unfolding index_mle_eq index_sum_def coord_sum_def
    by (subst sum_list_nth) (simp_all add: length_eq_weights interv_sum_list_conv_sum_set_nat atLeast0LessThan)
  show col: "coord_sum cols p (CCol i) = mle_eval (cols ! i) p" if "length (cols ! i) = 2 ^ length p" for i
    using that by (simp add: coord_sum_def mle_eval_sum)
  show "coord_sum cols p (CGCol i k) = mul_base (mle_eval (cols ! i) p) (g_pow k)" if "length (cols ! i) = 2 ^ length p"
    using that by (simp add: coord_sum_def mle_eval_sum mul_base_from g_pow_power f192_from_hom sum_distrib_left mult_ac)
  show "coord_sum cols p (CPublic vs) = mle_eval_par vs p" if "length vs = 2 ^ length p"
    using that by (simp add: coord_sum_def mle_eval_par_mle mle_sum)
qed

text \<open>
  Along the prover's second pass the jobs done so far are the claims added and the scalars written; the jobs left are those
  of the rest of the walk.
\<close>

definition claim_of :: "f64 list list \<Rightarrow> f192 list \<Rightarrow> nat \<times> nat \<Rightarrow> column_claim" where
  "claim_of cols zeta job = \<lparr>cc_col = fst job, cc_point = take (snd job) zeta, cc_value = mle_eval (cols ! fst job) (take (snd job) zeta)\<rparr>"

definition job_value :: "f64 list list \<Rightarrow> f192 list \<Rightarrow> nat \<times> nat \<Rightarrow> f192" where
  "job_value cols zeta job = mle_eval (cols ! fst job) (take (snd job) zeta)"

definition replaying ::
  "f64 list list \<Rightarrow> f192 list \<Rightarrow> column_claim list \<Rightarrow> f192 list \<Rightarrow> (nat \<times> nat) list \<Rightarrow> (nat \<times> nat) list \<Rightarrow> prover_stream decomp \<Rightarrow> bool" where
  "replaying cols zeta claims scalars all jobs st \<longleftrightarrow>
    dc_claims st = claims @ map (claim_of cols zeta) jobs \<and> claims_ok cols claims \<and> cache_ok zeta (dc_public st) \<and>
    ps_jobs (dc_stream st) = map (job_value cols zeta) (drop (length jobs) all) \<and>
    ps_scalars (dc_stream st) = scalars @ map (job_value cols zeta) jobs \<and> (\<forall>(i, k)\<in>set jobs. k \<le> length zeta)"

lemma find_append: "find P (xs @ ys) = (case find P xs of None \<Rightarrow> find P ys | Some x \<Rightarrow> Some x)"
  by (induction xs) auto

lemma known_claim_jobs:
  assumes "k \<le> length zeta" "\<forall>(i, k)\<in>set jobs. k \<le> length zeta"
  shows "known_claim (claims @ map (claim_of cols zeta) jobs) i (take k zeta) = None \<longleftrightarrow>
    known_claim claims i (take k zeta) = None \<and> (i, k) \<notin> set jobs"
proof -
  have "take k' zeta = take k zeta \<longleftrightarrow> k' = k" if "k' \<le> length zeta" for k'
    using that assms(1) by (metis length_take min_absorb2)
  then have "find (\<lambda>c. cc_col c = i \<and> cc_point c = take k zeta) (map (claim_of cols zeta) jobs) = None \<longleftrightarrow> (i, k) \<notin> set jobs"
    using assms(2) by (auto simp: find_None_iff claim_of_def)
  then show ?thesis by (auto simp: known_claim_def find_append split: option.splits)
qed

lemma claims_ok_jobs: "claims_ok cols claims \<Longrightarrow> claims_ok cols (claims @ map (claim_of cols zeta) jobs)"
  by (auto simp: claims_ok_def claim_of_def)

lemma replay_col:
  assumes r: "replaying cols zeta claims scalars all jobs st" and k: "k \<le> length zeta"
    and j: "jobs' = (if known_claim claims i (take k zeta) = None \<and> (i, k) \<notin> set jobs then jobs @ [(i, k)] else jobs)"
    and all: "all = jobs' @ rest"
  shows "\<exists>st'. col_val replay i (take k zeta) st = Inr (mle_eval (cols ! i) (take k zeta), st') \<and>
    replaying cols zeta claims scalars all jobs' st' \<and> dc_forms st' = dc_forms st \<and> dc_public st' = dc_public st"
proof (cases "known_claim (dc_claims st) i (take k zeta)")
  case (Some v)
  have "v = mle_eval (cols ! i) (take k zeta)"
    using known_claim_ok [OF _ Some] claims_ok_jobs r by (simp add: replaying_def)
  moreover have "jobs' = jobs"
    using Some r known_claim_jobs [OF k, of jobs claims cols i] j by (auto simp: replaying_def)
  ultimately show ?thesis using Some r by (simp add: col_val_def)
next
  case None
  then have j': "jobs' = jobs @ [(i, k)]"
    using r known_claim_jobs [OF k, of jobs claims cols i] j by (auto simp: replaying_def)
  then have "drop (length jobs) all = (i, k) # rest" using all by simp
  then show ?thesis
    using None r k j' all
    by (auto simp: col_val_def replay_def replaying_def job_value_def claim_of_def drop_append)
qed

lemma replay_coord:
  assumes r: "replaying cols zeta claims scalars all jobs st" and k: "k \<le> length zeta" and c: "frame_coord cols k c"
    and all: "all = add_job claims zeta k c jobs @ rest"
  shows "\<exists>st'. coord_val replay (take k zeta) c st = Inr (coord_sum cols (take k zeta) c, st') \<and>
    replaying cols zeta claims scalars all (add_job claims zeta k c jobs) st' \<and> dc_forms st' = dc_forms st"
proof -
  have l: "length (take k zeta) = k" using k by simp
  show ?thesis
  proof (cases c)
    case (CCol i)
    have j: "add_job claims zeta k c jobs = (if known_claim claims i (take k zeta) = None \<and> (i, k) \<notin> set jobs then jobs @ [(i, k)] else jobs)"
      by (simp add: add_job_def CCol)
    show ?thesis using replay_col [OF r k j all] c coord_sum_value(3) l by (auto simp: CCol)
  next
    case (CGCol i n)
    have j: "add_job claims zeta k c jobs = (if known_claim claims i (take k zeta) = None \<and> (i, k) \<notin> set jobs then jobs @ [(i, k)] else jobs)"
      by (simp add: add_job_def CGCol)
    show ?thesis using replay_col [OF r k j all] c coord_sum_value(4) l by (auto simp: CGCol)
  next
    case (CPublic vs)
    obtain v cache where p: "public_eval vs (take k zeta) (dc_public st) = (v, cache)" by fastforce
    have "cache_ok zeta (dc_public st)" using r by (simp add: replaying_def)
    note ok = public_eval_ok [OF this k p]
    show ?thesis using ok c l r coord_sum_value(5) [of vs "take k zeta"] p
      by (auto simp: CPublic add_job_def replaying_def Let_def)
  next
    case (CConst v)
    then show ?thesis using r by (simp add: add_job_def coord_sum_value)
  next
    case CIndex
    then show ?thesis using r by (simp add: add_job_def coord_sum_value)
  qed (use c in simp_all)
qed

lemma add_job_prefix: "\<exists>more. add_job claims zeta k c jobs = jobs @ more"
  by (auto simp: add_job_def split: option.splits)

lemma add_jobs_prefix: "\<exists>more. fold (add_job claims zeta k) cs jobs = jobs @ more"
proof (induction cs arbitrary: jobs)
  case (Cons c cs)
  obtain m where "add_job claims zeta k c jobs = jobs @ m" using add_job_prefix by blast
  then show ?case using Cons.IH [of "jobs @ m"] by auto
qed simp

lemma replay_inner:
  assumes "replaying cols zeta claims scalars all jobs st" "k \<le> length zeta" "list_all (frame_coord cols k) cs"
    and "all = fold (add_job claims zeta k) cs jobs @ rest" "length cs \<le> length ws"
  shows "\<exists>st'. inner_loop replay (take k zeta) (zip ws cs) inner st =
      Inr (inner + sum_list (map2 (\<lambda>w c. w * coord_sum cols (take k zeta) c) ws cs), st') \<and>
    replaying cols zeta claims scalars all (fold (add_job claims zeta k) cs jobs) st' \<and> dc_forms st' = dc_forms st"
  using assms
proof (induction cs arbitrary: ws jobs inner st)
  case (Cons c cs)
  then obtain w ws' where ws: "ws = w # ws'" by (cases ws) simp_all
  obtain more where "fold (add_job claims zeta k) cs (add_job claims zeta k c jobs) = add_job claims zeta k c jobs @ more"
    using add_jobs_prefix by blast
  then have "all = add_job claims zeta k c jobs @ (more @ rest)" using Cons.prems(4) by simp
  from replay_coord [OF Cons.prems(1,2) _ this] Cons.prems(3) obtain st1 where
    st1: "coord_val replay (take k zeta) c st = Inr (coord_sum cols (take k zeta) c, st1)"
      "replaying cols zeta claims scalars all (add_job claims zeta k c jobs) st1" "dc_forms st1 = dc_forms st" by auto
  from Cons.IH [OF st1(2) Cons.prems(2), of ws' "inner + w * coord_sum cols (take k zeta) c"] Cons.prems(3,4,5) st1
  show ?case by (auto simp: ws add.assoc)
qed simp

lemma fingerprint_sum:
  assumes "length p = bl_kappa b"
  shows "(\<Sum>z<2 ^ bl_kappa b. eq_weights p ! z * fingerprint w beta (tuple_at cols b z)) =
    beta + sum_list (map2 (\<lambda>w c. w * coord_sum cols p c) w (bl_coords b))"
proof -
  let ?E = "\<lambda>z. eq_weights p ! z" and ?n = "2 ^ length p :: nat"
  have "(\<Sum>z<?n. ?E z * sum_list (map2 (\<lambda>wi v. wi * f192_from v) ws (map (coord_at cols z) cs))) =
      sum_list (map2 (\<lambda>w c. w * coord_sum cols p c) ws cs)" for ws cs
  proof (induction ws cs rule: list_induct2')
    case (4 v vs c cs)
    then show ?case by (simp add: distrib_left sum.distrib coord_sum_def sum_distrib_left mult.left_commute)
  qed simp_all
  then show ?thesis
    using eq_weights_total [of p] assms
    by (simp add: fingerprint_def tuple_at_def distrib_left sum.distrib flip: sum_distrib_right)
qed

section \<open>The whole side\<close>

type_synonym item = "block \<times> nat \<times> (nat \<times> nat) option"

definition sel_of :: "f192 list \<Rightarrow> nat \<Rightarrow> item \<Rightarrow> f192" where
  "sel_of zeta mu item = (case item of (b, off, owner) \<Rightarrow> eq_eval (selector off (bl_kappa b) (mu - bl_kappa b)) (drop (bl_kappa b) zeta))"

definition mass_of :: "f64 list list \<Rightarrow> f192 list \<Rightarrow> f192 list \<Rightarrow> f192 \<Rightarrow> item \<Rightarrow> f192" where
  "mass_of cols zeta w beta item = (case item of (b, off, owner) \<Rightarrow>
     \<Sum>z<2 ^ bl_kappa b. eq_weights (take (bl_kappa b) zeta) ! z * fingerprint w beta (tuple_at cols b z))"

definition owned_by :: "nat \<Rightarrow> item \<Rightarrow> bool" where
  "owned_by t item = (case snd (snd item) of None \<Rightarrow> False | Some (t', base) \<Rightarrow> t' = t)"

definition item_ok :: "f64 list list \<Rightarrow> (nat \<times> nat) list \<Rightarrow> nat \<Rightarrow> f192 list \<Rightarrow> item \<Rightarrow> bool" where
  "item_ok cols spans mu w item \<longleftrightarrow> (case item of (b, off, owner) \<Rightarrow>
     bl_kappa b \<le> mu \<and> length (bl_coords b) \<le> length w \<and>
     (case owner of
        None \<Rightarrow> list_all (frame_coord cols (bl_kappa b)) (bl_coords b)
      | Some (t, base) \<Rightarrow> t < length spans \<and> base = fst (spans ! t) \<and> list_all (in_columns base (snd (spans ! t))) (bl_coords b) \<and>
          length (cols ! base) = 2 ^ bl_kappa b))"

definition table_row :: "f64 list list \<Rightarrow> (nat \<times> nat) list \<Rightarrow> nat \<Rightarrow> nat \<Rightarrow> f192 list" where
  "table_row cols spans t z = map f192_from (row_of cols (fst (spans ! t)) (snd (spans ! t)) z)"

lemma item_jobs_prefix:
  "\<exists>more. fold (\<lambda>(b, owner) jobs. if owner \<noteq> None then jobs else fold (add_job claims zeta (bl_kappa b)) (bl_coords b) jobs) bos jobs = jobs @ more"
proof (induction bos arbitrary: jobs)
  case (Cons bo bos)
  obtain b owner where bo: "bo = (b, owner)" by fastforce
  obtain m where "(if owner \<noteq> None then jobs else fold (add_job claims zeta (bl_kappa b)) (bl_coords b) jobs) = jobs @ m"
    using add_jobs_prefix [of claims zeta "bl_kappa b" "bl_coords b" jobs] by (cases owner) auto
  then show ?case using Cons.IH [of "jobs @ m"] bo by auto
qed simp

lemma all_nth_update:
  "length xs = n \<Longrightarrow> \<forall>u<n. P u (xs ! u) \<Longrightarrow> P t y \<Longrightarrow> \<forall>u<n. P u (xs[t := y] ! u)"
  by (metis nth_list_update_eq nth_list_update_neq)

lemma decompose_blocks_value:
  assumes "replaying cols zeta claims scalars all jobs st" "length zeta = mu" "\<forall>item\<in>set items. item_ok cols spans mu w item"
    and "all = fold (\<lambda>(b, owner) jobs. if owner \<noteq> None then jobs else fold (add_job claims zeta (bl_kappa b)) (bl_coords b) jobs)
      (map (\<lambda>(b, off, owner). (b, owner)) items) jobs"
    and "length (dc_forms st) = length spans" "\<forall>t<length spans. form_wf (snd (spans ! t)) (dc_forms st ! t)"
  shows "\<exists>st'. decompose_blocks replay zeta w beta mu items (acc, sel, st) =
      Inr (acc + (\<Sum>item\<leftarrow>filter (\<lambda>item. snd (snd item) = None) items. sel_of zeta mu item * mass_of cols zeta w beta item),
        sel + (\<Sum>item\<leftarrow>items. sel_of zeta mu item), st') \<and>
    replaying cols zeta claims scalars all all st' \<and> length (dc_forms st') = length spans \<and>
    (\<forall>t<length spans. form_wf (snd (spans ! t)) (dc_forms st' ! t) \<and>
      (\<forall>z. form_value (dc_forms st' ! t) (table_row cols spans t z) = form_value (dc_forms st ! t) (table_row cols spans t z) +
        (\<Sum>item\<leftarrow>filter (owned_by t) items. sel_of zeta mu item * fingerprint w beta (tuple_at cols (fst item) z))))"
  using assms
proof (induction items arbitrary: jobs st acc sel)
  case (Cons item items)
  obtain b off owner where item: "item = (b, off, owner)" by (cases item) auto
  let ?k = "bl_kappa b"
  have ok: "?k \<le> mu" "length (bl_coords b) \<le> length w" using Cons.prems(3) by (simp_all add: item item_ok_def)
  show ?case
  proof (cases owner)
    case None
    have fr: "list_all (frame_coord cols ?k) (bl_coords b)" using Cons.prems(3) by (simp add: item item_ok_def None)
    let ?jobs = "fold (add_job claims zeta ?k) (bl_coords b) jobs"
    have all: "all = fold (\<lambda>(b, owner) jobs. if owner \<noteq> None then jobs else fold (add_job claims zeta (bl_kappa b)) (bl_coords b) jobs)
      (map (\<lambda>(b, off, owner). (b, owner)) items) ?jobs" using Cons.prems(4) by (simp add: item None)
    obtain rest where rest: "all = ?jobs @ rest"
      unfolding all using item_jobs_prefix [of claims zeta "map (\<lambda>(b, off, owner). (b, owner)) items" ?jobs] by blast
    have kz: "?k \<le> length zeta" using ok(1) Cons.prems(2) by simp
    from replay_inner [OF Cons.prems(1) kz fr rest ok(2), of 0]
    obtain st1 where inner: "inner_loop replay (take ?k zeta) (zip w (bl_coords b)) 0 st =
        Inr (0 + sum_list (map2 (\<lambda>w c. w * coord_sum cols (take ?k zeta) c) w (bl_coords b)), st1)"
      and st1: "replaying cols zeta claims scalars all ?jobs st1" "dc_forms st1 = dc_forms st" by (elim exE conjE) (rule that)
    have mass: "beta + sum_list (map2 (\<lambda>w c. w * coord_sum cols (take ?k zeta) c) w (bl_coords b)) = mass_of cols zeta w beta item"
      using fingerprint_sum [of "take ?k zeta" b w beta cols] ok(1) Cons.prems(2) by (simp add: mass_of_def item)
    have step: "decompose_block replay zeta w beta mu item (acc, sel, st) =
        Inr (acc + sel_of zeta mu item * mass_of cols zeta w beta item, sel + sel_of zeta mu item, st1)"
      using inner mass by (simp add: decompose_block_def Let_def item None sel_of_def flip: zero_f192_def)
    from Cons.IH [OF st1(1) Cons.prems(2) _ all, of "acc + sel_of zeta mu item * mass_of cols zeta w beta item" "sel + sel_of zeta mu item"]
      Cons.prems(3,5,6) st1(2)
    show ?thesis
      using step by (auto simp: item None owned_by_def add.assoc)
  next
    case (Some to)
    obtain t base where to: "to = (t, base)" by fastforce
    have tb: "t < length spans" "base = fst (spans ! t)" "list_all (in_columns base (snd (spans ! t))) (bl_coords b)"
      using Cons.prems(3) by (auto simp: item item_ok_def Some to)
    have wf: "form_wf (snd (spans ! t)) (dc_forms st ! t)" using Cons.prems(6) tb(1) by simp
    from add_block_value [OF tb(3) wf ok(2), of beta "sel_of zeta mu item"]
    obtain f' where f': "add_block b w beta (sel_of zeta mu item) base (dc_forms st ! t) = Some f'" "form_wf (snd (spans ! t)) f'"
      "\<And>z. form_value f' (table_row cols spans t z) = form_value (dc_forms st ! t) (table_row cols spans t z) +
        sel_of zeta mu item * fingerprint w beta (tuple_at cols b z)" by (auto simp: table_row_def tb(2))
    let ?st = "st\<lparr>dc_forms := (dc_forms st)[t := f']\<rparr>"
    have step: "decompose_block replay zeta w beta mu item (acc, sel, st) = Inr (acc, sel + sel_of zeta mu item, ?st)"
      using f'(1) by (simp add: decompose_block_def Let_def item Some to sel_of_def)
    have all: "all = fold (\<lambda>(b, owner) jobs. if owner \<noteq> None then jobs else fold (add_job claims zeta (bl_kappa b)) (bl_coords b) jobs)
      (map (\<lambda>(b, off, owner). (b, owner)) items) jobs" using Cons.prems(4) by (simp add: item Some)
    have r: "replaying cols zeta claims scalars all jobs ?st" using Cons.prems(1) by (simp add: replaying_def)
    have forms: "length (dc_forms ?st) = length spans" "\<forall>u<length spans. form_wf (snd (spans ! u)) (dc_forms ?st ! u)"
      using Cons.prems(5) all_nth_update [of "dc_forms st" "length spans" "\<lambda>u. form_wf (snd (spans ! u))" t f'] Cons.prems(6) f'(2) by simp_all
    from Cons.IH [OF r Cons.prems(2) _ all forms, of acc "sel + sel_of zeta mu item"] Cons.prems(3)
    obtain st' where st': "decompose_blocks replay zeta w beta mu items (acc, sel + sel_of zeta mu item, ?st) =
      Inr (acc + (\<Sum>item\<leftarrow>filter (\<lambda>item. snd (snd item) = None) items. sel_of zeta mu item * mass_of cols zeta w beta item),
        sel + sel_of zeta mu item + (\<Sum>item\<leftarrow>items. sel_of zeta mu item), st')"
      "replaying cols zeta claims scalars all all st'" "length (dc_forms st') = length spans"
      "\<forall>u<length spans. form_wf (snd (spans ! u)) (dc_forms st' ! u) \<and>
        (\<forall>z. form_value (dc_forms st' ! u) (table_row cols spans u z) = form_value (dc_forms ?st ! u) (table_row cols spans u z) +
        (\<Sum>item\<leftarrow>filter (owned_by u) items. sel_of zeta mu item * fingerprint w beta (tuple_at cols (fst item) z)))" by auto
    have "form_value (dc_forms st' ! u) (table_row cols spans u z) = form_value (dc_forms st ! u) (table_row cols spans u z) +
        (\<Sum>item\<leftarrow>filter (owned_by u) (item # items). sel_of zeta mu item * fingerprint w beta (tuple_at cols (fst item) z))"
      if "u < length spans" for u z
      using st'(4) that f'(3) Cons.prems(5) tb(1) by (cases "u = t") (auto simp: owned_by_def item Some to add.assoc)
    then show ?thesis using st' step by (auto simp: item Some add.assoc)
  qed
next
  case Nil
  then show ?case by simp
qed

lemma sum_items: "(\<Sum>i<length xs. f (xs ! i)) = (\<Sum>x\<leftarrow>xs. f x)" for f :: "_ \<Rightarrow> f192"
  by (simp add: sum_list_sum_nth atLeast0LessThan)

lemma sum_filter_owned:
  assumes "\<forall>x\<in>set xs. \<forall>t base. snd (snd x) = Some (t, base) \<longrightarrow> t < n"
  shows "(\<Sum>x\<leftarrow>xs. f x) = (\<Sum>x\<leftarrow>filter (\<lambda>x. snd (snd x) = None) xs. f x) + (\<Sum>t<n. \<Sum>x\<leftarrow>filter (owned_by t) xs. f x :: f192)"
  using assms
proof (induction xs)
  case (Cons x xs)
  have one: "(\<Sum>t<n. if t = u then a else 0) = a" if "u < n" for u and a :: f192 using that by simp
  show ?case
  proof (cases "snd (snd x)")
    case None
    then show ?thesis using Cons by (simp add: owned_by_def add_ac)
  next
    case (Some tb)
    obtain u base where u: "tb = (u, base)" by fastforce
    then have "u < n" using Cons.prems Some by auto
    have "(\<Sum>t<n. \<Sum>x\<leftarrow>filter (owned_by t) (x # xs). f x) = (\<Sum>t<n. (if t = u then f x else 0) + (\<Sum>x\<leftarrow>filter (owned_by t) xs. f x))"
      by (intro sum.cong refl) (simp add: owned_by_def Some u)
    also have "\<dots> = f x + (\<Sum>t<n. \<Sum>x\<leftarrow>filter (owned_by t) xs. f x)" using one [OF \<open>u < n\<close>] by (simp add: sum.distrib)
    finally show ?thesis using Cons Some by (simp add: add_ac)
  qed
qed simp

section \<open>A side, as the prover decomposes it\<close>

text \<open>
  What the layout guarantees of a side: an owner for every block; a table's block reads that table's columns and has its
  height, a framework block reads columns of its own height.
\<close>

definition side_fits :: "f64 list list \<Rightarrow> (nat \<times> nat) list \<Rightarrow> f192 list \<Rightarrow> block list \<Rightarrow> (nat \<times> nat) option list \<Rightarrow> bool" where
  "side_fits cols tabs w blocks owners \<longleftrightarrow>
    blocks \<noteq> [] \<and> length owners = length blocks \<and>
    (\<forall>i<length blocks. bl_kappa (blocks ! i) < 64 \<and> length (bl_coords (blocks ! i)) \<le> length w \<and>
      (case owners ! i of
         None \<Rightarrow> list_all (frame_coord cols (bl_kappa (blocks ! i))) (bl_coords (blocks ! i))
       | Some (t, base) \<Rightarrow> t < length tabs \<and> base = fst (tabs ! t) \<and>
           list_all (in_columns base (snd (tabs ! t))) (bl_coords (blocks ! i)) \<and> length (cols ! base) = 2 ^ bl_kappa (blocks ! i)))"

definition table_fits :: "f64 list list \<Rightarrow> f192 list \<Rightarrow> nat \<times> nat \<Rightarrow> bool" where
  "table_fits cols zeta tab \<longleftrightarrow> (case tab of (base, n) \<Rightarrow> 0 < n \<and>
    (\<exists>tau\<le>length zeta. \<forall>c<n. length (cols ! (base + c)) = 2 ^ tau))"

definition side_items :: "block list \<Rightarrow> bus_layout \<Rightarrow> (nat \<times> nat) option list \<Rightarrow> item list" where
  "side_items blocks lay owners = zip blocks (zip (bus_offsets lay) owners)"

definition table_height :: "f64 list list \<Rightarrow> nat \<times> nat \<Rightarrow> nat" where
  "table_height cols tab = trailing_zeros (length (cols ! fst tab))"

definition table_share :: "f64 list list \<Rightarrow> (nat \<times> nat) list \<Rightarrow> f192 list \<Rightarrow> bus_form list \<Rightarrow> nat \<Rightarrow> f192" where
  "table_share cols tabs zeta forms t = (\<Sum>z<2 ^ table_height cols (tabs ! t).
    eq_weights (take (table_height cols (tabs ! t)) zeta) ! z * form_value (forms ! t) (table_row cols tabs t z))"

lemma side_items_ok:
  assumes f: "side_fits cols tabs w blocks owners" and p: "bus_place blocks = Some lay" and m: "bus_mu lay \<le> mu"
  shows "\<forall>item\<in>set (side_items blocks lay owners). item_ok cols tabs mu w item"
proof
  have small: "\<forall>b\<in>set blocks. bl_kappa b < 64" using f by (auto simp: side_fits_def in_set_conv_nth)
  note t = bus_place_tiles [OF p small]
  fix item assume "item \<in> set (side_items blocks lay owners)"
  then obtain i where i: "i < length blocks" "item = (blocks ! i, bus_offsets lay ! i, owners ! i)"
    using t(1) f by (auto simp: side_items_def set_zip side_fits_def)
  have "(2 :: nat) ^ bl_kappa (blocks ! i) \<le> 2 ^ bus_mu lay" using t(2) t(4) [OF i(1)] by linarith
  then have "bl_kappa (blocks ! i) \<le> mu" using m by simp
  then show "item_ok cols tabs mu w item" using f i by (auto simp: side_fits_def item_ok_def split: option.splits)
qed

lemma side_sum:
  assumes "length (bus_offsets lay) = length blocks" "length owners = length blocks"
  shows "(\<Sum>item\<leftarrow>side_items blocks lay owners. f item) = (\<Sum>i<length blocks. f (blocks ! i, bus_offsets lay ! i, owners ! i) :: f192)"
  using assms sum_items [of f "side_items blocks lay owners"] by (simp add: side_items_def)

lemma form_value_new: "form_value (bf_new n) vals = 0"
proof -
  have "sum_list (map2 (*) (replicate n 0) vals) = (0 :: f192)" for vals
    by (induction n arbitrary: vals) (auto simp: zip_Cons1 split: list.splits)
  then show ?thesis by (simp add: form_value_def bf_new_def flip: zero_f192_def)
qed

lemma bf_new_wf: "form_wf n (bf_new n)"
  by (simp add: form_wf_def bf_new_def)

lemma sum_swap_list: "(\<Sum>z\<in>S. \<Sum>x\<leftarrow>xs. f z x) = (\<Sum>x\<leftarrow>xs. \<Sum>z\<in>S. f z x :: f192)"
  by (induction xs) (simp_all add: sum.distrib)

lemma owned_height:
  assumes "item_ok cols tabs mu w item" "owned_by t item"
  shows "table_height cols (tabs ! t) = bl_kappa (fst item)"
  using assms by (auto simp: item_ok_def owned_by_def table_height_def split: option.splits)

lemma decompose_prove_value:
  assumes f: "side_fits cols tabs w blocks owners" and p: "bus_place blocks = Some lay0" and m: "bus_mu lay0 \<le> length zeta"
    and lay: "lay = lay0\<lparr>bus_mu := length zeta\<rparr>" and c: "claims_ok cols claims" "cache_ok zeta public"
    and N: "length leaves = (\<Sum>b\<leftarrow>blocks. 2 ^ bl_kappa b)"
    and at: "\<And>i z. \<lbrakk>i < length blocks; z < 2 ^ bl_kappa (blocks ! i)\<rbrakk> \<Longrightarrow>
      leaves ! (bus_offsets lay0 ! i + z) = fingerprint w beta (tuple_at cols (blocks ! i) z)"
  shows "\<exists>framework forms claims' public' new. decompose_prove blocks lay cols zeta w beta owners
      \<lparr>dc_forms = map (\<lambda>(base, n). bf_new n) tabs, dc_claims = claims, dc_public = public, dc_stream = scalars\<rparr> =
        Inr (framework, \<lparr>dc_forms = forms, dc_claims = claims', dc_public = public', dc_stream = scalars @ new\<rparr>) \<and>
      length forms = length tabs \<and> (\<forall>t<length tabs. form_wf (snd (tabs ! t)) (forms ! t)) \<and>
      claims_ok cols claims' \<and> cache_ok zeta public' \<and>
      mle (leaves @ replicate (2 ^ length zeta - length leaves) 1) zeta =
        framework + (\<Sum>t<length tabs. table_share cols tabs zeta forms t)"
proof -
  have small: "\<forall>b\<in>set blocks. bl_kappa b < 64" using f by (auto simp: side_fits_def in_set_conv_nth)
  note t = bus_place_tiles [OF p small]
  let ?items = "side_items blocks lay0 owners" and ?mu = "length zeta"
  let ?jobs = "prove_jobs claims zeta blocks owners"
  have ok: "\<forall>item\<in>set ?items. item_ok cols tabs ?mu w item" by (rule side_items_ok [OF f p m])
  have len: "length owners = length blocks" using f by (simp add: side_fits_def)
  have bo: "map (\<lambda>(b, off, owner). (b, owner)) ?items = zip blocks owners"
    by (rule nth_equalityI) (use t(1) len in \<open>simp_all add: side_items_def\<close>)
  let ?forms = "map (\<lambda>(base, n). bf_new n) tabs"
  let ?st = "\<lparr>dc_forms = ?forms, dc_claims = claims, dc_public = public,
    dc_stream = \<lparr>ps_jobs = map (job_value cols zeta) ?jobs, ps_scalars = scalars\<rparr>\<rparr>"
  have r: "replaying cols zeta claims scalars ?jobs [] ?st" using c by (simp add: replaying_def)
  have forms: "length (dc_forms ?st) = length tabs" "\<forall>t<length tabs. form_wf (snd (tabs ! t)) (dc_forms ?st ! t)"
    by (simp_all add: bf_new_wf case_prod_unfold)
  have all: "?jobs = fold (\<lambda>(b, owner) jobs. if owner \<noteq> None then jobs else fold (add_job claims zeta (bl_kappa b)) (bl_coords b) jobs)
      (map (\<lambda>(b, off, owner). (b, owner)) ?items) []" by (simp only: bo prove_jobs_def)
  from decompose_blocks_value [OF r refl ok all forms, of beta 0 0] obtain st' where
    st': "decompose_blocks replay zeta w beta ?mu ?items (0, 0, ?st) =
      Inr (0 + (\<Sum>item\<leftarrow>filter (\<lambda>item. snd (snd item) = None) ?items. sel_of zeta ?mu item * mass_of cols zeta w beta item),
        0 + (\<Sum>item\<leftarrow>?items. sel_of zeta ?mu item), st')"
    "replaying cols zeta claims scalars ?jobs ?jobs st'" "length (dc_forms st') = length tabs"
    "\<And>t. t < length tabs \<Longrightarrow> form_wf (snd (tabs ! t)) (dc_forms st' ! t)"
    "\<And>t z. t < length tabs \<Longrightarrow> form_value (dc_forms st' ! t) (table_row cols tabs t z) = form_value (dc_forms ?st ! t) (table_row cols tabs t z) +
        (\<Sum>item\<leftarrow>filter (owned_by t) ?items. sel_of zeta ?mu item * fingerprint w beta (tuple_at cols (fst item) z))"
    by (elim exE conjE) (rule that, blast+)
  let ?frame = "\<Sum>item\<leftarrow>filter (\<lambda>item. snd (snd item) = None) ?items. sel_of zeta ?mu item * mass_of cols zeta w beta item"
  let ?sel = "\<Sum>item\<leftarrow>?items. sel_of zeta ?mu item"
  have share: "table_share cols tabs zeta (dc_forms st') u = (\<Sum>item\<leftarrow>filter (owned_by u) ?items. sel_of zeta ?mu item * mass_of cols zeta w beta item)"
    if u: "u < length tabs" for u
  proof -
    let ?h = "table_height cols (tabs ! u)"
    let ?E = "\<lambda>z. eq_weights (take ?h zeta) ! z"
    have new: "form_value (?forms ! u) vals = 0" for vals using u by (simp add: form_value_new case_prod_unfold)
    have "table_share cols tabs zeta (dc_forms st') u = (\<Sum>z<2 ^ ?h. \<Sum>item\<leftarrow>filter (owned_by u) ?items.
        sel_of zeta ?mu item * (?E z * fingerprint w beta (tuple_at cols (fst item) z)))"
      by (simp add: table_share_def st'(5) [OF u] new sum_list_const_mult [symmetric] mult.left_commute)
    also have "\<dots> = (\<Sum>item\<leftarrow>filter (owned_by u) ?items. \<Sum>z<2 ^ ?h. sel_of zeta ?mu item * (?E z * fingerprint w beta (tuple_at cols (fst item) z)))"
      by (rule sum_swap_list)
    also have "\<dots> = (\<Sum>item\<leftarrow>filter (owned_by u) ?items. sel_of zeta ?mu item * mass_of cols zeta w beta item)"
    proof (intro arg_cong [of _ _ sum_list] map_cong refl)
      fix item assume "item \<in> set (filter (owned_by u) ?items)"
      then have h: "?h = bl_kappa (fst item)" using ok by (auto intro: owned_height)
      show "(\<Sum>z<2 ^ ?h. sel_of zeta ?mu item * (?E z * fingerprint w beta (tuple_at cols (fst item) z))) =
          sel_of zeta ?mu item * mass_of cols zeta w beta item"
        by (simp add: mass_of_def h case_prod_unfold flip: sum_distrib_left)
    qed
    finally show ?thesis .
  qed
  have jv: "job_value cols zeta = (\<lambda>p. mle_eval (cols ! fst p) (take (snd p) zeta))" by (simp add: job_value_def fun_eq_iff)
  have run: "decompose_prove blocks lay cols zeta w beta owners
      \<lparr>dc_forms = ?forms, dc_claims = claims, dc_public = public, dc_stream = scalars\<rparr> =
      Inr (?frame + (1 + ?sel), with_stream (ps_scalars (dc_stream st')) st')"
    using st'(1) unfolding jv by (simp add: decompose_prove_def decompose_formula_def Let_def lay with_stream_def jv case_prod_unfold side_items_def
        flip: zero_f192_def one_f192_def)
  have "mle (leaves @ replicate (2 ^ ?mu - length leaves) 1) zeta =
      (\<Sum>item\<leftarrow>?items. sel_of zeta ?mu item * mass_of cols zeta w beta item) + (1 + ?sel)"
    unfolding side_sum [OF t(1) len] sel_of_def mass_of_def prod.case by (rule mle_of_blocks [OF p small refl m N at])
  also have "(\<Sum>item\<leftarrow>?items. sel_of zeta ?mu item * mass_of cols zeta w beta item) =
      ?frame + (\<Sum>u<length tabs. \<Sum>item\<leftarrow>filter (owned_by u) ?items. sel_of zeta ?mu item * mass_of cols zeta w beta item)"
    by (rule sum_filter_owned) (use ok in \<open>fastforce simp: item_ok_def\<close>)
  also have "\<dots> = ?frame + (\<Sum>u<length tabs. table_share cols tabs zeta (dc_forms st') u)" using share by simp
  finally have "mle (leaves @ replicate (2 ^ ?mu - length leaves) 1) zeta =
      (?frame + (1 + ?sel)) + (\<Sum>u<length tabs. table_share cols tabs zeta (dc_forms st') u)" by (simp add: add_ac)
  moreover have "claims_ok cols (dc_claims st')" "cache_ok zeta (dc_public st')" "\<exists>new. ps_scalars (dc_stream st') = scalars @ new"
    using st'(2) claims_ok_jobs by (auto simp: replaying_def)
  ultimately show ?thesis using run st'(3,4) by (auto simp: with_stream_def)
qed

section \<open>The tables' sums\<close>

lemma weighted_sum_value:
  assumes "length ws = length vals"
  shows "weighted_sum ws vals = (\<Sum>z<length vals. ws ! z * f192_from (vals ! z))"
proof -
  have "weighted_sum ws vals = sum_list (map2 (\<lambda>w v. w * f192_from v) ws vals)"
    unfolding weighted_sum_def dot_unreduced_k_def form_fold
    by (simp add: f192u_reduce_zero case_prod_unfold)
  also have "\<dots> = (\<Sum>z<length vals. ws ! z * f192_from (vals ! z))"
    using assms by (simp add: sum_list_sum_nth atLeast0LessThan)
  finally show ?thesis .
qed

lemma find_pair: "(a, b) \<in> set pairs \<Longrightarrow>
    find (\<lambda>p. (fst p, fst (snd p)) = (a, b)) (map (\<lambda>(a, b). (a, b, S a b)) pairs) = Some (a, b, S a b)"
  by (induction pairs) auto

lemma bf_sum_fold:
  assumes "\<forall>(a, b, c)\<in>set ps. (a, b) \<in> set pairs"
  shows "fold (\<lambda>(a, b, c) acc. do { acc \<leftarrow> acc; (_, _, s) \<leftarrow> find (\<lambda>p. (fst p, fst (snd p)) = (a, b)) (map (\<lambda>(a, b). (a, b, S a b)) pairs);
      Some (acc + c * s) }) ps (Some x) = Some (x + (\<Sum>(a, b, c)\<leftarrow>ps. c * S a b))"
  using assms
proof (induction ps arbitrary: x)
  case (Cons p ps)
  obtain a b c where p: "p = (a, b, c)" by (cases p)
  have "(a, b) \<in> set pairs" using Cons.prems p by auto
  note this [THEN find_pair, of S]
  then show ?case using Cons.IH [of "x + c * S a b"] Cons.prems by (simp add: p add.assoc)
qed simp

lemma dot_e_value: "dot_e cs vs k = k + sum_list (map2 (*) cs vs)"
  unfolding dot_e_def f192u_reduce_bitxor dot_unreduced_e_def form_fold_e
  by (simp add: f192u_reduce_zero f192u_reduce_from add.commute)

lemma table_sums_value:
  assumes fit: "\<forall>c<n. length (cols ! (base + c)) = 2 ^ tau" and n: "0 < n" and tau: "tau \<le> length zeta"
    and f: "f \<in> set forms" and wf: "\<forall>f\<in>set forms. form_wf n f"
  shows "\<exists>evals prods. table_sums cols base n forms zeta = Some (evals, prods) \<and>
    bf_sum_at f evals prods =
      Some (\<Sum>z<2 ^ tau. eq_weights (take tau zeta) ! z * form_value f (map f192_from (row_of cols base n z)))"
proof -
  let ?E = "eq_weights (take tau zeta)" and ?v = "\<lambda>c z. f192_from (cols ! (base + c) ! z)"
  have lE: "length ?E = 2 ^ tau" using tau by (simp add: length_eq_weights min_absorb2)
  have tot: "(\<Sum>z<2 ^ tau. ?E ! z) = 1" using eq_weights_total [of "take tau zeta"] tau by (simp add: min_absorb2)
  let ?evals = "map (\<lambda>c. weighted_sum ?E (cols ! (base + c))) [0..<n]"
  let ?S = "\<lambda>a b. weighted_sum ?E (map2 (*) (cols ! (base + a)) (cols ! (base + b)))"
  let ?prods = "map (\<lambda>(a, b). (a, b, ?S a b)) (form_pairs forms)"
  have t: "table_sums cols base n forms zeta = Some (?evals, ?prods)"
    using fit [rule_format, OF n] by (simp add: table_sums_def Let_def eq_table_eq)
  have ev: "weighted_sum ?E (cols ! (base + c)) = (\<Sum>z<2 ^ tau. ?E ! z * ?v c z)" if "c < n" for c
    using weighted_sum_value [of ?E "cols ! (base + c)"] fit that lE by simp
  have S: "?S a b = (\<Sum>z<2 ^ tau. ?E ! z * (?v a z * ?v b z))" if "a < n" "b < n" for a b
    using weighted_sum_value [of ?E "map2 (*) (cols ! (base + a)) (cols ! (base + b))"] fit that lE
    by (simp add: f192_from_hom)
  have w: "form_wf n f" using wf f by simp
  have pairs: "\<forall>(a, b, c)\<in>set (bf_prods f). (a, b) \<in> set (form_pairs forms)"
    using f by (force simp: form_pairs_def)
  have "bf_sum_at f ?evals ?prods = Some (dot_e (bf_coeffs f) ?evals (bf_constant f) + (\<Sum>(a, b, c)\<leftarrow>bf_prods f. c * ?S a b))"
    unfolding bf_sum_at_def by (rule bf_sum_fold [OF pairs])
  also have "dot_e (bf_coeffs f) ?evals (bf_constant f) = bf_constant f + (\<Sum>c<n. bf_coeffs f ! c * (\<Sum>z<2 ^ tau. ?E ! z * ?v c z))"
    using form_wfD [OF w] by (simp add: dot_e_value sum_list_sum_nth atLeast0LessThan ev)
  also have "(\<Sum>(a, b, c)\<leftarrow>bf_prods f. c * ?S a b) = (\<Sum>(a, b, c)\<leftarrow>bf_prods f. c * (\<Sum>z<2 ^ tau. ?E ! z * (?v a z * ?v b z)))"
    by (intro arg_cong [of _ _ sum_list] map_cong refl) (use w S in \<open>auto simp: form_wf_def\<close>)
  also have "bf_constant f + (\<Sum>c<n. bf_coeffs f ! c * (\<Sum>z<2 ^ tau. ?E ! z * ?v c z)) +
      (\<Sum>(a, b, c)\<leftarrow>bf_prods f. c * (\<Sum>z<2 ^ tau. ?E ! z * (?v a z * ?v b z))) =
    (\<Sum>z<2 ^ tau. ?E ! z * form_value f (map f192_from (row_of cols base n z)))"
  proof -
    have 1: "form_value f (map f192_from (row_of cols base n z)) = bf_constant f + (\<Sum>c<n. bf_coeffs f ! c * ?v c z) +
        (\<Sum>(a, b, c)\<leftarrow>bf_prods f. c * (?v a z * ?v b z))" for z
    proof -
      have "(\<Sum>(a, b, c)\<leftarrow>bf_prods f. c * (map f192_from (row_of cols base n z) ! a * map f192_from (row_of cols base n z) ! b)) =
          (\<Sum>(a, b, c)\<leftarrow>bf_prods f. c * (?v a z * ?v b z))"
        by (intro arg_cong [of _ _ sum_list] map_cong refl) (use w in \<open>auto simp: form_wf_def row_of_def\<close>)
      then show ?thesis
        using form_wfD [OF w] by (simp add: form_value_def sum_list_sum_nth atLeast0LessThan row_of_def)
    qed
    have k: "(\<Sum>z<2 ^ tau. ?E ! z * bf_constant f) = bf_constant f"
      using tot by (simp flip: sum_distrib_right)
    have c: "(\<Sum>z<2 ^ tau. ?E ! z * (\<Sum>c<n. bf_coeffs f ! c * ?v c z)) = (\<Sum>c<n. bf_coeffs f ! c * (\<Sum>z<2 ^ tau. ?E ! z * ?v c z))"
      unfolding sum_distrib_left by (subst sum.swap) (simp add: mult.left_commute)
    have p: "(\<Sum>z<2 ^ tau. ?E ! z * (\<Sum>(a, b, c)\<leftarrow>ps. c * (?v a z * ?v b z))) =
        (\<Sum>(a, b, c)\<leftarrow>ps. c * (\<Sum>z<2 ^ tau. ?E ! z * (?v a z * ?v b z)))" for ps
      by (induction ps) (auto simp: distrib_left sum.distrib sum_distrib_left mult.left_commute)
    show ?thesis by (simp only: 1 distrib_left sum.distrib k c p)
  qed
  finally show ?thesis using t by blast
qed

section \<open>Prover and verifier in step\<close>

text \<open>
  A prover's run and a verifier's on the scalars it wrote: the verifier consumes exactly them, ends in the same state, and
  fails as truncated on any shorter stream.
\<close>

definition follows ::
  "(bus_fail, 'a) result \<Rightarrow> (f192 list \<Rightarrow> (bus_fail, 'b) result) \<Rightarrow> f192 list \<Rightarrow> ('a \<Rightarrow> f192 list) \<Rightarrow> ('a \<Rightarrow> f192 list \<Rightarrow> 'b) \<Rightarrow> bool" where
  "follows run check written scalars conv \<longleftrightarrow> (\<forall>a. run = Inr a \<longrightarrow>
    (\<exists>new. scalars a = written @ new \<and> (\<forall>rest. check (new @ rest) = Inr (conv a rest)) \<and>
      (\<forall>k<length new. check (take k new) = Inl (BusFailed Truncated))))"

lemma follows_return: "follows (Inr a) (\<lambda>xs. Inr (conv a xs)) (scalars a) scalars conv"
  by (simp add: follows_def)

lemma follows_fail: "follows (Inl e) check written scalars conv"
  by (simp add: follows_def)

lemma follows_bind:
  assumes a: "follows run check written scalars conv" and f: "\<And>a. follows (f a) (\<lambda>xs. f' (conv a xs)) (scalars a) scalars' conv'"
  shows "follows (res_bind run f) (\<lambda>xs. res_bind (check xs) f') written scalars' conv'"
  unfolding follows_def
proof (intro allI impI)
  fix b assume "res_bind run f = Inr b"
  then obtain a where run: "run = Inr a" "f a = Inr b" by (cases run) auto
  obtain n1 where n1: "scalars a = written @ n1" "\<And>rest. check (n1 @ rest) = Inr (conv a rest)"
    "\<And>k. k < length n1 \<Longrightarrow> check (take k n1) = Inl (BusFailed Truncated)"
    using a run(1) by (auto simp: follows_def)
  obtain n2 where n2: "scalars' b = scalars a @ n2" "\<And>rest. f' (conv a (n2 @ rest)) = Inr (conv' b rest)"
    "\<And>k. k < length n2 \<Longrightarrow> f' (conv a (take k n2)) = Inl (BusFailed Truncated)"
    using f [of a] run(2) by (auto simp: follows_def)
  have "res_bind (check (take k (n1 @ n2))) f' = Inl (BusFailed Truncated)" if "k < length (n1 @ n2)" for k
    using that n1(2) n1(3) [of k] n2(3) [of "k - length n1"] by (cases "k < length n1") simp_all
  then show "\<exists>new. scalars' b = written @ new \<and> (\<forall>rest. res_bind (check (new @ rest)) f' = Inr (conv' b rest)) \<and>
      (\<forall>k<length new. res_bind (check (take k new)) f' = Inl (BusFailed Truncated))"
    using n1 n2 by (intro exI [of _ "n1 @ n2"]) simp
qed

abbreviation written_by :: "'a \<times> prover_stream decomp \<Rightarrow> f192 list" where
  "written_by r \<equiv> ps_scalars (dc_stream (snd r))"

abbreviation on_stream :: "'a \<times> prover_stream decomp \<Rightarrow> f192 list \<Rightarrow> 'a \<times> f192 list decomp" where
  "on_stream r xs \<equiv> (fst r, with_stream xs (snd r))"

lemma with_stream_simps [simp]:
  "dc_forms (with_stream s st) = dc_forms st" "dc_claims (with_stream s st) = dc_claims st"
  "dc_public (with_stream s st) = dc_public st" "dc_stream (with_stream s st) = s"
  "with_stream s st\<lparr>dc_public := p\<rparr> = with_stream s (st\<lparr>dc_public := p\<rparr>)"
  "with_stream s st\<lparr>dc_forms := fs\<rparr> = with_stream s (st\<lparr>dc_forms := fs\<rparr>)"
  by (simp_all add: with_stream_def)

lemma follows_col: "follows (col_val replay i z st) (\<lambda>xs. col_val next_scalar i z (with_stream xs st))
    (ps_scalars (dc_stream st)) written_by on_stream"
proof (cases "known_claim (dc_claims st) i z")
  case (Some v)
  then show ?thesis using follows_return [of "(v, st)" on_stream written_by] by (simp add: col_val_def)
next
  case None
  then show ?thesis
    by (auto simp: col_val_def follows_def replay_def next_scalar_def with_stream_def split: list.splits)
qed

lemma follows_coord: "follows (coord_val replay z c st) (\<lambda>xs. coord_val next_scalar z c (with_stream xs st))
    (ps_scalars (dc_stream st)) written_by on_stream"
proof (cases c)
  case (CCol i)
  then show ?thesis using follows_col by simp
next
  case (CGCol i k)
  have "follows (res_bind (col_val replay i z st) (\<lambda>(v, st). Inr (mul_base v (g_pow k), st)))
      (\<lambda>xs. res_bind (col_val next_scalar i z (with_stream xs st)) (\<lambda>(v, st). Inr (mul_base v (g_pow k), st)))
      (ps_scalars (dc_stream st)) written_by on_stream"
  proof (rule follows_bind [OF follows_col])
    show "follows (case a of (v, st) \<Rightarrow> Inr (mul_base v (g_pow k), st))
        (\<lambda>xs. case on_stream a xs of (v, st) \<Rightarrow> Inr (mul_base v (g_pow k), st)) (written_by a) written_by on_stream" for a
      using follows_return [of "(mul_base (fst a) (g_pow k), snd a)" on_stream written_by] by (simp add: case_prod_unfold)
  qed
  then show ?thesis by (simp add: CGCol)
next
  case (CPublic vs)
  obtain v cache where p: "public_eval vs z (dc_public st) = (v, cache)" by fastforce
  show ?thesis using follows_return [of "(v, st\<lparr>dc_public := cache\<rparr>)" on_stream written_by] by (simp add: CPublic p)
next
  case (CConst v)
  show ?thesis using follows_return [of "(f192_from v, st)" on_stream written_by] by (simp add: CConst)
next
  case CIndex
  show ?thesis using follows_return [of "(index_mle z, st)" on_stream written_by] by (simp add: CIndex)
qed (simp_all add: follows_fail)

lemma follows_inner: "follows (inner_loop replay z wcs inner st) (\<lambda>xs. inner_loop next_scalar z wcs inner (with_stream xs st))
    (ps_scalars (dc_stream st)) written_by on_stream"
proof (induction wcs arbitrary: inner st)
  case Nil
  show ?case using follows_return [of "(inner, st)" on_stream written_by] by simp
next
  case (Cons wc wcs)
  obtain wi c where wc: "wc = (wi, c)" by fastforce
  have "follows (res_bind (coord_val replay z c st) (\<lambda>(v, st). inner_loop replay z wcs (inner + wi * v) st))
      (\<lambda>xs. res_bind (coord_val next_scalar z c (with_stream xs st)) (\<lambda>(v, st). inner_loop next_scalar z wcs (inner + wi * v) st))
      (ps_scalars (dc_stream st)) written_by on_stream"
  proof (rule follows_bind [OF follows_coord])
    show "follows (case a of (v, st) \<Rightarrow> inner_loop replay z wcs (inner + wi * v) st)
        (\<lambda>xs. case on_stream a xs of (v, st) \<Rightarrow> inner_loop next_scalar z wcs (inner + wi * v) st) (written_by a) written_by on_stream" for a
      using Cons.IH by (simp add: case_prod_unfold)
  qed
  then show ?case by (simp add: wc)
qed

abbreviation walk_written :: "'a \<times> 'b \<times> prover_stream decomp \<Rightarrow> f192 list" where
  "walk_written r \<equiv> ps_scalars (dc_stream (snd (snd r)))"

abbreviation walk_on :: "'a \<times> 'b \<times> prover_stream decomp \<Rightarrow> f192 list \<Rightarrow> 'a \<times> 'b \<times> f192 list decomp" where
  "walk_on r xs \<equiv> (fst r, fst (snd r), with_stream xs (snd (snd r)))"

lemma follows_block: "follows (decompose_block replay zeta w beta mu item (acc, sel, st))
    (\<lambda>xs. decompose_block next_scalar zeta w beta mu item (acc, sel, with_stream xs st)) (ps_scalars (dc_stream st)) walk_written walk_on"
proof -
  obtain b off owner where item: "item = (b, off, owner)" by (cases item) auto
  let ?e = "eq_eval (selector off (bl_kappa b) (mu - bl_kappa b)) (drop (bl_kappa b) zeta)"
  show ?thesis
  proof (cases owner)
    case None
    have "follows (res_bind (inner_loop replay (take (bl_kappa b) zeta) (zip w (bl_coords b)) f192_zero st)
          (\<lambda>(inner, st). Inr (acc + ?e * (beta + inner), sel + ?e, st)))
        (\<lambda>xs. res_bind (inner_loop next_scalar (take (bl_kappa b) zeta) (zip w (bl_coords b)) f192_zero (with_stream xs st))
          (\<lambda>(inner, st). Inr (acc + ?e * (beta + inner), sel + ?e, st))) (ps_scalars (dc_stream st)) walk_written walk_on"
    proof (rule follows_bind [OF follows_inner])
      show "follows (case a of (inner, st) \<Rightarrow> Inr (acc + ?e * (beta + inner), sel + ?e, st))
          (\<lambda>xs. case on_stream a xs of (inner, st) \<Rightarrow> Inr (acc + ?e * (beta + inner), sel + ?e, st)) (written_by a) walk_written walk_on" for a
        using follows_return [of "(acc + ?e * (beta + fst a), sel + ?e, snd a)" walk_on walk_written] by (simp add: case_prod_unfold)
    qed
    then show ?thesis by (simp add: decompose_block_def item None Let_def)
  next
    case (Some tb)
    obtain t base where tb: "tb = (t, base)" by fastforce
    show ?thesis
    proof (cases "add_block b w beta ?e base (dc_forms st ! t)")
      case None
      then show ?thesis by (simp add: decompose_block_def item Some tb Let_def follows_fail)
    next
      case form: (Some form)
      show ?thesis
        using follows_return [of "(acc, sel + ?e, st\<lparr>dc_forms := (dc_forms st)[t := form]\<rparr>)" walk_on walk_written]
        by (simp add: decompose_block_def item Some tb Let_def form)
    qed
  qed
qed

lemma follows_blocks: "follows (decompose_blocks replay zeta w beta mu items (acc, sel, st))
    (\<lambda>xs. decompose_blocks next_scalar zeta w beta mu items (acc, sel, with_stream xs st)) (ps_scalars (dc_stream st)) walk_written walk_on"
proof (induction items arbitrary: acc sel st)
  case Nil
  show ?case using follows_return [of "(acc, sel, st)" walk_on walk_written] by simp
next
  case (Cons item items)
  show ?case unfolding decompose_blocks.simps
  proof (rule follows_bind [OF follows_block])
    show "follows (decompose_blocks replay zeta w beta mu items a) (\<lambda>xs. decompose_blocks next_scalar zeta w beta mu items (walk_on a xs))
        (walk_written a) walk_written walk_on" for a
      using Cons.IH [of "fst a" "fst (snd a)" "snd (snd a)"] by simp
  qed
qed

lemma follows_formula: "follows (decompose_formula replay blocks lay zeta w beta owners st)
    (\<lambda>xs. decompose_formula next_scalar blocks lay zeta w beta owners (with_stream xs st)) (ps_scalars (dc_stream st)) written_by on_stream"
proof (cases "length zeta = bus_mu lay")
  case True
  have "follows (res_bind (decompose_blocks replay zeta w beta (bus_mu lay) (zip blocks (zip (bus_offsets lay) owners)) (f192_zero, f192_zero, st))
       (\<lambda>(acc, sel_sum, st). Inr (acc + (f192_one + sel_sum), st)))
     (\<lambda>xs. res_bind (decompose_blocks next_scalar zeta w beta (bus_mu lay) (zip blocks (zip (bus_offsets lay) owners)) (f192_zero, f192_zero, with_stream xs st))
       (\<lambda>(acc, sel_sum, st). Inr (acc + (f192_one + sel_sum), st))) (ps_scalars (dc_stream st)) written_by on_stream"
  proof (rule follows_bind [OF follows_blocks])
    show "follows (case a of (acc, sel_sum, st) \<Rightarrow> Inr (acc + (f192_one + sel_sum), st))
        (\<lambda>xs. case walk_on a xs of (acc, sel_sum, st) \<Rightarrow> Inr (acc + (f192_one + sel_sum), st)) (walk_written a) written_by on_stream" for a
      using follows_return [of "(fst a + (f192_one + fst (snd a)), snd (snd a))" on_stream written_by] by (simp add: case_prod_unfold)
  qed
  then show ?thesis using True by (simp add: decompose_formula_def)
qed (simp add: decompose_formula_def follows_fail)

abbreviation out_stream :: "'a \<times> f192 list decomp \<Rightarrow> f192 list" where
  "out_stream r \<equiv> dc_stream (snd r)"

abbreviation in_stream :: "'a \<times> f192 list decomp \<Rightarrow> f192 list \<Rightarrow> 'a \<times> f192 list decomp" where
  "in_stream r xs \<equiv> (fst r, with_stream xs (snd r))"

lemma res_bind_Inr_right: "res_bind r Inr = r"
  by (cases r) simp_all

lemma follows_prove: "follows (decompose_prove blocks lay cols zeta w beta owners st)
    (\<lambda>xs. decompose_verify blocks lay zeta w beta owners (with_stream xs st)) (dc_stream st) out_stream in_stream"
proof -
  let ?st = "with_stream \<lparr>ps_jobs = map (\<lambda>(col, kappa). mle_eval (cols ! col) (take kappa zeta)) (prove_jobs (dc_claims st) zeta blocks owners),
    ps_scalars = dc_stream st\<rparr> st"
  have w: "with_stream xs ?st = with_stream xs st" for xs by (simp add: with_stream_def)
  have "follows (res_bind (decompose_formula replay blocks lay zeta w beta owners ?st)
        (\<lambda>(v, st). Inr (v, with_stream (ps_scalars (dc_stream st)) st)))
      (\<lambda>xs. res_bind (decompose_formula next_scalar blocks lay zeta w beta owners (with_stream xs ?st)) Inr)
      (ps_scalars (dc_stream ?st)) out_stream in_stream"
  proof (rule follows_bind [OF follows_formula])
    show "follows (case a of (v, st) \<Rightarrow> Inr (v, with_stream (ps_scalars (dc_stream st)) st)) (\<lambda>xs. Inr (on_stream a xs))
        (written_by a) out_stream in_stream" for a
      using follows_return [of "(fst a, with_stream (written_by a) (snd a))" in_stream out_stream]
      by (simp add: case_prod_unfold with_stream_def)
  qed
  then show ?thesis by (simp add: res_bind_Inr_right decompose_prove_def decompose_verify_def Let_def w)
qed

section \<open>The three sides\<close>

lemma follows_sides: "follows (decompose_sides (\<lambda>blocks lay w beta owners. decompose_prove blocks lay cols zeta w beta owners) tabs sides claims public scalars)
    (\<lambda>xs. decompose_sides (\<lambda>blocks lay w beta owners. decompose_verify blocks lay zeta w beta owners) tabs sides claims public xs)
    scalars (\<lambda>(out, claims, stream). stream) (\<lambda>(out, claims, stream) xs. (out, claims, xs))"
proof (induction sides arbitrary: claims public scalars)
  case Nil
  show ?case
    using follows_return [of "([], claims, scalars)" "\<lambda>(out, claims, stream) xs. (out, claims, xs)" "\<lambda>(out, claims, stream). stream"] by simp
next
  case (Cons side sides)
  obtain blocks lay w beta owners where side: "side = ((blocks, lay, w, beta), owners)" by (metis surj_pair)
  let ?run = "\<lambda>blocks lay w beta owners. decompose_prove blocks lay cols zeta w beta owners"
  let ?check = "\<lambda>blocks lay w beta owners. decompose_verify blocks lay zeta w beta owners"
  let ?st = "\<lambda>s. \<lparr>dc_forms = map (\<lambda>(base, n). bf_new n) tabs, dc_claims = claims, dc_public = public, dc_stream = s\<rparr>"
  have st: "with_stream xs (?st scalars) = ?st xs" for xs by (simp add: with_stream_def)
  have inner: "follows (res_bind (decompose_sides ?run tabs sides (dc_claims (snd a)) (dc_public (snd a)) (dc_stream (snd a)))
        (\<lambda>(rest, claims, stream). Inr ((fst a, dc_forms (snd a)) # rest, claims, stream)))
      (\<lambda>xs. res_bind (decompose_sides ?check tabs sides (dc_claims (snd a)) (dc_public (snd a)) xs)
        (\<lambda>(rest, claims, stream). Inr ((fst a, dc_forms (snd a)) # rest, claims, stream)))
      (out_stream a) (\<lambda>(out, claims, stream). stream) (\<lambda>(out, claims, stream) xs. (out, claims, xs))" for a :: "f192 \<times> f192 list decomp"
  proof (rule follows_bind [OF Cons.IH])
    show "follows (case b of (rest, claims, stream) \<Rightarrow> Inr ((fst a, dc_forms (snd a)) # rest, claims, stream))
        (\<lambda>xs. case (case b of (out, claims, stream) \<Rightarrow> \<lambda>xs. (out, claims, xs)) xs of
          (rest, claims, stream) \<Rightarrow> Inr ((fst a, dc_forms (snd a)) # rest, claims, stream))
        (case b of (out, claims, stream) \<Rightarrow> stream) (\<lambda>(out, claims, stream). stream) (\<lambda>(out, claims, stream) xs. (out, claims, xs))" for b
      using follows_return [of "((fst a, dc_forms (snd a)) # fst b, snd b)" "\<lambda>(out, claims, stream) xs. (out, claims, xs)" "\<lambda>(out, claims, stream). stream"]
      by (simp add: case_prod_unfold)
  qed
  have "follows (res_bind (?run blocks lay w beta owners (?st scalars))
        (\<lambda>(framework, st). res_bind (decompose_sides ?run tabs sides (dc_claims st) (dc_public st) (dc_stream st))
          (\<lambda>(rest, claims, stream). Inr ((framework, dc_forms st) # rest, claims, stream))))
      (\<lambda>xs. res_bind (?check blocks lay w beta owners (with_stream xs (?st scalars)))
        (\<lambda>(framework, st). res_bind (decompose_sides ?check tabs sides (dc_claims st) (dc_public st) (dc_stream st))
          (\<lambda>(rest, claims, stream). Inr ((framework, dc_forms st) # rest, claims, stream))))
      (dc_stream (?st scalars)) (\<lambda>(out, claims, stream). stream) (\<lambda>(out, claims, stream) xs. (out, claims, xs))"
    by (rule follows_bind [OF follows_prove]) (use inner in \<open>simp add: case_prod_unfold\<close>)
  then show ?case by (simp add: side st)
qed

text \<open>What a side's leaf claim is about: its leaves, padded with ones to the depth of the tree.\<close>

definition side_ready :: "f64 list list \<Rightarrow> (nat \<times> nat) list \<Rightarrow> f192 list \<Rightarrow> f192 list \<Rightarrow> side \<times> (nat \<times> nat) option list \<Rightarrow> bool" where
  "side_ready cols tabs zeta leaves = (\<lambda>((blocks, lay, w, beta), owners). side_fits cols tabs w blocks owners \<and>
    (\<exists>lay0. bus_place blocks = Some lay0 \<and> bus_mu lay0 \<le> length zeta \<and> lay = lay0\<lparr>bus_mu := length zeta\<rparr> \<and>
      length leaves = (\<Sum>b\<leftarrow>blocks. 2 ^ bl_kappa b) \<and>
      (\<forall>i<length blocks. \<forall>z<2 ^ bl_kappa (blocks ! i).
        leaves ! (bus_offsets lay0 ! i + z) = fingerprint w beta (tuple_at cols (blocks ! i) z))))"

definition leaf_value :: "f192 list \<Rightarrow> f192 list \<Rightarrow> f192" where
  "leaf_value leaves zeta = mle (leaves @ replicate (2 ^ length zeta - length leaves) f192_one) zeta"

lemma decompose_sides_value:
  assumes "list_all2 (side_ready cols tabs zeta) leaves sides" "claims_ok cols claims" "cache_ok zeta public"
  shows "\<exists>out claims' scalars'. decompose_sides (\<lambda>blocks lay w beta owners. decompose_prove blocks lay cols zeta w beta owners)
      tabs sides claims public scalars = Inr (out, claims', scalars') \<and> claims_ok cols claims' \<and>
    list_all2 (\<lambda>lv (framework, forms). length forms = length tabs \<and> (\<forall>t<length tabs. form_wf (snd (tabs ! t)) (forms ! t)) \<and>
      leaf_value lv zeta = framework + (\<Sum>t<length tabs. table_share cols tabs zeta forms t)) leaves out"
  using assms
proof (induction leaves sides arbitrary: claims public scalars rule: list_all2_induct)
  case (Cons lv lvs side sides)
  obtain blocks lay w beta owners where side: "side = ((blocks, lay, w, beta), owners)" by (metis surj_pair)
  obtain lay0 where s: "side_fits cols tabs w blocks owners" "bus_place blocks = Some lay0" "bus_mu lay0 \<le> length zeta"
    "lay = lay0\<lparr>bus_mu := length zeta\<rparr>" "length lv = (\<Sum>b\<leftarrow>blocks. 2 ^ bl_kappa b)"
    "\<And>i z. \<lbrakk>i < length blocks; z < 2 ^ bl_kappa (blocks ! i)\<rbrakk> \<Longrightarrow>
        lv ! (bus_offsets lay0 ! i + z) = fingerprint w beta (tuple_at cols (blocks ! i) z)"
    using Cons.hyps(1) by (auto simp: side side_ready_def)
  from decompose_prove_value [OF s(1-4) Cons.prems s(5,6)] obtain framework forms claims1 public1 new where
    one: "decompose_prove blocks lay cols zeta w beta owners
      \<lparr>dc_forms = map (\<lambda>(base, n). bf_new n) tabs, dc_claims = claims, dc_public = public, dc_stream = scalars\<rparr> =
        Inr (framework, \<lparr>dc_forms = forms, dc_claims = claims1, dc_public = public1, dc_stream = scalars @ new\<rparr>)"
      "length forms = length tabs" "\<forall>t<length tabs. form_wf (snd (tabs ! t)) (forms ! t)"
      "claims_ok cols claims1" "cache_ok zeta public1"
      "leaf_value lv zeta = framework + (\<Sum>t<length tabs. table_share cols tabs zeta forms t)"
    unfolding leaf_value_def one_f192_def [symmetric] by blast
  from Cons.IH [OF one(4,5), of "scalars @ new"] obtain out claims' scalars' where
    rest: "decompose_sides (\<lambda>blocks lay w beta owners. decompose_prove blocks lay cols zeta w beta owners)
      tabs sides claims1 public1 (scalars @ new) = Inr (out, claims', scalars')" "claims_ok cols claims'"
    "list_all2 (\<lambda>lv (framework, forms). length forms = length tabs \<and> (\<forall>t<length tabs. form_wf (snd (tabs ! t)) (forms ! t)) \<and>
      leaf_value lv zeta = framework + (\<Sum>t<length tabs. table_share cols tabs zeta forms t)) lvs out" by blast
  show ?case
    by (intro exI [of _ "(framework, forms) # out"] exI [of _ claims'] exI [of _ scalars'])
      (use one rest in \<open>simp add: side\<close>)
qed simp

lemma those_map: "(\<And>x. x \<in> set xs \<Longrightarrow> f x = Some (g x)) \<Longrightarrow> those (map f xs) = Some (map g xs)"
  by (induction xs) auto

lemma sigmas_value:
  assumes fits: "\<forall>tab\<in>set tabs. table_fits cols zeta tab"
    and False: "forms \<noteq> []"
    and forms: "\<forall>side\<in>set forms. length side = length tabs \<and> (\<forall>t<length tabs. form_wf (snd (tabs ! t)) (side ! t))"
  shows "\<exists>sums. tables_and_prods_at cols tabs forms zeta = Some sums \<and>
    (\<forall>side\<in>set forms. \<exists>sigmas. bus_sigmas side sums = Some sigmas \<and> sum_list sigmas = (\<Sum>t<length tabs. table_share cols tabs zeta side t))"
proof -
  let ?at = "\<lambda>t. map (\<lambda>side. side ! t) forms"
  have one: "\<exists>ep. table_sums cols (fst (tabs ! t)) (snd (tabs ! t)) (?at t) zeta = Some ep \<and>
      (\<forall>side\<in>set forms. bf_sum_at (side ! t) (fst ep) (snd ep) = Some (table_share cols tabs zeta side t))" if t: "t < length tabs" for t
  proof -
    obtain base n where bn: "tabs ! t = (base, n)" by fastforce
    then have "table_fits cols zeta (base, n)" using fits t by (metis nth_mem)
    then obtain tau where tau: "\<forall>c<n. length (cols ! (base + c)) = 2 ^ tau" "0 < n" "tau \<le> length zeta" by (auto simp: table_fits_def)
    have h: "table_height cols (tabs ! t) = tau" using tau(1) [rule_format, OF tau(2)] by (simp add: table_height_def bn)
    have wf: "\<forall>f\<in>set (?at t). form_wf n f" using forms t bn by (auto dest!: spec [of _ t])
    have "\<exists>evals prods. table_sums cols base n (?at t) zeta = Some (evals, prods) \<and>
        bf_sum_at (side ! t) evals prods = Some (table_share cols tabs zeta side t)" if "side \<in> set forms" for side
      using table_sums_value [OF tau(1-3) _ wf, of "side ! t"] that by (simp add: table_share_def h [unfolded bn] table_row_def bn)
    note sd = this
    obtain side0 where "side0 \<in> set forms" using False by (meson list.set_sel(1))
    then obtain e p where "table_sums cols base n (?at t) zeta = Some (e, p)" using sd by blast
    then show ?thesis using sd by (intro exI [of _ "(e, p)"]) (force simp: bn)
  qed
  let ?ep = "\<lambda>t. the (table_sums cols (fst (tabs ! t)) (snd (tabs ! t)) (?at t) zeta)"
  have ep: "table_sums cols (fst (tabs ! t)) (snd (tabs ! t)) (?at t) zeta = Some (?ep t)"
    "side \<in> set forms \<Longrightarrow> bf_sum_at (side ! t) (fst (?ep t)) (snd (?ep t)) = Some (table_share cols tabs zeta side t)"
    if "t < length tabs" for t side using one [OF that] by auto
  have "map (\<lambda>(t, base, n). table_sums cols base n (?at t) zeta) (enumerate 0 tabs) =
      map (\<lambda>t. table_sums cols (fst (tabs ! t)) (snd (tabs ! t)) (?at t) zeta) [0..<length tabs]"
    by (rule nth_equalityI) (simp_all add: nth_enumerate_eq case_prod_unfold)
  moreover have "those (map (\<lambda>t. table_sums cols (fst (tabs ! t)) (snd (tabs ! t)) (?at t) zeta) [0..<length tabs]) =
      Some (map ?ep [0..<length tabs])" by (rule those_map) (use ep(1) in simp)
  ultimately have "tables_and_prods_at cols tabs forms zeta = Some (map ?ep [0..<length tabs])" by (simp add: tables_and_prods_at_def)
  moreover have "bus_sigmas side (map ?ep [0..<length tabs]) = Some (map (table_share cols tabs zeta side) [0..<length tabs])"
    if side: "side \<in> set forms" for side
  proof -
    have "map2 (\<lambda>f (evals, prods). bf_sum_at f evals prods) side (map ?ep [0..<length tabs]) =
        map (\<lambda>t. bf_sum_at (side ! t) (fst (?ep t)) (snd (?ep t))) [0..<length tabs]"
      by (rule nth_equalityI) (use forms side in \<open>simp_all add: case_prod_unfold\<close>)
    moreover have "those (map (\<lambda>t. bf_sum_at (side ! t) (fst (?ep t)) (snd (?ep t))) [0..<length tabs]) =
        Some (map (table_share cols tabs zeta side) [0..<length tabs])"
      by (rule those_map) (use ep(2) [OF _ side] in simp)
    ultimately show ?thesis by (simp add: bus_sigmas_def)
  qed
  moreover have "sum_list (map f [0..<n]) = (\<Sum>t<n. f t)" for f :: "nat \<Rightarrow> f192" and n
    by (simp add: interv_sum_list_conv_sum_set_nat atLeast0LessThan)
  ultimately show ?thesis by auto
qed

end
