(* ===== verification/Balance.thy ===== *)
theory Balance
  imports Decompose
begin

text \<open>
  The bus argument around its product tree: the three sides, their leaves, the shares the prover states and the verifier
  derives, and the claim on the stacked bytecode polynomial.
\<close>

section \<open>The bus argument, around the product tree\<close>

text \<open>
  \<^verbatim>\<open>prove_balance\<close> and \<^verbatim>\<open>verify_balance\<close>: what comes before the product tree (the sides and their leaves) and what follows,
  from the tree's point, leaf values and roots.
\<close>

definition grinding_unnecessary :: "block list \<Rightarrow> block list \<Rightarrow> bus_layout \<Rightarrow> bus_layout \<Rightarrow> bus_layout \<Rightarrow> bool" where
  "grinding_unnecessary push_blocks pull_blocks push pull count \<longleftrightarrow>
    bus_mu push = bus_mu pull \<and> bus_mu count \<le> bus_mu push \<and>
    (\<forall>b\<in>set (push_blocks @ pull_blocks). length (bl_coords b) \<le> 2 ^ n_tuple_bits) \<and>
    (case soundness_bits (bus_mu push) of None \<Rightarrow> False | Some bits \<Rightarrow> security_bits \<le> bits)"

definition balance_sides :: "block list list \<Rightarrow> f192 list \<Rightarrow> f192 \<Rightarrow> side list option" where
  "balance_sides blocks alphas beta =
    do { push \<leftarrow> bus_place (blocks ! 0); pull \<leftarrow> bus_place (blocks ! 1); count \<leftarrow> bus_place (blocks ! 2);
         if grinding_unnecessary (blocks ! 0) (blocks ! 1) push pull count
         then Some (bus_sides blocks [push, pull, count\<lparr>bus_mu := bus_mu push\<rparr>]
           (fingerprint_weights alphas) (fingerprint_weights (replicate n_tuple_bits f192_zero)) beta)
         else None }"

definition index_powers :: "block list list \<Rightarrow> f64 list" where
  "index_powers blocks =
    (let ks = map bl_kappa (filter (\<lambda>b. CIndex \<in> set (bl_coords b)) (concat blocks))
     in if ks = [] then [] else g_powers (2 ^ Max (set ks)))"

definition balance_leaves :: "f192 list list \<Rightarrow> block list list \<Rightarrow> f64 list list \<Rightarrow> f192 list \<Rightarrow> f192 \<Rightarrow> f192 list list option" where
  "balance_leaves garbage blocks cols alphas beta =
    map_option (\<lambda>sides. map2 (\<lambda>g (bs, lay, w, be). build_leaves g bs lay cols w be (index_powers blocks)) garbage sides)
      (balance_sides blocks alphas beta)"

record bus_proof =
  bp_claims :: "column_claim list"
  bp_point :: "f192 list"
  bp_forms :: "bus_form list list"
  bp_sigmas :: "f192 list list"

definition prove_shares ::
  "block list list \<Rightarrow> f64 list list \<Rightarrow> (nat \<times> nat) option list list \<Rightarrow> (nat \<times> nat) list \<Rightarrow> f192 list \<Rightarrow> f192 \<Rightarrow> f192 list \<Rightarrow> f192 list \<Rightarrow>
    (bus_proof \<times> f192 list \<times> f192 list) option" where
  "prove_shares blocks cols owners tabs alphas beta zeta scalars =
    Option.bind (balance_sides blocks alphas beta) (\<lambda>sides.
      case decompose_sides (\<lambda>bs lay w be own. decompose_prove bs lay cols zeta w be own) tabs (zip sides owners) [] Map.empty scalars of
        Inl e \<Rightarrow> None
      | Inr (out, claims, scalars) \<Rightarrow>
          do { sums \<leftarrow> tables_and_prods_at cols tabs (map snd out) zeta;
               sigmas \<leftarrow> those (map (\<lambda>forms. bus_sigmas forms sums) (map snd out));
               Some (\<lparr>bp_claims = claims, bp_point = zeta, bp_forms = map snd out, bp_sigmas = sigmas\<rparr>, map fst out, scalars) })"

record bus_verify =
  bv_claims :: "column_claim list"
  bv_point :: "f192 list"
  bv_forms :: "bus_form list list"
  bv_totals :: "f192 list"

definition verify_shares ::
  "block list list \<Rightarrow> (nat \<times> nat) option list list \<Rightarrow> (nat \<times> nat) list \<Rightarrow> f192 list \<Rightarrow> f192 \<Rightarrow> f192 list \<Rightarrow> f192 list \<Rightarrow> f192 list \<Rightarrow> f192 list \<Rightarrow>
    (bus_fail, bus_verify \<times> f192 list) result" where
  "verify_shares blocks owners tabs alphas beta zeta vals roots stream =
    (case balance_sides blocks alphas beta of
       None \<Rightarrow> Inl BusPanic
     | Some sides \<Rightarrow>
         if roots ! 2 = f192_zero then Inl (BusFailed ZeroCount)
         else res_bind (decompose_sides (\<lambda>bs lay w be own. decompose_verify bs lay zeta w be own) tabs (zip sides owners) [] Map.empty stream)
           (\<lambda>(out, claims, stream). Inr (\<lparr>bv_claims = claims, bv_point = zeta, bv_forms = map snd out,
              bv_totals = map2 (\<lambda>(framework, _) v. framework + v) out vals\<rparr>, stream)))"

lemma length_fingerprint_weights [simp]: "length (fingerprint_weights alphas) = 2 ^ n_tuple_bits"
proof -
  have "length (fold (\<lambda>(k, a) w. map (\<lambda>(x, wx). wx * (if bit x k then a else a + f192_one)) (enumerate 0 w)) kas w) = length w"
    for kas :: "(nat \<times> f192) list" and w :: "f192 list" by (induction kas arbitrary: w) auto
  then show ?thesis by (simp add: fingerprint_weights_def)
qed

text \<open>What the layout of a run gives a bus: every side fits its columns, and every table its rows.\<close>

definition bus_fits :: "block list list \<Rightarrow> f64 list list \<Rightarrow> (nat \<times> nat) option list list \<Rightarrow> (nat \<times> nat) list \<Rightarrow> f192 list \<Rightarrow> bool" where
  "bus_fits blocks cols owners tabs zeta \<longleftrightarrow> length owners = 3 \<and>
    (\<forall>s<3. side_fits cols tabs (replicate (2 ^ n_tuple_bits) f192_zero) (blocks ! s) (owners ! s)) \<and>
    (\<forall>tab\<in>set tabs. table_fits cols zeta tab)"

lemma side_fits_width: "length w = length v \<Longrightarrow> side_fits cols tabs w blocks owners \<longleftrightarrow> side_fits cols tabs v blocks owners"
  by (simp add: side_fits_def)

lemma framework_index:
  assumes "side_fits cols tabs w blocks owners" "b \<in> set blocks" "list_ex uses_index (bl_coords b)"
  shows "CIndex \<in> set (bl_coords b)"
proof -
  have t: "\<not> uses_index c" if "in_columns base n c" for base n c
    using that by (induction c) (auto simp: list_all_iff list_ex_iff)
  have f: "c = CIndex" if "uses_index c" "frame_coord cols k c" for k c using that by (cases c) auto
  obtain i where i: "i < length blocks" "b = blocks ! i" using assms(2) by (auto simp: in_set_conv_nth)
  obtain c where c: "c \<in> set (bl_coords b)" "uses_index c" using assms(3) by (auto simp: list_ex_iff)
  show ?thesis
  proof (cases "owners ! i")
    case None
    then have "frame_coord cols (bl_kappa b) c" using assms(1) i c(1) by (auto simp: side_fits_def list_all_iff)
    then show ?thesis using f [OF c(2)] c(1) by blast
  next
    case (Some tb)
    obtain u base where "tb = (u, base)" by fastforce
    then have "list_all (in_columns base (snd (tabs ! u))) (bl_coords b)" using assms(1) i Some by (fastforce simp: side_fits_def)
    then have "in_columns base (snd (tabs ! u)) c" using c(1) by (simp add: list_all_iff)
    then show ?thesis using t c(2) by blast
  qed
qed

lemma index_powers_nth:
  assumes "b \<in> set (concat blocks)" "CIndex \<in> set (bl_coords b)" "z < 2 ^ bl_kappa b"
  shows "index_powers blocks ! z = f64_g ^ z"
proof -
  let ?ks = "map bl_kappa (filter (\<lambda>b. CIndex \<in> set (bl_coords b)) (concat blocks))"
  have "bl_kappa b \<in> set ?ks" using assms(1,2) by auto
  then have "bl_kappa b \<le> Max (set ?ks)" "?ks \<noteq> []" by (blast intro: Max_ge, metis empty_iff list.set(1))
  then have "z < 2 ^ Max (set ?ks)" using assms(3) by (meson less_le_trans one_le_numeral power_increasing)
  then show ?thesis using \<open>?ks \<noteq> []\<close> by (simp add: index_powers_def Let_def g_powers_eq)
qed

lemma balance_sides_ready:
  assumes fits: "bus_fits blocks cols owners tabs zeta" and l3: "length blocks = 3" and sides: "balance_sides blocks alphas beta = Some sides"
    and zeta: "length zeta = bus_mu (fst (snd (sides ! 0)))"
    and garbage: "length garbage = 3" "\<forall>s<3. (\<Sum>b\<leftarrow>blocks ! s. 2 ^ bl_kappa b) \<le> length (garbage ! s)"
    and leaves: "balance_leaves garbage blocks cols alphas beta = Some leaves"
  shows "list_all2 (side_ready cols tabs zeta) leaves (zip sides owners)" "length leaves = 3"
proof -
  let ?w = "fingerprint_weights alphas" and ?c = "fingerprint_weights (replicate n_tuple_bits f192_zero)"
  obtain push pull count where p: "bus_place (blocks ! 0) = Some push" "bus_place (blocks ! 1) = Some pull" "bus_place (blocks ! 2) = Some count"
    "grinding_unnecessary (blocks ! 0) (blocks ! 1) push pull count"
    and s: "sides = bus_sides blocks [push, pull, count\<lparr>bus_mu := bus_mu push\<rparr>] ?w ?c beta"
    using sides by (auto simp: balance_sides_def bind_eq_Some_conv split: if_splits)
  have mu: "length zeta = bus_mu push" using zeta by (simp add: s bus_sides_def)
  have ready: "side_ready cols tabs zeta (build_leaves g bs lay cols w be (index_powers blocks)) ((bs, lay\<lparr>bus_mu := length zeta\<rparr>, w, be), own)"
    if "side_fits cols tabs w bs own" "bus_place bs = Some lay" "bus_mu lay \<le> length zeta" "bs \<in> set blocks"
      "(\<Sum>b\<leftarrow>bs. 2 ^ bl_kappa b) \<le> length g" for g bs lay w be own
  proof -
    have small: "\<forall>b\<in>set bs. bl_kappa b < 64" and ne: "bs \<noteq> []" and width: "\<forall>b\<in>set bs. length (bl_coords b) \<le> length w"
      using that(1) by (auto simp: side_fits_def in_set_conv_nth)
    have gpow: "\<forall>b\<in>set bs. list_ex uses_index (bl_coords b) \<longrightarrow> (\<forall>z<2 ^ bl_kappa b. index_powers blocks ! z = f64_g ^ z)"
      using that(4) framework_index [OF that(1)] by (auto intro!: index_powers_nth)
    show ?thesis using build_leaves_at [OF that(2) small ne width gpow that(5), where cols = cols and beta = be] that(1-3)
      by (auto simp: side_ready_def)
  qed
  have relay: "build_leaves g bs (lay\<lparr>bus_mu := m\<rparr>) cols w be gp = build_leaves g bs lay cols w be gp" for g bs lay w be gp m
    by (simp add: build_leaves_def)
  have sf: "side_fits cols tabs ?w (blocks ! s) (owners ! s)" "side_fits cols tabs ?c (blocks ! s) (owners ! s)" if "s < 3" for s
    using fits that side_fits_width [of ?w "replicate (2 ^ n_tuple_bits) f192_zero" cols tabs "blocks ! s" "owners ! s"]
      side_fits_width [of ?c "replicate (2 ^ n_tuple_bits) f192_zero" cols tabs "blocks ! s" "owners ! s"]
    by (auto simp: bus_fits_def)
  obtain g0 g1 g2 where g: "garbage = [g0, g1, g2]" using garbage(1) by (auto simp: numeral_3_eq_3 length_Suc_conv)
  obtain o0 o1 o2 where ow: "owners = [o0, o1, o2]" using fits by (auto simp: bus_fits_def numeral_3_eq_3 length_Suc_conv)
  obtain b0 b1 b2 where b: "blocks = [b0, b1, b2]" using l3 by (auto simp: numeral_3_eq_3 length_Suc_conv)
  have mus: "bus_mu pull = length zeta" "bus_mu count \<le> length zeta" "push\<lparr>bus_mu := length zeta\<rparr> = push" "pull\<lparr>bus_mu := bus_mu push\<rparr> = pull"
    using p(4) mu by (auto simp: grinding_unnecessary_def)
  have lv: "leaves = [build_leaves g0 b0 push cols ?w beta (index_powers blocks), build_leaves g1 b1 pull cols ?w beta (index_powers blocks),
      build_leaves g2 b2 count cols ?c f192_zero (index_powers blocks)]"
    using leaves unfolding balance_leaves_def sides by (simp add: s bus_sides_def g relay b)
  then show "length leaves = 3" by simp
  have G: "(\<Sum>b\<leftarrow>b0. 2 ^ bl_kappa b) \<le> length g0" "(\<Sum>b\<leftarrow>b1. 2 ^ bl_kappa b) \<le> length g1" "(\<Sum>b\<leftarrow>b2. 2 ^ bl_kappa b) \<le> length g2"
    using garbage(2) [rule_format, of 0] garbage(2) [rule_format, of 1] garbage(2) [rule_format, of 2] by (simp_all add: g b)
  show "list_all2 (side_ready cols tabs zeta) leaves (zip sides owners)"
    using ready [of ?w b0 o0 push g0 beta] ready [of ?w b1 o1 pull g1 beta] ready [of ?c b2 o2 count g2 f192_zero]
      sf(1) [of 0] sf(1) [of 1] sf(2) [of 2] p(1-3) G mus mu
    by (simp add: lv s bus_sides_def ow b)
qed

lemma prove_shares_value:
  assumes fits: "bus_fits blocks cols owners tabs zeta" and l3: "length blocks = 3" and sides: "balance_sides blocks alphas beta = Some sides"
    and zeta: "length zeta = bus_mu (fst (snd (sides ! 0)))"
    and garbage: "length garbage = 3" "\<forall>s<3. (\<Sum>b\<leftarrow>blocks ! s. 2 ^ bl_kappa b) \<le> length (garbage ! s)"
  shows "\<exists>leaves bp frameworks scalars'. balance_leaves garbage blocks cols alphas beta = Some leaves \<and>
    prove_shares blocks cols owners tabs alphas beta zeta scalars = Some (bp, frameworks, scalars') \<and>
    claims_ok cols (bp_claims bp) \<and> bp_point bp = zeta \<and>
    map (\<lambda>lv. leaf_value lv zeta) leaves = map2 (\<lambda>f sigmas. f + sum_list sigmas) frameworks (bp_sigmas bp) \<and>
    length frameworks = 3 \<and> length (bp_sigmas bp) = 3"
proof -
  obtain leaves where leaves: "balance_leaves garbage blocks cols alphas beta = Some leaves" by (simp add: balance_leaves_def sides)
  note r = balance_sides_ready [OF fits l3 sides zeta garbage leaves]
  have c0: "claims_ok cols []" "cache_ok zeta Map.empty" by (simp_all add: claims_ok_def cache_ok_def)
  from decompose_sides_value [OF r(1) c0, of scalars] obtain out claims scalars' where
    d: "decompose_sides (\<lambda>bs lay w be own. decompose_prove bs lay cols zeta w be own) tabs (zip sides owners) [] Map.empty scalars =
      Inr (out, claims, scalars')" "claims_ok cols claims"
    "list_all2 (\<lambda>lv (framework, forms). length forms = length tabs \<and> (\<forall>t<length tabs. form_wf (snd (tabs ! t)) (forms ! t)) \<and>
      leaf_value lv zeta = framework + (\<Sum>t<length tabs. table_share cols tabs zeta forms t)) leaves out" by blast
  have out3: "length out = 3" using list_all2_lengthD [OF d(3)] r(2) by simp
  have wf: "\<forall>side\<in>set (map snd out). length side = length tabs \<and> (\<forall>t<length tabs. form_wf (snd (tabs ! t)) (side ! t))"
    using d(3) by (auto simp: list_all2_conv_all_nth in_set_conv_nth) (metis (mono_tags, lifting) case_prodD)+
  have tf: "\<forall>tab\<in>set tabs. table_fits cols zeta tab" using fits by (simp add: bus_fits_def)
  have ne: "map snd out \<noteq> []" using out3 by auto
  from sigmas_value [OF tf ne wf] obtain sums where sums: "tables_and_prods_at cols tabs (map snd out) zeta = Some sums"
    "\<forall>side\<in>set (map snd out). \<exists>sigmas. bus_sigmas side sums = Some sigmas \<and> sum_list sigmas = (\<Sum>t<length tabs. table_share cols tabs zeta side t)"
    by blast
  let ?sg = "\<lambda>side. the (bus_sigmas side sums)"
  have sg: "bus_sigmas side sums = Some (?sg side)" "sum_list (?sg side) = (\<Sum>t<length tabs. table_share cols tabs zeta side t)"
    if "side \<in> set (map snd out)" for side using bspec [OF sums(2) that] by auto
  have "those (map (\<lambda>forms. bus_sigmas forms sums) (map snd out)) = Some (map ?sg (map snd out))" by (rule those_map) (rule sg(1))
  then have p: "prove_shares blocks cols owners tabs alphas beta zeta scalars =
      Some (\<lparr>bp_claims = claims, bp_point = zeta, bp_forms = map snd out, bp_sigmas = map ?sg (map snd out)\<rparr>, map fst out, scalars')"
    using d(1) sums(1) by (simp add: prove_shares_def sides)
  have "map (\<lambda>lv. leaf_value lv zeta) leaves = map2 (\<lambda>f sigmas. f + sum_list sigmas) (map fst out) (map ?sg (map snd out))"
  proof (rule nth_equalityI)
    show "length (map (\<lambda>lv. leaf_value lv zeta) leaves) = length (map2 (\<lambda>f sigmas. f + sum_list sigmas) (map fst out) (map ?sg (map snd out)))"
      by (simp add: r(2) out3)
    fix i assume "i < length (map (\<lambda>lv. leaf_value lv zeta) leaves)"
    then have i: "i < length leaves" "i < length out" by (simp_all add: r(2) out3)
    have "leaf_value (leaves ! i) zeta = fst (out ! i) + (\<Sum>t<length tabs. table_share cols tabs zeta (snd (out ! i)) t)"
      using list_all2_nthD [OF d(3) i(1)] by (simp add: case_prod_unfold)
    moreover have "sum_list (?sg (snd (out ! i))) = (\<Sum>t<length tabs. table_share cols tabs zeta (snd (out ! i)) t)"
      by (rule sg(2)) (use i(2) in simp)
    ultimately show "map (\<lambda>lv. leaf_value lv zeta) leaves ! i = map2 (\<lambda>f sigmas. f + sum_list sigmas) (map fst out) (map ?sg (map snd out)) ! i"
      using i by simp
  qed
  then show ?thesis using leaves p d(2) out3 by simp
qed

lemma prove_shares_Some:
  assumes "prove_shares blocks cols owners tabs alphas beta zeta scalars = Some (bp, frameworks, scalars')"
  shows "\<exists>sides out. balance_sides blocks alphas beta = Some sides \<and>
    decompose_sides (\<lambda>bs lay w be own. decompose_prove bs lay cols zeta w be own) tabs (zip sides owners) [] Map.empty scalars =
      Inr (out, bp_claims bp, scalars') \<and> bp_forms bp = map snd out \<and> frameworks = map fst out"
proof -
  obtain sides where s: "balance_sides blocks alphas beta = Some sides" using assms by (cases "balance_sides blocks alphas beta") (simp_all add: prove_shares_def)
  let ?d = "decompose_sides (\<lambda>bs lay w be own. decompose_prove bs lay cols zeta w be own) tabs (zip sides owners) [] Map.empty scalars"
  obtain out claims sc where d: "?d = Inr (out, claims, sc)" using assms s by (cases ?d) (auto simp: prove_shares_def)
  show ?thesis using assms by (auto simp: prove_shares_def s d bind_eq_Some_conv)
qed

text \<open>C3: for each of the three sides, the leaf vector, padded with ones and evaluated at the tree's point, is the framework
  blocks' decomposition plus the sums of the tables' forms over their rows: the identity the prover states as
  \<open>side s must decompose into its leaf value\<close>; every column claim it records is the column's evaluation.\<close>
theorem bus_sides_decompose:
  assumes "bus_fits blocks cols owners tabs zeta" "length blocks = 3" "balance_sides blocks alphas beta = Some sides"
    and "length zeta = bus_mu (fst (snd (sides ! 0)))"
    and "length garbage = 3" "\<forall>s<3. (\<Sum>b\<leftarrow>blocks ! s. 2 ^ bl_kappa b) \<le> length (garbage ! s)"
  shows "\<exists>leaves bp frameworks scalars'. balance_leaves garbage blocks cols alphas beta = Some leaves \<and>
    prove_shares blocks cols owners tabs alphas beta zeta scalars = Some (bp, frameworks, scalars') \<and>
    (\<forall>s<3. leaf_value (leaves ! s) zeta = frameworks ! s + sum_list (bp_sigmas bp ! s)) \<and>
    (\<forall>c\<in>set (bp_claims bp). cc_value c = mle_eval (cols ! cc_col c) (cc_point c))"
proof -
  obtain leaves bp frameworks scalars' where *: "balance_leaves garbage blocks cols alphas beta = Some leaves"
    "prove_shares blocks cols owners tabs alphas beta zeta scalars = Some (bp, frameworks, scalars')" "claims_ok cols (bp_claims bp)"
    "map (\<lambda>lv. leaf_value lv zeta) leaves = map2 (\<lambda>f sigmas. f + sum_list sigmas) frameworks (bp_sigmas bp)"
    "length frameworks = 3" "length (bp_sigmas bp) = 3"
    using prove_shares_value [OF assms, of scalars] by blast
  have l: "length leaves = 3" using arg_cong [OF *(4), of length] *(5,6) by simp
  have "leaf_value (leaves ! s) zeta = frameworks ! s + sum_list (bp_sigmas bp ! s)" if "s < 3" for s
    using arg_cong [OF *(4), of "\<lambda>xs. xs ! s"] l *(5,6) that by simp
  then show ?thesis using *(1,2,3) by (auto simp: claims_ok_def)
qed

text \<open>C7: on the scalars the prover wrote and the tree's true leaf values, with no zero count, the verifier consumes exactly
  those scalars, reaches the prover's claims and forms, and derives for each side precisely the sum of the tables' shares.\<close>
theorem bus_verifier_derives_shares:
  assumes "bus_fits blocks cols owners tabs zeta" "length blocks = 3" "balance_sides blocks alphas beta = Some sides"
    and "length zeta = bus_mu (fst (snd (sides ! 0)))"
    and "length garbage = 3" "\<forall>s<3. (\<Sum>b\<leftarrow>blocks ! s. 2 ^ bl_kappa b) \<le> length (garbage ! s)"
    and "roots ! 2 \<noteq> f192_zero"
  shows "\<exists>leaves bp frameworks scalars. balance_leaves garbage blocks cols alphas beta = Some leaves \<and>
    prove_shares blocks cols owners tabs alphas beta zeta [] = Some (bp, frameworks, scalars) \<and>
    (\<forall>rest. verify_shares blocks owners tabs alphas beta zeta (map (\<lambda>lv. leaf_value lv zeta) leaves) roots (scalars @ rest) =
      Inr (\<lparr>bv_claims = bp_claims bp, bv_point = bp_point bp, bv_forms = bp_forms bp, bv_totals = map sum_list (bp_sigmas bp)\<rparr>, rest))"
proof -
  obtain leaves bp frameworks scalars where p: "balance_leaves garbage blocks cols alphas beta = Some leaves"
    "prove_shares blocks cols owners tabs alphas beta zeta [] = Some (bp, frameworks, scalars)" "bp_point bp = zeta"
    "map (\<lambda>lv. leaf_value lv zeta) leaves = map2 (\<lambda>f sigmas. f + sum_list sigmas) frameworks (bp_sigmas bp)"
    "length frameworks = 3" "length (bp_sigmas bp) = 3"
    using prove_shares_value [OF assms(1-6), of "[]"] by blast
  obtain out where out: "decompose_sides (\<lambda>bs lay w be own. decompose_prove bs lay cols zeta w be own) tabs (zip sides owners) [] Map.empty [] =
      Inr (out, bp_claims bp, scalars)" "bp_forms bp = map snd out" "frameworks = map fst out"
    using prove_shares_Some [OF p(2)] assms(3) by auto
  have v: "decompose_sides (\<lambda>bs lay w be own. decompose_verify bs lay zeta w be own) tabs (zip sides owners) [] Map.empty (scalars @ rest) =
      Inr (out, bp_claims bp, rest)" for rest
    using follows_sides [of cols zeta tabs "zip sides owners" "[]" Map.empty "[]"] out(1) by (simp add: follows_def)
  have "map2 (\<lambda>(f, _) v. f + v) out (map (\<lambda>lv. leaf_value lv zeta) leaves) = map sum_list (bp_sigmas bp)"
  proof -
    have "f + (f + s) = s" for f s :: f192 by (metis add.assoc add_0 f192_char2)
    then show ?thesis unfolding p(4) using p(5,6) out(3)
      by (intro nth_equalityI) (simp_all add: case_prod_unfold)
  qed
  then show ?thesis
    using p v assms(7) out(2) by (auto simp: verify_shares_def assms(3))
qed

text \<open>C20: a verifier given fewer scalars than the prover wrote stops with the truncation error, wherever the stream was cut;
  a zero in the product of counts is refused before any scalar is read.\<close>
theorem bus_verifier_refuses:
  assumes "prove_shares blocks cols owners tabs alphas beta zeta [] = Some (bp, frameworks, scalars)"
  shows "(roots ! 2 = f192_zero \<longrightarrow> verify_shares blocks owners tabs alphas beta zeta vals roots stream = Inl (BusFailed ZeroCount)) \<and>
    (roots ! 2 \<noteq> f192_zero \<longrightarrow> (\<forall>k<length scalars.
      verify_shares blocks owners tabs alphas beta zeta vals roots (take k scalars) = Inl (BusFailed Truncated)))"
proof -
  obtain sides out where s: "balance_sides blocks alphas beta = Some sides"
    "decompose_sides (\<lambda>bs lay w be own. decompose_prove bs lay cols zeta w be own) tabs (zip sides owners) [] Map.empty [] =
      Inr (out, bp_claims bp, scalars)"
    using prove_shares_Some [OF assms] by blast
  have "decompose_sides (\<lambda>bs lay w be own. decompose_verify bs lay zeta w be own) tabs (zip sides owners) [] Map.empty (take k scalars) =
      Inl (BusFailed Truncated)" if "k < length scalars" for k
    using follows_sides [of cols zeta tabs "zip sides owners" "[]" Map.empty "[]"] s(2) that by (simp add: follows_def)
  then show ?thesis by (simp add: verify_shares_def s(1))
qed

section \<open>A small bus\<close>

text \<open>A framework block of two rows, and a table of one row with a column and a product coordinate.\<close>

definition bus_demo_cols :: "f64 list list" where
  "bus_demo_cols = [[F64 3, F64 4], [F64 5], [F64 7]]"

definition bus_demo_blocks :: "block list list" where
  "bus_demo_blocks =
    (let framework = \<lparr>bl_kappa = 1, bl_coords = [CConst (F64 9), CIndex, CCol 0]\<rparr>;
         tab = \<lparr>bl_kappa = 0, bl_coords = [CCol 1, CProd 1 2 1]\<rparr>;
         count = \<lparr>bl_kappa = 0, bl_coords = [CCol 2]\<rparr>
     in [[framework, tab], [tab, framework], [count]])"

definition bus_demo_owners :: "(nat \<times> nat) option list list" where
  "bus_demo_owners = [[None, Some (0, 1)], [Some (0, 1), None], [Some (0, 1)]]"

definition bus_demo_zeta :: "f192 list" where
  "bus_demo_zeta = [F192 2 1 0, F192 6 0 1]"

definition bus_demo_alphas :: "f192 list" where
  "bus_demo_alphas = replicate 4 f192_y"

lemma bus_demo_fits: "bus_fits bus_demo_blocks bus_demo_cols bus_demo_owners [(1, 2)] bus_demo_zeta"
proof -
  have "\<exists>tau\<le>length bus_demo_zeta. \<forall>c<2. length (bus_demo_cols ! (1 + c)) = 2 ^ tau"
    by (intro exI [of _ 0]) (simp add: bus_demo_zeta_def bus_demo_cols_def numeral_2_eq_2 All_less_Suc)
  then show ?thesis
    by (simp add: bus_fits_def side_fits_def table_fits_def bus_demo_blocks_def bus_demo_owners_def bus_demo_cols_def Let_def
        n_tuple_bits_def numeral_3_eq_3 All_less_Suc)
qed

text \<open>The bus of the small example has depth two.\<close>

lemma bus_demo_sides: "\<exists>sides. balance_sides bus_demo_blocks bus_demo_alphas f192_y = Some sides \<and> bus_mu (fst (snd (sides ! 0))) = 2"
proof -
  have "bus_place (bus_demo_blocks ! 0) = Some \<lparr>bus_mu = 2, bus_offsets = [0, 2]\<rparr>"
    "bus_place (bus_demo_blocks ! 1) = Some \<lparr>bus_mu = 2, bus_offsets = [2, 0]\<rparr>"
    "bus_place (bus_demo_blocks ! 2) = Some \<lparr>bus_mu = 0, bus_offsets = [0]\<rparr>" by code_simp+
  moreover have "grinding_unnecessary (bus_demo_blocks ! 0) (bus_demo_blocks ! 1) \<lparr>bus_mu = 2, bus_offsets = [0, 2]\<rparr>
      \<lparr>bus_mu = 2, bus_offsets = [2, 0]\<rparr> \<lparr>bus_mu = 0, bus_offsets = [0]\<rparr>" by code_simp
  ultimately show ?thesis by (simp add: balance_sides_def bus_sides_def)
qed

lemma bus_demo_garbage:
  "length [replicate 3 f192_y, replicate 3 f192_y, [f192_y]] = 3 \<and>
    (\<forall>s<3. (\<Sum>b\<leftarrow>bus_demo_blocks ! s. 2 ^ bl_kappa b) \<le> length ([replicate 3 f192_y, replicate 3 f192_y, [f192_y]] ! s))"
  by (simp add: bus_demo_blocks_def Let_def numeral_3_eq_3 All_less_Suc)

lemma bus_demo_lengths: "length bus_demo_blocks = 3" "length bus_demo_zeta = 2"
  by (simp_all add: bus_demo_blocks_def bus_demo_zeta_def Let_def)

theorem bus_sides_decompose_witness:
  "\<exists>leaves bp frameworks scalars'.
    balance_leaves [replicate 3 f192_y, replicate 3 f192_y, [f192_y]] bus_demo_blocks bus_demo_cols bus_demo_alphas f192_y = Some leaves \<and>
    prove_shares bus_demo_blocks bus_demo_cols bus_demo_owners [(1, 2)] bus_demo_alphas f192_y bus_demo_zeta [] = Some (bp, frameworks, scalars') \<and>
    leaf_value (leaves ! 0) bus_demo_zeta = frameworks ! 0 + sum_list (bp_sigmas bp ! 0)"
proof -
  obtain sides where s: "balance_sides bus_demo_blocks bus_demo_alphas f192_y = Some sides" "bus_mu (fst (snd (sides ! 0))) = 2"
    using bus_demo_sides by blast
  have z: "length bus_demo_zeta = bus_mu (fst (snd (sides ! 0)))" using s(2) bus_demo_lengths by simp
  show ?thesis
    using bus_sides_decompose [OF bus_demo_fits bus_demo_lengths(1) s(1) z bus_demo_garbage [THEN conjunct1] bus_demo_garbage [THEN conjunct2], of "[]"]
    by (meson zero_less_numeral)
qed

theorem bus_verifier_derives_shares_witness:
  "\<exists>leaves bp frameworks scalars.
    balance_leaves [replicate 3 f192_y, replicate 3 f192_y, [f192_y]] bus_demo_blocks bus_demo_cols bus_demo_alphas f192_y = Some leaves \<and>
    prove_shares bus_demo_blocks bus_demo_cols bus_demo_owners [(1, 2)] bus_demo_alphas f192_y bus_demo_zeta [] = Some (bp, frameworks, scalars) \<and>
    verify_shares bus_demo_blocks bus_demo_owners [(1, 2)] bus_demo_alphas f192_y bus_demo_zeta
      (map (\<lambda>lv. leaf_value lv bus_demo_zeta) leaves) [f192_one, f192_one, f192_one] (scalars @ [f192_y]) =
      Inr (\<lparr>bv_claims = bp_claims bp, bv_point = bp_point bp, bv_forms = bp_forms bp, bv_totals = map sum_list (bp_sigmas bp)\<rparr>, [f192_y])"
proof -
  obtain sides where s: "balance_sides bus_demo_blocks bus_demo_alphas f192_y = Some sides" "bus_mu (fst (snd (sides ! 0))) = 2"
    using bus_demo_sides by blast
  have z: "length bus_demo_zeta = bus_mu (fst (snd (sides ! 0)))" using s(2) bus_demo_lengths by simp
  have r: "[f192_one, f192_one, f192_one] ! 2 \<noteq> f192_zero" by (simp add: f192_one_def f192_zero_def)
  show ?thesis
    using bus_verifier_derives_shares [OF bus_demo_fits bus_demo_lengths(1) s(1) z bus_demo_garbage [THEN conjunct1] bus_demo_garbage [THEN conjunct2] r]
    by blast
qed

theorem bus_verifier_refuses_witness:
  "\<exists>bp frameworks scalars.
    prove_shares bus_demo_blocks bus_demo_cols bus_demo_owners [(1, 2)] bus_demo_alphas f192_y bus_demo_zeta [] = Some (bp, frameworks, scalars) \<and>
    verify_shares bus_demo_blocks bus_demo_owners [(1, 2)] bus_demo_alphas f192_y bus_demo_zeta [f192_one, f192_one, f192_one]
      [f192_one, f192_one, f192_zero] scalars = Inl (BusFailed ZeroCount)"
proof -
  obtain sides where s: "balance_sides bus_demo_blocks bus_demo_alphas f192_y = Some sides" "bus_mu (fst (snd (sides ! 0))) = 2"
    using bus_demo_sides by blast
  have z: "length bus_demo_zeta = bus_mu (fst (snd (sides ! 0)))" using s(2) bus_demo_lengths by simp
  obtain bp frameworks scalars where
    p: "prove_shares bus_demo_blocks bus_demo_cols bus_demo_owners [(1, 2)] bus_demo_alphas f192_y bus_demo_zeta [] = Some (bp, frameworks, scalars)"
    using prove_shares_value [OF bus_demo_fits bus_demo_lengths(1) s(1) z bus_demo_garbage [THEN conjunct1] bus_demo_garbage [THEN conjunct2], of "[]"]
    by blast
  have "[f192_one, f192_one, f192_zero] ! 2 = f192_zero" by simp
  then show ?thesis using bus_verifier_refuses [OF p] p by blast
qed

section \<open>The stacked bytecode polynomial\<close>

definition n_bytecode_selectors :: nat where "n_bytecode_selectors = 4"
definition bytecode_public_slot :: nat where "bytecode_public_slot = 3"

fun public_of :: "coord \<Rightarrow> f64 list option" where
  "public_of (CPublic vs) = Some vs"
| "public_of _ = None"

definition bus_publics :: "block list \<Rightarrow> (nat \<times> f64 list) list" where
  "bus_publics blocks = concat (map (\<lambda>b. map (Pair (bl_kappa b)) (List.map_filter public_of (bl_coords b))) blocks)"

definition stacked_bytecode_table :: "block list \<Rightarrow> f64 list option" where
  "stacked_bytecode_table blocks =
    (let pubs = bus_publics blocks; kbc = (if pubs = [] then 0 else fst (last pubs))
     in fold (\<lambda>(i, k, vals) tab. do {
            tab \<leftarrow> tab;
            let slot = bytecode_public_slot + i in
              if slot < 2 ^ n_bytecode_selectors \<and> length vals = 2 ^ kbc
              then Some (write_window (slot * 2 ^ kbc, 2 ^ kbc) vals tab) else None })
          (enumerate 0 pubs) (Some (replicate (2 ^ (n_bytecode_selectors + kbc)) (F64 0))))"

record bytecode_claim =
  bc_point :: "f192 list"
  bc_value :: f192

definition claim_bytecode :: "block list \<Rightarrow> f192 list \<Rightarrow> f192 list \<Rightarrow> public_evals \<Rightarrow> bytecode_claim option" where
  "claim_bytecode blocks point alphas cache =
    (let weights = fingerprint_weights alphas; pubs = bus_publics blocks; kbc = (if pubs = [] then 0 else fst (hd pubs))
     in map_option (\<lambda>(slot, value, cache). \<lparr>bc_point = take kbc point @ alphas, bc_value = value\<rparr>)
          (fold (\<lambda>(k, vals) st. do {
              (slot, value, cache) \<leftarrow> st;
              if length vals = 2 ^ kbc \<and> slot < length weights
              then let (v, cache) = public_eval vals (take kbc point) cache in Some (slot + 1, value + weights ! slot * v, cache)
              else None })
            pubs (Some (bytecode_public_slot, f192_zero, cache))))"

lemma fingerprint_fold:
  "x < length w \<Longrightarrow> fold (\<lambda>(k, a) w. map (\<lambda>(x, wx). wx * (if bit x k then a else a + f192_one)) (enumerate 0 w)) (enumerate k alphas) w ! x =
    w ! x * (\<Prod>(j, a)\<leftarrow>enumerate k alphas. if bit x j then a else a + 1)"
proof (induction alphas arbitrary: k w)
  case (Cons a alphas)
  from Cons.IH [of "map (\<lambda>(x, wx). wx * (if bit x k then a else a + f192_one)) (enumerate 0 w)" "Suc k"] Cons.prems
  show ?case by (auto simp: nth_enumerate_eq mult.assoc simp flip: one_f192_def)
qed simp

lemma corner_weight:
  "eq_eval alphas (map (\<lambda>j. if bit x (k + j) then 1 else 0) [0..<length alphas]) = (\<Prod>(j, a)\<leftarrow>enumerate k alphas. if bit x j then a else a + 1)"
proof (induction alphas arbitrary: k)
  case (Cons a alphas)
  have b: "1 + a + (if bit x k then 1 else 0) = (if bit x k then a else a + 1)"
    using f192_char2 [of 1] by (simp add: add.commute add.left_commute)
  have m: "map f [0..<length (a # alphas)] = f 0 # map (\<lambda>j. f (Suc j)) [0..<length alphas]" for f :: "nat \<Rightarrow> f192"
    by (simp add: map_upt_Suc del: upt_Suc)
  show ?case unfolding m eq_eval_Cons using Cons.IH [of "Suc k"] b by simp
qed (simp add: eq_eval_prod)

lemma fingerprint_weights_eq: "length alphas = 4 \<Longrightarrow> fingerprint_weights alphas = eq_weights alphas"
proof (rule nth_equalityI)
  assume l: "length alphas = 4"
  then show "length (fingerprint_weights alphas) = length (eq_weights alphas)" by (simp add: length_eq_weights n_tuple_bits_def)
  fix x assume "x < length (fingerprint_weights alphas)"
  then have x: "x < 2 ^ 4" by (simp add: n_tuple_bits_def)
  show "fingerprint_weights alphas ! x = eq_weights alphas ! x"
    using fingerprint_fold [of x "replicate (2 ^ 4) f192_one" 0 alphas] x corner_weight [of alphas x 0] eq_weights_nth [of x alphas] l
    by (simp add: fingerprint_weights_def n_tuple_bits_def corner_def flip: one_f192_def)
qed
lemma sum_grid: "(\<Sum>x<m * n. f x) = (\<Sum>s<m. \<Sum>z<n. f (n * s + z) :: f192)" for f :: "nat \<Rightarrow> f192"
proof -
  have "(\<Sum>x\<in>{s * n..<s * n + n}. f x) = (\<Sum>z<n. f (n * s + z))" for s
    using sum.shift_bounds_nat_ivl [of f 0 "s * n" n] by (simp add: atLeast0LessThan add_ac mult.commute)
  then show ?thesis by (simp flip: sum.nat_group)
qed

lemma stack_slots:
  assumes "\<forall>(k, vals)\<in>set pubs. length vals = 2 ^ kbc" "3 + i0 + length pubs \<le> 16"
  shows "fold (\<lambda>(i, k, vals) tab. do { tab \<leftarrow> tab; let slot = 3 + i in
              if slot < 2 ^ 4 \<and> length vals = 2 ^ kbc then Some (write_window (slot * 2 ^ kbc, 2 ^ kbc) vals tab) else None })
          (enumerate i0 pubs) (Some tab) =
    Some (fold (\<lambda>(w, col). write_window w col) (map (\<lambda>(i, k, vals). (((3 + i) * 2 ^ kbc, 2 ^ kbc), vals)) (enumerate i0 pubs)) tab)"
  using assms
proof (induction pubs arbitrary: i0 tab)
  case (Cons p pubs)
  obtain k vals where p: "p = (k, vals)" by fastforce
  from Cons.IH [of "Suc i0"] Cons.prems show ?case by (simp add: p)
qed simp

lemma claim_slots:
  assumes "\<forall>(k, vals)\<in>set pubs. length vals = 2 ^ kbc" "kbc \<le> length point" "cache_ok point cache" "slot + length pubs \<le> length weights"
  shows "\<exists>cache'. fold (\<lambda>(k, vals) st. do { (slot, acc, cache) \<leftarrow> st;
              if length vals = 2 ^ kbc \<and> slot < length weights
              then let (v, cache) = public_eval vals (take kbc point) cache in Some (slot + 1, acc + weights ! slot * v, cache)
              else None }) pubs (Some (slot, acc, cache)) =
      Some (slot + length pubs, acc + (\<Sum>i<length pubs. weights ! (slot + i) * mle_eval_par (snd (pubs ! i)) (take kbc point)), cache')"
  using assms
proof (induction pubs arbitrary: slot acc cache)
  case (Cons p pubs)
  obtain k vals where p: "p = (k, vals)" by fastforce
  obtain v cache1 where e: "public_eval vals (take kbc point) cache = (v, cache1)" by fastforce
  note ok = public_eval_ok [OF Cons.prems(3,2) e]
  from Cons.IH [of cache1 "slot + 1" "acc + weights ! slot * v"] Cons.prems ok
  show ?case by (auto simp: p e sum.lessThan_Suc_shift add.assoc simp del: sum.lessThan_Suc)
qed simp

text \<open>The table: each public column at its slot, zeros elsewhere.\<close>

definition slot_columns :: "nat \<Rightarrow> (nat \<times> f64 list) list \<Rightarrow> ((nat \<times> nat) \<times> f64 list) list" where
  "slot_columns kbc pubs = map (\<lambda>(i, k, vals). (((3 + i) * 2 ^ kbc, 2 ^ kbc), vals)) (enumerate 0 pubs)"

definition public_slots :: "nat \<Rightarrow> (nat \<times> f64 list) list \<Rightarrow> f64 list" where
  "public_slots kbc pubs = fold (\<lambda>(w, col). write_window w col) (slot_columns kbc pubs) (replicate (2 ^ (4 + kbc)) (F64 0))"

lemma slot_columns_nth:
  "length (slot_columns kbc pubs) = length pubs"
  "i < length pubs \<Longrightarrow> slot_columns kbc pubs ! i = (((3 + i) * 2 ^ kbc, 2 ^ kbc), snd (pubs ! i))"
  by (simp_all add: slot_columns_def nth_enumerate_eq case_prod_unfold)

lemma slot_of_cell:
  "i < length pubs \<Longrightarrow> in_window x (fst (slot_columns kbc pubs ! i)) \<longleftrightarrow> x div 2 ^ kbc = 3 + i"
proof
  assume i: "i < length pubs"
  show "x div 2 ^ kbc = 3 + i" if "in_window x (fst (slot_columns kbc pubs ! i))"
    using that slot_columns_nth(2) [OF i] by (intro div_nat_eqI) (simp_all add: in_window_def algebra_simps)
  assume "x div 2 ^ kbc = 3 + i"
  then have "x = (3 + i) * 2 ^ kbc + x mod 2 ^ kbc" by (metis div_mult_mod_eq)
  moreover have "x mod 2 ^ kbc < 2 ^ kbc" by simp
  ultimately show "in_window x (fst (slot_columns kbc pubs ! i))"
    unfolding slot_columns_nth(2) [OF i] in_window_def by (metis add_less_cancel_left fst_conv le_add1 snd_conv)
qed

lemma slots_fit:
  assumes "\<forall>(k, vals)\<in>set pubs. length vals = 2 ^ kbc" "length pubs \<le> 13"
  shows "\<forall>(w, col)\<in>set (slot_columns kbc pubs). fst w + snd w \<le> length (replicate (2 ^ (4 + kbc)) (F64 0)) \<and> snd w \<le> length col"
proof
  fix x assume "x \<in> set (slot_columns kbc pubs)"
  then obtain i where i: "i < length pubs" "x = slot_columns kbc pubs ! i" by (auto simp: in_set_conv_nth slot_columns_nth)
  have "(3 + i) * 2 ^ kbc + 2 ^ kbc = (4 + i) * (2 :: nat) ^ kbc" by (simp add: algebra_simps)
  also have "\<dots> \<le> 16 * 2 ^ kbc" using i(1) assms(2) by (intro mult_right_mono) simp_all
  finally show "case x of (w, col) \<Rightarrow> fst w + snd w \<le> length (replicate (2 ^ (4 + kbc)) (F64 0)) \<and> snd w \<le> length col"
    using i bspec [OF assms(1) nth_mem [OF i(1)]] by (simp add: slot_columns_nth power_add case_prod_unfold)
qed

lemma slots_apart:
  "\<lbrakk>a < length (slot_columns kbc pubs); b < length (slot_columns kbc pubs); a \<noteq> b\<rbrakk> \<Longrightarrow>
    \<not> (in_window x (fst (slot_columns kbc pubs ! a)) \<and> in_window x (fst (slot_columns kbc pubs ! b)))"
  by (simp add: slot_columns_nth(1) slot_of_cell)

lemma public_slots_cells:
  assumes pubs: "\<forall>(k, vals)\<in>set pubs. length vals = 2 ^ kbc" "length pubs \<le> 13"
  shows "length (public_slots kbc pubs) = 16 * 2 ^ kbc"
    and "\<lbrakk>s < 16; z < 2 ^ kbc\<rbrakk> \<Longrightarrow> public_slots kbc pubs ! (2 ^ kbc * s + z) =
      (if s \<in> {3..<3 + length pubs} then snd (pubs ! (s - 3)) ! z else F64 0)"
proof -
  note at = write_columns_ok [OF slots_fit [OF pubs] slots_apart, folded public_slots_def]
  show "length (public_slots kbc pubs) = 16 * 2 ^ kbc" using at [of 0] by (simp add: power_add)
  assume s: "s < 16" and z: "z < 2 ^ kbc"
  let ?x = "2 ^ kbc * s + z"
  have "?x < 2 ^ kbc * (s + 1)" using z by simp
  also have "\<dots> \<le> 2 ^ kbc * 16" using s by (intro mult_left_mono) simp_all
  finally have x: "?x < length (replicate (2 ^ (4 + kbc)) (F64 0))" by (simp add: power_add)
  have d: "?x div 2 ^ kbc = s" using z by simp
  show "public_slots kbc pubs ! ?x = (if s \<in> {3..<3 + length pubs} then snd (pubs ! (s - 3)) ! z else F64 0)"
  proof (cases "s \<in> {3..<3 + length pubs}")
    case True
    then have i: "s - 3 < length pubs" "3 + (s - 3) = s" by auto
    then have "public_slots kbc pubs ! ?x = snd (slot_columns kbc pubs ! (s - 3)) ! (?x - fst (fst (slot_columns kbc pubs ! (s - 3))))"
      using at [of ?x] x slot_of_cell [OF i(1), of ?x] d by (simp add: slot_columns_nth(1))
    then show ?thesis using True i by (simp add: slot_columns_nth(2) mult.commute)
  next
    case False
    have "\<not> in_window ?x (fst (slot_columns kbc pubs ! a))" if "a < length (slot_columns kbc pubs)" for a
      using False d that slot_of_cell [of a pubs ?x kbc] by (auto simp: slot_columns_nth(1))
    then show ?thesis using at [of ?x] x False by auto
  qed
qed

lemma public_slots_mle:
  assumes pubs: "\<forall>(k, vals)\<in>set pubs. length vals = 2 ^ kbc" "length pubs \<le> 13" and l: "length p = kbc" "length alphas = 4"
  shows "mle_eval (public_slots kbc pubs) (p @ alphas) =
    (\<Sum>i<length pubs. eq_weights alphas ! (3 + i) * mle_eval_par (snd (pubs ! i)) p)"
proof -
  note cell = public_slots_cells [OF pubs]
  let ?tab = "public_slots kbc pubs" and ?n = "length pubs"
  let ?E = "\<lambda>s. eq_weights alphas ! s" and ?e = "\<lambda>z. eq_weights p ! z"
  let ?row = "\<lambda>s. \<Sum>z<2 ^ kbc. ?e z * f192_from (?tab ! (2 ^ kbc * s + z))"
  have "mle_eval ?tab (p @ alphas) = (\<Sum>x<16 * 2 ^ kbc. eq_weights (p @ alphas) ! x * f192_from (?tab ! x))"
    using mle_eval_sum [of ?tab "p @ alphas"] cell(1) l by (simp add: power_add mult.commute)
  also have "\<dots> = (\<Sum>s<16. \<Sum>z<2 ^ kbc. eq_weights (p @ alphas) ! (2 ^ kbc * s + z) * f192_from (?tab ! (2 ^ kbc * s + z)))"
    by (rule sum_grid)
  also have "\<dots> = (\<Sum>s<16. ?E s * ?row s)"
    unfolding sum_distrib_left
  proof (intro sum.cong refl)
    fix s z :: nat assume "s \<in> {..<16}" "z \<in> {..<2 ^ kbc}"
    then show "eq_weights (p @ alphas) ! (2 ^ kbc * s + z) * f192_from (?tab ! (2 ^ kbc * s + z)) =
        ?E s * (?e z * f192_from (?tab ! (2 ^ kbc * s + z)))"
      using eq_weights_block [of z p s alphas] l by (simp add: mult_ac)
  qed
  also have "\<dots> = (\<Sum>s\<in>{3..<3 + ?n}. ?E s * ?row s)"
  proof (rule sum.mono_neutral_right)
    show "{3..<3 + ?n} \<subseteq> {..<16}" using pubs(2) by auto
    have "?row s = 0" if "s \<in> {..<16} - {3..<3 + ?n}" for s
      using cell(2) that zero_f64_def f192_from_hom(4) by (intro sum.neutral) auto
    then show "\<forall>s\<in>{..<16} - {3..<3 + ?n}. ?E s * ?row s = 0" by auto
  qed simp
  also have "\<dots> = (\<Sum>i<?n. ?E (3 + i) * ?row (3 + i))"
    using sum.shift_bounds_nat_ivl [of "\<lambda>s. ?E s * ?row s" 0 3 ?n] by (simp add: atLeast0LessThan add.commute)
  also have "\<dots> = (\<Sum>i<?n. ?E (3 + i) * mle_eval_par (snd (pubs ! i)) p)"
  proof (intro sum.cong refl)
    fix i assume "i \<in> {..<?n}"
    then have i: "i < ?n" "3 + i < 16" using pubs(2) by auto
    have "length (snd (pubs ! i)) = 2 ^ kbc" using bspec [OF pubs(1) nth_mem [OF i(1)]] by (simp add: case_prod_unfold)
    then show "?E (3 + i) * ?row (3 + i) = ?E (3 + i) * mle_eval_par (snd (pubs ! i)) p"
      using cell(2) [OF i(2)] i(1) l by (simp add: mle_eval_par_mle mle_sum)
  qed
  finally show ?thesis .
qed

text \<open>C32: the bytecode's share of a bus leaf, one weighted sum over its public columns, is the evaluation of the stacked
  bytecode table at the point extended by the fingerprint challenges.\<close>
theorem bytecode_claim_is_stacked_evaluation:
  assumes "\<forall>(k, vals)\<in>set (bus_publics blocks). k = kbc \<and> length vals = 2 ^ kbc"
    and "bus_publics blocks \<noteq> []" "length (bus_publics blocks) \<le> 13" "kbc \<le> length point" "length alphas = n_tuple_bits"
    and "\<forall>vals n v. cache (vals, n) = Some v \<longrightarrow> v = mle_eval_par vals (take n point)"
  shows "\<exists>claim tab. claim_bytecode blocks point alphas cache = Some claim \<and> stacked_bytecode_table blocks = Some tab \<and>
    bc_point claim = take kbc point @ alphas \<and> bc_value claim = mle_eval tab (bc_point claim)"
proof -
  let ?pubs = "bus_publics blocks" and ?p = "take kbc point"
  have vals: "\<forall>(k, vals)\<in>set ?pubs. length vals = 2 ^ kbc" using assms(1) by auto
  have k: "fst (hd ?pubs) = kbc" "fst (last ?pubs) = kbc"
    using assms(1) hd_in_set [OF assms(2)] last_in_set [OF assms(2)] by (metis (mono_tags, lifting) case_prod_beta)+
  have l: "length ?p = kbc" "length alphas = 4" using assms(4,5) by (simp_all add: n_tuple_bits_def)
  have tab: "stacked_bytecode_table blocks = Some (public_slots kbc ?pubs)"
    using stack_slots [OF vals, of 0 "replicate (2 ^ (4 + kbc)) (F64 0)"] assms(2,3) k(2)
    by (simp add: stacked_bytecode_table_def n_bytecode_selectors_def bytecode_public_slot_def public_slots_def slot_columns_def)
  have ok: "cache_ok point cache" using assms(6) by (simp add: cache_ok_def)
  have w16: "length (fingerprint_weights alphas) = 16" by (simp add: n_tuple_bits_def)
  obtain cache' where "claim_bytecode blocks point alphas cache = Some \<lparr>bc_point = ?p @ alphas,
      bc_value = 0 + (\<Sum>i<length ?pubs. fingerprint_weights alphas ! (3 + i) * mle_eval_par (snd (?pubs ! i)) ?p)\<rparr>"
    using claim_slots [OF vals assms(4) ok, of 3 "fingerprint_weights alphas" 0] assms(2,3) w16 k(1)
    by (auto simp: claim_bytecode_def bytecode_public_slot_def zero_f192_def)
  then show ?thesis
    using tab public_slots_mle [OF vals assms(3) l] by (simp add: fingerprint_weights_eq [OF l(2)])
qed

theorem bytecode_claim_is_stacked_evaluation_witness:
  "let blocks = [\<lparr>bl_kappa = 1, bl_coords = [CConst (F64 9), CIndex, CCol 0, CPublic [F64 3, F64 4], CPublic [F64 5, F64 6]]\<rparr>]
   in \<exists>claim tab. claim_bytecode blocks bus_demo_zeta bus_demo_alphas Map.empty = Some claim \<and> stacked_bytecode_table blocks = Some tab \<and>
     bc_value claim = mle_eval tab (bc_point claim)"
proof -
  let ?blocks = "[\<lparr>bl_kappa = 1, bl_coords = [CConst (F64 9), CIndex, CCol 0, CPublic [F64 3, F64 4], CPublic [F64 5, F64 6]]\<rparr>]"
  have p: "bus_publics ?blocks = [(1, [F64 3, F64 4]), (1, [F64 5, F64 6])]" by (simp add: bus_publics_def List.map_filter_simps)
  show ?thesis unfolding Let_def
    using bytecode_claim_is_stacked_evaluation [of ?blocks 1 bus_demo_zeta bus_demo_alphas Map.empty] p bus_demo_lengths(2)
    by (auto simp: bus_demo_alphas_def n_tuple_bits_def)
qed

end
