(* ===== verification/MemHistory.thy ===== *)
theory MemHistory
  imports Demo
begin

text \<open>
  Histories of the interpreter's memory: the states any sequence of stores, reads, counted accesses and links reaches, and
  the condition under which a store succeeds in them.
\<close>

section \<open>Histories of the memory\<close>

text \<open>
  The memories a run can reach, with the links it has made: a link joins two unwritten cells, as \<^verbatim>\<open>DEREF\<close> makes it.
\<close>

inductive mem_reach :: "program \<Rightarrow> mem \<Rightarrow> (u32 \<times> u32) set \<Rightarrow> bool" for p where
  reach_start: "mem_reach p (initial_mem p) {}"
| reach_put: "\<lbrakk>mem_reach p m E; mem_put c v m = Inr m'\<rbrakk> \<Longrightarrow> mem_reach p m' E"
| reach_read: "\<lbrakk>mem_reach p m E; mem_read c m = (m', v)\<rbrakk> \<Longrightarrow> mem_reach p m' E"
| reach_count: "\<lbrakk>mem_reach p m E; bump_access_count c m = (m', r)\<rbrakk> \<Longrightarrow> mem_reach p m' E"
| reach_link: "\<lbrakk>mem_reach p m E; \<not> written m a; \<not> written m b\<rbrakk> \<Longrightarrow> mem_reach p (mem_link a b m) (E \<union> {(a, b), (b, a)})"

lemma mem_reach_inv: "mem_reach p m E \<Longrightarrow> link_inv E m"
proof (induction rule: mem_reach.induct)
  case reach_start
  show ?case by (rule initial_mem_ok)
next
  case (reach_put m E c v m')
  then show ?case by (blast intro: mem_put_ok(1))
next
  case (reach_read m E c m' v)
  then show ?case by (blast intro: link_inv_read)
next
  case (reach_count m E c m' r)
  then show ?case by (blast intro: link_inv_bump)
next
  case (reach_link m E a b)
  then show ?case by (blast intro: mem_link_views(1))
qed

lemma linked_equal: "link_inv E m \<Longrightarrow> (a, b) \<in> E\<^sup>* \<Longrightarrow> mem_get m a = mem_get m b"
  by (erule rtrancl_induct) (auto dest: link_invD(3))

text \<open>A store succeeds on cells that do not contradict it.\<close>

definition agrees :: "u32 set \<Rightarrow> f192 \<Rightarrow> mem \<Rightarrow> bool" where
  "agrees R v m \<longleftrightarrow> mem_wf m \<and> (\<forall>d\<in>R. written m d \<longrightarrow> mem_get m d = v)"

definition same_outside :: "u32 set \<Rightarrow> mem \<Rightarrow> mem \<Rightarrow> bool" where
  "same_outside R m m' \<longleftrightarrow> (\<forall>d. d \<notin> R \<longrightarrow> mem_get m' d = mem_get m d \<and> (written m' d \<longleftrightarrow> written m d))"

lemma same_outside_trans: "same_outside R a b \<Longrightarrow> same_outside R b c \<Longrightarrow> same_outside R a c"
  by (auto simp: same_outside_def)

lemma store_agrees:
  assumes "agrees R v m" "c \<in> R"
  obtains m' l where "mem_store c v m = Inr (m', l)" "agrees R v m'" "m_links m' = m_links m" "same_outside R m m'"
proof (cases "mem_store c v m")
  case (Inl e)
  then show ?thesis using assms mem_store_conflict [of m c v e] by (auto simp: agrees_def written_st)
next
  case (Inr r)
  then obtain m' l where st: "mem_store c v m = Inr (m', l)" by (cases r) simp
  note s = mem_store_views [OF _ st]
  have "agrees R v m'" using assms s(3,4) mem_frameD(1) [OF s(7)] by (auto simp: agrees_def written_st)
  moreover have "same_outside R m m'" using assms s(3,4) by (auto simp: same_outside_def agrees_def written_st)
  ultimately show ?thesis using that st s(6) assms(1) by (simp add: agrees_def)
qed

lemma spread_to_agrees:
  assumes "agrees R v m" "set ps \<subseteq> R" "set todo \<subseteq> R"
  obtains m' todo' where "spread_to ps v m todo = Inr (m', todo')" "agrees R v m'" "m_links m' = m_links m" "set todo' \<subseteq> R"
    "same_outside R m m'"
  using assms
proof (induction ps arbitrary: m todo thesis)
  case (Cons c ps)
  have "c \<in> R" using Cons.prems(3) by simp
  then obtain m1 l where s: "mem_store c v m = Inr (m1, l)" "agrees R v m1" "m_links m1 = m_links m" "same_outside R m m1"
    using store_agrees [OF Cons.prems(2)] by blast
  have "set (if l then c # todo else todo) \<subseteq> R" "set ps \<subseteq> R" using Cons.prems(3,4) by auto
  from Cons.IH [OF _ s(2) this(2,1)] obtain m' todo' where
    "spread_to ps v m1 (if l then c # todo else todo) = Inr (m', todo')" "agrees R v m'" "m_links m' = m_links m1" "set todo' \<subseteq> R"
    "same_outside R m1 m'" by metis
  then show ?case using Cons.prems(1) [of m' todo'] s same_outside_trans [OF s(4)] by simp
qed (simp add: same_outside_def)

lemma spread_loop_agrees:
  "\<lbrakk>agrees R v m; set todo \<subseteq> R; \<forall>x\<in>R. link_set m x \<subseteq> R\<rbrakk> \<Longrightarrow> \<exists>m'. spread_loop todo v m = Inr m' \<and> same_outside R m m'"
proof (induction todo v m rule: spread_loop.induct)
  case (2 c todo v m)
  let ?ps = "case m_links m c of None \<Rightarrow> [] | Some ps \<Rightarrow> ps" and ?m = "m\<lparr>m_links := (m_links m)(c := None)\<rparr>"
  have "link_set m c = set ?ps" by (simp add: link_set_def split: option.splits)
  then have ps: "set ?ps \<subseteq> R" "set todo \<subseteq> R" using 2(3,4) by auto
  have "agrees R v ?m" using 2(2) by (simp add: agrees_def written_def mem_get_def)
  then obtain m1 todo1 where s: "spread_to ?ps v ?m todo = Inr (m1, todo1)" "agrees R v m1" "m_links m1 = m_links ?m"
    "set todo1 \<subseteq> R" "same_outside R ?m m1" by (rule spread_to_agrees [OF _ ps])
  have "link_set m1 x \<subseteq> link_set m x" for x by (simp add: link_set_def s(3))
  then have "\<forall>x\<in>R. link_set m1 x \<subseteq> R" using 2(4) by blast
  then obtain m' where "spread_loop todo1 v m1 = Inr m'" "same_outside R m1 m'" using 2(1) [OF s(1) refl s(2,4)] by blast
  moreover have "same_outside R m m1" using s(5) by (simp add: same_outside_def written_def mem_get_def)
  ultimately show ?case using s(1) same_outside_trans [of R m m1 m'] by (simp add: spread_loop.simps)
qed (simp add: spread_loop.simps same_outside_def)

lemma put_consistent:
  assumes inv: "link_inv E m" and consistent: "\<forall>d. (c, d) \<in> E\<^sup>* \<longrightarrow> written m d \<longrightarrow> mem_get m d = v"
  obtains m' where "mem_put c v m = Inr m'" "same_outside {d. (c, d) \<in> E\<^sup>*} m m'"
proof -
  let ?R = "{d. (c, d) \<in> E\<^sup>*}"
  have "agrees ?R v m" using consistent link_invD(1) [OF inv] by (simp add: agrees_def)
  then obtain m1 l where s: "mem_store c v m = Inr (m1, l)" "agrees ?R v m1" "m_links m1 = m_links m" "same_outside ?R m m1"
    using store_agrees [of ?R v m c] by auto
  have "link_set m1 x \<subseteq> ?R" if "x \<in> ?R" for x
    using that link_graphD(2) [OF link_invD(2) [OF inv]] unfolding link_set_cong [OF s(3)] by (auto intro: rtrancl_into_rtrancl)
  then obtain m' where "spread_loop [c] v m1 = Inr m'" "same_outside ?R m1 m'"
    using spread_loop_agrees [OF s(2), of "[c]"] by auto
  then show thesis using that s same_outside_trans [OF s(4)] by (cases l) (auto simp: mem_put_def mem_spread_def)
qed

lemma put_compatible:
  assumes inv: "link_inv E m" and put: "mem_put c v m = Inr m'"
  shows "\<forall>d. (c, d) \<in> E\<^sup>* \<longrightarrow> written m d \<longrightarrow> mem_get m d = v"
  using linked_equal [OF mem_put_ok(1) [OF inv put]] mem_leD [OF mem_put_ok(2) [OF inv put]] mem_put_ok(4) [OF inv put] by metis

text \<open>C5: the memory is a write-once store of equated cells: whatever stores, reads, counted accesses and links led to it,
  two linked cells hold the same word; a store succeeds exactly when no written cell its links reach holds another word;
  and a store that succeeds leaves its cell and every cell linked to it with the word, and all other cells as they were.\<close>
theorem store_succeeds_iff_consistent:
  assumes "mem_reach p m E"
  shows "(\<forall>a b. (a, b) \<in> E\<^sup>* \<longrightarrow> mem_get m a = mem_get m b) \<and>
    ((\<exists>m'. mem_put c v m = Inr m') \<longleftrightarrow> (\<forall>d. (c, d) \<in> E\<^sup>* \<longrightarrow> written m d \<longrightarrow> mem_get m d = v)) \<and>
    (\<forall>m'. mem_put c v m = Inr m' \<longrightarrow> written m' c \<and>
      (\<forall>d. if (c, d) \<in> E\<^sup>* then mem_get m' d = v else mem_get m' d = mem_get m d \<and> (written m' d \<longleftrightarrow> written m d)))"
proof (intro conjI)
  note inv = mem_reach_inv [OF assms]
  show "\<forall>a b. (a, b) \<in> E\<^sup>* \<longrightarrow> mem_get m a = mem_get m b" using linked_equal [OF inv] by blast
  show "(\<exists>m'. mem_put c v m = Inr m') \<longleftrightarrow> (\<forall>d. (c, d) \<in> E\<^sup>* \<longrightarrow> written m d \<longrightarrow> mem_get m d = v)"
    using put_compatible [OF inv] put_consistent [OF inv] by metis
  show "\<forall>m'. mem_put c v m = Inr m' \<longrightarrow> written m' c \<and>
      (\<forall>d. if (c, d) \<in> E\<^sup>* then mem_get m' d = v else mem_get m' d = mem_get m d \<and> (written m' d \<longleftrightarrow> written m d))"
  proof (intro allI impI conjI)
    fix m' d assume put: "mem_put c v m = Inr m'"
    note ok = mem_put_ok [OF inv put]
    show "written m' c" by (rule ok(3))
    have "same_outside {d. (c, d) \<in> E\<^sup>*} m m'" using put_consistent [OF inv put_compatible [OF inv put]] put by auto
    then show "if (c, d) \<in> E\<^sup>* then mem_get m' d = v else mem_get m' d = mem_get m d \<and> (written m' d \<longleftrightarrow> written m d)"
      using linked_equal [OF ok(1), of c d] ok(4) by (simp add: same_outside_def)
  qed
qed

theorem store_succeeds_iff_consistent_witness:
  "\<exists>m m'. mem_reach demo m {(2, 5), (5, 2)} \<and> mem_put 5 (F192 3 0 0) m = Inr m' \<and> mem_get m' 2 = F192 3 0 0"
proof -
  let ?m = "mem_link 2 5 (initial_mem demo)"
  have fresh: "\<not> written (initial_mem demo) d" for d by (simp add: initial_mem_def written_def Let_def)
  from reach_link [OF reach_start fresh fresh] have r: "mem_reach demo ?m {(2, 5), (5, 2)}" by simp
  note spec = store_succeeds_iff_consistent [OF r, of 5 "F192 3 0 0"]
  have "\<not> written ?m d" for d using mem_link_views(7) [OF initial_mem_ok(1) fresh fresh] fresh by blast
  then obtain m' where put: "mem_put 5 (F192 3 0 0) ?m = Inr m'" using spec by blast
  have "(5, 2) \<in> {(2 :: u32, 5), (5, 2)}\<^sup>*" by blast
  then have "mem_get m' 2 = F192 3 0 0" using spec put by presburger
  then show ?thesis using r put by blast
qed

end
