(* ===== verification/HintProps.thy ===== *)
theory HintProps
  imports Demo
begin

text \<open>
  What the advice hints compute: the bounded discrete logarithm behind the exponent hint.
\<close>

section \<open>The bounded logarithm\<close>

definition dlog_cache_ok :: "(gpow \<times> f64) option \<Rightarrow> bool" where
  "dlog_cache_ok cache \<longleftrightarrow> (case cache of None \<Rightarrow> True
    | Some (baby, giant) \<Rightarrow> gp_ok baby \<and> gp_covered baby = 2 ^ log_baby \<and> giant = inverse (f64_g ^ 2 ^ log_baby))"

lemma new_dlog_cache_ok: "\<exists>c. new_dlog_cache = Some c \<and> dlog_cache_ok (Some c)"
proof -
  have "max (2 ^ log_baby - 1) (2 ^ min_log_mem) < max_cells" by (simp add: log_baby_def min_log_mem_def max_cells_def)
  from gp_new_ok [OF this] obtain g where g: "gp_new (2 ^ log_baby - 1) = Some g" "gp_ok g" "gp_covered g = 2 ^ log_baby"
    by (auto simp: log_baby_def min_log_mem_def)
  have at: "gp_pow_at (2 ^ log_baby - 1) g = Some (f64_g ^ (2 ^ log_baby - 1))"
    using g(2,3) by (auto simp: gp_pow_at_def gp_covered_def gp_ok_def gp_inv_def log_baby_def)
  have "f64_inv (mul_by_g (f64_g ^ (2 ^ log_baby - 1))) = inverse (f64_g ^ 2 ^ log_baby)"
    by (simp add: mul_by_g_times inverse_f64_def log_baby_def flip: power_Suc)
  then show ?thesis using g at by (simp add: new_dlog_cache_def dlog_cache_ok_def)
qed

lemma dlog_add:
  assumes "j < 2 ^ log_baby"
  shows "push_bit log_baby (of_nat a) OR of_nat j = (of_nat (a * 2 ^ log_baby + j) :: 128 word)"
proof -
  have j: "\<not> bit j n" if "log_baby \<le> n" for n
    using assms that by (metis bit_take_bit_iff leD take_bit_nat_eq_self)
  have "(of_nat (a * 2 ^ log_baby + j) :: 128 word) = push_bit log_baby (of_nat a) + of_nat j"
    by (simp add: push_bit_eq_mult)
  also have "\<dots> = push_bit log_baby (of_nat a) OR of_nat j"
    by (rule disjunctive_add) (use j in \<open>auto simp: bit_simps\<close>)
  finally show ?thesis by simp
qed

lemma giant_loop_finds:
  assumes "gp_ok baby" "gp_covered baby = 2 ^ log_baby" "giant = inverse (f64_g ^ 2 ^ log_baby)"
    and "y = f64_g ^ e" "e < 2 ^ 64 - 1"
  shows "\<exists>baby'. gp_ok baby' \<and> gp_covered baby' = 2 ^ log_baby \<and> giant_loop m a y giant baby =
    Some (baby', if e div 2 ^ log_baby < m then Some (of_nat (a * 2 ^ log_baby + e)) else None)"
  using assms
proof (induction m arbitrary: a y e baby)
  case (Suc m)
  obtain baby' r where l: "gp_log y baby = Some (baby', r)" "gp_ok baby'" "gp_covered baby' = 2 ^ log_baby"
    "dlog_result (2 ^ log_baby) y r" using gi.log_total [OF Suc.prems(1), of y] Suc.prems(2) by auto
  show ?case
  proof (cases "e < 2 ^ log_baby")
    case True
    then have "r = Some e" using l(4) Suc.prems(4) by (auto simp: dlog_result_def)
    moreover have "of_nat (a * 2 ^ log_baby + e) = push_bit log_baby (of_nat a :: 128 word) OR of_nat e"
      using True dlog_add [of e a] by simp
    ultimately show ?thesis using l True by simp
  next
    case False
    have "r \<noteq> Some k" for k
    proof
      assume "r = Some k"
      then have k: "k < 2 ^ log_baby" "f64_g ^ e = f64_g ^ k" using l(4) Suc.prems(4) by (auto simp: dlog_result_def)
      moreover have "k < 2 ^ 64 - 1" using k(1) by (simp add: log_baby_def)
      ultimately show False using g_power_inj [OF Suc.prems(5)] False by auto
    qed
    then have r: "r = None" by (cases r) auto
    have "f64_mul y giant = f64_g ^ (e - 2 ^ log_baby)"
    proof -
      have "f64_g ^ e = f64_g ^ (e - 2 ^ log_baby) * f64_g ^ 2 ^ log_baby" using False by (simp flip: power_add)
      moreover have "f64_g ^ 2 ^ log_baby \<noteq> 0" using f64_g_pow_nonzero [of "2 ^ log_baby"] by (simp add: zero_f64_def)
      ultimately show ?thesis unfolding f64_mul_times Suc.prems(3,4) by simp
    qed
    note y = this
    have "e - 2 ^ log_baby < 2 ^ 64 - 1" by (rule le_less_trans [OF diff_le_self Suc.prems(5)])
    from Suc.IH [OF l(2,3) Suc.prems(3) y this, of "a + 1"] obtain baby'' where
      "gp_ok baby''" "gp_covered baby'' = 2 ^ log_baby" "giant_loop m (a + 1) (f64_mul y giant) giant baby' =
        Some (baby'', if (e - 2 ^ log_baby) div 2 ^ log_baby < m then Some (of_nat ((a + 1) * 2 ^ log_baby + (e - 2 ^ log_baby))) else None)"
      by blast
    moreover have "(e - 2 ^ log_baby) div 2 ^ log_baby < m \<longleftrightarrow> e div 2 ^ log_baby < Suc m"
      using False by (simp add: le_div_geq)
    moreover have "(a + 1) * 2 ^ log_baby + (e - 2 ^ log_baby) = a * 2 ^ log_baby + e" using False by simp
    ultimately show ?thesis using l(1) r by simp
  qed
qed auto

lemma giant_loop_zero:
  assumes "gp_ok baby" "gp_covered baby = 2 ^ log_baby"
  shows "\<exists>baby'. gp_ok baby' \<and> gp_covered baby' = 2 ^ log_baby \<and> giant_loop m a (F64 0) giant baby = Some (baby', None)"
  using assms
proof (induction m arbitrary: a baby)
  case (Suc m)
  obtain baby' r where l: "gp_log (F64 0) baby = Some (baby', r)" "gp_ok baby'" "gp_covered baby' = 2 ^ log_baby"
    "dlog_result (2 ^ log_baby) (F64 0) r" using gi.log_total [OF Suc.prems(1), of "F64 0"] Suc.prems(2) by auto
  have "r = None" using l(4) f64_g_pow_nonzero by (cases r) (auto simp: dlog_result_def eq_commute [of "F64 0"])
  moreover have "f64_mul (F64 0) giant = F64 0" by (simp add: f64_mul_times flip: zero_f64_def)
  ultimately show ?case using Suc.IH [OF l(2,3), of "a + 1"] l(1) by auto
qed auto

lemma giant_bound:
  fixes n :: nat
  assumes "unat (nbits :: u32) \<le> 80"
  shows "n div 2 ^ log_baby < (if log_baby < unat nbits then 2 ^ ((unat nbits - log_baby) mod 64) else 1)
    \<longleftrightarrow> n < 2 ^ max (unat nbits) log_baby"
proof (cases "log_baby < unat nbits")
  case True
  then have "(unat nbits - log_baby) mod 64 = unat nbits - log_baby" using assms by (simp add: log_baby_def)
  moreover have "(2 :: nat) ^ max (unat nbits) log_baby = 2 ^ (unat nbits - log_baby) * 2 ^ log_baby"
    using True by (simp flip: power_add)
  ultimately show ?thesis using True by (simp add: div_less_iff_less_mult)
next
  case False
  then show ?thesis by (simp add: max_def div_eq_0_iff)
qed



end
