(* ===== verification/Spec2Isabelle.thy ===== *)
theory Spec2Isabelle
  imports GF64 GF192 Multilinear Blake2s GPow Filler Isa Memory Stacking Tables Layout Hints Machine FillProps Errors Fill FillColumns Leaf Decompose Balance
    MemHistory HintProps
begin

text \<open>
  leanVM: a verification library.
\<close>

end
